(* ===== verification/Prelude.thy ===== *)
theory Prelude
  imports Main "HOL-Library.Word" "HOL-Library.Monad_Syntax"
begin

text \<open>
  Vocabulary shared by every component of the development: the machine types of the
  amd64 build described by \<^verbatim>\<open>obj/ngx_auto_config.h\<close> (pointers, \<^verbatim>\<open>size_t\<close> and
  \<^verbatim>\<open>ngx_int_t\<close> of 64 bits, bytes as 8-bit words), the return codes of \<^verbatim>\<open>ngx_core.h\<close>,
  the alignment macros of \<^verbatim>\<open>ngx_config.h\<close>, byte regions and the relation
  "these regions do not overlap", paths along next pointers, and the collections of
  simplification rules the component theories fill.
\<close>

unbundle bit_operations_syntax

named_theorems byte_simps \<open>character tests and tables on bytes\<close>
named_theorems region_simps \<open>containment and disjointness of memory regions\<close>

section \<open>Machine types\<close>

type_synonym u8 = "8 word"
type_synonym u32 = "32 word"
type_synonym u64 = "64 word"
type_synonym ptr = nat \<comment> \<open>an address; 0 is \<^verbatim>\<open>NULL\<close>\<close>

abbreviation C :: "char \<Rightarrow> u8" where
  "C c \<equiv> of_char c"

abbreviation CR :: u8 where "CR \<equiv> 13"
abbreviation LF :: u8 where "LF \<equiv> 10"

abbreviation bytes :: "string \<Rightarrow> u8 list" where
  "bytes s \<equiv> map of_char s"

text \<open>The test \<^verbatim>\<open>ch >= '0' && ch <= '9'\<close>.\<close>

definition is_digit :: "u8 \<Rightarrow> bool" where
  "is_digit ch \<longleftrightarrow> C CHR ''0'' \<le> ch \<and> ch \<le> C CHR ''9''"

text \<open>The conversions \<^verbatim>\<open>(size_t) x\<close> and \<^verbatim>\<open>(ngx_uint_t) x\<close>: reduction modulo \<open>2 ^ 64\<close>.\<close>

definition size_t_of :: "int \<Rightarrow> nat" where
  "size_t_of i = nat (i mod 2 ^ 64)"

lemma size_t_of_nonneg: "0 \<le> i \<Longrightarrow> i < 2 ^ 64 \<Longrightarrow> size_t_of i = nat i"
  by (simp add: size_t_of_def)

lemma size_t_of_diff: "b \<le> a \<Longrightarrow> a < 2 ^ 64 \<Longrightarrow> size_t_of (int a - int b) = a - b"
  by (simp add: size_t_of_nonneg nat_diff_distrib')

lemma size_t_of_neg: "a < b \<Longrightarrow> b \<le> a + 2 ^ 64 \<Longrightarrow> size_t_of (int a - int b) = 2 ^ 64 + a - b"
proof -
  assume ab: "a < b" "b \<le> a + 2 ^ 64"
  have "(int a - int b) mod 2 ^ 64 = (int a - int b + 2 ^ 64) mod 2 ^ 64"
    by simp
  also have "\<dots> = int a - int b + 2 ^ 64"
    using ab by (intro mod_pos_pos_trivial) auto
  finally show ?thesis using ab by (simp add: size_t_of_def nat_eq_iff)
qed

text \<open>A property checked for each of the first values of a word type holds for all small words.\<close>

lemma small_words:
  assumes "list_all P (0 # 1 # map word_of_nat [2..<k])" and "unat d < k"
  shows "P (d :: 'a::len word)"
proof -
  have "P (word_of_nat n)" if "n < k" for n
  proof -
    consider "n = 0" | "n = 1" | "2 \<le> n" by linarith
    then show ?thesis
    proof cases
      case 3
      then have "word_of_nat n \<in> set (map word_of_nat [2..<k] :: 'a word list)" using that by (simp only: set_map set_upt) auto
      then show ?thesis using assms(1) unfolding list_all_iff by (metis list.set_intros(2))
    qed (use assms(1) in \<open>simp_all del: upt_rec_numeral\<close>)
  qed
  then have "P (word_of_nat (unat d))" using assms(2) by blast
  then show ?thesis by simp
qed

lemma ucast_of_nat: "ucast w = of_nat (unat w)"
  by (rule word_unat_eq_iff [THEN iffD2]) (simp add: unsigned_ucast_eq unsigned_of_nat)

text \<open>A property of bytes that holds for each of the 256 values holds for every byte.\<close>

definition all_bytes :: "(u8 \<Rightarrow> bool) \<Rightarrow> bool" where
  "all_bytes P \<longleftrightarrow> list_all P (0 # 1 # map word_of_nat [2..<256])"

lemma all_bytesD:
  assumes "all_bytes P"
  shows "P ch"
proof (rule small_words)
  show "list_all P (0 # 1 # map word_of_nat [2..<256])" using assms unfolding all_bytes_def .
  show "unat ch < 256" using unsigned_less [of ch, where 'a = nat] by simp
qed

section \<open>Alignment\<close>

definition ngx_align :: "nat \<Rightarrow> nat \<Rightarrow> nat" where
  "ngx_align d a = unat ((of_nat d + (of_nat a - 1) :: u64) AND NOT (of_nat a - 1))"

definition ngx_align_ptr :: "ptr \<Rightarrow> nat \<Rightarrow> ptr" where
  "ngx_align_ptr p a = unat ((of_nat p + (of_nat a - 1) :: u64) AND NOT (of_nat a - 1))"

lemma and_not_mask: "(w :: 'a::len word) AND NOT (mask k) = push_bit k (drop_bit k w)"
  by (rule bit_word_eqI) (auto simp: bit_simps)

lemma unat_and_not_mask: "unat ((w :: 'a::len word) AND NOT (mask k)) = unat w div 2 ^ k * 2 ^ k"
proof -
  have "unat w div 2 ^ k * 2 ^ k \<le> unat w" by (rule div_times_less_eq_dividend)
  then have "unat w div 2 ^ k * 2 ^ k < 2 ^ LENGTH('a)" using unsigned_less [of w, where 'a = nat] by linarith
  then show ?thesis
    unfolding and_not_mask unsigned_push_bit_eq unat_drop_bit_eq
    by (simp add: push_bit_nat_def drop_bit_nat_def take_bit_nat_eq_self)
qed

text \<open>For a power of two the bit trick of the macros is rounding up.\<close>

lemma ngx_align_ptr_pow2:
  assumes "k < 64" and "p + 2 ^ k \<le> 2 ^ 64"
  shows "ngx_align_ptr p (2 ^ k) = (p + (2 ^ k - 1)) div 2 ^ k * 2 ^ k"
proof -
  have m: "(of_nat (2 ^ k) - 1 :: u64) = mask k"
    by (simp add: mask_eq_exp_minus_1)
  have lt: "p + (2 ^ k - 1) < 2 ^ 64"
    using assms(2) one_le_power [of "2 :: nat" k] by linarith
  have e: "(of_nat p + mask k :: u64) = of_nat (p + (2 ^ k - 1))"
    unfolding of_nat_add by (simp add: mask_eq_exp_minus_1 of_nat_diff)
  have "unat (of_nat p + mask k :: u64) = p + (2 ^ k - 1)"
    unfolding e using lt by (simp add: unat_of_nat)
  then show ?thesis
    unfolding ngx_align_ptr_def m by (simp add: unat_and_not_mask)
qed

lemma round_up_props:
  fixes p a :: nat
  assumes "0 < a"
  shows "p \<le> (p + (a - 1)) div a * a"
    and "(p + (a - 1)) div a * a < p + a"
    and "a dvd (p + (a - 1)) div a * a"
proof -
  have "(p + (a - 1)) div a * a + (p + (a - 1)) mod a = p + (a - 1)"
    by (rule div_mult_mod_eq)
  moreover have "(p + (a - 1)) mod a < a" using assms by simp
  ultimately show "p \<le> (p + (a - 1)) div a * a" and "(p + (a - 1)) div a * a < p + a"
    using assms by linarith+
qed simp

section \<open>Memory regions\<close>

text \<open>A region is a start address and a length.\<close>

type_synonym region = "ptr \<times> nat"

definition disjoint :: "region \<Rightarrow> region \<Rightarrow> bool" where
  "disjoint a b \<longleftrightarrow> fst a + snd a \<le> fst b \<or> fst b + snd b \<le> fst a"

definition inside :: "region \<Rightarrow> region \<Rightarrow> bool" where
  "inside a b \<longleftrightarrow> fst b \<le> fst a \<and> fst a + snd a \<le> fst b + snd b"

definition separated :: "region list \<Rightarrow> bool" where
  "separated rs \<longleftrightarrow> sorted_wrt disjoint rs"

lemma disjoint_sym: "disjoint a b \<longleftrightarrow> disjoint b a"
  by (auto simp: disjoint_def)

lemma inside_refl [simp]: "inside a a"
  by (simp add: inside_def)

lemma inside_disjoint: "disjoint a b \<Longrightarrow> inside x a \<Longrightarrow> inside y b \<Longrightarrow> disjoint x y"
  by (auto simp: disjoint_def inside_def)

lemma separated_Nil [simp]: "separated []"
  by (simp add: separated_def)

lemma separated_Cons [simp]:
  "separated (r # rs) \<longleftrightarrow> (\<forall>q \<in> set rs. disjoint r q) \<and> separated rs"
  by (simp add: separated_def)

lemma separated_filter: "separated rs \<Longrightarrow> separated (filter P rs)"
  by (simp add: separated_def sorted_wrt_filter)

lemma separated_member:
  "separated rs \<Longrightarrow> a \<in> set rs \<Longrightarrow> b \<in> set rs \<Longrightarrow> a = b \<or> disjoint a b"
  by (induction rs) (auto simp: disjoint_sym)

section \<open>Paths along next pointers\<close>

text \<open>
  \<open>path nx p xs\<close>: following the next pointers given by \<open>nx\<close> from \<open>p\<close> visits exactly
  \<open>xs\<close> and then meets \<^verbatim>\<open>NULL\<close>.
\<close>

primrec path :: "(ptr \<Rightarrow> ptr option) \<Rightarrow> ptr \<Rightarrow> ptr list \<Rightarrow> bool" where
  "path nx p [] \<longleftrightarrow> p = 0"
| "path nx p (x # xs) \<longleftrightarrow> p = x \<and> x \<noteq> 0 \<and> (\<exists>q. nx x = Some q \<and> path nx q xs)"

lemma path_0 [simp]: "path nx 0 xs \<longleftrightarrow> xs = []"
  by (cases xs) auto

lemma path_nonzero: "p \<noteq> 0 \<Longrightarrow>
    path nx p xs \<longleftrightarrow> (\<exists>q ys. xs = p # ys \<and> nx p = Some q \<and> path nx q ys)"
  by (cases xs) auto

lemma path_unique: "path nx p xs \<Longrightarrow> path nx p ys \<Longrightarrow> xs = ys"
  by (induction xs arbitrary: p ys) (auto simp: path_nonzero)

lemma path_suffix: "path nx p (xs @ y # ys) \<Longrightarrow> path nx y (y # ys)"
  by (induction xs arbitrary: p) auto

lemma path_distinct: "path nx p xs \<Longrightarrow> distinct xs"
proof (induction xs arbitrary: p)
  case (Cons x xs)
  then obtain q where q: "nx x = Some q" "path nx q xs" and x: "path nx x (x # xs)" by auto
  have "x \<notin> set xs"
  proof
    assume "x \<in> set xs"
    then obtain us vs where xs: "xs = us @ x # vs" by (meson split_list)
    with q have "path nx x (x # vs)" by (auto dest: path_suffix)
    with x have "xs = vs" using path_unique by blast
    with xs show False by simp
  qed
  with q Cons.IH show ?case by auto
qed simp

lemma path_cong: "(\<And>x. x \<in> set xs \<Longrightarrow> nx x = nx' x) \<Longrightarrow> path nx p xs = path nx' p xs"
  by (induction xs arbitrary: p) auto

lemma path_nonnull: "path nx p xs \<Longrightarrow> 0 \<notin> set xs"
  by (induction xs arbitrary: p) auto

lemma path_defined: "path nx p xs \<Longrightarrow> x \<in> set xs \<Longrightarrow> \<exists>q. nx x = Some q"
  by (induction xs arbitrary: p) auto

lemma path_snoc:
  assumes "path nx p xs" and "xs \<noteq> []" and "y \<notin> set xs" and "y \<noteq> 0"
  shows "path (nx(last xs \<mapsto> y, y \<mapsto> 0)) p (xs @ [y])"
  using assms
proof (induction xs arbitrary: p)
  case (Cons x xs)
  show ?case
  proof (cases "xs = []")
    case True
    with Cons.prems show ?thesis by auto
  next
    case False
    from Cons.prems obtain q where q: "nx x = Some q" "path nx q xs" by auto
    have "x \<noteq> last xs" using path_distinct [OF Cons.prems(1)] False by auto
    with Cons.IH [OF q(2) False] Cons.prems q False show ?thesis by auto
  qed
qed simp

end
