(* ===== verification/Ngx_Alloc.thy ===== *)
theory Ngx_Alloc
  imports Prelude
begin

text \<open>
  The process memory as the allocator layer sees it (\<^verbatim>\<open>os/unix/ngx_alloc.c\<close>) and the C
  structures \<^verbatim>\<open>ngx_palloc.h\<close> stores in it.

  \<^item> \<open>live\<close> lists the chunks obtained from the C library and not yet freed. The library's
    choice of addresses is a parameter: a function of the alignment, the live chunks and the
    size, answering \<open>None\<close> when the request fails. \<open>allocator_ok\<close> is its documented
    contract.
  \<^item> The structures are kept in one store per C type, indexed by address; an address that
    is not in a store does not hold an initialised structure of that type. Reading it, or
    freeing an address that is not a live chunk, is a fault: the operation returns \<open>None\<close>.
    \<open>c_free\<close> forgets every structure inside the freed chunk, so a read after free and a
    double free are faults too.
  \<^item> \<open>raw\<close> is the content of the bytes handed out to callers; \<open>events\<close> records the calls
    of cleanup handlers and the file operations they perform, in order.
\<close>

section \<open>Structures\<close>

record ngx_pool_data =
  d_last :: ptr
  d_end :: ptr
  d_next :: ptr
  d_failed :: nat

text \<open>The fields of \<^verbatim>\<open>struct ngx_pool_s\<close> after \<^verbatim>\<open>d\<close>: only the first block has them.\<close>

record ngx_pool =
  pl_max :: nat
  pl_current :: ptr
  pl_chain :: ptr
  pl_large :: ptr
  pl_cleanup :: ptr
  pl_log :: ptr

record ngx_pool_large =
  lg_next :: ptr
  lg_alloc :: ptr

datatype handler = NoHandler | CleanupFile | DeleteFile | UserHandler nat

record ngx_pool_cleanup =
  cl_handler :: handler
  cl_data :: ptr
  cl_next :: ptr

record ngx_pool_cleanup_file_t =
  cf_fd :: int
  cf_name :: ptr
  cf_log :: ptr

datatype event = Called nat ptr | Closed int | Deleted ptr

record mem =
  live :: "region list"
  heap_d :: "ptr \<Rightarrow> ngx_pool_data option"
  heap_p :: "ptr \<Rightarrow> ngx_pool option"
  heap_l :: "ptr \<Rightarrow> ngx_pool_large option"
  heap_c :: "ptr \<Rightarrow> ngx_pool_cleanup option"
  heap_f :: "ptr \<Rightarrow> ngx_pool_cleanup_file_t option"
  raw :: "ptr \<Rightarrow> u8"
  events :: "event list"
  ngx_pagesize :: nat

definition mem_init :: "nat \<Rightarrow> mem" where
  "mem_init pagesize = \<lparr>live = [], heap_d = Map.empty, heap_p = Map.empty, heap_l = Map.empty,
     heap_c = Map.empty, heap_f = Map.empty, raw = (\<lambda>_. 0), events = [],
     ngx_pagesize = pagesize\<rparr>"

section \<open>The C library's allocator\<close>

type_synonym allocator = "nat \<Rightarrow> region list \<Rightarrow> nat \<Rightarrow> ptr option"

text \<open>
  The contract of \<^verbatim>\<open>malloc\<close> and \<^verbatim>\<open>posix_memalign\<close>: a block that is returned is not at
  \<^verbatim>\<open>NULL\<close>, has the alignment asked for, lies in the address space, and overlaps no live
  chunk (a request of size 0 still yields an address of its own).
\<close>

definition allocator_ok :: "allocator \<Rightarrow> bool" where
  "allocator_ok A \<longleftrightarrow>
     (\<forall>al cs n p. A al cs n = Some p \<longrightarrow>
        p \<noteq> 0 \<and> al dvd p \<and> p + n + 16 \<le> 2 ^ 64 \<and>
        (\<forall>c \<in> set cs. disjoint (p, max 1 n) (fst c, max 1 (snd c))))"

text \<open>\<^verbatim>\<open>malloc\<close> aligns for any fundamental type: 16 bytes on amd64.\<close>

definition c_malloc :: "allocator \<Rightarrow> nat \<Rightarrow> mem \<Rightarrow> ptr \<times> mem" where
  "c_malloc A sz s =
     (case A 16 (live s) sz of
        None \<Rightarrow> (0, s)
      | Some p \<Rightarrow> (p, s\<lparr>live := (p, sz) # live s\<rparr>))"

definition c_memalign :: "allocator \<Rightarrow> nat \<Rightarrow> nat \<Rightarrow> mem \<Rightarrow> ptr \<times> mem" where
  "c_memalign A alignment sz s =
     (case A alignment (live s) sz of
        None \<Rightarrow> (0, s)
      | Some p \<Rightarrow> (p, s\<lparr>live := (p, sz) # live s\<rparr>))"

definition chunk_at :: "mem \<Rightarrow> ptr \<Rightarrow> region option" where
  "chunk_at s p = List.find (\<lambda>c. fst c = p) (live s)"

definition forget :: "region \<Rightarrow> (ptr \<Rightarrow> 'a option) \<Rightarrow> ptr \<Rightarrow> 'a option" where
  "forget c h = (\<lambda>x. if fst c \<le> x \<and> x < fst c + snd c then None else h x)"

definition c_free :: "ptr \<Rightarrow> mem \<Rightarrow> mem option" where
  "c_free p s =
     (if p = 0 then Some s
      else case chunk_at s p of
             None \<Rightarrow> None
           | Some c \<Rightarrow> Some (s\<lparr>live := filter (\<lambda>x. fst x \<noteq> p) (live s),
                heap_d := forget c (heap_d s), heap_p := forget c (heap_p s),
                heap_l := forget c (heap_l s), heap_c := forget c (heap_c s),
                heap_f := forget c (heap_f s)\<rparr>))"

section \<open>ngx_alloc.c\<close>

definition ngx_alloc :: "allocator \<Rightarrow> nat \<Rightarrow> mem \<Rightarrow> ptr \<times> mem" where
  "ngx_alloc A sz s = c_malloc A sz s"

definition ngx_memzero :: "ptr \<Rightarrow> nat \<Rightarrow> mem \<Rightarrow> mem" where
  "ngx_memzero p n s = s\<lparr>raw := (\<lambda>x. if p \<le> x \<and> x < p + n then 0 else raw s x)\<rparr>"

definition ngx_calloc :: "allocator \<Rightarrow> nat \<Rightarrow> mem \<Rightarrow> ptr \<times> mem" where
  "ngx_calloc A sz s =
     (let (p, s1) = ngx_alloc A sz s
      in if p \<noteq> 0 then (p, ngx_memzero p sz s1) else (p, s1))"

definition ngx_memalign :: "allocator \<Rightarrow> nat \<Rightarrow> nat \<Rightarrow> mem \<Rightarrow> ptr \<times> mem" where
  "ngx_memalign A alignment sz s = c_memalign A alignment sz s"

section \<open>Facts about the allocator layer\<close>

definition fresh_chunk :: "mem \<Rightarrow> ptr \<Rightarrow> nat \<Rightarrow> bool" where
  "fresh_chunk s p n \<longleftrightarrow> p \<noteq> 0 \<and> p + n + 16 \<le> 2 ^ 64 \<and> (\<forall>c \<in> set (live s). disjoint (p, n) c) \<and>
     p \<notin> fst ` set (live s)"

lemma ngx_memalign_cases:
  assumes "allocator_ok A" and "ngx_memalign A al n s = (p, t)"
  obtains (fail) "p = 0" and "t = s" and "A al (live s) n = None"
  | (ok) "fresh_chunk s p n" and "al dvd p" and "t = s\<lparr>live := (p, n) # live s\<rparr>"
proof (cases "A al (live s) n")
  case None
  with assms(2) show thesis by (intro fail) (auto simp: ngx_memalign_def c_memalign_def)
next
  case (Some q)
  with assms(2) have q: "p = q" "t = s\<lparr>live := (p, n) # live s\<rparr>"
    by (auto simp: ngx_memalign_def c_memalign_def)
  from Some assms(1) have spec: "q \<noteq> 0" "al dvd q" "q + n + 16 \<le> 2 ^ 64"
    and dj: "\<forall>c \<in> set (live s). disjoint (q, max 1 n) (fst c, max 1 (snd c))"
    unfolding allocator_ok_def by blast+
  have "\<forall>c \<in> set (live s). disjoint (q, n) c \<and> fst c \<noteq> q"
    using dj by (fastforce simp: disjoint_def max_def split: if_splits)
  with spec q show thesis by (intro ok) (auto simp: fresh_chunk_def)
qed

lemma ngx_alloc_is_memalign: "ngx_alloc A n s = ngx_memalign A 16 n s"
  by (simp add: ngx_alloc_def ngx_memalign_def c_malloc_def c_memalign_def)

end
