(* ===== verification/Ngx_Palloc.thy ===== *)
theory Ngx_Palloc
  imports Ngx_Alloc
begin

text \<open>
  The memory pool of \<^verbatim>\<open>core/ngx_palloc.c\<close>, operation by operation.

  An operation that returns a pointer takes and returns the memory; \<open>None\<close> is a fault (a
  read of something that is no structure, a double free, an endless list). The loops over
  next pointers are \<^theory_text>\<open>partial_function (option)\<close>, so a cyclic list is the value \<open>None\<close>
  as well; the invariant below excludes all of these. Log messages are left out. The
  configuration is \<^verbatim>\<open>NGX_DEBUG = 0\<close> and \<^verbatim>\<open>NGX_DEBUG_PALLOC = 0\<close>, as in \<^verbatim>\<open>obj/ngx_auto_config.h\<close>.
\<close>

section \<open>Sizes on amd64\<close>

abbreviation (input) sizeof_pool_data :: nat where "sizeof_pool_data \<equiv> 32"
abbreviation (input) sizeof_pool :: nat where "sizeof_pool \<equiv> 80"
abbreviation (input) sizeof_pool_large :: nat where "sizeof_pool_large \<equiv> 16"
abbreviation (input) sizeof_pool_cleanup :: nat where "sizeof_pool_cleanup \<equiv> 24"
abbreviation (input) NGX_ALIGNMENT :: nat where "NGX_ALIGNMENT \<equiv> 8"
abbreviation (input) NGX_POOL_ALIGNMENT :: nat where "NGX_POOL_ALIGNMENT \<equiv> 16"

definition NGX_MAX_ALLOC_FROM_POOL :: "mem \<Rightarrow> nat" where
  "NGX_MAX_ALLOC_FROM_POOL s = size_t_of (int (ngx_pagesize s) - 1)"

definition NGX_MIN_POOL_SIZE :: nat where
  "NGX_MIN_POOL_SIZE = ngx_align (sizeof_pool + 2 * sizeof_pool_large) NGX_POOL_ALIGNMENT"

section \<open>Creation\<close>

definition ngx_create_pool :: "allocator \<Rightarrow> nat \<Rightarrow> ptr \<Rightarrow> mem \<Rightarrow> ptr \<times> mem" where
  "ngx_create_pool A sz log s =
     (let (p, s1) = ngx_memalign A NGX_POOL_ALIGNMENT sz s
      in if p = 0 then (0, s1)
         else
           let d = \<lparr>d_last = p + sizeof_pool, d_end = p + sz, d_next = 0, d_failed = 0\<rparr>;
               sz' = size_t_of (int sz - int sizeof_pool);
               pl = \<lparr>pl_max = (if sz' < NGX_MAX_ALLOC_FROM_POOL s1 then sz'
                               else NGX_MAX_ALLOC_FROM_POOL s1),
                     pl_current = p, pl_chain = 0, pl_large = 0, pl_cleanup = 0, pl_log = log\<rparr>
           in (p, s1\<lparr>heap_d := (heap_d s1)(p \<mapsto> d), heap_p := (heap_p s1)(p \<mapsto> pl)\<rparr>))"

section \<open>Allocation\<close>

text \<open>The \<^verbatim>\<open>do ... while (p)\<close> loop of \<^verbatim>\<open>ngx_palloc_small\<close>: \<open>Some None\<close> when no block has room.\<close>

partial_function (option) palloc_small_loop ::
  "mem \<Rightarrow> ptr \<Rightarrow> nat \<Rightarrow> bool \<Rightarrow> (ptr \<times> mem) option option"
where
  "palloc_small_loop s p sz align = do {
     d \<leftarrow> heap_d s p;
     let m = (if align then ngx_align_ptr (d_last d) NGX_ALIGNMENT else d_last d);
     if sz \<le> size_t_of (int (d_end d) - int m)
     then Some (Some (m, s\<lparr>heap_d := (heap_d s)(p \<mapsto> d\<lparr>d_last := m + sz\<rparr>)\<rparr>))
     else if d_next d = 0 then Some None
     else palloc_small_loop s (d_next d) sz align
   }"

text \<open>
  The \<^verbatim>\<open>for\<close> loop of \<^verbatim>\<open>ngx_palloc_block\<close>: counts a failure on every block from
  \<^verbatim>\<open>pool->current\<close> but the last, moves \<^verbatim>\<open>current\<close> past a block that already had more than
  four, and returns the last block.
\<close>

partial_function (option) palloc_block_loop :: "mem \<Rightarrow> ptr \<Rightarrow> ptr \<Rightarrow> (ptr \<times> mem) option" where
  "palloc_block_loop s pool p = do {
     d \<leftarrow> heap_d s p;
     if d_next d = 0 then Some (p, s)
     else do {
       let s1 = s\<lparr>heap_d := (heap_d s)(p \<mapsto> d\<lparr>d_failed := (d_failed d + 1) mod 2 ^ 64\<rparr>)\<rparr>;
       if 4 < d_failed d then do {
         pl \<leftarrow> heap_p s1 pool;
         palloc_block_loop (s1\<lparr>heap_p := (heap_p s1)(pool \<mapsto> pl\<lparr>pl_current := d_next d\<rparr>)\<rparr>)
           pool (d_next d)
       }
       else palloc_block_loop s1 pool (d_next d)
     }
   }"

definition ngx_palloc_block :: "allocator \<Rightarrow> mem \<Rightarrow> ptr \<Rightarrow> nat \<Rightarrow> (ptr \<times> mem) option" where
  "ngx_palloc_block A s pool sz = do {
     d0 \<leftarrow> heap_d s pool;
     let psize = size_t_of (int (d_end d0) - int pool);
     let (new, s1) = ngx_memalign A NGX_POOL_ALIGNMENT psize s;
     if new = 0 then Some (0, s1)
     else do {
       let m = ngx_align_ptr (new + sizeof_pool_data) NGX_ALIGNMENT;
       let s2 = s1\<lparr>heap_d := (heap_d s1)(new \<mapsto>
                  \<lparr>d_last = m + sz, d_end = new + psize, d_next = 0, d_failed = 0\<rparr>)\<rparr>;
       pl \<leftarrow> heap_p s2 pool;
       (p, s3) \<leftarrow> palloc_block_loop s2 pool (pl_current pl);
       d \<leftarrow> heap_d s3 p;
       Some (m, s3\<lparr>heap_d := (heap_d s3)(p \<mapsto> d\<lparr>d_next := new\<rparr>)\<rparr>)
     }
   }"

definition ngx_palloc_small :: "allocator \<Rightarrow> mem \<Rightarrow> ptr \<Rightarrow> nat \<Rightarrow> bool \<Rightarrow> (ptr \<times> mem) option" where
  "ngx_palloc_small A s pool sz align = do {
     pl \<leftarrow> heap_p s pool;
     r \<leftarrow> palloc_small_loop s (pl_current pl) sz align;
     case r of
       Some (m, s1) \<Rightarrow> Some (m, s1)
     | None \<Rightarrow> ngx_palloc_block A s pool sz
   }"

text \<open>
  The loop of \<^verbatim>\<open>ngx_palloc_large\<close> that looks for a list entry whose memory was freed; \<^verbatim>\<open>n\<close>
  bounds it to five entries.
\<close>

function palloc_large_loop :: "mem \<Rightarrow> ptr \<Rightarrow> nat \<Rightarrow> ptr option option" where
  "palloc_large_loop s large n =
     (if large = 0 then Some None
      else case heap_l s large of
             None \<Rightarrow> None
           | Some l \<Rightarrow>
               if lg_alloc l = 0 then Some (Some large)
               else if 3 < n then Some None
               else palloc_large_loop s (lg_next l) (n + 1))"
  by pat_completeness auto
termination
  by (relation "measure (\<lambda>(s, large, n). 4 - n)") auto

declare palloc_large_loop.simps [simp del]

text \<open>The tail shared by \<^verbatim>\<open>ngx_palloc_large\<close> and \<^verbatim>\<open>ngx_pmemalign\<close>: a new list entry for \<^verbatim>\<open>p\<close>.\<close>

definition palloc_large_link :: "allocator \<Rightarrow> mem \<Rightarrow> ptr \<Rightarrow> ptr \<Rightarrow> (ptr \<times> mem) option" where
  "palloc_large_link A s pool p = do {
     (large, s1) \<leftarrow> ngx_palloc_small A s pool sizeof_pool_large True;
     if large = 0 then do {
       s2 \<leftarrow> c_free p s1;
       Some (0, s2)
     }
     else do {
       pl \<leftarrow> heap_p s1 pool;
       Some (p, s1\<lparr>heap_l := (heap_l s1)(large \<mapsto> \<lparr>lg_next = pl_large pl, lg_alloc = p\<rparr>),
                  heap_p := (heap_p s1)(pool \<mapsto> pl\<lparr>pl_large := large\<rparr>)\<rparr>)
     }
   }"

definition ngx_palloc_large :: "allocator \<Rightarrow> mem \<Rightarrow> ptr \<Rightarrow> nat \<Rightarrow> (ptr \<times> mem) option" where
  "ngx_palloc_large A s pool sz = do {
     let (p, s1) = ngx_alloc A sz s;
     if p = 0 then Some (0, s1)
     else do {
       pl \<leftarrow> heap_p s1 pool;
       r \<leftarrow> palloc_large_loop s1 (pl_large pl) 0;
       case r of
         Some large \<Rightarrow> do {
           l \<leftarrow> heap_l s1 large;
           Some (p, s1\<lparr>heap_l := (heap_l s1)(large \<mapsto> l\<lparr>lg_alloc := p\<rparr>)\<rparr>)
         }
       | None \<Rightarrow> palloc_large_link A s1 pool p
     }
   }"

definition ngx_palloc :: "allocator \<Rightarrow> mem \<Rightarrow> ptr \<Rightarrow> nat \<Rightarrow> (ptr \<times> mem) option" where
  "ngx_palloc A s pool sz = do {
     pl \<leftarrow> heap_p s pool;
     if sz \<le> pl_max pl then ngx_palloc_small A s pool sz True
     else ngx_palloc_large A s pool sz
   }"

definition ngx_pnalloc :: "allocator \<Rightarrow> mem \<Rightarrow> ptr \<Rightarrow> nat \<Rightarrow> (ptr \<times> mem) option" where
  "ngx_pnalloc A s pool sz = do {
     pl \<leftarrow> heap_p s pool;
     if sz \<le> pl_max pl then ngx_palloc_small A s pool sz False
     else ngx_palloc_large A s pool sz
   }"

definition ngx_pmemalign :: "allocator \<Rightarrow> mem \<Rightarrow> ptr \<Rightarrow> nat \<Rightarrow> nat \<Rightarrow> (ptr \<times> mem) option" where
  "ngx_pmemalign A s pool sz alignment =
     (let (p, s1) = ngx_memalign A alignment sz s
      in if p = 0 then Some (0, s1) else palloc_large_link A s1 pool p)"

definition ngx_pcalloc :: "allocator \<Rightarrow> mem \<Rightarrow> ptr \<Rightarrow> nat \<Rightarrow> (ptr \<times> mem) option" where
  "ngx_pcalloc A s pool sz = do {
     (p, s1) \<leftarrow> ngx_palloc A s pool sz;
     if p \<noteq> 0 then Some (p, ngx_memzero p sz s1) else Some (p, s1)
   }"

section \<open>Release\<close>

text \<open>\<^verbatim>\<open>NGX_OK\<close> is \<open>True\<close>, \<^verbatim>\<open>NGX_DECLINED\<close> is \<open>False\<close>.\<close>

partial_function (option) pfree_loop :: "mem \<Rightarrow> ptr \<Rightarrow> ptr \<Rightarrow> (bool \<times> mem) option" where
  "pfree_loop s l p =
     (if l = 0 then Some (False, s)
      else do {
        e \<leftarrow> heap_l s l;
        if p = lg_alloc e then do {
          s1 \<leftarrow> c_free (lg_alloc e) s;
          e1 \<leftarrow> heap_l s1 l;
          Some (True, s1\<lparr>heap_l := (heap_l s1)(l \<mapsto> e1\<lparr>lg_alloc := 0\<rparr>)\<rparr>)
        }
        else pfree_loop s (lg_next e) p
      })"

definition ngx_pfree :: "mem \<Rightarrow> ptr \<Rightarrow> ptr \<Rightarrow> (bool \<times> mem) option" where
  "ngx_pfree s pool p = do {
     pl \<leftarrow> heap_p s pool;
     pfree_loop s (pl_large pl) p
   }"

text \<open>The loop that frees the large blocks, in \<^verbatim>\<open>ngx_destroy_pool\<close> and \<^verbatim>\<open>ngx_reset_pool\<close>.\<close>

partial_function (option) free_large_loop :: "mem \<Rightarrow> ptr \<Rightarrow> mem option" where
  "free_large_loop s l =
     (if l = 0 then Some s
      else do {
        e \<leftarrow> heap_l s l;
        s1 \<leftarrow> (if lg_alloc e \<noteq> 0 then c_free (lg_alloc e) s else Some s);
        e1 \<leftarrow> heap_l s1 l;
        free_large_loop s1 (lg_next e1)
      })"

partial_function (option) reset_loop :: "mem \<Rightarrow> ptr \<Rightarrow> mem option" where
  "reset_loop s p =
     (if p = 0 then Some s
      else do {
        d \<leftarrow> heap_d s p;
        reset_loop (s\<lparr>heap_d := (heap_d s)(p \<mapsto> d\<lparr>d_last := p + sizeof_pool, d_failed := 0\<rparr>)\<rparr>)
          (d_next d)
      })"

definition ngx_reset_pool :: "mem \<Rightarrow> ptr \<Rightarrow> mem option" where
  "ngx_reset_pool s pool = do {
     pl \<leftarrow> heap_p s pool;
     s1 \<leftarrow> free_large_loop s (pl_large pl);
     s2 \<leftarrow> reset_loop s1 pool;
     pl2 \<leftarrow> heap_p s2 pool;
     Some (s2\<lparr>heap_p := (heap_p s2)(pool \<mapsto>
             pl2\<lparr>pl_current := pool, pl_chain := 0, pl_large := 0\<rparr>)\<rparr>)
   }"

section \<open>Cleanup handlers\<close>

definition ngx_pool_cleanup_add :: "allocator \<Rightarrow> mem \<Rightarrow> ptr \<Rightarrow> nat \<Rightarrow> (ptr \<times> mem) option" where
  "ngx_pool_cleanup_add A s p sz = do {
     (c, s1) \<leftarrow> ngx_palloc A s p sizeof_pool_cleanup;
     if c = 0 then Some (0, s1)
     else do {
       (data, s2) \<leftarrow> (if sz \<noteq> 0 then ngx_palloc A s1 p sz else Some (0, s1));
       if sz \<noteq> 0 \<and> data = 0 then Some (0, s2)
       else do {
         pl \<leftarrow> heap_p s2 p;
         Some (c, s2\<lparr>heap_c := (heap_c s2)(c \<mapsto>
                      \<lparr>cl_handler = NoHandler, cl_data = data, cl_next = pl_cleanup pl\<rparr>),
                    heap_p := (heap_p s2)(p \<mapsto> pl\<lparr>pl_cleanup := c\<rparr>)\<rparr>)
       }
     }
   }"

definition ngx_pool_cleanup_file :: "ptr \<Rightarrow> mem \<Rightarrow> mem option" where
  "ngx_pool_cleanup_file data s = do {
     c \<leftarrow> heap_f s data;
     Some (s\<lparr>events := events s @ [Closed (cf_fd c)]\<rparr>)
   }"

definition ngx_pool_delete_file :: "ptr \<Rightarrow> mem \<Rightarrow> mem option" where
  "ngx_pool_delete_file data s = do {
     c \<leftarrow> heap_f s data;
     Some (s\<lparr>events := events s @ [Deleted (cf_name c), Closed (cf_fd c)]\<rparr>)
   }"

text \<open>
  The call \<^verbatim>\<open>c->handler(c->data)\<close>. A handler of the pool's user is an event: what it frees
  is not the pool's memory.
\<close>

fun call_handler :: "handler \<Rightarrow> ptr \<Rightarrow> mem \<Rightarrow> mem option" where
  "call_handler NoHandler data s = None"
| "call_handler CleanupFile data s = ngx_pool_cleanup_file data s"
| "call_handler DeleteFile data s = ngx_pool_delete_file data s"
| "call_handler (UserHandler f) data s = Some (s\<lparr>events := events s @ [Called f data]\<rparr>)"

partial_function (option) run_cleanup_file_loop :: "mem \<Rightarrow> ptr \<Rightarrow> int \<Rightarrow> mem option" where
  "run_cleanup_file_loop s c fd =
     (if c = 0 then Some s
      else do {
        e \<leftarrow> heap_c s c;
        if cl_handler e = CleanupFile then do {
          cf \<leftarrow> heap_f s (cl_data e);
          if cf_fd cf = fd then do {
            s1 \<leftarrow> call_handler (cl_handler e) (cl_data e) s;
            Some (s1\<lparr>heap_c := (heap_c s1)(c \<mapsto> e\<lparr>cl_handler := NoHandler\<rparr>)\<rparr>)
          }
          else run_cleanup_file_loop s (cl_next e) fd
        }
        else run_cleanup_file_loop s (cl_next e) fd
      })"

definition ngx_pool_run_cleanup_file :: "mem \<Rightarrow> ptr \<Rightarrow> int \<Rightarrow> mem option" where
  "ngx_pool_run_cleanup_file s p fd = do {
     pl \<leftarrow> heap_p s p;
     run_cleanup_file_loop s (pl_cleanup pl) fd
   }"

section \<open>Destruction\<close>

partial_function (option) run_cleanups_loop :: "mem \<Rightarrow> ptr \<Rightarrow> mem option" where
  "run_cleanups_loop s c =
     (if c = 0 then Some s
      else do {
        e \<leftarrow> heap_c s c;
        s1 \<leftarrow> (if cl_handler e \<noteq> NoHandler then call_handler (cl_handler e) (cl_data e) s
              else Some s);
        e1 \<leftarrow> heap_c s1 c;
        run_cleanups_loop s1 (cl_next e1)
      })"

text \<open>The last loop: \<^verbatim>\<open>n\<close> is read before the block \<^verbatim>\<open>p\<close> is freed.\<close>

partial_function (option) free_blocks_loop :: "mem \<Rightarrow> ptr \<Rightarrow> ptr \<Rightarrow> mem option" where
  "free_blocks_loop s p n = do {
     s1 \<leftarrow> c_free p s;
     if n = 0 then Some s1
     else do {
       d \<leftarrow> heap_d s1 n;
       free_blocks_loop s1 n (d_next d)
     }
   }"

definition ngx_destroy_pool :: "mem \<Rightarrow> ptr \<Rightarrow> mem option" where
  "ngx_destroy_pool s pool = do {
     pl \<leftarrow> heap_p s pool;
     s1 \<leftarrow> run_cleanups_loop s (pl_cleanup pl);
     pl1 \<leftarrow> heap_p s1 pool;
     s2 \<leftarrow> free_large_loop s1 (pl_large pl1);
     d \<leftarrow> heap_d s2 pool;
     free_blocks_loop s2 pool (d_next d)
   }"

end
