(* ===== verification/Ngx_Palloc_Inv.thy ===== *)
theory Ngx_Palloc_Inv
  imports Ngx_Palloc
begin

text \<open>
  The invariant of a memory pool and the lemmas that every operation keeps it.

  The invariant speaks of a ghost description of the pool: its blocks in list order, the
  entries of the list of large allocations, the registered cleanups, the size of a block,
  and the regions handed out so far (to callers and for the pool's own list entries). The
  central clause is that the regions handed out are pairwise disjoint and lie between the
  header and \<^verbatim>\<open>d.last\<close> of a block, or are chunks of the C library of their own.
\<close>

record ghost =
  g_size :: nat
  g_blocks :: "ptr list"
  g_larges :: "ptr list"
  g_cleanups :: "ptr list"
  g_regions :: "region list"

abbreviation next_d :: "mem \<Rightarrow> ptr \<Rightarrow> ptr option" where
  "next_d s \<equiv> \<lambda>b. map_option d_next (heap_d s b)"

abbreviation next_l :: "mem \<Rightarrow> ptr \<Rightarrow> ptr option" where
  "next_l s \<equiv> \<lambda>b. map_option lg_next (heap_l s b)"

abbreviation next_c :: "mem \<Rightarrow> ptr \<Rightarrow> ptr option" where
  "next_c s \<equiv> \<lambda>b. map_option cl_next (heap_c s b)"

text \<open>The bytes at the start of a block that hold its header.\<close>

definition header :: "ptr \<Rightarrow> ptr \<Rightarrow> nat" where
  "header pool b = (if b = pool then sizeof_pool else sizeof_pool_data)"

definition live_ok :: "mem \<Rightarrow> bool" where
  "live_ok s \<longleftrightarrow> separated (live s) \<and> distinct (map fst (live s)) \<and>
     (\<forall>c \<in> set (live s). fst c \<noteq> 0 \<and> fst c + snd c + 16 \<le> 2 ^ 64)"

definition block_ok :: "mem \<Rightarrow> ptr \<Rightarrow> nat \<Rightarrow> ptr \<Rightarrow> bool" where
  "block_ok s pool n b \<longleftrightarrow> (b, n) \<in> set (live s) \<and> 16 dvd b \<and>
     (\<exists>d. heap_d s b = Some d \<and> d_end d = b + n \<and> b + header pool b \<le> d_last d \<and>
          d_last d \<le> d_end d)"

definition in_block :: "mem \<Rightarrow> ptr \<Rightarrow> ptr list \<Rightarrow> region \<Rightarrow> bool" where
  "in_block s pool bs r \<longleftrightarrow>
     (\<exists>b \<in> set bs. \<exists>d. heap_d s b = Some d \<and> b + header pool b \<le> fst r \<and>
        fst r + snd r \<le> d_last d)"

definition large_chunk :: "mem \<Rightarrow> ptr list \<Rightarrow> region \<Rightarrow> bool" where
  "large_chunk s bs r \<longleftrightarrow> r \<in> set (live s) \<and> fst r \<notin> set bs"

definition regions_ok :: "mem \<Rightarrow> ptr \<Rightarrow> ghost \<Rightarrow> bool" where
  "regions_ok s pool g \<longleftrightarrow> separated (g_regions g) \<and>
     (\<forall>r \<in> set (g_regions g). in_block s pool (g_blocks g) r \<or> large_chunk s (g_blocks g) r)"

text \<open>The addresses the entries of the large list own: the non-null \<^verbatim>\<open>alloc\<close> fields.\<close>

definition allocs :: "mem \<Rightarrow> ptr list \<Rightarrow> ptr list" where
  "allocs s ls = filter (\<lambda>p. p \<noteq> 0) (map (\<lambda>l. lg_alloc (the (heap_l s l))) ls)"

definition larges_ok :: "mem \<Rightarrow> ptr \<Rightarrow> ghost \<Rightarrow> ptr \<Rightarrow> bool" where
  "larges_ok s pool g l0 \<longleftrightarrow> path (next_l s) l0 (g_larges g) \<and>
     (\<forall>l \<in> set (g_larges g). in_block s pool (g_blocks g) (l, sizeof_pool_large) \<and>
        (l, sizeof_pool_large) \<in> set (g_regions g)) \<and>
     distinct (allocs s (g_larges g)) \<and>
     (\<forall>p \<in> set (allocs s (g_larges g)).
        \<exists>n > 0. large_chunk s (g_blocks g) (p, n) \<and> (p, n) \<in> set (g_regions g))"

definition handler_ok :: "mem \<Rightarrow> ghost \<Rightarrow> ngx_pool_cleanup \<Rightarrow> bool" where
  "handler_ok s g c \<longleftrightarrow>
     (cl_handler c = CleanupFile \<or> cl_handler c = DeleteFile \<longrightarrow>
        heap_f s (cl_data c) \<noteq> None \<and>
        (\<exists>b \<in> set (g_blocks g). b \<le> cl_data c \<and> cl_data c < b + g_size g))"

definition cleanups_ok :: "mem \<Rightarrow> ptr \<Rightarrow> ghost \<Rightarrow> ptr \<Rightarrow> bool" where
  "cleanups_ok s pool g c0 \<longleftrightarrow> path (next_c s) c0 (g_cleanups g) \<and>
     (\<forall>c \<in> set (g_cleanups g). in_block s pool (g_blocks g) (c, sizeof_pool_cleanup) \<and>
        (c, sizeof_pool_cleanup) \<in> set (g_regions g) \<and>
        (\<exists>e. heap_c s c = Some e \<and> handler_ok s g e))"

definition blocks_ok :: "mem \<Rightarrow> ptr \<Rightarrow> ghost \<Rightarrow> bool" where
  "blocks_ok s pool g \<longleftrightarrow> path (next_d s) pool (g_blocks g) \<and> pool \<noteq> 0 \<and>
     (\<forall>b \<in> set (g_blocks g). block_ok s pool (g_size g) b) \<and>
     8 dvd g_size g \<and> NGX_MIN_POOL_SIZE \<le> g_size g"

definition manager_ok :: "mem \<Rightarrow> ptr \<Rightarrow> ghost \<Rightarrow> ngx_pool \<Rightarrow> bool" where
  "manager_ok s pool g pl \<longleftrightarrow> pl_current pl \<in> set (g_blocks g) \<and>
     sizeof_pool_cleanup \<le> pl_max pl \<and> pl_max pl + sizeof_pool \<le> g_size g \<and>
     larges_ok s pool g (pl_large pl) \<and> cleanups_ok s pool g (pl_cleanup pl)"

definition pool_inv :: "mem \<Rightarrow> ptr \<Rightarrow> ghost \<Rightarrow> bool" where
  "pool_inv s pool g \<longleftrightarrow> live_ok s \<and> blocks_ok s pool g \<and> regions_ok s pool g \<and>
     (\<exists>pl. heap_p s pool = Some pl \<and> manager_ok s pool g pl)"

lemmas pool_inv_defs = pool_inv_def manager_ok_def blocks_ok_def cleanups_ok_def larges_ok_def
  regions_ok_def

lemma min_pool_size [simp]: "NGX_MIN_POOL_SIZE = 112"
  by (simp add: NGX_MIN_POOL_SIZE_def ngx_align_def)

section \<open>Alignment and room inside a block\<close>

lemma align_bounds:
  assumes "p + 8 \<le> 2 ^ 64"
  shows "p \<le> ngx_align_ptr p 8" and "8 dvd ngx_align_ptr p 8" and "ngx_align_ptr p 8 < p + 8"
  using ngx_align_ptr_pow2 [of 3 p] round_up_props [of 8 p] assms by simp_all

lemma align_le:
  assumes "p + 8 \<le> 2 ^ 64" and "p \<le> e" and "8 dvd e"
  shows "ngx_align_ptr p 8 \<le> e"
proof -
  from align_bounds(2) [OF assms(1)] assms(3) obtain i j
    where "ngx_align_ptr p 8 = 8 * i" and "e = 8 * j" by (auto elim!: dvdE)
  with align_bounds(3) [OF assms(1)] assms(2) show ?thesis by presburger
qed

lemma block_okE:
  assumes "block_ok s pool n b" and "live_ok s"
  obtains d where "heap_d s b = Some d" and "d_end d = b + n" and "b + header pool b \<le> d_last d"
    and "d_last d \<le> d_end d" and "b + n + 16 \<le> 2 ^ 64" and "16 dvd b" and "b \<noteq> 0"
    and "(b, n) \<in> set (live s)"
  using assms by (fastforce simp: block_ok_def live_ok_def)

text \<open>The start address the loop of \<^verbatim>\<open>ngx_palloc_small\<close> tries in a block.\<close>

definition start_in :: "bool \<Rightarrow> ngx_pool_data \<Rightarrow> ptr" where
  "start_in al d = (if al then ngx_align_ptr (d_last d) NGX_ALIGNMENT else d_last d)"

lemma start_in_bounds:
  assumes "block_ok s pool n b" and "live_ok s" and "8 dvd n" and "heap_d s b = Some d"
  shows "d_last d \<le> start_in al d" and "start_in al d \<le> d_end d" and "d_end d = b + n"
    and "al \<Longrightarrow> 8 dvd start_in al d" and "b + n < 2 ^ 64"
    and "size_t_of (int (d_end d) - int (start_in al d)) = d_end d - start_in al d"
proof -
  from assms have b: "d_end d = b + n" "d_last d \<le> d_end d" "b + n + 16 \<le> 2 ^ 64" "16 dvd b"
    by (auto elim!: block_okE)
  have "8 dvd b" using b(4) by (rule dvd_trans [rotated]) simp
  then have e: "8 dvd d_end d" using b(1) assms(3) by simp
  have l: "d_last d + 8 \<le> 2 ^ 64" using b by linarith
  show s: "d_last d \<le> start_in al d" "start_in al d \<le> d_end d" "d_end d = b + n"
    "al \<Longrightarrow> 8 dvd start_in al d" "b + n < 2 ^ 64"
    using align_bounds [OF l] align_le [OF l b(2) e] b by (auto simp: start_in_def)
  show "size_t_of (int (d_end d) - int (start_in al d)) = d_end d - start_in al d"
    using s b by (intro size_t_of_diff) auto
qed

lemma palloc_small_loop_unfold:
  assumes "heap_d s p = Some d"
  shows "palloc_small_loop s p sz al =
    (if sz \<le> size_t_of (int (d_end d) - int (start_in al d))
     then Some (Some (start_in al d,
            s\<lparr>heap_d := (heap_d s)(p \<mapsto> d\<lparr>d_last := start_in al d + sz\<rparr>)\<rparr>))
     else if d_next d = 0 then Some None else palloc_small_loop s (d_next d) sz al)"
  by (subst palloc_small_loop.simps) (simp add: assms start_in_def Let_def)

text \<open>
  What the search finds: a block of the list with room, taken at its first usable address,
  or the fact that no block has room.
\<close>

definition fits :: "mem \<Rightarrow> nat \<Rightarrow> bool \<Rightarrow> ptr \<Rightarrow> bool" where
  "fits s sz al b \<longleftrightarrow> (\<exists>d. heap_d s b = Some d \<and> start_in al d + sz \<le> d_end d)"

definition bump :: "mem \<Rightarrow> ptr \<Rightarrow> ptr \<Rightarrow> mem" where
  "bump s b l = s\<lparr>heap_d := (heap_d s)(b \<mapsto> (the (heap_d s b))\<lparr>d_last := l\<rparr>)\<rparr>"

lemma palloc_small_loop_spec:
  assumes "path (next_d s) p xs" and "xs \<noteq> []" and "\<forall>b \<in> set xs. block_ok s pool n b"
    and "live_ok s" and "8 dvd n"
  shows "(\<exists>b d. b \<in> set xs \<and> heap_d s b = Some d \<and> start_in al d + sz \<le> d_end d \<and>
            palloc_small_loop s p sz al =
              Some (Some (start_in al d, bump s b (start_in al d + sz)))) \<or>
         ((\<forall>b \<in> set xs. \<not> fits s sz al b) \<and> palloc_small_loop s p sz al = Some None)"
  using assms(1-3)
proof (induction xs arbitrary: p)
  case (Cons x xs)
  from Cons.prems obtain d where d: "heap_d s x = Some d" and x: "p = x"
    and tl: "path (next_d s) (d_next d) xs" by auto
  from Cons.prems have bx: "block_ok s pool n x" by simp
  note bd = start_in_bounds [OF bx assms(4,5) d]
  have room: "sz \<le> size_t_of (int (d_end d) - int (start_in al d)) \<longleftrightarrow> start_in al d + sz \<le> d_end d"
    using bd by (simp add: le_diff_conv2 add.commute)
  show ?case
  proof (cases "start_in al d + sz \<le> d_end d")
    case True
    then show ?thesis using d x room
      by (intro disjI1 exI [of _ x] exI [of _ d])
        (simp add: palloc_small_loop_unfold bump_def)
  next
    case False
    then have nf: "\<not> fits s sz al x" using d by (simp add: fits_def)
    have step: "palloc_small_loop s p sz al =
        (if d_next d = 0 then Some None else palloc_small_loop s (d_next d) sz al)"
      using d x room False by (simp add: palloc_small_loop_unfold)
    show ?thesis
    proof (cases "xs = []")
      case True
      with tl nf step show ?thesis by simp
    next
      case False
      with tl have "d_next d \<noteq> 0" by (metis path_0)
      with Cons.IH [OF tl False] Cons.prems(3) step nf show ?thesis by auto
    qed
  qed
qed simp

section \<open>Moving the end of the used part of a block\<close>

lemma bump_simps [simp]:
  "live (bump s b l) = live s" "heap_p (bump s b l) = heap_p s" "heap_l (bump s b l) = heap_l s"
  "heap_c (bump s b l) = heap_c s" "heap_f (bump s b l) = heap_f s"
  "raw (bump s b l) = raw s" "events (bump s b l) = events s"
  "ngx_pagesize (bump s b l) = ngx_pagesize s"
  by (simp_all add: bump_def)

lemma next_d_bump [simp]: "heap_d s b = Some d \<Longrightarrow> next_d (bump s b l) = next_d s"
  by (auto simp: bump_def fun_eq_iff)

lemma in_block_bump:
  "in_block s pool bs r \<Longrightarrow> heap_d s b = Some d \<Longrightarrow> d_last d \<le> l \<Longrightarrow> in_block (bump s b l) pool bs r"
  unfolding in_block_def bump_def by fastforce

lemma block_ok_bump:
  "block_ok s pool n x \<Longrightarrow> heap_d s b = Some d \<Longrightarrow> d_last d \<le> l \<Longrightarrow> l \<le> d_end d \<Longrightarrow>
   block_ok (bump s b l) pool n x"
  unfolding block_ok_def bump_def by fastforce

lemma inside_block:
  assumes "block_ok s pool n b" and "heap_d s b = Some d" and "b + header pool b \<le> fst r"
    and "fst r + snd r \<le> d_last d"
  shows "inside r (b, n)"
  using assms by (auto simp: block_ok_def inside_def)

lemma live_disjoint:
  assumes "live_ok s" and "a \<in> set (live s)" and "b \<in> set (live s)" and "fst a \<noteq> fst b"
  shows "disjoint a b"
  using assms separated_member [of "live s" a b] by (auto simp: live_ok_def)

text \<open>A region taken from the unused part of a block meets no region handed out before.\<close>

lemma fresh_in_block:
  assumes inv: "live_ok s" "blocks_ok s pool g" "regions_ok s pool g"
    and b: "b \<in> set (g_blocks g)" "heap_d s b = Some d"
    and m: "d_last d \<le> m" "m + sz \<le> d_end d" and r: "r \<in> set (g_regions g)"
  shows "disjoint (m, sz) r"
proof -
  have bk: "block_ok s pool (g_size g) b" using inv(2) b(1) by (simp add: blocks_ok_def)
  then have here: "inside (m, sz) (b, g_size g)" and bl: "(b, g_size g) \<in> set (live s)"
    using b m by (auto simp: block_ok_def inside_def)
  from inv(3) r consider "in_block s pool (g_blocks g) r" | "large_chunk s (g_blocks g) r"
    by (auto simp: regions_ok_def)
  then show ?thesis
  proof cases
    case 1
    then obtain c e where c: "c \<in> set (g_blocks g)" "heap_d s c = Some e"
      "c + header pool c \<le> fst r" "fst r + snd r \<le> d_last e"
      by (auto simp: in_block_def)
    then have ck: "block_ok s pool (g_size g) c" using inv(2) by (simp add: blocks_ok_def)
    show ?thesis
    proof (cases "c = b")
      case True
      with c b m show ?thesis by (auto simp: disjoint_def)
    next
      case False
      with ck bl inv(1) have "disjoint (b, g_size g) (c, g_size g)"
        by (intro live_disjoint) (auto simp: block_ok_def)
      then show ?thesis using here inside_block [OF ck c(2-4)] by (rule inside_disjoint)
    qed
  next
    case 2
    then have "disjoint (b, g_size g) r"
      using bl b inv(1) by (intro live_disjoint) (auto simp: large_chunk_def)
    then show ?thesis using here by (rule inside_disjoint) simp
  qed
qed

text \<open>
  The clauses on the list of large allocations and on the cleanups survive any change that
  keeps their list entries and the containment of regions.
\<close>

lemma allocs_cong:
  "\<forall>l \<in> set ls. heap_l t l = heap_l s l \<Longrightarrow> allocs t ls = allocs s ls"
  by (induction ls) (auto simp: allocs_def)

lemma larges_ok_mono:
  assumes ok: "larges_ok s pool g l0" and ls: "g_larges g' = g_larges g"
    and rs: "set (g_regions g) \<subseteq> set (g_regions g')"
    and hl: "\<forall>l \<in> set (g_larges g). heap_l t l = heap_l s l"
    and ib: "\<And>r. in_block s pool (g_blocks g) r \<Longrightarrow> in_block t pool (g_blocks g') r"
    and lc: "\<And>r. large_chunk s (g_blocks g) r \<Longrightarrow> large_chunk t (g_blocks g') r"
  shows "larges_ok t pool g' l0"
proof -
  have "path (next_l t) l0 (g_larges g)"
    using ok hl path_cong [of "g_larges g" "next_l t" "next_l s" l0] by (simp add: larges_ok_def)
  moreover have "allocs t (g_larges g) = allocs s (g_larges g)" using hl by (rule allocs_cong)
  ultimately show ?thesis
    using ok rs ib lc unfolding larges_ok_def ls by (simp add: Ball_def) blast
qed

lemma cleanups_ok_mono:
  assumes ok: "cleanups_ok s pool g c0" and cs: "g_cleanups g' = g_cleanups g"
    and sz: "g_size g' = g_size g" and bs: "set (g_blocks g) \<subseteq> set (g_blocks g')"
    and rs: "set (g_regions g) \<subseteq> set (g_regions g')"
    and hc: "\<forall>c \<in> set (g_cleanups g). heap_c t c = heap_c s c"
    and hf: "\<forall>b \<in> set (g_blocks g). \<forall>x. b \<le> x \<and> x < b + g_size g \<longrightarrow> heap_f t x = heap_f s x"
    and ib: "\<And>r. in_block s pool (g_blocks g) r \<Longrightarrow> in_block t pool (g_blocks g') r"
  shows "cleanups_ok t pool g' c0"
proof -
  have "path (next_c t) c0 (g_cleanups g)"
    using ok hc path_cong [of "g_cleanups g" "next_c t" "next_c s" c0]
    by (simp add: cleanups_ok_def)
  moreover have "handler_ok t g' e" if "handler_ok s g e" for e
  proof (cases "cl_handler e = CleanupFile \<or> cl_handler e = DeleteFile")
    case True
    with that obtain b where b: "heap_f s (cl_data e) \<noteq> None" "b \<in> set (g_blocks g)"
      "b \<le> cl_data e" "cl_data e < b + g_size g" unfolding handler_ok_def by blast
    with hf have "heap_f t (cl_data e) \<noteq> None" by simp
    with b bs sz show ?thesis unfolding handler_ok_def by auto
  qed (simp add: handler_ok_def)
  ultimately show ?thesis
    using ok rs ib hc unfolding cleanups_ok_def cs by (simp add: Ball_def) blast
qed

lemma larges_ok_bump:
  "larges_ok s pool g l0 \<Longrightarrow> heap_d s b = Some d \<Longrightarrow> d_last d \<le> l \<Longrightarrow>
   larges_ok (bump s b l) pool (g\<lparr>g_regions := r # g_regions g\<rparr>) l0"
  by (erule larges_ok_mono) (auto simp: large_chunk_def intro: in_block_bump)

lemma cleanups_ok_bump:
  "cleanups_ok s pool g c0 \<Longrightarrow> heap_d s b = Some d \<Longrightarrow> d_last d \<le> l \<Longrightarrow>
   cleanups_ok (bump s b l) pool (g\<lparr>g_regions := r # g_regions g\<rparr>) c0"
  by (erule cleanups_ok_mono) (auto intro: in_block_bump)

lemma bump_inv:
  assumes inv: "pool_inv s pool g" and b: "b \<in> set (g_blocks g)" "heap_d s b = Some d"
    and m: "d_last d \<le> m" "m + sz \<le> d_end d"
  shows "pool_inv (bump s b (m + sz)) pool (g\<lparr>g_regions := (m, sz) # g_regions g\<rparr>)"
proof -
  let ?s = "bump s b (m + sz)" and ?g = "g\<lparr>g_regions := (m, sz) # g_regions g\<rparr>"
  from inv have ok: "live_ok s" "blocks_ok s pool g" "regions_ok s pool g"
    by (auto simp: pool_inv_def)
  have l: "d_last d \<le> m + sz" using m(1) by simp
  have "live_ok ?s" using ok(1) by (simp add: live_ok_def)
  moreover have "blocks_ok ?s pool ?g"
    using ok(2) b m l by (auto simp: blocks_ok_def intro: block_ok_bump)
  moreover have "regions_ok ?s pool ?g"
    unfolding regions_ok_def
  proof (intro conjI ballI)
    show "separated (g_regions ?g)"
      using ok b m by (auto simp: regions_ok_def intro: fresh_in_block)
    fix r assume "r \<in> set (g_regions ?g)"
    then consider "r = (m, sz)" | "r \<in> set (g_regions g)" by auto
    then show "in_block ?s pool (g_blocks ?g) r \<or> large_chunk ?s (g_blocks ?g) r"
    proof cases
      case 1
      have "b + header pool b \<le> m" using ok(2) b m by (auto simp: blocks_ok_def block_ok_def)
      then show ?thesis using 1 b by (auto simp: in_block_def bump_def)
    next
      case 2
      then show ?thesis using ok(3) b l
        by (auto simp: regions_ok_def large_chunk_def intro: in_block_bump)
    qed
  qed
  moreover have "\<exists>pl. heap_p ?s pool = Some pl \<and> manager_ok ?s pool ?g pl"
    using inv b l
    by (auto simp: pool_inv_def manager_ok_def intro: larges_ok_bump cleanups_ok_bump)
  ultimately show ?thesis by (simp add: pool_inv_def)
qed

section \<open>A new chunk of the C library\<close>

lemma large_chunk_live: "large_chunk s bs r \<Longrightarrow> set (live s) \<subseteq> set (live t) \<Longrightarrow> large_chunk t bs r"
  by (auto simp: large_chunk_def)

lemma add_chunk_live_ok:
  "live_ok s \<Longrightarrow> fresh_chunk s p n \<Longrightarrow> live_ok (s\<lparr>live := (p, n) # live s\<rparr>)"
  by (auto simp: live_ok_def fresh_chunk_def)

lemma add_chunk_inv:
  assumes "pool_inv s pool g" and "fresh_chunk s p n"
  shows "pool_inv (s\<lparr>live := (p, n) # live s\<rparr>) pool g"
proof -
  let ?s = "s\<lparr>live := (p, n) # live s\<rparr>"
  have "live_ok ?s" using assms add_chunk_live_ok by (auto simp: pool_inv_def)
  moreover have "blocks_ok ?s pool g"
    using assms by (auto simp: pool_inv_def blocks_ok_def block_ok_def)
  moreover have "regions_ok ?s pool g"
    using assms by (auto simp: pool_inv_def regions_ok_def in_block_def large_chunk_def)
  moreover have "larges_ok s pool g l0 \<Longrightarrow> larges_ok ?s pool g l0" for l0
    by (erule larges_ok_mono) (auto simp: in_block_def large_chunk_def)
  moreover have "cleanups_ok s pool g c0 \<Longrightarrow> cleanups_ok ?s pool g c0" for c0
    by (erule cleanups_ok_mono) (auto simp: in_block_def)
  ultimately have "live_ok ?s" "blocks_ok ?s pool g" "regions_ok ?s pool g"
    "\<exists>pl. heap_p ?s pool = Some pl \<and> manager_ok ?s pool g pl"
    using assms(1) by (auto simp: pool_inv_def manager_ok_def)
  then show ?thesis by (simp add: pool_inv_def)
qed

section \<open>A new block\<close>

text \<open>What the counting loop does, written as one update.\<close>

fun moved_current :: "(ptr \<Rightarrow> ngx_pool_data option) \<Rightarrow> ptr list \<Rightarrow> ptr \<Rightarrow> ptr" where
  "moved_current h (x # y # zs) c =
     moved_current h (y # zs) (if 4 < d_failed (the (h x)) then y else c)"
| "moved_current h xs c = c"

definition count_failures ::
  "ptr set \<Rightarrow> (ptr \<Rightarrow> ngx_pool_data option) \<Rightarrow> ptr \<Rightarrow> ngx_pool_data option" where
  "count_failures B h = (\<lambda>b. if b \<in> B
     then map_option (\<lambda>d. d\<lparr>d_failed := (d_failed d + 1) mod 2 ^ 64\<rparr>) (h b) else h b)"

lemma moved_current_cong:
  "(\<And>b. b \<in> set xs \<Longrightarrow> h b = h' b) \<Longrightarrow> moved_current h xs c = moved_current h' xs c"
  by (induction h xs c rule: moved_current.induct) auto

lemma moved_current_in: "moved_current h xs c = c \<or> moved_current h xs c \<in> set xs"
proof (induction h xs c rule: moved_current.induct)
  case (1 h x y zs c)
  then show ?case by (auto split: if_splits)
qed auto

lemma palloc_block_loop_spec:
  assumes "path (next_d s) p xs" and "xs \<noteq> []" and "heap_p s pool = Some pl"
  shows "palloc_block_loop s pool p = Some (last xs,
     s\<lparr>heap_d := count_failures (set (butlast xs)) (heap_d s),
       heap_p := (heap_p s)(pool \<mapsto> pl\<lparr>pl_current := moved_current (heap_d s) xs (pl_current pl)\<rparr>)\<rparr>)"
  using assms
proof (induction xs arbitrary: p s pl)
  case (Cons x xs)
  from Cons.prems obtain d where d: "heap_d s x = Some d" "p = x" "x \<noteq> 0"
    and tl: "path (next_d s) (d_next d) xs" by auto
  show ?case
  proof (cases xs)
    case Nil
    with tl d Cons.prems(3) show ?thesis
      by (subst palloc_block_loop.simps) (auto simp: count_failures_def fun_upd_idem)
  next
    case (Cons y ys)
    with tl have y: "d_next d = y" "y \<noteq> 0" by auto
    have dx: "x \<notin> set xs" using path_distinct [OF Cons.prems(1)] by simp
    let ?s1 = "s\<lparr>heap_d := (heap_d s)(x \<mapsto> d\<lparr>d_failed := (d_failed d + 1) mod 2 ^ 64\<rparr>)\<rparr>"
    let ?pl = "if 4 < d_failed d then pl\<lparr>pl_current := y\<rparr> else pl"
    let ?s2 = "?s1\<lparr>heap_p := (heap_p s)(pool \<mapsto> ?pl)\<rparr>"
    have step: "palloc_block_loop s pool p = palloc_block_loop ?s2 pool y"
      using d y Cons.prems(3)
      by (subst palloc_block_loop.simps) (auto simp: Let_def fun_upd_idem)
    have "next_d ?s2 = next_d s" using d(1) by (auto simp: fun_eq_iff)
    then have "path (next_d ?s2) y xs" using tl y by simp
    then have IH: "palloc_block_loop ?s2 pool y = Some (last xs,
       ?s2\<lparr>heap_d := count_failures (set (butlast xs)) (heap_d ?s2),
         heap_p := (heap_p ?s2)(pool \<mapsto>
           ?pl\<lparr>pl_current := moved_current (heap_d ?s2) xs (pl_current ?pl)\<rparr>)\<rparr>)"
      using Cons by (intro Cons.IH) auto
    have hd: "count_failures (set (butlast xs)) (heap_d ?s2) =
        count_failures (set (butlast (x # xs))) (heap_d s)"
      using d dx Cons by (auto simp: count_failures_def fun_eq_iff dest: in_set_butlastD)
    have mc: "moved_current (heap_d ?s2) xs = moved_current (heap_d s) xs"
      using dx by (intro ext moved_current_cong) auto
    have cur: "?pl\<lparr>pl_current := moved_current (heap_d ?s2) xs (pl_current ?pl)\<rparr> =
        pl\<lparr>pl_current := moved_current (heap_d s) (x # xs) (pl_current pl)\<rparr>"
      using mc d Cons by auto
    have upd: "?s2\<lparr>heap_d := h, heap_p := (heap_p ?s2)(pool \<mapsto> z)\<rparr> =
        s\<lparr>heap_d := h, heap_p := (heap_p s)(pool \<mapsto> z)\<rparr>" for h z by simp
    have "last (x # xs) = last xs" using Cons by simp
    then show ?thesis unfolding step IH hd cur upd by (simp only:)
  qed
qed simp

text \<open>
  The state after a block was appended: the old blocks keep their used part, the last of
  them points to the new one, and nothing else but counters and \<^verbatim>\<open>current\<close> changed.
\<close>

definition appended :: "mem \<Rightarrow> ptr \<Rightarrow> ghost \<Rightarrow> ptr \<Rightarrow> nat \<Rightarrow> mem \<Rightarrow> bool" where
  "appended s pool g new l t \<longleftrightarrow>
     fresh_chunk s new (g_size g) \<and> 16 dvd new \<and> live t = (new, g_size g) # live s \<and>
     heap_l t = heap_l s \<and> heap_c t = heap_c s \<and> heap_f t = heap_f s \<and>
     (\<exists>pl c. heap_p s pool = Some pl \<and> heap_p t pool = Some (pl\<lparr>pl_current := c\<rparr>) \<and>
        c \<in> set (g_blocks g)) \<and>
     (\<forall>b \<in> set (g_blocks g). \<exists>d d'. heap_d s b = Some d \<and> heap_d t b = Some d' \<and>
        d_last d' = d_last d \<and> d_end d' = d_end d \<and>
        d_next d' = (if b = last (g_blocks g) then new else d_next d)) \<and>
     heap_d t new = Some \<lparr>d_last = l, d_end = new + g_size g, d_next = 0, d_failed = 0\<rparr>"

lemma pool_in_blocks: "blocks_ok s pool g \<Longrightarrow> pool \<in> set (g_blocks g) \<and> g_blocks g \<noteq> []"
  by (cases "g_blocks g") (auto simp: blocks_ok_def)

lemma fresh_not_block:
  "blocks_ok s pool g \<Longrightarrow> fresh_chunk s p n \<Longrightarrow> p \<notin> set (g_blocks g)"
  unfolding blocks_ok_def block_ok_def fresh_chunk_def by (metis fst_conv image_eqI)

lemma in_block_appended:
  assumes "appended s pool g new l t" and "in_block s pool (g_blocks g) r"
  shows "in_block t pool (g_blocks g @ [new]) r"
proof -
  from assms(2) obtain b d where b: "b \<in> set (g_blocks g)" "heap_d s b = Some d"
    "b + header pool b \<le> fst r" "fst r + snd r \<le> d_last d"
    by (auto simp: in_block_def)
  with assms(1) obtain d' where "heap_d t b = Some d'" "d_last d' = d_last d"
    unfolding appended_def by fastforce
  with b show ?thesis unfolding in_block_def by (intro bexI [of _ b] exI [of _ d']) auto
qed

lemma large_chunk_appended:
  assumes "appended s pool g new l t" and "large_chunk s (g_blocks g) r"
  shows "large_chunk t (g_blocks g @ [new]) r"
  using assms by (force simp: appended_def large_chunk_def fresh_chunk_def)

lemma blocks_ok_appended:
  assumes app: "appended s pool g new l t" and ok: "blocks_ok s pool g"
    and l: "new + sizeof_pool_data \<le> l" "l \<le> new + g_size g"
  shows "blocks_ok t pool (g\<lparr>g_blocks := g_blocks g @ [new]\<rparr>)"
proof -
  let ?bs = "g_blocks g"
  have fr: "fresh_chunk s new (g_size g)" using app by (simp add: appended_def)
  then have new: "new \<notin> set ?bs" "new \<noteq> 0"
    using fresh_not_block [OF ok] by (auto simp: fresh_chunk_def)
  have pool: "pool \<in> set ?bs" "?bs \<noteq> []" using pool_in_blocks [OF ok] by auto
  have "path ((next_d s)(last ?bs \<mapsto> new, new \<mapsto> 0)) pool (?bs @ [new])"
    using ok pool new by (intro path_snoc) (auto simp: blocks_ok_def)
  moreover have "((next_d s)(last ?bs \<mapsto> new, new \<mapsto> 0)) b = next_d t b" if "b \<in> set (?bs @ [new])" for b
    using that app new(1) pool unfolding appended_def by fastforce
  ultimately have "path (next_d t) pool (?bs @ [new])"
    using path_cong [of "?bs @ [new]" "(next_d s)(last ?bs \<mapsto> new, new \<mapsto> 0)" "next_d t" pool]
    by blast
  moreover have "block_ok t pool (g_size g) b" if "b \<in> set ?bs" for b
  proof -
    from that ok have "block_ok s pool (g_size g) b" by (simp add: blocks_ok_def)
    then show ?thesis using that app unfolding appended_def block_ok_def by fastforce
  qed
  moreover have "block_ok t pool (g_size g) new"
    using app l new pool by (auto simp: appended_def block_ok_def header_def)
  ultimately show ?thesis using ok by (auto simp: blocks_ok_def)
qed

lemma appended_inv:
  assumes app: "appended s pool g new l t" and inv: "pool_inv s pool g"
    and l: "new + sizeof_pool_data \<le> l" "l \<le> new + g_size g"
  shows "pool_inv t pool (g\<lparr>g_blocks := g_blocks g @ [new]\<rparr>)"
proof -
  let ?g = "g\<lparr>g_blocks := g_blocks g @ [new]\<rparr>"
  from inv have ok: "live_ok s" "blocks_ok s pool g" "regions_ok s pool g"
    by (auto simp: pool_inv_def)
  have same: "heap_l t = heap_l s" "heap_c t = heap_c s" "heap_f t = heap_f s"
    using app by (simp_all add: appended_def)
  have "live_ok t"
    using add_chunk_live_ok [OF ok(1)] app by (auto simp: appended_def live_ok_def)
  moreover have "blocks_ok t pool ?g" using blocks_ok_appended [OF app ok(2) l] .
  moreover have "regions_ok t pool ?g"
    using ok(3) app by (auto simp: regions_ok_def intro: in_block_appended large_chunk_appended)
  moreover from inv obtain pl c where pl: "heap_p s pool = Some pl" "manager_ok s pool g pl"
    and tp: "heap_p t pool = Some (pl\<lparr>pl_current := c\<rparr>)" "c \<in> set (g_blocks g)"
    using app by (auto simp: pool_inv_def appended_def)
  moreover have "larges_ok t pool ?g (pl_large pl)"
    by (rule larges_ok_mono [of s pool g])
      (use pl(2) app same in \<open>auto simp: manager_ok_def
        intro: in_block_appended large_chunk_appended\<close>)
  moreover have "cleanups_ok t pool ?g (pl_cleanup pl)"
    by (rule cleanups_ok_mono [of s pool g])
      (use pl(2) app same in \<open>auto simp: manager_ok_def intro: in_block_appended\<close>)
  ultimately show ?thesis using tp by (auto simp: pool_inv_def manager_ok_def)
qed

text \<open>The part of the block list the search and the counting loop walk over.\<close>

definition from_current :: "ghost \<Rightarrow> ptr \<Rightarrow> ptr list" where
  "from_current g c = dropWhile (\<lambda>b. b \<noteq> c) (g_blocks g)"

lemma dropWhile_to: "c \<notin> set us \<Longrightarrow> dropWhile (\<lambda>b. b \<noteq> c) (us @ c # vs) = c # vs"
  by (induction us) auto

lemma from_current_props:
  assumes "blocks_ok s pool g" and "c \<in> set (g_blocks g)"
  shows "path (next_d s) c (from_current g c)" and "from_current g c \<noteq> []"
    and "set (from_current g c) \<subseteq> set (g_blocks g)"
    and "last (from_current g c) = last (g_blocks g)"
proof -
  obtain us vs where split: "g_blocks g = us @ c # vs" and c: "c \<notin> set us"
    using assms(2) by (meson split_list_first)
  then have "from_current g c = c # vs"
    by (simp add: from_current_def dropWhile_to)
  with split assms(1) show "path (next_d s) c (from_current g c)" and "from_current g c \<noteq> []"
    and "set (from_current g c) \<subseteq> set (g_blocks g)"
    and "last (from_current g c) = last (g_blocks g)"
    by (auto simp: blocks_ok_def dest: path_suffix)
qed

lemma palloc_block_psize:
  assumes "live_ok s" and "blocks_ok s pool g"
  shows "\<exists>d. heap_d s pool = Some d \<and> size_t_of (int (d_end d) - int pool) = g_size g"
proof -
  have "block_ok s pool (g_size g) pool"
    using assms(2) pool_in_blocks [OF assms(2)] by (simp add: blocks_ok_def)
  then obtain d where d: "heap_d s pool = Some d" "d_end d = pool + g_size g"
    "pool + g_size g + 16 \<le> 2 ^ 64"
    using assms(1) by (auto elim: block_okE)
  then have "size_t_of (int (d_end d) - int pool) = d_end d - pool"
    by (intro size_t_of_diff) auto
  with d show ?thesis by simp
qed

lemma align_block_start: "16 dvd b \<Longrightarrow> b + 40 \<le> 2 ^ 64 \<Longrightarrow> ngx_align_ptr (b + 32) 8 = b + 32"
proof -
  assume b: "16 dvd b" "b + 40 \<le> 2 ^ 64"
  have "8 dvd b" using b(1) by (rule dvd_trans [rotated]) simp
  then have "8 dvd b + 32" by presburger
  then show ?thesis
    using align_le [of "b + 32" "b + 32"] align_bounds [of "b + 32"] b by simp
qed

text \<open>
  \<^verbatim>\<open>ngx_palloc_block\<close>: it fails only when the C library does; otherwise the block is
  appended, the counters from \<^verbatim>\<open>current\<close> on are increased and the first bytes after the new
  block's header are returned.
\<close>

definition block_added :: "mem \<Rightarrow> ptr \<Rightarrow> ghost \<Rightarrow> ptr \<Rightarrow> nat \<Rightarrow> mem" where
  "block_added s pool g new l =
     (let pl = the (heap_p s pool); xs = from_current g (pl_current pl);
          h = count_failures (set (butlast xs))
                ((heap_d s)(new \<mapsto> \<lparr>d_last = l, d_end = new + g_size g, d_next = 0, d_failed = 0\<rparr>));
          z = last (g_blocks g)
      in s\<lparr>live := (new, g_size g) # live s,
           heap_p := (heap_p s)(pool \<mapsto> pl\<lparr>pl_current := moved_current (heap_d s) xs (pl_current pl)\<rparr>),
           heap_d := h(z \<mapsto> (the (h z))\<lparr>d_next := new\<rparr>)\<rparr>)"

lemma ngx_palloc_block_spec:
  assumes A: "allocator_ok A" and inv: "pool_inv s pool g"
  shows "(A 16 (live s) (g_size g) = None \<and> ngx_palloc_block A s pool sz = Some (0, s)) \<or>
    (\<exists>new. fresh_chunk s new (g_size g) \<and> 16 dvd new \<and>
       ngx_palloc_block A s pool sz = Some (new + 32, block_added s pool g new (new + 32 + sz)))"
proof -
  from inv have ok: "live_ok s" "blocks_ok s pool g" by (auto simp: pool_inv_def)
  from inv obtain pl where pl: "heap_p s pool = Some pl" "pl_current pl \<in> set (g_blocks g)"
    by (auto simp: pool_inv_def manager_ok_def)
  obtain d where d: "heap_d s pool = Some d" "size_t_of (int (d_end d) - int pool) = g_size g"
    using palloc_block_psize [OF ok] by blast
  obtain new s1 where mm: "ngx_memalign A 16 (g_size g) s = (new, s1)" by fastforce
  from A mm show ?thesis
  proof (cases rule: ngx_memalign_cases)
    case fail
    with mm d show ?thesis by (simp add: ngx_palloc_block_def)
  next
    case ok
    let ?hd = "\<lparr>d_last = new + 32 + sz, d_end = new + g_size g, d_next = 0, d_failed = 0\<rparr>"
    let ?s2 = "s1\<lparr>heap_d := (heap_d s1)(new \<mapsto> ?hd)\<rparr>"
    let ?xs = "from_current g (pl_current pl)"
    note blk = \<open>blocks_ok s pool g\<close>
    note cur = from_current_props [OF blk pl(2)]
    have new: "new \<noteq> 0" "new \<notin> set (g_blocks g)"
      using ok(1) fresh_not_block [OF blk ok(1)] by (auto simp: fresh_chunk_def)
    have al: "ngx_align_ptr (new + 32) 8 = new + 32"
      using ok(1,2) blk by (intro align_block_start) (auto simp: fresh_chunk_def blocks_ok_def)
    have "path (next_d ?s2) (pl_current pl) ?xs"
      using cur(1,3) new(2) ok(3) path_cong [of ?xs "next_d ?s2" "next_d s" "pl_current pl"]
      by fastforce
    moreover have "heap_p ?s2 pool = Some pl" using pl ok(3) by simp
    ultimately have loop: "palloc_block_loop ?s2 pool (pl_current pl) = Some (last (g_blocks g),
        ?s2\<lparr>heap_d := count_failures (set (butlast ?xs)) (heap_d ?s2), heap_p := (heap_p ?s2)(pool \<mapsto>
          pl\<lparr>pl_current := moved_current (heap_d ?s2) ?xs (pl_current pl)\<rparr>)\<rparr>)"
      using palloc_block_loop_spec cur(2,4) by metis
    have mv: "moved_current (heap_d ?s2) ?xs (pl_current pl) =
        moved_current (heap_d s) ?xs (pl_current pl)"
      using cur(3) new(2) ok(3) by (intro moved_current_cong) auto
    have last_in: "last (g_blocks g) \<in> set (g_blocks g)" using pool_in_blocks [OF blk] by simp
    then obtain e where e: "heap_d s (last (g_blocks g)) = Some e"
      using blk by (auto simp: blocks_ok_def block_ok_def)
    have ln: "last (g_blocks g) \<noteq> new" using last_in new(2) by auto
    let ?h = "count_failures (set (butlast ?xs)) ((heap_d s)(new \<mapsto> ?hd))"
    obtain e' where e': "?h (last (g_blocks g)) = Some e'"
      using e ln by (cases "last (g_blocks g) \<in> set (butlast ?xs)") (auto simp: count_failures_def)
    show ?thesis
      using ok d mm al pl loop mv new e' ln
      by (intro disjI2 exI [of _ new])
        (simp add: ngx_palloc_block_def block_added_def Let_def)
  qed
qed

lemma block_added_appended:
  assumes inv: "pool_inv s pool g" and fr: "fresh_chunk s new (g_size g)" "16 dvd new"
  shows "appended s pool g new l (block_added s pool g new l)"
proof -
  from inv have blk: "blocks_ok s pool g" by (simp add: pool_inv_def)
  from inv obtain pl where pl: "heap_p s pool = Some pl" "pl_current pl \<in> set (g_blocks g)"
    by (auto simp: pool_inv_def manager_ok_def)
  note cur = from_current_props [OF blk pl(2)]
  have new: "new \<notin> set (g_blocks g)" using fresh_not_block [OF blk fr(1)] .
  have last_in: "last (g_blocks g) \<in> set (g_blocks g)" using pool_in_blocks [OF blk] by simp
  have "moved_current (heap_d s) (from_current g (pl_current pl)) (pl_current pl) \<in> set (g_blocks g)"
    using moved_current_in [of "heap_d s" "from_current g (pl_current pl)" "pl_current pl"] cur pl
    by auto
  moreover have "\<exists>d. heap_d s b = Some d" if "b \<in> set (g_blocks g)" for b
    using blk that by (auto simp: blocks_ok_def block_ok_def)
  moreover have "new \<noteq> last (g_blocks g)" "new \<notin> set (butlast (from_current g (pl_current pl)))"
    using new last_in cur(3) by (auto dest: in_set_butlastD)
  ultimately show ?thesis
    using fr pl new last_in
    by (fastforce simp: appended_def block_added_def Let_def count_failures_def)
qed

section \<open>Small allocations\<close>

text \<open>
  \<open>grown s g r t g'\<close>: the step from \<open>s\<close> to \<open>t\<close> handed out the region \<open>r\<close> from inside a
  block (possibly a new one) and touched nothing else but \<^verbatim>\<open>pool->current\<close>.
\<close>

definition grown :: "mem \<Rightarrow> ptr \<Rightarrow> ghost \<Rightarrow> region \<Rightarrow> mem \<Rightarrow> ghost \<Rightarrow> bool" where
  "grown s pool g r t g' \<longleftrightarrow>
     (\<exists>xs. g' = g\<lparr>g_blocks := g_blocks g @ xs, g_regions := r # g_regions g\<rparr> \<and>
        (\<forall>b \<in> set xs. b \<notin> fst ` set (live s))) \<and>
     in_block t pool (g_blocks g') r \<and>
     (\<forall>q. in_block s pool (g_blocks g) q \<longrightarrow> in_block t pool (g_blocks g') q) \<and>
     set (live s) \<subseteq> set (live t) \<and>
     heap_l t = heap_l s \<and> heap_c t = heap_c s \<and> heap_f t = heap_f s \<and>
     raw t = raw s \<and> events t = events s \<and> ngx_pagesize t = ngx_pagesize s \<and>
     (\<exists>pl c. heap_p s pool = Some pl \<and> heap_p t = (heap_p s)(pool \<mapsto> pl\<lparr>pl_current := c\<rparr>))"

lemma bump_block_added:
  assumes "new \<notin> set (g_blocks g)" and "g_blocks g \<noteq> []"
    and "set (from_current g (pl_current (the (heap_p s pool)))) \<subseteq> set (g_blocks g)"
  shows "bump (block_added s pool g new m) new l = block_added s pool g new l"
proof -
  have "new \<noteq> last (g_blocks g)" using assms(1,2) by (metis last_in_set)
  moreover have "new \<notin> set (butlast (from_current g (pl_current (the (heap_p s pool)))))"
    using assms(1,3) by (auto dest: in_set_butlastD)
  ultimately show ?thesis
    by (auto simp: bump_def block_added_def Let_def count_failures_def fun_eq_iff)
qed

lemma ngx_palloc_small_spec:
  assumes A: "allocator_ok A" and inv: "pool_inv s pool g" and sz: "sz + sizeof_pool \<le> g_size g"
  obtains (fail) "ngx_palloc_small A s pool sz al = Some (0, s)"
      and "A 16 (live s) (g_size g) = None"
  | (ok) m t g' where "ngx_palloc_small A s pool sz al = Some (m, t)" and "m \<noteq> 0"
      and "al \<longrightarrow> 8 dvd m" and "grown s pool g (m, sz) t g'" and "pool_inv t pool g'"
proof -
  from inv have lo: "live_ok s" and blk: "blocks_ok s pool g" by (auto simp: pool_inv_def)
  from inv obtain pl where pl: "heap_p s pool = Some pl" "pl_current pl \<in> set (g_blocks g)"
    by (auto simp: pool_inv_def manager_ok_def)
  let ?xs = "from_current g (pl_current pl)"
  note cur = from_current_props [OF blk pl(2)]
  have bs: "\<forall>b \<in> set ?xs. block_ok s pool (g_size g) b" and n: "8 dvd g_size g"
    using blk cur(3) by (auto simp: blocks_ok_def)
  from palloc_small_loop_spec [OF cur(1,2) bs lo n, of al sz]
  consider (found) b d where "b \<in> set ?xs" and "heap_d s b = Some d"
      and "start_in al d + sz \<le> d_end d" and "palloc_small_loop s (pl_current pl) sz al =
            Some (Some (start_in al d, bump s b (start_in al d + sz)))"
    | (full) "palloc_small_loop s (pl_current pl) sz al = Some None"
    by blast
  then show thesis
  proof cases
    case found
    have b: "block_ok s pool (g_size g) b" "b \<in> set (g_blocks g)" using found(1) bs cur(3) by auto
    note bd = start_in_bounds [OF b(1) lo n found(2)]
    let ?m = "start_in al d" and ?t = "bump s b (start_in al d + sz)"
    let ?g = "g\<lparr>g_regions := (?m, sz) # g_regions g\<rparr>"
    from b lo found(2) have hdr: "b + header pool b \<le> d_last d" by (auto elim: block_okE)
    have it: "in_block ?t pool (g_blocks g) (?m, sz)"
      using b(2) found(2) hdr bd(1) [of al] by (auto simp: in_block_def bump_def)
    have "pool_inv ?t pool ?g" using bump_inv [OF inv b(2) found(2) bd(1) found(3)] .
    moreover have "grown s pool g (?m, sz) ?t ?g"
      using it pl(1) in_block_bump [OF _ found(2)] bd(1) [of al] unfolding grown_def
      by (auto intro!: exI [of _ "[]"] exI [of _ "pl_current pl"])
    moreover have "?m \<noteq> 0" using hdr bd(1) [of al] by (auto simp: header_def split: if_splits)
    ultimately show thesis using found pl bd(4) [of al]
      by (intro ok) (auto simp: ngx_palloc_small_def)
  next
    case full
    then have step: "ngx_palloc_small A s pool sz al = ngx_palloc_block A s pool sz"
      using pl by (simp add: ngx_palloc_small_def)
    from ngx_palloc_block_spec [OF A inv, of sz] consider
      (none) "A 16 (live s) (g_size g) = None" "ngx_palloc_block A s pool sz = Some (0, s)"
      | (new) new where "fresh_chunk s new (g_size g)" "16 dvd new"
        "ngx_palloc_block A s pool sz = Some (new + 32, block_added s pool g new (new + 32 + sz))"
      by (elim disjE exE conjE) auto
    then show thesis
    proof cases
      case none
      with step show thesis by (intro fail) auto
    next
      case new
      let ?m = "new + 32" and ?g = "g\<lparr>g_blocks := g_blocks g @ [new]\<rparr>"
      let ?u = "block_added s pool g new (new + 32)"
      let ?t = "block_added s pool g new (new + 32 + sz)"
      have nn: "new \<notin> set (g_blocks g)" using fresh_not_block [OF blk new(1)] .
      have app: "appended s pool g new (new + 32) ?u"
        using block_added_appended [OF inv new(1,2)] .
      have u: "pool_inv ?u pool ?g" using appended_inv [OF app inv] sz by simp
      have hd: "heap_d ?u new = Some \<lparr>d_last = new + 32, d_end = new + g_size g, d_next = 0, d_failed = 0\<rparr>"
        using app by (simp add: appended_def)
      have bt: "bump ?u new (new + 32 + sz) = ?t"
        using nn pool_in_blocks [OF blk] cur(3) pl by (intro bump_block_added) auto
      have "pool_inv ?t pool (?g\<lparr>g_regions := (?m, sz) # g_regions ?g\<rparr>)"
        using bump_inv [OF u _ hd, of ?m sz] sz unfolding bt by simp
      moreover have "grown s pool g (?m, sz) ?t (?g\<lparr>g_regions := (?m, sz) # g_regions ?g\<rparr>)"
      proof -
        have "new \<noteq> pool" using nn pool_in_blocks [OF blk] by auto
        then have "in_block ?t pool (g_blocks g @ [new]) (?m, sz)"
          unfolding bt [symmetric] by (auto simp: in_block_def bump_def hd header_def)
        moreover have "(new, k) \<notin> set (live s)" for k
          using new(1) unfolding fresh_chunk_def by (metis fst_conv image_eqI)
        moreover have "in_block ?t pool (g_blocks g @ [new]) q"
          if "in_block s pool (g_blocks g) q" for q
          using in_block_bump [OF in_block_appended [OF app that] hd, of "new + 32 + sz"]
          unfolding bt by simp
        moreover have "live ?t = (new, g_size g) # live s"
          "heap_p ?t = (heap_p s)(pool \<mapsto> pl\<lparr>pl_current :=
             moved_current (heap_d s) (from_current g (pl_current pl)) (pl_current pl)\<rparr>)"
          "heap_l ?t = heap_l s" "heap_c ?t = heap_c s" "heap_f ?t = heap_f s" "raw ?t = raw s"
          "events ?t = events s" "ngx_pagesize ?t = ngx_pagesize s"
          using pl by (simp_all add: block_added_def Let_def)
        ultimately show ?thesis using pl unfolding grown_def
          by (auto intro!: exI [of _ "[new]"])
      qed
      moreover have "8 dvd ?m"
      proof -
        have "8 dvd new" using new(2) by (rule dvd_trans [rotated]) simp
        then show ?thesis by presburger
      qed
      ultimately show thesis using new step by (intro ok) auto
    qed
  qed
qed

end
