(* ===== verification/Ngx_Palloc_Large.thy ===== *)
theory Ngx_Palloc_Large
  imports Ngx_Palloc_Inv
begin

text \<open>
  Large allocations of the pool: chunks of the C library of their own, recorded in a list
  whose entries live in the small blocks. The lemmas show that taking, recording and freeing
  such a chunk keeps the invariant.
\<close>

section \<open>Freeing a chunk\<close>

lemma find_key:
  "distinct (map fst cs) \<Longrightarrow> (p, n) \<in> set cs \<Longrightarrow> List.find (\<lambda>c. fst c = p) cs = Some (p, n)"
  by (induction cs) force+

lemma chunk_at_live: "live_ok s \<Longrightarrow> (p, n) \<in> set (live s) \<Longrightarrow> chunk_at s p = Some (p, n)"
  by (simp add: chunk_at_def live_ok_def find_key)

text \<open>The state after \<^verbatim>\<open>free(p)\<close> of the live chunk \<open>c\<close>.\<close>

definition freed :: "region \<Rightarrow> mem \<Rightarrow> mem" where
  "freed c s = s\<lparr>live := filter (\<lambda>x. fst x \<noteq> fst c) (live s),
     heap_d := forget c (heap_d s), heap_p := forget c (heap_p s), heap_l := forget c (heap_l s),
     heap_c := forget c (heap_c s), heap_f := forget c (heap_f s)\<rparr>"

lemma c_free_live:
  assumes "live_ok s" and "(p, n) \<in> set (live s)"
  shows "c_free p s = Some (freed (p, n) s)"
  using chunk_at_live [OF assms] assms by (auto simp: c_free_def freed_def live_ok_def)

lemma live_ok_freed: "live_ok s \<Longrightarrow> live_ok (freed c s)"
  by (auto simp: live_ok_def freed_def separated_filter distinct_map_filter)

lemma forget_outside: "disjoint (b, n) c \<Longrightarrow> b \<le> x \<Longrightarrow> x < b + n \<Longrightarrow> forget c h x = h x"
  by (auto simp: forget_def disjoint_def)

lemma block_disjoint_chunk:
  assumes "live_ok s" and "blocks_ok s pool g" and "(p, n) \<in> set (live s)"
    and "p \<notin> set (g_blocks g)" and "b \<in> set (g_blocks g)"
  shows "disjoint (b, g_size g) (p, n)"
  using assms by (intro live_disjoint) (auto simp: blocks_ok_def block_ok_def)

lemma in_block_bounds:
  assumes "blocks_ok s pool g" and "in_block s pool (g_blocks g) (x, k)" and "0 < k"
  shows "\<exists>b \<in> set (g_blocks g). b \<le> x \<and> x < b + g_size g"
proof -
  from assms(2) obtain b d where b: "b \<in> set (g_blocks g)" "heap_d s b = Some d"
    "b + header pool b \<le> x" "x + k \<le> d_last d" by (auto simp: in_block_def)
  with assms(1) have "d_last d \<le> b + g_size g" by (auto simp: blocks_ok_def block_ok_def)
  with b assms(3) show ?thesis by (intro bexI [of _ b]) auto
qed

lemma freed_heap_d:
  assumes "live_ok s" and "blocks_ok s pool g" and "(p, n) \<in> set (live s)"
    and "p \<notin> set (g_blocks g)" and "b \<in> set (g_blocks g)"
  shows "heap_d (freed (p, n) s) b = heap_d s b"
proof -
  have "disjoint (b, g_size g) (p, n)" using block_disjoint_chunk [OF assms] .
  moreover have "0 < g_size g" using assms(2) by (simp add: blocks_ok_def)
  ultimately show ?thesis by (simp add: freed_def forget_outside)
qed

lemma freed_in_block:
  assumes "live_ok s" and "blocks_ok s pool g" and "(p, n) \<in> set (live s)"
    and "p \<notin> set (g_blocks g)" and "in_block s pool (g_blocks g) r"
  shows "in_block (freed (p, n) s) pool (g_blocks g) r"
  using assms(5) freed_heap_d [OF assms(1-4)] unfolding in_block_def by fastforce

text \<open>
  Freeing a chunk that is no block, is owned by no list entry and is no region handed out
  keeps the invariant.
\<close>

lemma free_inv:
  assumes inv: "pool_inv s pool g" and c: "(p, n) \<in> set (live s)" "p \<notin> set (g_blocks g)"
    and al: "p \<notin> set (allocs s (g_larges g))" and rs: "\<forall>r \<in> set (g_regions g). fst r \<noteq> p \<or> in_block s pool (g_blocks g) r"
  shows "pool_inv (freed (p, n) s) pool g"
proof -
  let ?t = "freed (p, n) s"
  from inv have ok: "live_ok s" "blocks_ok s pool g" "regions_ok s pool g" by (auto simp: pool_inv_def)
  note ib = freed_in_block [OF ok(1,2) c]
  note hd = freed_heap_d [OF ok(1,2) c]
  have keep: "forget (p, n) h x = h x" if "in_block s pool (g_blocks g) (x, k)" "0 < k"
    for h :: "ptr \<Rightarrow> 'z option" and x k
    using in_block_bounds [OF ok(2) that] block_disjoint_chunk [OF ok(1,2) c]
    by (meson forget_outside)
  have "live_ok ?t" using ok(1) by (rule live_ok_freed)
  moreover have "blocks_ok ?t pool g"
  proof -
    have "path (next_d ?t) pool (g_blocks g)"
      using ok(2) hd path_cong [of "g_blocks g" "next_d ?t" "next_d s" pool]
      by (simp add: blocks_ok_def)
    moreover have "block_ok ?t pool (g_size g) b" if b: "b \<in> set (g_blocks g)" for b
      using ok(2) b c(2) hd [OF b] by (auto simp: blocks_ok_def block_ok_def freed_def)
    ultimately show ?thesis using ok(2) by (simp add: blocks_ok_def)
  qed
  moreover have lc: "large_chunk ?t (g_blocks g) r" if "large_chunk s (g_blocks g) r" "fst r \<noteq> p" for r
    using that by (simp add: large_chunk_def freed_def)
  then have "regions_ok ?t pool g"
    using ok(3) rs ib unfolding regions_ok_def by blast
  moreover from inv obtain pl where pl: "heap_p s pool = Some pl" "manager_ok s pool g pl"
    by (auto simp: pool_inv_def)
  moreover have "heap_p ?t pool = Some pl"
  proof -
    have "disjoint (pool, g_size g) (p, n)" "0 < g_size g"
      using block_disjoint_chunk [OF ok(1,2) c] pool_in_blocks [OF ok(2)] ok(2)
      by (auto simp: blocks_ok_def)
    then show ?thesis using pl(1) by (simp add: freed_def forget_outside)
  qed
  moreover have "larges_ok ?t pool g (pl_large pl)"
  proof -
    from pl(2) have l: "larges_ok s pool g (pl_large pl)" by (simp add: manager_ok_def)
    have hl: "\<forall>l \<in> set (g_larges g). heap_l ?t l = heap_l s l"
    proof
      fix l assume "l \<in> set (g_larges g)"
      with l have "in_block s pool (g_blocks g) (l, 16)" by (simp add: larges_ok_def)
      then show "heap_l ?t l = heap_l s l" using keep [of l 16] by (simp add: freed_def)
    qed
    have al': "allocs ?t (g_larges g) = allocs s (g_larges g)" using hl by (rule allocs_cong)
    have "path (next_l ?t) (pl_large pl) (g_larges g)"
      using l hl path_cong [of "g_larges g" "next_l ?t" "next_l s" "pl_large pl"]
      by (simp add: larges_ok_def)
    then show ?thesis using l ib lc al unfolding larges_ok_def al' by (metis fst_conv)
  qed
  moreover have "cleanups_ok ?t pool g (pl_cleanup pl)"
  proof (rule cleanups_ok_mono [of s pool g])
    show co: "cleanups_ok s pool g (pl_cleanup pl)" using pl(2) by (simp add: manager_ok_def)
    show "\<forall>c \<in> set (g_cleanups g). heap_c ?t c = heap_c s c"
    proof
      fix c assume "c \<in> set (g_cleanups g)"
      with co have "in_block s pool (g_blocks g) (c, 24)" by (simp add: cleanups_ok_def)
      then show "heap_c ?t c = heap_c s c" using keep [of c 24] by (simp add: freed_def)
    qed
    show "\<forall>b \<in> set (g_blocks g). \<forall>x. b \<le> x \<and> x < b + g_size g \<longrightarrow> heap_f ?t x = heap_f s x"
      using block_disjoint_chunk [OF ok(1,2) c] by (auto simp: freed_def intro: forget_outside)
  qed (use ib in auto)
  ultimately show ?thesis by (auto simp: pool_inv_def manager_ok_def)
qed

section \<open>Chunks no list entry owns yet\<close>

definition unowned :: "mem \<Rightarrow> ghost \<Rightarrow> ptr \<Rightarrow> nat \<Rightarrow> bool" where
  "unowned s g p n \<longleftrightarrow> (p, n) \<in> set (live s) \<and> p \<noteq> 0 \<and> 0 < n \<and> p \<notin> set (g_blocks g) \<and>
     p \<notin> set (allocs s (g_larges g)) \<and> (p, n) \<notin> set (g_regions g)"

lemma live_unique: "live_ok s \<Longrightarrow> (p, n) \<in> set (live s) \<Longrightarrow> (p, m) \<in> set (live s) \<Longrightarrow> n = m"
  by (auto simp: live_ok_def dest: eq_key_imp_eq_value)

lemma chunk_not_in_block:
  assumes "live_ok s" and "blocks_ok s pool g" and "(p, n) \<in> set (live s)"
    and "p \<notin> set (g_blocks g)" and "0 < n"
  shows "\<not> in_block s pool (g_blocks g) (p, n)"
proof
  assume "in_block s pool (g_blocks g) (p, n)"
  then obtain b where b: "b \<in> set (g_blocks g)" "b \<le> p" "p < b + g_size g"
    using in_block_bounds [OF assms(2)] assms(5) by blast
  moreover have "disjoint (b, g_size g) (p, n)" using block_disjoint_chunk [OF assms(1-4) b(1)] .
  moreover have "p \<noteq> b" using b(1) assms(4) by auto
  ultimately show False using assms(5) by (auto simp: disjoint_def)
qed

lemma fresh_unowned:
  assumes inv: "pool_inv s pool g" and fr: "fresh_chunk s p n" and n: "0 < n"
  shows "unowned (s\<lparr>live := (p, n) # live s\<rparr>) g p n"
proof -
  let ?s = "s\<lparr>live := (p, n) # live s\<rparr>"
  from add_chunk_inv [OF inv fr] have ok: "live_ok ?s" "blocks_ok ?s pool g"
    by (auto simp: pool_inv_def)
  have p: "p \<noteq> 0" "p \<notin> fst ` set (live s)" using fr by (auto simp: fresh_chunk_def)
  have pb: "p \<notin> set (g_blocks g)" using inv fr by (auto simp: pool_inv_def dest: fresh_not_block)
  have "p \<notin> set (allocs s (g_larges g))"
    using inv p(2) unfolding pool_inv_def manager_ok_def larges_ok_def large_chunk_def
    by (metis fst_conv image_eqI)
  moreover have "(p, n) \<notin> set (g_regions g)"
  proof
    assume "(p, n) \<in> set (g_regions g)"
    then have "in_block s pool (g_blocks g) (p, n) \<or> (p, n) \<in> set (live s)"
      using inv by (auto simp: pool_inv_def regions_ok_def large_chunk_def)
    then have "in_block s pool (g_blocks g) (p, n)" using p(2) by (metis fst_conv image_eqI)
    then have "in_block ?s pool (g_blocks g) (p, n)" by (simp add: in_block_def)
    then show False using chunk_not_in_block [OF ok _ pb n] by simp
  qed
  ultimately show ?thesis using p pb n by (auto simp: unowned_def allocs_def)
qed

lemma unowned_disjoint:
  assumes inv: "pool_inv s pool g" and u: "unowned s g p n" and r: "r \<in> set (g_regions g)"
  shows "disjoint (p, n) r"
proof -
  from inv have ok: "live_ok s" "blocks_ok s pool g" "regions_ok s pool g" by (auto simp: pool_inv_def)
  have c: "(p, n) \<in> set (live s)" "p \<notin> set (g_blocks g)" using u by (auto simp: unowned_def)
  from ok(3) r consider "in_block s pool (g_blocks g) r" | "large_chunk s (g_blocks g) r"
    by (auto simp: regions_ok_def)
  then show ?thesis
  proof cases
    case 1
    then obtain b d where b: "b \<in> set (g_blocks g)" "heap_d s b = Some d"
      "b + header pool b \<le> fst r" "fst r + snd r \<le> d_last d" by (auto simp: in_block_def)
    then have "block_ok s pool (g_size g) b" using ok(2) by (simp add: blocks_ok_def)
    then have "inside r (b, g_size g)" using b(2-4) by (rule inside_block)
    moreover have "disjoint (b, g_size g) (p, n)" using block_disjoint_chunk [OF ok(1,2) c b(1)] .
    ultimately show ?thesis using inside_disjoint disjoint_sym inside_refl by blast
  next
    case 2
    then have rl: "r \<in> set (live s)" by (simp add: large_chunk_def)
    moreover have "fst r \<noteq> p"
      using u r rl live_unique [OF ok(1) c(1), of "snd r"] by (metis prod.collapse unowned_def)
    ultimately show ?thesis using live_disjoint [OF ok(1) c(1)] by auto
  qed
qed

lemma unowned_grown:
  assumes inv: "pool_inv t pool g'" and u: "unowned s g p n" and gr: "grown s pool g (l, k) t g'"
  shows "unowned t g' p n"
proof -
  from gr obtain xs where g': "g' = g\<lparr>g_blocks := g_blocks g @ xs, g_regions := (l, k) # g_regions g\<rparr>"
    and xs: "\<forall>b \<in> set xs. b \<notin> fst ` set (live s)" by (auto simp: grown_def)
  from inv have ok: "live_ok t" "blocks_ok t pool g'" by (auto simp: pool_inv_def)
  have live: "set (live s) \<subseteq> set (live t)" and hl: "heap_l t = heap_l s"
    and ib: "in_block t pool (g_blocks g') (l, k)"
    using gr by (auto simp: grown_def)
  have p: "(p, n) \<in> set (live s)" "p \<noteq> 0" "0 < n" "p \<notin> set (g_blocks g)"
    "p \<notin> set (allocs s (g_larges g))" "(p, n) \<notin> set (g_regions g)"
    using u by (auto simp: unowned_def)
  have pt: "(p, n) \<in> set (live t)" using p live by auto
  have "p \<notin> set xs" using xs p(1) by force
  with g' p have pb: "p \<notin> set (g_blocks g')" by simp
  have "(l, k) \<noteq> (p, n)" using chunk_not_in_block [OF ok pt pb p(3)] ib by auto
  moreover have "allocs t (g_larges g') = allocs s (g_larges g)"
    using g' hl by (simp add: allocs_def)
  ultimately show ?thesis using p pt pb g' by (auto simp: unowned_def)
qed

lemma free_unowned_inv:
  assumes inv: "pool_inv s pool g" and u: "unowned s g p n"
  shows "c_free p s = Some (freed (p, n) s)" and "pool_inv (freed (p, n) s) pool g"
proof -
  from inv have ok: "live_ok s" "regions_ok s pool g" by (auto simp: pool_inv_def)
  have c: "(p, n) \<in> set (live s)" "p \<notin> set (g_blocks g)" "p \<notin> set (allocs s (g_larges g))"
    using u by (auto simp: unowned_def)
  show "c_free p s = Some (freed (p, n) s)" using c_free_live [OF ok(1) c(1)] .
  have "\<forall>r \<in> set (g_regions g). fst r \<noteq> p \<or> in_block s pool (g_blocks g) r"
    using ok(2) u live_unique [OF ok(1) c(1)] unfolding regions_ok_def large_chunk_def unowned_def
    by (metis prod.collapse)
  then show "pool_inv (freed (p, n) s) pool g" using free_inv [OF inv c] by blast
qed

section \<open>Recording a chunk\<close>

lemma regions_ok_own:
  assumes "pool_inv s pool g" and "unowned s g p n"
  shows "regions_ok s pool (g\<lparr>g_regions := (p, n) # g_regions g\<rparr>)"
  using assms unowned_disjoint [OF assms]
  by (auto simp: pool_inv_def regions_ok_def unowned_def large_chunk_def)

text \<open>A new list entry for the chunk, at the head of the list.\<close>

definition recorded :: "mem \<Rightarrow> ptr \<Rightarrow> ptr \<Rightarrow> ptr \<Rightarrow> mem" where
  "recorded s pool l p = s\<lparr>
     heap_l := (heap_l s)(l \<mapsto> \<lparr>lg_next = pl_large (the (heap_p s pool)), lg_alloc = p\<rparr>),
     heap_p := (heap_p s)(pool \<mapsto> (the (heap_p s pool))\<lparr>pl_large := l\<rparr>)\<rparr>"

definition g_record :: "ghost \<Rightarrow> ptr \<Rightarrow> ptr \<Rightarrow> nat \<Rightarrow> ghost" where
  "g_record g l p n = g\<lparr>g_larges := l # g_larges g, g_regions := (p, n) # g_regions g\<rparr>"

lemma in_block_cong: "heap_d t = heap_d s \<Longrightarrow> in_block t pool bs r = in_block s pool bs r"
  by (simp add: in_block_def)

lemma large_chunk_cong: "live t = live s \<Longrightarrow> large_chunk t bs r = large_chunk s bs r"
  by (simp add: large_chunk_def)

lemma recorded_inv:
  assumes inv: "pool_inv s pool g" and u: "unowned s g p n"
    and l: "in_block s pool (g_blocks g) (l, 16)" "(l, 16) \<in> set (g_regions g)" "l \<noteq> 0"
      "l \<notin> set (g_larges g)"
  shows "pool_inv (recorded s pool l p) pool (g_record g l p n)"
proof -
  let ?t = "recorded s pool l p" and ?g = "g_record g l p n"
  from inv have ok: "live_ok s" "blocks_ok s pool g" "regions_ok s pool g" by (auto simp: pool_inv_def)
  from inv obtain pl where pl: "heap_p s pool = Some pl" "manager_ok s pool g pl"
    by (auto simp: pool_inv_def)
  have same: "heap_d ?t = heap_d s" "live ?t = live s" "heap_c ?t = heap_c s" "heap_f ?t = heap_f s"
    "heap_p ?t pool = Some (pl\<lparr>pl_large := l\<rparr>)"
    "heap_l ?t = (heap_l s)(l \<mapsto> \<lparr>lg_next = pl_large pl, lg_alloc = p\<rparr>)"
    using pl by (simp_all add: recorded_def)
  note [simp] = same in_block_cong [OF same(1)] large_chunk_cong [OF same(2)]
  have "live_ok ?t" using ok by (simp add: live_ok_def)
  moreover have "blocks_ok ?t pool ?g"
    using ok by (simp add: blocks_ok_def block_ok_def g_record_def)
  moreover have "regions_ok ?t pool ?g"
    using regions_ok_own [OF inv u] by (simp add: regions_ok_def g_record_def)
  moreover have "larges_ok ?t pool ?g l"
  proof -
    have lo: "larges_ok s pool g (pl_large pl)" using pl(2) by (simp add: manager_ok_def)
    have old: "\<forall>x \<in> set (g_larges g). heap_l ?t x = heap_l s x" using l(4) by auto
    have "path (next_l ?t) (pl_large pl) (g_larges g)"
      using lo old path_cong [of "g_larges g" "next_l ?t" "next_l s" "pl_large pl"]
      by (simp add: larges_ok_def)
    then have "path (next_l ?t) l (l # g_larges g)" using l(3) by simp
    moreover have "allocs ?t (l # g_larges g) = p # allocs s (g_larges g)"
      using allocs_cong [OF old] u by (simp add: allocs_def unowned_def)
    ultimately show ?thesis using lo l u
      unfolding larges_ok_def by (auto simp: g_record_def unowned_def large_chunk_def)
  qed
  moreover have "cleanups_ok ?t pool ?g (pl_cleanup pl)"
    by (rule cleanups_ok_mono [of s pool g])
      (use pl(2) in \<open>auto simp: manager_ok_def g_record_def\<close>)
  ultimately show ?thesis using pl by (auto simp: pool_inv_def manager_ok_def g_record_def)
qed

text \<open>An entry whose memory was freed takes the chunk.\<close>

definition reused :: "mem \<Rightarrow> ptr \<Rightarrow> ptr \<Rightarrow> mem" where
  "reused s l p = s\<lparr>heap_l := (heap_l s)(l \<mapsto> (the (heap_l s l))\<lparr>lg_alloc := p\<rparr>)\<rparr>"

lemma allocs_split:
  "allocs s (us @ l # vs) = allocs s us @
     (if lg_alloc (the (heap_l s l)) = 0 then [] else [lg_alloc (the (heap_l s l))]) @ allocs s vs"
  by (simp add: allocs_def)

lemma reused_inv:
  assumes inv: "pool_inv s pool g" and u: "unowned s g p n"
    and l: "l \<in> set (g_larges g)" "heap_l s l = Some e" "lg_alloc e = 0"
  shows "pool_inv (reused s l p) pool (g\<lparr>g_regions := (p, n) # g_regions g\<rparr>)"
proof -
  let ?t = "reused s l p" and ?g = "g\<lparr>g_regions := (p, n) # g_regions g\<rparr>"
  from inv have ok: "live_ok s" "blocks_ok s pool g" "regions_ok s pool g" by (auto simp: pool_inv_def)
  from inv obtain pl where pl: "heap_p s pool = Some pl" "manager_ok s pool g pl"
    by (auto simp: pool_inv_def)
  have same: "heap_d ?t = heap_d s" "live ?t = live s" "heap_c ?t = heap_c s" "heap_f ?t = heap_f s"
    "heap_p ?t = heap_p s" "heap_l ?t = (heap_l s)(l \<mapsto> e\<lparr>lg_alloc := p\<rparr>)"
    using l by (simp_all add: reused_def)
  note [simp] = same in_block_cong [OF same(1)] large_chunk_cong [OF same(2)]
  have "live_ok ?t" using ok by (simp add: live_ok_def)
  moreover have "blocks_ok ?t pool ?g" using ok by (simp add: blocks_ok_def block_ok_def)
  moreover have "regions_ok ?t pool ?g"
    using regions_ok_own [OF inv u] by (simp add: regions_ok_def)
  moreover have "larges_ok ?t pool ?g (pl_large pl)"
  proof -
    have lo: "larges_ok s pool g (pl_large pl)" using pl(2) by (simp add: manager_ok_def)
    have "next_l ?t = next_l s" using l by (auto simp: fun_eq_iff)
    then have path: "path (next_l ?t) (pl_large pl) (g_larges g)" using lo by (simp add: larges_ok_def)
    obtain us vs where sp: "g_larges g = us @ l # vs" using l(1) by (meson split_list)
    then have "l \<notin> set us" "l \<notin> set vs" using path_distinct [OF path] by auto
    then have "allocs ?t us = allocs s us" "allocs ?t vs = allocs s vs"
      by (auto intro!: allocs_cong)
    then have al: "allocs ?t (g_larges g) = allocs s us @ p # allocs s vs"
      and "allocs s (g_larges g) = allocs s us @ allocs s vs"
      using l u by (simp_all add: sp allocs_split unowned_def)
    then show ?thesis using lo u path al
      by (auto simp: larges_ok_def unowned_def large_chunk_def)
  qed
  moreover have "cleanups_ok ?t pool ?g (pl_cleanup pl)"
    by (rule cleanups_ok_mono [of s pool g]) (use pl(2) in \<open>auto simp: manager_ok_def\<close>)
  ultimately show ?thesis using pl by (auto simp: pool_inv_def manager_ok_def)
qed

section \<open>The operations\<close>

text \<open>The scan looks at the first five entries at most.\<close>

lemma palloc_large_loop_spec:
  assumes "path (next_l s) l xs" and "n \<le> 4"
  shows "palloc_large_loop s l n =
    Some (List.find (\<lambda>x. lg_alloc (the (heap_l s x)) = 0) (take (5 - n) xs))"
  using assms
proof (induction xs arbitrary: l n)
  case Nil
  then show ?case by (subst palloc_large_loop.simps) simp
next
  case (Cons x xs)
  then obtain e where e: "heap_l s x = Some e" "l = x" "x \<noteq> 0" "path (next_l s) (lg_next e) xs"
    by auto
  have "take (5 - n) (x # xs) = x # take (4 - n) xs"
    using Cons.prems(2) by (simp add: take_Cons')
  moreover have "palloc_large_loop s (lg_next e) (n + 1) =
      Some (List.find (\<lambda>x. lg_alloc (the (heap_l s x)) = 0) (take (4 - n) xs))" if "n < 4"
    using Cons.IH [OF e(4), of "n + 1"] that by simp
  moreover have "n = 4" if "\<not> n < 4" using that Cons.prems(2) by simp
  ultimately show ?case using e by (subst palloc_large_loop.simps) (cases "n < 4"; auto)
qed

text \<open>
  \<open>handed s pool g r t g'\<close>: the step from \<open>s\<close> to \<open>t\<close> handed out the region \<open>r\<close>, which
  overlaps nothing handed out before, and kept the invariant.
\<close>

definition handed :: "mem \<Rightarrow> ptr \<Rightarrow> ghost \<Rightarrow> region \<Rightarrow> mem \<Rightarrow> ghost \<Rightarrow> bool" where
  "handed s pool g r t g' \<longleftrightarrow> pool_inv t pool g' \<and>
     r \<in> set (g_regions g') \<and> set (g_regions g) \<subseteq> set (g_regions g') \<and>
     (\<forall>q \<in> set (g_regions g). disjoint r q) \<and>
     g_size g' = g_size g \<and> g_cleanups g' = g_cleanups g \<and> (\<exists>xs. g_blocks g' = g_blocks g @ xs) \<and>
     (\<forall>q. in_block s pool (g_blocks g) q \<longrightarrow> in_block t pool (g_blocks g') q) \<and>
     heap_c t = heap_c s \<and> heap_f t = heap_f s \<and> raw t = raw s \<and> events t = events s \<and>
     map_option pl_cleanup (heap_p t pool) = map_option pl_cleanup (heap_p s pool)"

lemma grown_handed:
  assumes "pool_inv t pool g'" and "grown s pool g r t g'"
  shows "handed s pool g r t g'"
proof -
  have "\<forall>q \<in> set (g_regions g). disjoint r q"
    using assms by (auto simp: pool_inv_def regions_ok_def grown_def)
  then show ?thesis using assms by (auto simp: handed_def grown_def)
qed

lemma handed_after_chunk:
  "handed (s\<lparr>live := cs\<rparr>) pool g r t g' \<Longrightarrow> handed s pool g r t g'"
  by (simp add: handed_def in_block_def)

lemma palloc_large_link_spec:
  assumes A: "allocator_ok A" and inv: "pool_inv s pool g" and u: "unowned s g p n"
  obtains (fail) t where "palloc_large_link A s pool p = Some (0, t)" and "pool_inv t pool g"
      and "A 16 (live s) (g_size g) = None"
  | (ok) t g' where "palloc_large_link A s pool p = Some (p, t)" and "handed s pool g (p, n) t g'"
proof -
  have sz: "16 + sizeof_pool \<le> g_size g" using inv by (simp add: pool_inv_def blocks_ok_def)
  from A inv sz show thesis
  proof (cases rule: ngx_palloc_small_spec [where al = True])
    case fail
    then show thesis
      using free_unowned_inv [OF inv u] that(1) by (simp add: palloc_large_link_def)
  next
    case (ok l t g1)
    have u1: "unowned t g1 p n" using unowned_grown [OF ok(5) u ok(4)] .
    from ok(4) obtain xs where g1: "g1 = g\<lparr>g_blocks := g_blocks g @ xs, g_regions := (l, 16) # g_regions g\<rparr>"
      and ib: "in_block t pool (g_blocks g1) (l, 16)" by (auto simp: grown_def)
    have ll: "l \<notin> set (g_larges g1)"
    proof
      assume "l \<in> set (g_larges g1)"
      then have "(l, 16) \<in> set (g_regions g)"
        using inv g1 by (auto simp: pool_inv_def manager_ok_def larges_ok_def)
      moreover have "separated (g_regions g1)" using ok(5) by (simp add: pool_inv_def regions_ok_def)
      ultimately show False using g1 by (auto simp: disjoint_def)
    qed
    have rec: "pool_inv (recorded t pool l p) pool (g_record g1 l p n)"
      using recorded_inv [OF ok(5) u1 ib _ ok(2) ll] g1 by simp
    obtain pl where pl: "heap_p t pool = Some pl" using ok(5) by (auto simp: pool_inv_def)
    have "palloc_large_link A s pool p = Some (p, recorded t pool l p)"
      using ok(1,2) pl by (simp add: palloc_large_link_def recorded_def)
    moreover have "handed s pool g (p, n) (recorded t pool l p) (g_record g1 l p n)"
    proof -
      have "handed s pool g (l, 16) t g1" using grown_handed [OF ok(5,4)] .
      then show ?thesis using rec g1 pl unowned_disjoint [OF inv u]
        by (auto simp: handed_def g_record_def recorded_def in_block_def)
    qed
    ultimately show thesis by (rule that(2))
  qed
qed

end
