(* ===== verification/Ngx_Palloc_Ops.thy ===== *)
theory Ngx_Palloc_Ops
  imports Ngx_Palloc_Large
begin

text \<open>
  What every operation of the pool does on a pool that satisfies the invariant: it never
  faults, it fails only when the C library does, and it keeps the invariant.
\<close>

section \<open>Allocation\<close>

text \<open>
  The requests to the C library that a call makes: a small allocation that finds no room asks for a block; a large one asks for
  a chunk and, with that chunk live, perhaps for a block to hold its list entry. The C library refuses the call when it answers
  one of these requests with \<^verbatim>\<open>NULL\<close>.
\<close>

definition chunk_refused :: "allocator \<Rightarrow> region list \<Rightarrow> nat \<Rightarrow> nat \<Rightarrow> nat \<Rightarrow> bool" where
  "chunk_refused A cs block al sz \<longleftrightarrow> (case A al cs sz of None \<Rightarrow> True | Some q \<Rightarrow> A 16 ((q, sz) # cs) block = None)"

definition request_refused :: "allocator \<Rightarrow> mem \<Rightarrow> ptr \<Rightarrow> ghost \<Rightarrow> nat \<Rightarrow> bool" where
  "request_refused A s pool g sz \<longleftrightarrow>
     (if sz \<le> pl_max (the (heap_p s pool)) then A 16 (live s) (g_size g) = None
      else chunk_refused A (live s) (g_size g) 16 sz)"

lemma chunk_refusedI:
  "A al cs sz = None \<Longrightarrow> chunk_refused A cs block al sz"
  "ngx_memalign A al sz s = (p, s\<lparr>live := (p, sz) # live s\<rparr>) \<Longrightarrow> A 16 ((p, sz) # live s) block = None \<Longrightarrow>
    chunk_refused A (live s) block al sz"
  by (auto simp: chunk_refused_def ngx_memalign_def c_memalign_def split: option.splits)

lemma ngx_palloc_large_spec:
  assumes A: "allocator_ok A" and inv: "pool_inv s pool g" and n: "0 < sz"
  obtains (fail) t where "ngx_palloc_large A s pool sz = Some (0, t)" and "pool_inv t pool g"
      and "chunk_refused A (live s) (g_size g) 16 sz"
  | (ok) m t g' where "ngx_palloc_large A s pool sz = Some (m, t)" and "m \<noteq> 0" and "16 dvd m"
      and "handed s pool g (m, sz) t g'"
proof -
  obtain p s1 where al: "ngx_alloc A sz s = (p, s1)" by fastforce
  then have mm: "ngx_memalign A 16 sz s = (p, s1)" by (simp add: ngx_alloc_is_memalign)
  from A mm show thesis
  proof (cases rule: ngx_memalign_cases)
    case fail
    then show thesis using al inv by (intro that(1) [of s]) (auto simp: ngx_palloc_large_def intro: chunk_refusedI)
  next
    case ok
    have inv1: "pool_inv s1 pool g" using add_chunk_inv [OF inv ok(1)] ok(3) by simp
    have u: "unowned s1 g p sz" using fresh_unowned [OF inv ok(1) n] ok(3) by simp
    then have p: "p \<noteq> 0" by (simp add: unowned_def)
    from inv1 obtain pl where pl: "heap_p s1 pool = Some pl"
      and path: "path (next_l s1) (pl_large pl) (g_larges g)"
      by (auto simp: pool_inv_def manager_ok_def larges_ok_def)
    let ?r = "List.find (\<lambda>x. lg_alloc (the (heap_l s1 x)) = 0) (take 5 (g_larges g))"
    have loop: "palloc_large_loop s1 (pl_large pl) 0 = Some ?r"
      using palloc_large_loop_spec [OF path, of 0] by simp
    show thesis
    proof (cases ?r)
      case None
      have step: "ngx_palloc_large A s pool sz = palloc_large_link A s1 pool p"
        using al p pl loop None by (simp add: ngx_palloc_large_def)
      from A inv1 u show thesis
      proof (cases rule: palloc_large_link_spec)
        case (fail t)
        then show thesis using step chunk_refusedI(2) [OF mm [unfolded ok(3)]] ok(3) by (intro that(1) [of t]) auto
      next
        case link: (ok t g')
        then show thesis using step p ok(2,3)
          by (intro that(2) [of p t g']) (auto dest: handed_after_chunk)
      qed
    next
      case (Some l)
      then have l: "l \<in> set (g_larges g)" "lg_alloc (the (heap_l s1 l)) = 0"
        by (auto simp: find_Some_iff dest!: in_set_takeD [OF nth_mem])
      then obtain e where e: "heap_l s1 l = Some e" using path_defined [OF path] by auto
      have "ngx_palloc_large A s pool sz = Some (p, reused s1 l p)"
        using al p pl loop Some e by (simp add: ngx_palloc_large_def reused_def)
      moreover have "pool_inv (reused s1 l p) pool (g\<lparr>g_regions := (p, sz) # g_regions g\<rparr>)"
        using reused_inv [OF inv1 u l(1) e] l(2) e by simp
      then have "handed s1 pool g (p, sz) (reused s1 l p) (g\<lparr>g_regions := (p, sz) # g_regions g\<rparr>)"
        using unowned_disjoint [OF inv1 u] by (auto simp: handed_def reused_def in_block_def)
      ultimately show thesis using p ok(2,3) by (intro that(2)) (auto dest: handed_after_chunk)
    qed
  qed
qed

lemma pool_maxE:
  assumes "pool_inv s pool g"
  obtains pl where "heap_p s pool = Some pl" and "24 \<le> pl_max pl" and "pl_max pl + 80 \<le> g_size g"
  using assms by (auto simp: pool_inv_def manager_ok_def)

text \<open>The common specification of \<^verbatim>\<open>ngx_palloc\<close> (aligned) and \<^verbatim>\<open>ngx_pnalloc\<close> (not aligned).\<close>

definition alloc_spec ::
  "allocator \<Rightarrow> mem \<Rightarrow> ptr \<Rightarrow> ghost \<Rightarrow> nat \<Rightarrow> bool \<Rightarrow> (ptr \<times> mem) option \<Rightarrow> bool" where
  "alloc_spec A s pool g sz al res \<longleftrightarrow>
     (\<exists>t. res = Some (0, t) \<and> pool_inv t pool g \<and> request_refused A s pool g sz) \<or>
     (\<exists>m t g'. res = Some (m, t) \<and> m \<noteq> 0 \<and> (al \<longrightarrow> 8 dvd m) \<and> handed s pool g (m, sz) t g' \<and>
        (sz \<le> pl_max (the (heap_p s pool)) \<longrightarrow> in_block t pool (g_blocks g') (m, sz)))"

lemma palloc_small_meets:
  assumes "allocator_ok A" and "pool_inv s pool g" and "sz + 80 \<le> g_size g" and "sz \<le> pl_max (the (heap_p s pool))"
  shows "alloc_spec A s pool g sz al (ngx_palloc_small A s pool sz al)"
  using assms(1-3)
proof (cases rule: ngx_palloc_small_spec [where al = al])
  case fail
  with assms(2,4) show ?thesis by (auto simp: alloc_spec_def request_refused_def)
next
  case (ok m t g')
  then have "in_block t pool (g_blocks g') (m, sz)" by (simp add: grown_def)
  with ok show ?thesis using grown_handed [OF ok(5,4)] by (auto simp: alloc_spec_def)
qed

lemma palloc_large_meets:
  assumes "allocator_ok A" and "pool_inv s pool g" and "0 < sz" and "\<not> sz \<le> pl_max (the (heap_p s pool))"
  shows "alloc_spec A s pool g sz al (ngx_palloc_large A s pool sz)"
  using assms(1-3)
proof (cases rule: ngx_palloc_large_spec)
  case (fail t)
  then show ?thesis using assms(4) by (auto simp: alloc_spec_def request_refused_def)
next
  case (ok m t g')
  have "8 dvd m" using ok(3) by (rule dvd_trans [rotated]) simp
  with ok show ?thesis using assms(4) by (auto simp: alloc_spec_def)
qed

lemma ngx_palloc_meets:
  assumes "allocator_ok A" and "pool_inv s pool g"
  shows "alloc_spec A s pool g sz True (ngx_palloc A s pool sz)"
proof -
  obtain pl where pl: "heap_p s pool = Some pl" "24 \<le> pl_max pl" "pl_max pl + 80 \<le> g_size g"
    using pool_maxE [OF assms(2)] .
  show ?thesis
    using pl palloc_small_meets [OF assms, of sz] palloc_large_meets [OF assms, of sz]
    by (cases "sz \<le> pl_max pl") (auto simp: ngx_palloc_def)
qed

lemma ngx_pnalloc_meets:
  assumes "allocator_ok A" and "pool_inv s pool g"
  shows "alloc_spec A s pool g sz False (ngx_pnalloc A s pool sz)"
proof -
  obtain pl where pl: "heap_p s pool = Some pl" "24 \<le> pl_max pl" "pl_max pl + 80 \<le> g_size g"
    using pool_maxE [OF assms(2)] .
  show ?thesis
    using pl palloc_small_meets [OF assms, of sz] palloc_large_meets [OF assms, of sz]
    by (cases "sz \<le> pl_max pl") (auto simp: ngx_pnalloc_def)
qed

lemma memzero_inv [simp]: "pool_inv (ngx_memzero p n s) pool g = pool_inv s pool g"
  by (simp add: pool_inv_def live_ok_def blocks_ok_def block_ok_def regions_ok_def in_block_def
      large_chunk_def manager_ok_def larges_ok_def allocs_def cleanups_ok_def handler_ok_def
      ngx_memzero_def)

lemma ngx_pmemalign_meets:
  assumes A: "allocator_ok A" and inv: "pool_inv s pool g" and n: "0 < sz"
  shows "(\<exists>t. ngx_pmemalign A s pool sz alignment = Some (0, t) \<and> pool_inv t pool g \<and>
            chunk_refused A (live s) (g_size g) alignment sz) \<or>
         (\<exists>m t g'. ngx_pmemalign A s pool sz alignment = Some (m, t) \<and> m \<noteq> 0 \<and>
            alignment dvd m \<and> handed s pool g (m, sz) t g')"
proof -
  obtain p s1 where mm: "ngx_memalign A alignment sz s = (p, s1)" by fastforce
  from A mm show ?thesis
  proof (cases rule: ngx_memalign_cases)
    case fail
    then show ?thesis using mm inv by (auto simp: ngx_pmemalign_def intro: chunk_refusedI)
  next
    case ok
    have inv1: "pool_inv s1 pool g" using add_chunk_inv [OF inv ok(1)] ok(3) by simp
    have u: "unowned s1 g p sz" using fresh_unowned [OF inv ok(1) n] ok(3) by simp
    then have p: "p \<noteq> 0" by (simp add: unowned_def)
    have step: "ngx_pmemalign A s pool sz alignment = palloc_large_link A s1 pool p"
      using mm p by (simp add: ngx_pmemalign_def)
    from A inv1 u show ?thesis
    proof (cases rule: palloc_large_link_spec)
      case (fail t)
      then show ?thesis using step chunk_refusedI(2) [OF mm [unfolded ok(3)]] ok(3) by auto
    next
      case link: (ok t g')
      then show ?thesis using step p ok(2,3) by (auto dest: handed_after_chunk)
    qed
  qed
qed

end
