(* ===== verification/Ngx_Palloc_Free.thy ===== *)
theory Ngx_Palloc_Free
  imports Ngx_Palloc_Ops
begin

text \<open>
  Release of pool memory: \<^verbatim>\<open>ngx_pfree\<close>, \<^verbatim>\<open>ngx_reset_pool\<close> and \<^verbatim>\<open>ngx_destroy_pool\<close>. The
  loops that free chunks are described by one function, \<open>released\<close>, from which it follows
  that every chunk is freed exactly once and that no freed memory is read.
\<close>

section \<open>Releasing a set of chunks\<close>

definition wiped :: "region set \<Rightarrow> (ptr \<Rightarrow> 'a option) \<Rightarrow> ptr \<Rightarrow> 'a option" where
  "wiped R h = (\<lambda>x. if \<exists>c \<in> R. fst c \<le> x \<and> x < fst c + snd c then None else h x)"

abbreviation chunks_of :: "mem \<Rightarrow> ptr set \<Rightarrow> region set" where
  "chunks_of s P \<equiv> {c \<in> set (live s). fst c \<in> P}"

definition released :: "ptr set \<Rightarrow> mem \<Rightarrow> mem" where
  "released P s = s\<lparr>live := filter (\<lambda>c. fst c \<notin> P) (live s),
     heap_d := wiped (chunks_of s P) (heap_d s), heap_p := wiped (chunks_of s P) (heap_p s),
     heap_l := wiped (chunks_of s P) (heap_l s), heap_c := wiped (chunks_of s P) (heap_c s),
     heap_f := wiped (chunks_of s P) (heap_f s)\<rparr>"

lemma released_simps [simp]:
  "live (released P s) = filter (\<lambda>c. fst c \<notin> P) (live s)"
  "heap_d (released P s) = wiped (chunks_of s P) (heap_d s)"
  "heap_p (released P s) = wiped (chunks_of s P) (heap_p s)"
  "heap_l (released P s) = wiped (chunks_of s P) (heap_l s)"
  "heap_c (released P s) = wiped (chunks_of s P) (heap_c s)"
  "heap_f (released P s) = wiped (chunks_of s P) (heap_f s)"
  "raw (released P s) = raw s" "events (released P s) = events s"
  "ngx_pagesize (released P s) = ngx_pagesize s"
  by (simp_all add: released_def)

lemma wiped_empty [simp]: "wiped {} h = h"
  by (simp add: wiped_def)

lemma wiped_wiped: "wiped A (wiped B h) = wiped (A \<union> B) h"
  by (auto simp: wiped_def fun_eq_iff)

lemma released_empty [simp]: "released {} s = s"
  by (simp add: released_def)

lemma released_released: "released P (released Q s) = released (P \<union> Q) s"
proof -
  have "chunks_of (released Q s) P \<union> chunks_of s Q = chunks_of s (P \<union> Q)" by auto
  then show ?thesis
    by (simp add: released_def wiped_wiped conj_commute)
qed

lemma freed_released:
  assumes "live_ok s" and "(p, n) \<in> set (live s)"
  shows "freed (p, n) s = released {p} s"
proof -
  have "chunks_of s {p} = {(p, n)}"
    using assms live_unique [OF assms(1)] by (auto intro: live_unique)
  then show ?thesis by (simp add: freed_def released_def forget_def wiped_def)
qed

lemma c_free_released:
  "live_ok s \<Longrightarrow> p \<in> fst ` set (live s) \<Longrightarrow> c_free p s = Some (released {p} s)"
  using c_free_live freed_released by fastforce

lemma live_ok_released: "live_ok s \<Longrightarrow> live_ok (released P s)"
  by (auto simp: live_ok_def separated_filter distinct_map_filter)

lemma wiped_outside:
  "\<forall>c \<in> R. \<not> (fst c \<le> x \<and> x < fst c + snd c) \<Longrightarrow> wiped R h x = h x"
  by (auto simp: wiped_def)

text \<open>An address that lies in no chunk of \<open>P\<close>.\<close>

definition outside :: "mem \<Rightarrow> ptr set \<Rightarrow> ptr \<Rightarrow> bool" where
  "outside s P x \<longleftrightarrow> (\<forall>c \<in> set (live s). fst c \<in> P \<longrightarrow> \<not> (fst c \<le> x \<and> x < fst c + snd c))"

lemma outside_wiped: "outside s P x \<Longrightarrow> wiped (chunks_of s P) h x = h x"
  by (auto simp: outside_def intro: wiped_outside)

lemma outside_mono: "outside s P x \<Longrightarrow> Q \<subseteq> P \<Longrightarrow> outside (released R s) Q x"
  unfolding outside_def by (fastforce simp: subset_iff)

lemma outside_wiped_one:
  "outside s P x \<Longrightarrow> p \<in> P \<Longrightarrow> wiped {c \<in> set (live s). fst c = p} h x = h x"
  by (rule wiped_outside) (auto simp: outside_def)

section \<open>The loops\<close>

lemma free_large_loop_spec:
  assumes "path (next_l s) l xs" and "live_ok s" and "distinct (allocs s xs)"
    and "set (allocs s xs) \<subseteq> fst ` set (live s)" and "\<forall>x \<in> set xs. outside s (set (allocs s xs)) x"
  shows "free_large_loop s l = Some (released (set (allocs s xs)) s)"
  using assms
proof (induction xs arbitrary: s l)
  case Nil
  then show ?case by (subst free_large_loop.simps) (simp add: allocs_def)
next
  case (Cons x xs)
  from Cons.prems(1) obtain e where e: "heap_l s x = Some e" "l = x" "x \<noteq> 0"
    "path (next_l s) (lg_next e) xs" by auto
  have al: "allocs s (x # xs) = (if lg_alloc e = 0 then [] else [lg_alloc e]) @ allocs s xs"
    using e by (simp add: allocs_def)
  show ?case
  proof (cases "lg_alloc e = 0")
    case True
    then show ?thesis using e al Cons.IH [OF e(4)] Cons.prems
      by (subst free_large_loop.simps) simp
  next
    case False
    let ?s = "released {lg_alloc e} s"
    have free: "c_free (lg_alloc e) s = Some ?s"
      using Cons.prems(2,4) al False by (intro c_free_released) auto
    have keep: "heap_l ?s y = heap_l s y" if "y \<in> set (x # xs)" for y
    proof -
      have "outside s (set (allocs s (x # xs))) y" using Cons.prems(5) that by blast
      moreover have "lg_alloc e \<in> set (allocs s (x # xs))" using al False by simp
      ultimately show ?thesis using outside_wiped_one by simp
    qed
    then have als: "allocs ?s xs = allocs s xs" by (intro allocs_cong) simp
    have "path (next_l ?s) (lg_next e) xs"
      using e(4) keep path_cong [of xs "next_l ?s" "next_l s"] by simp
    moreover have "set (allocs s xs) \<subseteq> fst ` set (live ?s)"
      using Cons.prems(3,4) al False by (fastforce simp: image_iff)
    moreover have "\<forall>y \<in> set xs. outside ?s (set (allocs s xs)) y"
      using Cons.prems(5) al by (auto intro: outside_mono)
    ultimately have "free_large_loop ?s (lg_next e) = Some (released (set (allocs s xs)) ?s)"
      using Cons.IH [of ?s "lg_next e"] Cons.prems(2,3) al False als by (simp add: live_ok_released)
    then show ?thesis using e False free al keep [of x]
      by (subst free_large_loop.simps) (simp add: released_released)
  qed
qed

lemma free_blocks_loop_spec:
  assumes "path (next_d s) b (b # bs)" and "live_ok s" and "set (b # bs) \<subseteq> fst ` set (live s)"
    and "\<forall>x \<in> set (b # bs). outside s (set (b # bs) - {x}) x" and "heap_d s b = Some d"
  shows "free_blocks_loop s b (d_next d) = Some (released (set (b # bs)) s)"
  using assms
proof (induction bs arbitrary: s b d)
  case Nil
  then have "c_free b s = Some (released {b} s)" by (intro c_free_released) auto
  then show ?case using Nil by (subst free_blocks_loop.simps) auto
next
  case (Cons c bs)
  let ?s = "released {b} s"
  have free: "c_free b s = Some ?s" using Cons.prems(2,3) by (intro c_free_released) auto
  have ne: "b \<notin> set (c # bs)" using path_distinct [OF Cons.prems(1)] by simp
  have keep: "heap_d ?s y = heap_d s y" if y: "y \<in> set (c # bs)" for y
  proof -
    have "outside s (set (b # c # bs) - {y}) y" using Cons.prems(4) y by (metis list.set_intros(2))
    moreover have "b \<in> set (b # c # bs) - {y}" using y ne by auto
    ultimately have "wiped {c \<in> set (live s). fst c = b} (heap_d s) y = heap_d s y"
      by (rule outside_wiped_one)
    then show ?thesis by simp
  qed
  have nx: "d_next d = c" "c \<noteq> 0" "path (next_d s) c (c # bs)" using Cons.prems(1,5) by auto
  then obtain e where e: "heap_d s c = Some e" by auto
  have "path (next_d ?s) c (c # bs)"
    using nx(3) keep path_cong [of "c # bs" "next_d ?s" "next_d s" c] by simp
  moreover have "set (c # bs) \<subseteq> fst ` set (live ?s)"
    using Cons.prems(3) ne by (fastforce simp: image_iff)
  moreover have "\<forall>x \<in> set (c # bs). outside ?s (set (c # bs) - {x}) x"
    using Cons.prems(4) by (auto intro: outside_mono)
  ultimately have "free_blocks_loop ?s c (d_next e) = Some (released (set (c # bs)) ?s)"
    using Cons.IH [of ?s c e] Cons.prems(2) keep [of c] e by (simp add: live_ok_released)
  then show ?case using free nx keep [of c] e
    by (subst free_blocks_loop.simps) (simp add: released_released insert_commute)
qed

text \<open>The events of a cleanup handler.\<close>

definition handler_events :: "mem \<Rightarrow> ngx_pool_cleanup \<Rightarrow> event list" where
  "handler_events s e = (case cl_handler e of
     NoHandler \<Rightarrow> []
   | CleanupFile \<Rightarrow> [Closed (cf_fd (the (heap_f s (cl_data e))))]
   | DeleteFile \<Rightarrow> [Deleted (cf_name (the (heap_f s (cl_data e)))),
                   Closed (cf_fd (the (heap_f s (cl_data e))))]
   | UserHandler f \<Rightarrow> [Called f (cl_data e)])"

definition cleanup_events :: "mem \<Rightarrow> ptr list \<Rightarrow> event list" where
  "cleanup_events s cs = concat (map (\<lambda>c. handler_events s (the (heap_c s c))) cs)"

lemma call_handler_events:
  assumes "handler_ok s g e" and "cl_handler e \<noteq> NoHandler"
  shows "call_handler (cl_handler e) (cl_data e) s = Some (s\<lparr>events := events s @ handler_events s e\<rparr>)"
  using assms
  by (cases "cl_handler e")
    (auto simp: handler_ok_def handler_events_def ngx_pool_cleanup_file_def ngx_pool_delete_file_def)

lemma cleanup_events_cong:
  "heap_c t = heap_c s \<Longrightarrow> heap_f t = heap_f s \<Longrightarrow> cleanup_events t cs = cleanup_events s cs"
  by (simp add: cleanup_events_def handler_events_def cong: handler.case_cong)

lemma run_cleanups_loop_spec:
  assumes "path (next_c s) c cs" and "\<forall>c \<in> set cs. \<exists>e. heap_c s c = Some e \<and> handler_ok s g e"
  shows "run_cleanups_loop s c = Some (s\<lparr>events := events s @ cleanup_events s cs\<rparr>)"
  using assms
proof (induction cs arbitrary: s c)
  case Nil
  then show ?case by (subst run_cleanups_loop.simps) (simp add: cleanup_events_def)
next
  case (Cons x cs)
  then obtain e where e: "heap_c s x = Some e" "handler_ok s g e" "c = x" "x \<noteq> 0"
    "path (next_c s) (cl_next e) cs" by auto
  let ?s = "s\<lparr>events := events s @ handler_events s e\<rparr>"
  have hs: "(if cl_handler e \<noteq> NoHandler then call_handler (cl_handler e) (cl_data e) s
      else Some s) = Some ?s"
    using call_handler_events [OF e(2)] by (auto simp: handler_events_def)
  have "run_cleanups_loop ?s (cl_next e) = Some (?s\<lparr>events := events ?s @ cleanup_events ?s cs\<rparr>)"
    using e(5) Cons.prems(2) by (intro Cons.IH) (auto simp: handler_ok_def)
  moreover have "cleanup_events ?s cs = cleanup_events s cs" by (rule cleanup_events_cong) simp_all
  moreover have "cleanup_events s (x # cs) = handler_events s e @ cleanup_events s cs"
    using e(1) by (simp add: cleanup_events_def)
  ultimately show ?case using e hs
    by (subst run_cleanups_loop.simps) simp
qed

section \<open>Destruction and reset\<close>

text \<open>What the invariant says about the chunks of a pool.\<close>

lemma pool_inv_chunks:
  assumes "pool_inv s pool g"
  shows "set (g_blocks g) \<subseteq> fst ` set (live s)"
    and "set (allocs s (g_larges g)) \<subseteq> fst ` set (live s)"
    and "set (g_blocks g) \<inter> set (allocs s (g_larges g)) = {}"
    and "distinct (g_blocks g @ allocs s (g_larges g))"
proof -
  from assms obtain l0 where bo: "blocks_ok s pool g" and lo: "larges_ok s pool g l0"
    by (auto simp: pool_inv_def manager_ok_def)
  have lc: "p \<in> fst ` set (live s) \<and> p \<notin> set (g_blocks g)" if p: "p \<in> set (allocs s (g_larges g))" for p
  proof -
    obtain n where "large_chunk s (g_blocks g) (p, n)" using lo p by (auto simp: larges_ok_def)
    then show ?thesis by (auto simp: large_chunk_def image_iff intro: bexI [of _ "(p, n)"])
  qed
  have "b \<in> fst ` set (live s)" if "b \<in> set (g_blocks g)" for b
  proof -
    have "(b, g_size g) \<in> set (live s)" using bo that by (auto simp: blocks_ok_def block_ok_def)
    then show ?thesis by (metis fst_conv image_eqI)
  qed
  then show "set (g_blocks g) \<subseteq> fst ` set (live s)" by blast
  show "set (allocs s (g_larges g)) \<subseteq> fst ` set (live s)" using lc by blast
  show "set (g_blocks g) \<inter> set (allocs s (g_larges g)) = {}" using lc by blast
  moreover have "distinct (g_blocks g)" using bo path_distinct unfolding blocks_ok_def by blast
  moreover have "distinct (allocs s (g_larges g))" using lo by (simp add: larges_ok_def)
  ultimately show "distinct (g_blocks g @ allocs s (g_larges g))" by simp
qed

lemma outside_other_chunks:
  assumes "live_ok s" and "blocks_ok s pool g" and "b \<in> set (g_blocks g)" and "b \<notin> P"
    and "b \<le> x" and "x < b + g_size g"
  shows "outside s P x"
proof -
  have "(b, g_size g) \<in> set (live s)" using assms by (auto simp: blocks_ok_def block_ok_def)
  then have "disjoint (b, g_size g) c" if "c \<in> set (live s)" "fst c \<in> P" for c
    using live_disjoint [OF assms(1) _ that(1)] that(2) assms(4) by force
  then show ?thesis using assms(5,6) by (fastforce simp: outside_def disjoint_def)
qed

lemma in_block_outside:
  assumes "live_ok s" and "blocks_ok s pool g" and "in_block s pool (g_blocks g) (x, k)" and "0 < k"
    and "set (g_blocks g) \<inter> P = {}"
  shows "outside s P x"
  using in_block_bounds [OF assms(2-4)] outside_other_chunks [OF assms(1,2)] assms(5) by blast

lemma free_larges:
  assumes inv: "pool_inv s pool g" and pl: "heap_p s pool = Some pl"
  shows "free_large_loop s (pl_large pl) = Some (released (set (allocs s (g_larges g))) s)"
proof -
  from inv pl have ok: "live_ok s" "blocks_ok s pool g" and lo: "larges_ok s pool g (pl_large pl)"
    by (auto simp: pool_inv_def manager_ok_def)
  have "\<forall>l \<in> set (g_larges g). outside s (set (allocs s (g_larges g))) l"
    using lo in_block_outside [OF ok _ _ pool_inv_chunks(3) [OF inv]] by (fastforce simp: larges_ok_def)
  then show ?thesis
    using lo ok pool_inv_chunks(2) [OF inv] by (intro free_large_loop_spec) (auto simp: larges_ok_def)
qed

lemma wiped_block:
  assumes "live_ok s" and "blocks_ok s pool g" and "b \<in> set (g_blocks g)" and "b \<notin> P"
  shows "wiped (chunks_of s P) h b = h b"
  using assms outside_wiped [OF outside_other_chunks [OF assms order_refl]] by (simp add: blocks_ok_def)

text \<open>
  Destruction: the handlers run in list order, then every chunk of the pool is released:
  the blocks and the large allocations, nothing else, each once.
\<close>

lemma ngx_destroy_pool_released:
  assumes inv: "pool_inv s pool g"
  shows "ngx_destroy_pool s pool =
    Some (released (set (g_blocks g) \<union> set (allocs s (g_larges g)))
            (s\<lparr>events := events s @ cleanup_events s (g_cleanups g)\<rparr>))"
proof -
  from inv obtain pl where pl: "heap_p s pool = Some pl" "manager_ok s pool g pl"
    by (auto simp: pool_inv_def)
  let ?s = "s\<lparr>events := events s @ cleanup_events s (g_cleanups g)\<rparr>"
  let ?P = "set (allocs s (g_larges g))"
  have run: "run_cleanups_loop s (pl_cleanup pl) = Some ?s"
    using pl(2) by (intro run_cleanups_loop_spec [of s _ _ g]) (auto simp: manager_ok_def cleanups_ok_def)
  have inv': "pool_inv ?s pool g"
    using inv by (simp add: pool_inv_def live_ok_def blocks_ok_def block_ok_def regions_ok_def
      in_block_def large_chunk_def manager_ok_def larges_ok_def allocs_def cleanups_ok_def handler_ok_def)
  then have ok: "live_ok ?s" "blocks_ok ?s pool g" by (auto simp: pool_inv_def)
  have al: "allocs ?s (g_larges g) = allocs s (g_larges g)" by (simp add: allocs_def)
  have lg: "free_large_loop ?s (pl_large pl) = Some (released ?P ?s)"
    using free_larges [OF inv', of pl] pl al by simp
  note ch = pool_inv_chunks [OF inv', unfolded al]
  have keep: "heap_d (released ?P ?s) b = heap_d ?s b" if "b \<in> set (g_blocks g)" for b
    using wiped_block [OF ok that, of ?P] ch(3) that by auto
  have live: "live_ok (released ?P ?s)" using ok(1) by (rule live_ok_released)
  obtain bs where bs: "g_blocks g = pool # bs" and pd: "path (next_d ?s) pool (g_blocks g)"
    using ok(2) by (auto simp: blocks_ok_def path_nonzero)
  have path: "path (next_d (released ?P ?s)) pool (pool # bs)"
    using pd keep path_cong [of "g_blocks g" "next_d (released ?P ?s)" "next_d ?s" pool] bs by simp
  then obtain d where d: "heap_d (released ?P ?s) pool = Some d" by auto
  have "free_blocks_loop (released ?P ?s) pool (d_next d) =
      Some (released (set (pool # bs)) (released ?P ?s))"
  proof (rule free_blocks_loop_spec [OF path live _ _ d])
    show "set (pool # bs) \<subseteq> fst ` set (live (released ?P ?s))"
      using ch(1,3) bs by (fastforce simp: image_iff)
    show "\<forall>x \<in> set (pool # bs). outside (released ?P ?s) (set (pool # bs) - {x}) x"
    proof
      fix x assume x: "x \<in> set (pool # bs)"
      then have "outside ?s (set (pool # bs) - {x}) x"
        using bs ok by (intro outside_other_chunks [OF ok, of x]) (auto simp: blocks_ok_def)
      then show "outside (released ?P ?s) (set (pool # bs) - {x}) x" by (rule outside_mono) simp
    qed
  qed
  then show ?thesis using run lg d pl bs
    by (simp add: ngx_destroy_pool_def released_released)
qed

text \<open>Reset: the loop over the blocks as one update.\<close>

definition rewound :: "ptr set \<Rightarrow> mem \<Rightarrow> mem" where
  "rewound B s = s\<lparr>heap_d := (\<lambda>b. if b \<in> B
     then map_option (\<lambda>d. d\<lparr>d_last := b + sizeof_pool, d_failed := 0\<rparr>) (heap_d s b) else heap_d s b)\<rparr>"

lemma reset_loop_spec:
  assumes "path (next_d s) p bs"
  shows "reset_loop s p = Some (rewound (set bs) s)"
  using assms
proof (induction bs arbitrary: s p)
  case Nil
  then show ?case by (subst reset_loop.simps) (simp add: rewound_def)
next
  case (Cons x bs)
  then obtain d where d: "heap_d s x = Some d" "p = x" "x \<noteq> 0" "path (next_d s) (d_next d) bs" by auto
  let ?s = "s\<lparr>heap_d := (heap_d s)(x \<mapsto> d\<lparr>d_last := x + 80, d_failed := 0\<rparr>)\<rparr>"
  have x: "x \<notin> set bs" using path_distinct [OF Cons.prems] by simp
  have "path (next_d ?s) (d_next d) bs"
    by (rule iffD1 [OF path_cong d(4)]) (use x in auto)
  then have "reset_loop ?s (d_next d) = Some (rewound (set bs) ?s)" by (rule Cons.IH)
  moreover have "rewound (set bs) ?s = rewound (set (x # bs)) s"
    using d(1) x by (auto simp: rewound_def fun_eq_iff)
  ultimately show ?case using d by (subst reset_loop.simps) simp
qed

definition g_reset :: "ghost \<Rightarrow> ghost" where
  "g_reset g = g\<lparr>g_larges := [], g_regions := []\<rparr>"

lemma ngx_reset_pool_spec:
  assumes inv: "pool_inv s pool g" and nc: "g_cleanups g = []"
  obtains t where "ngx_reset_pool s pool = Some t" and "pool_inv t pool (g_reset g)"
    and "live t = filter (\<lambda>c. fst c \<notin> set (allocs s (g_larges g))) (live s)"
    and "events t = events s"
    and "\<forall>b \<in> set (g_blocks g). heap_d t b = map_option (\<lambda>d. d\<lparr>d_last := b + sizeof_pool, d_failed := 0\<rparr>) (heap_d s b)"
    and "heap_p t pool = map_option (\<lambda>pl. pl\<lparr>pl_current := pool, pl_chain := 0, pl_large := 0\<rparr>) (heap_p s pool)"
proof -
  from inv obtain pl where pl: "heap_p s pool = Some pl" "manager_ok s pool g pl"
    by (auto simp: pool_inv_def)
  from inv have ok: "live_ok s" "blocks_ok s pool g" by (auto simp: pool_inv_def)
  let ?P = "set (allocs s (g_larges g))"
  let ?s1 = "released ?P s" and ?s2 = "rewound (set (g_blocks g)) (released ?P s)"
  let ?pl = "pl\<lparr>pl_current := pool, pl_chain := 0, pl_large := 0\<rparr>"
  let ?t = "?s2\<lparr>heap_p := (heap_p ?s2)(pool \<mapsto> ?pl)\<rparr>"
  note ch = pool_inv_chunks [OF inv]
  have out: "wiped (chunks_of s ?P) h b = h b" if "b \<in> set (g_blocks g)"
    for b and h :: "ptr \<Rightarrow> 'z option"
    using wiped_block [OF ok that] ch(3) that by blast
  have keep: "heap_d ?s1 b = heap_d s b" if "b \<in> set (g_blocks g)" for b
    using out that by simp
  have path: "path (next_d ?s1) pool (g_blocks g)"
    using ok(2) keep path_cong [of "g_blocks g" "next_d ?s1" "next_d s" pool] by (simp add: blocks_ok_def)
  have pool: "pool \<in> set (g_blocks g)" using pool_in_blocks [OF ok(2)] by simp
  have "heap_p ?s2 pool = Some pl" using pl by (simp add: rewound_def out [OF pool])
  then have run: "ngx_reset_pool s pool = Some ?t"
    using pl free_larges [OF inv pl(1)] reset_loop_spec [OF path] by (simp add: ngx_reset_pool_def)
  have "live_ok ?t" using live_ok_released [OF ok(1), of ?P] by (auto simp: live_ok_def rewound_def)
  moreover have "blocks_ok ?t pool (g_reset g)"
  proof -
    have "next_d ?t = next_d ?s1" by (auto simp: rewound_def fun_eq_iff option.map_comp comp_def)
    then have "path (next_d ?t) pool (g_blocks g)" using path by simp
    moreover have "block_ok ?t pool (g_size g) b" if b: "b \<in> set (g_blocks g)" for b
    proof -
      have "block_ok s pool (g_size g) b" "112 \<le> g_size g" using ok(2) b by (auto simp: blocks_ok_def)
      moreover have "b \<notin> ?P" using ch(3) b by auto
      ultimately show ?thesis using b by (auto simp: block_ok_def rewound_def header_def out [OF b])
    qed
    ultimately show ?thesis using ok(2) by (simp add: blocks_ok_def g_reset_def)
  qed
  moreover have "regions_ok ?t pool (g_reset g)" by (simp add: regions_ok_def g_reset_def)
  moreover have "larges_ok ?t pool (g_reset g) 0" by (simp add: larges_ok_def g_reset_def allocs_def)
  moreover have "cleanups_ok ?t pool (g_reset g) (pl_cleanup pl)"
    using pl(2) nc by (simp add: manager_ok_def cleanups_ok_def g_reset_def)
  ultimately have "pool_inv ?t pool (g_reset g)"
    using pl pool by (auto simp: pool_inv_def manager_ok_def g_reset_def)
  moreover have "\<forall>b \<in> set (g_blocks g). heap_d ?t b = map_option (\<lambda>d. d\<lparr>d_last := b + 80, d_failed := 0\<rparr>) (heap_d s b)"
    by (simp add: rewound_def out)
  ultimately show thesis using run that [of ?t] pl(1) by (simp add: rewound_def)
qed

section \<open>Freeing one large allocation\<close>

text \<open>
  Clearing the list entry of a chunk and giving up its region keeps the invariant.
  \<^verbatim>\<open>ngx_pfree\<close> frees first and clears the entry afterwards; the entry is not in the freed
  chunk, so the order makes no difference.
\<close>

definition g_drop :: "ghost \<Rightarrow> region \<Rightarrow> ghost" where
  "g_drop g r = g\<lparr>g_regions := filter (\<lambda>q. q \<noteq> r) (g_regions g)\<rparr>"

lemma allocs_cleared:
  assumes "distinct ls" and "l \<in> set ls" and "heap_l s l = Some e" and "lg_alloc e \<noteq> 0"
    and "distinct (allocs s ls)"
  shows "set (allocs (reused s l 0) ls) = set (allocs s ls) - {lg_alloc e}"
    and "distinct (allocs (reused s l 0) ls)"
proof -
  obtain us vs where sp: "ls = us @ l # vs" using assms(2) by (meson split_list)
  then have "allocs (reused s l 0) us = allocs s us" "allocs (reused s l 0) vs = allocs s vs"
    using assms(1) by (auto simp: reused_def intro!: allocs_cong)
  then have "allocs (reused s l 0) ls = allocs s us @ allocs s vs"
    and "allocs s ls = allocs s us @ lg_alloc e # allocs s vs"
    using assms(3,4) by (simp_all add: sp allocs_split reused_def)
  then show "set (allocs (reused s l 0) ls) = set (allocs s ls) - {lg_alloc e}"
    and "distinct (allocs (reused s l 0) ls)" using assms(5) by auto
qed

lemma cleared_inv:
  assumes inv: "pool_inv s pool g" and l: "l \<in> set (g_larges g)" "heap_l s l = Some e"
    and p: "lg_alloc e = p" "p \<noteq> 0" and lc: "large_chunk s (g_blocks g) (p, n)" and n: "0 < n"
  shows "pool_inv (reused s l 0) pool (g_drop g (p, n))"
proof -
  let ?t = "reused s l 0" and ?g = "g_drop g (p, n)"
  from inv have ok: "live_ok s" "blocks_ok s pool g" "regions_ok s pool g" by (auto simp: pool_inv_def)
  from inv obtain pl where pl: "heap_p s pool = Some pl" "manager_ok s pool g pl"
    by (auto simp: pool_inv_def)
  have same: "heap_d ?t = heap_d s" "live ?t = live s" "heap_c ?t = heap_c s" "heap_f ?t = heap_f s"
    "heap_p ?t = heap_p s" "g_blocks ?g = g_blocks g" "g_larges ?g = g_larges g"
    "g_cleanups ?g = g_cleanups g" "g_size ?g = g_size g"
    "set (g_regions ?g) = set (g_regions g) - {(p, n)}"
    by (auto simp: reused_def g_drop_def)
  note [simp] = same in_block_cong [OF same(1)] large_chunk_cong [OF same(2)]
  have nb: "(x, k) \<noteq> (p, n)" if "in_block s pool (g_blocks g) (x, k)" for x k
    using that chunk_not_in_block [OF ok(1,2) _ _ n] lc by (auto simp: large_chunk_def)
  have "live_ok ?t" using ok by (simp add: live_ok_def)
  moreover have "blocks_ok ?t pool ?g" using ok by (simp add: blocks_ok_def block_ok_def)
  moreover have "regions_ok ?t pool ?g"
    using ok(3) by (auto simp: regions_ok_def) (simp add: g_drop_def separated_filter)
  moreover have "larges_ok ?t pool ?g (pl_large pl)"
  proof -
    have lo: "larges_ok s pool g (pl_large pl)" using pl(2) by (simp add: manager_ok_def)
    have "next_l ?t = next_l s" using l by (auto simp: fun_eq_iff reused_def)
    then have path: "path (next_l ?t) (pl_large pl) (g_larges g)" using lo by (simp add: larges_ok_def)
    note al = allocs_cleared [OF path_distinct [OF path] l, unfolded p(1), OF p(2)]
    show ?thesis using lo path al nb unfolding larges_ok_def by auto
  qed
  moreover have "cleanups_ok ?t pool ?g (pl_cleanup pl)"
    using pl(2) nb by (auto simp: manager_ok_def cleanups_ok_def handler_ok_def)
  ultimately show ?thesis using pl by (auto simp: pool_inv_def manager_ok_def)
qed

lemma pfree_loop_spec:
  assumes "path (next_l s) l xs"
  shows "pfree_loop s l p =
    (case List.find (\<lambda>x. lg_alloc (the (heap_l s x)) = p) xs of
       None \<Rightarrow> Some (False, s)
     | Some x \<Rightarrow> do {
         s1 \<leftarrow> c_free p s;
         e1 \<leftarrow> heap_l s1 x;
         Some (True, s1\<lparr>heap_l := (heap_l s1)(x \<mapsto> e1\<lparr>lg_alloc := 0\<rparr>)\<rparr>)
       })"
  using assms
proof (induction xs arbitrary: l)
  case Nil
  then show ?case by (subst pfree_loop.simps) simp
next
  case (Cons x xs)
  then obtain e where e: "heap_l s x = Some e" "l = x" "x \<noteq> 0" "path (next_l s) (lg_next e) xs"
    by auto
  then show ?case using Cons.IH [OF e(4)] by (subst pfree_loop.simps) auto
qed

lemma find_none_allocs:
  "p \<noteq> 0 \<Longrightarrow> List.find (\<lambda>x. lg_alloc (the (heap_l s x)) = p) xs = None \<longleftrightarrow> p \<notin> set (allocs s xs)"
  by (auto simp: find_None_iff allocs_def)

lemma ngx_pfree_spec:
  assumes inv: "pool_inv s pool g" and p: "p \<noteq> 0"
  obtains (declined) "ngx_pfree s pool p = Some (False, s)" and "p \<notin> set (allocs s (g_larges g))"
  | (ok) t n where "ngx_pfree s pool p = Some (True, t)" and "p \<in> set (allocs s (g_larges g))"
      and "(p, n) \<in> set (live s)" and "live t = filter (\<lambda>c. fst c \<noteq> p) (live s)"
      and "pool_inv t pool (g_drop g (p, n))"
proof -
  from inv obtain pl where pl: "heap_p s pool = Some pl" and lo: "larges_ok s pool g (pl_large pl)"
    and live: "live_ok s" and bo: "blocks_ok s pool g" by (auto simp: pool_inv_def manager_ok_def)
  have path: "path (next_l s) (pl_large pl) (g_larges g)" using lo by (simp add: larges_ok_def)
  let ?r = "List.find (\<lambda>x. lg_alloc (the (heap_l s x)) = p) (g_larges g)"
  show thesis
  proof (cases ?r)
    case None
    then have "p \<notin> set (allocs s (g_larges g))" using find_none_allocs [OF p] by blast
    then show thesis using None that(1) pl pfree_loop_spec [OF path, of p] by (simp add: ngx_pfree_def)
  next
    case (Some l)
    then have l: "l \<in> set (g_larges g)" "lg_alloc (the (heap_l s l)) = p"
      by (auto simp: find_Some_iff)
    then obtain e where e: "heap_l s l = Some e" using path_defined [OF path] by auto
    have pa: "p \<in> set (allocs s (g_larges g))" using Some find_none_allocs [OF p, of s] by force
    then obtain n where n: "large_chunk s (g_blocks g) (p, n)" "0 < n" using lo by (auto simp: larges_ok_def)
    then have c: "(p, n) \<in> set (live s)" "p \<notin> set (g_blocks g)" by (auto simp: large_chunk_def)
    have ib: "in_block s pool (g_blocks g) (l, 16)" using lo l by (simp add: larges_ok_def)
    let ?t = "freed (p, n) (reused s l 0)"
    have keep: "forget (p, n) h l = h l" for h :: "ptr \<Rightarrow> ngx_pool_large option"
      using in_block_bounds [OF bo ib] block_disjoint_chunk [OF live bo c] by (auto intro: forget_outside)
    have "(freed (p, n) s)\<lparr>heap_l := (forget (p, n) (heap_l s))(l \<mapsto> e\<lparr>lg_alloc := 0\<rparr>)\<rparr> = ?t"
    proof -
      have "(forget (p, n) (heap_l s))(l \<mapsto> e\<lparr>lg_alloc := 0\<rparr>) =
          forget (p, n) ((heap_l s)(l \<mapsto> e\<lparr>lg_alloc := 0\<rparr>))"
        using keep [of "\<lambda>_. Some e"] by (auto simp: forget_def fun_eq_iff)
      then show ?thesis using e by (simp add: freed_def reused_def)
    qed
    then have run: "ngx_pfree s pool p = Some (True, ?t)"
      using pl pfree_loop_spec [OF path, of p] Some c_free_live [OF live c(1)] e keep
      by (simp add: ngx_pfree_def) (simp add: freed_def)
    moreover have "live ?t = filter (\<lambda>c. fst c \<noteq> p) (live s)" by (simp add: freed_def reused_def)
    moreover have "pool_inv ?t pool (g_drop g (p, n))"
    proof (rule free_inv)
      show i: "pool_inv (reused s l 0) pool (g_drop g (p, n))"
        using cleared_inv [OF inv l(1) e _ p n] l(2) e by simp
      show "(p, n) \<in> set (live (reused s l 0))" "p \<notin> set (g_blocks (g_drop g (p, n)))"
        using c by (auto simp: reused_def g_drop_def)
      have dl: "distinct (allocs s (g_larges g))" using lo by (simp add: larges_ok_def)
      show "p \<notin> set (allocs (reused s l 0) (g_larges (g_drop g (p, n))))"
        using allocs_cleared(1) [OF path_distinct [OF path] l(1) e _ dl] l(2) e p by (simp add: g_drop_def)
      show "\<forall>r \<in> set (g_regions (g_drop g (p, n))). fst r \<noteq> p \<or>
          in_block (reused s l 0) pool (g_blocks (g_drop g (p, n))) r"
      proof (intro ballI, rule ccontr)
        fix r assume r: "r \<in> set (g_regions (g_drop g (p, n)))"
          and no: "\<not> (fst r \<noteq> p \<or> in_block (reused s l 0) pool (g_blocks (g_drop g (p, n))) r)"
        then have "large_chunk (reused s l 0) (g_blocks (g_drop g (p, n))) r" "fst r = p"
          using i unfolding pool_inv_def regions_ok_def by blast+
        then have "r \<in> set (live s)" "fst r = p" "r \<noteq> (p, n)"
          using r by (simp_all add: large_chunk_def reused_def g_drop_def)
        then show False using live_unique [OF live c(1), of "snd r"] by (metis prod.collapse)
      qed
    qed
    ultimately show thesis using that(2) pa c(1) by blast
  qed
qed

end
