(* ===== verification/Ngx_Palloc_Cleanup.thy ===== *)
theory Ngx_Palloc_Cleanup
  imports Ngx_Palloc_Free
begin

text \<open>
  Creation of a pool, registration of cleanup handlers and the early run of a file handler
  (\<^verbatim>\<open>ngx_create_pool\<close>, \<^verbatim>\<open>ngx_pool_cleanup_add\<close>, \<^verbatim>\<open>ngx_pool_run_cleanup_file\<close>), on the
  invariant of the pool.
\<close>

section \<open>Creation\<close>

definition g_new :: "nat \<Rightarrow> ptr \<Rightarrow> ghost" where
  "g_new sz p = \<lparr>g_size = sz, g_blocks = [p], g_larges = [], g_cleanups = [], g_regions = []\<rparr>"

definition pool_size_ok :: "nat \<Rightarrow> bool" where
  "pool_size_ok sz \<longleftrightarrow> NGX_MIN_POOL_SIZE \<le> sz \<and> 8 dvd sz"

definition pagesize_ok :: "mem \<Rightarrow> bool" where
  "pagesize_ok s \<longleftrightarrow> sizeof_pool_cleanup < ngx_pagesize s \<and> ngx_pagesize s < 2 ^ 64"

lemma ngx_create_pool_spec:
  assumes A: "allocator_ok A" and live: "live_ok s" and sz: "pool_size_ok sz" and pg: "pagesize_ok s"
  obtains (fail) "ngx_create_pool A sz log s = (0, s)" and "A 16 (live s) sz = None"
  | (ok) p t where "ngx_create_pool A sz log s = (p, t)" and "p \<noteq> 0" and "pool_inv t p (g_new sz p)"
      and "live t = (p, sz) # live s" and "events t = events s"
proof -
  obtain p s1 where mm: "ngx_memalign A 16 sz s = (p, s1)" by fastforce
  from A mm show thesis
  proof (cases rule: ngx_memalign_cases)
    case fail
    then show thesis using mm by (intro that(1)) (auto simp: ngx_create_pool_def)
  next
    case ok
    have b: "112 \<le> sz" "8 dvd sz" "sz < 2 ^ 64" "p \<noteq> 0"
      using sz ok(1) by (auto simp: pool_size_ok_def fresh_chunk_def)
    have m: "NGX_MAX_ALLOC_FROM_POOL s1 = ngx_pagesize s - 1" "24 \<le> ngx_pagesize s - 1"
      using pg size_t_of_diff [of 1 "ngx_pagesize s"] ok(3)
      by (auto simp: NGX_MAX_ALLOC_FROM_POOL_def pagesize_ok_def)
    have d: "size_t_of (int sz - 80) = sz - 80" using size_t_of_diff [of 80 sz] b by simp
    let ?d = "\<lparr>d_last = p + 80, d_end = p + sz, d_next = 0, d_failed = 0\<rparr>"
    let ?pl = "\<lparr>pl_max = min (sz - 80) (ngx_pagesize s - 1), pl_current = p, pl_chain = 0,
      pl_large = 0, pl_cleanup = 0, pl_log = log\<rparr>"
    let ?t = "s1\<lparr>heap_d := (heap_d s1)(p \<mapsto> ?d), heap_p := (heap_p s1)(p \<mapsto> ?pl)\<rparr>"
    have run: "ngx_create_pool A sz log s = (p, ?t)"
      using mm b m d by (simp add: ngx_create_pool_def Let_def min_def)
    have "live_ok ?t" using add_chunk_live_ok [OF live ok(1)] ok(3) by (simp add: live_ok_def)
    moreover have "blocks_ok ?t p (g_new sz p)"
      using b ok by (simp add: blocks_ok_def g_new_def block_ok_def header_def)
    moreover have "regions_ok ?t p (g_new sz p)" by (simp add: regions_ok_def g_new_def)
    moreover have "24 \<le> sz - 80" "min (sz - 80) (ngx_pagesize s - 1) + 80 \<le> sz"
      using b by (auto simp: min_def)
    then have "manager_ok ?t p (g_new sz p) ?pl"
      using m by (simp add: manager_ok_def g_new_def larges_ok_def allocs_def cleanups_ok_def)
    ultimately have "pool_inv ?t p (g_new sz p)" by (simp add: pool_inv_def)
    then show thesis by (rule that(2) [OF run b(4)]) (use ok(3) in simp_all)
  qed
qed

section \<open>Registering a cleanup\<close>

definition linked :: "mem \<Rightarrow> ptr \<Rightarrow> ptr \<Rightarrow> ptr \<Rightarrow> mem" where
  "linked s pool c data = s\<lparr>
     heap_c := (heap_c s)(c \<mapsto> \<lparr>cl_handler = NoHandler, cl_data = data,
                                 cl_next = pl_cleanup (the (heap_p s pool))\<rparr>),
     heap_p := (heap_p s)(pool \<mapsto> (the (heap_p s pool))\<lparr>pl_cleanup := c\<rparr>)\<rparr>"

definition g_link :: "ghost \<Rightarrow> ptr \<Rightarrow> ghost" where
  "g_link g c = g\<lparr>g_cleanups := c # g_cleanups g\<rparr>"

lemma linked_inv:
  assumes inv: "pool_inv s pool g" and c: "in_block s pool (g_blocks g) (c, 24)"
    "(c, 24) \<in> set (g_regions g)" "c \<noteq> 0" "c \<notin> set (g_cleanups g)"
  shows "pool_inv (linked s pool c data) pool (g_link g c)"
proof -
  let ?t = "linked s pool c data" and ?g = "g_link g c"
  from inv have ok: "live_ok s" "blocks_ok s pool g" "regions_ok s pool g" by (auto simp: pool_inv_def)
  from inv obtain pl where pl: "heap_p s pool = Some pl" "manager_ok s pool g pl"
    by (auto simp: pool_inv_def)
  have same: "heap_d ?t = heap_d s" "live ?t = live s" "heap_l ?t = heap_l s" "heap_f ?t = heap_f s"
    "heap_p ?t pool = Some (pl\<lparr>pl_cleanup := c\<rparr>)"
    "heap_c ?t = (heap_c s)(c \<mapsto> \<lparr>cl_handler = NoHandler, cl_data = data, cl_next = pl_cleanup pl\<rparr>)"
    using pl by (simp_all add: linked_def)
  note [simp] = same in_block_cong [OF same(1)] large_chunk_cong [OF same(2)]
  have "live_ok ?t" using ok by (simp add: live_ok_def)
  moreover have "blocks_ok ?t pool ?g" using ok by (simp add: blocks_ok_def block_ok_def g_link_def)
  moreover have "regions_ok ?t pool ?g" using ok by (simp add: regions_ok_def g_link_def)
  moreover have "larges_ok ?t pool ?g (pl_large pl)"
    by (rule larges_ok_mono [of s pool g]) (use pl(2) in \<open>auto simp: manager_ok_def g_link_def\<close>)
  moreover have "cleanups_ok ?t pool ?g c"
  proof -
    have co: "cleanups_ok s pool g (pl_cleanup pl)" using pl(2) by (simp add: manager_ok_def)
    have old: "heap_c ?t x = heap_c s x" if "x \<in> set (g_cleanups g)" for x using c(4) that by auto
    have "path (next_c ?t) (pl_cleanup pl) (g_cleanups g)"
      using co old path_cong [of "g_cleanups g" "next_c ?t" "next_c s" "pl_cleanup pl"]
      by (simp add: cleanups_ok_def)
    then have "path (next_c ?t) c (c # g_cleanups g)" using c(3) by simp
    then show ?thesis using co c old
      by (auto simp: cleanups_ok_def g_link_def handler_ok_def)
  qed
  ultimately show ?thesis using pl by (auto simp: pool_inv_def manager_ok_def g_link_def)
qed

text \<open>The new entry is the head of the list, has no handler, and its data is fresh memory.\<close>

definition cleanup_added :: "mem \<Rightarrow> ptr \<Rightarrow> ghost \<Rightarrow> nat \<Rightarrow> ptr \<Rightarrow> mem \<Rightarrow> ghost \<Rightarrow> bool" where
  "cleanup_added s pool g sz c t g' \<longleftrightarrow> pool_inv t pool g' \<and> g_cleanups g' = c # g_cleanups g \<and>
     (\<exists>e. heap_c t c = Some e \<and> cl_handler e = NoHandler \<and>
        (if sz = 0 then cl_data e = 0
         else cl_data e \<noteq> 0 \<and> (cl_data e, sz) \<in> set (g_regions g') \<and>
              (sz \<le> sizeof_pool_cleanup \<longrightarrow> in_block t pool (g_blocks g') (cl_data e, sz)) \<and>
              (\<forall>q \<in> set (g_regions g). disjoint (cl_data e, sz) q))) \<and>
     (\<forall>x. x \<noteq> c \<longrightarrow> heap_c t x = heap_c s x) \<and> heap_f t = heap_f s \<and> events t = events s"

text \<open>The C library refuses a request for the entry, or one for its data.\<close>

definition cleanup_refused :: "allocator \<Rightarrow> mem \<Rightarrow> ptr \<Rightarrow> ghost \<Rightarrow> nat \<Rightarrow> bool" where
  "cleanup_refused A s pool g sz \<longleftrightarrow> request_refused A s pool g sizeof_pool_cleanup \<or>
     (\<exists>c t g'. ngx_palloc A s pool sizeof_pool_cleanup = Some (c, t) \<and> c \<noteq> 0 \<and> pool_inv t pool g' \<and> request_refused A t pool g' sz)"

lemma ngx_pool_cleanup_add_spec:
  assumes A: "allocator_ok A" and inv: "pool_inv s pool g"
  obtains (fail) t g' where "ngx_pool_cleanup_add A s pool sz = Some (0, t)" and "pool_inv t pool g'"
      and "g_cleanups g' = g_cleanups g" and "cleanup_refused A s pool g sz"
  | (ok) c t g' where "ngx_pool_cleanup_add A s pool sz = Some (c, t)" and "c \<noteq> 0"
      and "cleanup_added s pool g sz c t g'"
proof -
  obtain pl where pl: "heap_p s pool = Some pl" "24 \<le> pl_max pl" "pl_max pl + 80 \<le> g_size g"
    using pool_maxE [OF inv] .
  then have small: "ngx_palloc A s pool 24 = ngx_palloc_small A s pool 24 True" and sz: "24 + 80 \<le> g_size g"
    by (auto simp: ngx_palloc_def)
  from A inv sz show thesis
  proof (cases rule: ngx_palloc_small_spec [where al = True])
    case fail
    then show thesis using small inv pl
      by (intro that(1) [of s g]) (auto simp: ngx_pool_cleanup_add_def cleanup_refused_def request_refused_def)
  next
    case (ok c s1 g1)
    have h1: "handed s pool g (c, 24) s1 g1" using grown_handed [OF ok(5,4)] .
    have ib1: "in_block s1 pool (g_blocks g1) (c, 24)" using ok(4) by (auto simp: grown_def)
    have new: "c \<notin> set (g_cleanups g)"
    proof
      assume "c \<in> set (g_cleanups g)"
      then have "(c, 24) \<in> set (g_regions g)" using inv by (auto simp: pool_inv_def manager_ok_def cleanups_ok_def)
      then show False using h1 by (auto simp: handed_def disjoint_def)
    qed
    show thesis
    proof (cases "sz = 0")
      case True
      obtain pl1 where pl1: "heap_p s1 pool = Some pl1" using ok(5) by (auto simp: pool_inv_def)
      have run: "ngx_pool_cleanup_add A s pool sz = Some (c, linked s1 pool c 0)"
        using small ok(1,2) pl1 True by (simp add: ngx_pool_cleanup_add_def linked_def)
      have "pool_inv (linked s1 pool c 0) pool (g_link g1 c)"
        using linked_inv [OF ok(5) ib1] h1 ok(2) new by (simp add: handed_def)
      then have "cleanup_added s pool g sz c (linked s1 pool c 0) (g_link g1 c)"
        using h1 True by (auto simp: cleanup_added_def handed_def linked_def g_link_def)
      with run ok(2) show thesis by (rule that(2))
    next
      case False
      from ngx_palloc_meets [OF A ok(5), of sz] consider
        (fail2) s2 where "ngx_palloc A s1 pool sz = Some (0, s2)" "pool_inv s2 pool g1"
          "request_refused A s1 pool g1 sz"
        | (ok2) p s2 g2 where "ngx_palloc A s1 pool sz = Some (p, s2)" "p \<noteq> 0"
          "handed s1 pool g1 (p, sz) s2 g2" "sz \<le> pl_max (the (heap_p s1 pool)) \<longrightarrow> in_block s2 pool (g_blocks g2) (p, sz)"
        by (auto simp: alloc_spec_def)
      then show thesis
      proof cases
        case fail2
        then show thesis using small ok(1,2) False h1
          by (intro that(1) [of s2 g1]) (auto simp: ngx_pool_cleanup_add_def handed_def cleanup_refused_def)
      next
        case ok2
        have inv2: "pool_inv s2 pool g2" using ok2(3) by (simp add: handed_def)
        obtain pl2 where pl2: "heap_p s2 pool = Some pl2" using inv2 by (auto simp: pool_inv_def)
        have run: "ngx_pool_cleanup_add A s pool sz = Some (c, linked s2 pool c p)"
          using small ok(1,2) ok2(1,2) pl2 False by (simp add: ngx_pool_cleanup_add_def linked_def)
        have "pool_inv (linked s2 pool c p) pool (g_link g2 c)"
          using h1 ok2(3) ib1 ok(2) new by (intro linked_inv [OF inv2]) (auto simp: handed_def)
        moreover have "in_block (linked s2 pool c p) pool (g_blocks g2) (p, sz)" if "sz \<le> 24"
        proof -
          obtain pl1 where "heap_p s1 pool = Some pl1" "24 \<le> pl_max pl1" using pool_maxE [OF ok(5)] .
          then show ?thesis using ok2(4) that by (simp add: linked_def in_block_def)
        qed
        ultimately have "cleanup_added s pool g sz c (linked s2 pool c p) (g_link g2 c)"
          using h1 ok2(1-3) False by (auto simp: cleanup_added_def handed_def linked_def g_link_def)
        with run ok(2) show thesis by (rule that(2))
      qed
    qed
  qed
qed

section \<open>Running a file handler early\<close>

text \<open>The entry the loop looks for: a close handler of the descriptor \<open>fd\<close>.\<close>

definition closes :: "mem \<Rightarrow> int \<Rightarrow> ptr \<Rightarrow> bool" where
  "closes s fd c \<longleftrightarrow> cl_handler (the (heap_c s c)) = CleanupFile \<and>
     cf_fd (the (heap_f s (cl_data (the (heap_c s c))))) = fd"

definition closed_early :: "mem \<Rightarrow> int \<Rightarrow> ptr \<Rightarrow> mem" where
  "closed_early s fd c = s\<lparr>events := events s @ [Closed fd],
     heap_c := (heap_c s)(c \<mapsto> (the (heap_c s c))\<lparr>cl_handler := NoHandler\<rparr>)\<rparr>"

lemma run_cleanup_file_loop_spec:
  assumes "path (next_c s) c cs" and "\<forall>c \<in> set cs. \<exists>e. heap_c s c = Some e \<and> handler_ok s g e"
  shows "run_cleanup_file_loop s c fd =
    Some (case List.find (closes s fd) cs of None \<Rightarrow> s | Some x \<Rightarrow> closed_early s fd x)"
  using assms
proof (induction cs arbitrary: c)
  case Nil
  then show ?case by (subst run_cleanup_file_loop.simps) simp
next
  case (Cons x cs)
  then obtain e where e: "heap_c s x = Some e" "handler_ok s g e" "c = x" "x \<noteq> 0"
    "path (next_c s) (cl_next e) cs" by auto
  note IH = Cons.IH [OF e(5)]
  have cl: "closes s fd x \<longleftrightarrow> cl_handler e = CleanupFile \<and> cf_fd (the (heap_f s (cl_data e))) = fd"
    using e(1) by (simp add: closes_def)
  show ?case
  proof (cases "cl_handler e = CleanupFile")
    case True
    with e(2) obtain f where "heap_f s (cl_data e) = Some f" by (auto simp: handler_ok_def)
    then show ?thesis using e(1,3,4) True IH Cons.prems(2)
      by (subst run_cleanup_file_loop.simps)
        (simp add: cl closed_early_def ngx_pool_cleanup_file_def)
  next
    case False
    then show ?thesis using e(1,3,4) IH Cons.prems(2)
      by (subst run_cleanup_file_loop.simps) (simp add: cl)
  qed
qed

lemma unhandled_inv:
  assumes inv: "pool_inv s pool g" and c: "c \<in> set (g_cleanups g)" "heap_c s c = Some e"
    and h: "handler_ok s g (e\<lparr>cl_handler := h\<rparr>)"
  shows "pool_inv (s\<lparr>events := ev, heap_c := (heap_c s)(c \<mapsto> e\<lparr>cl_handler := h\<rparr>)\<rparr>) pool g"
proof -
  let ?t = "s\<lparr>events := ev, heap_c := (heap_c s)(c \<mapsto> e\<lparr>cl_handler := h\<rparr>)\<rparr>"
  from inv have ok: "live_ok s" "blocks_ok s pool g" "regions_ok s pool g" by (auto simp: pool_inv_def)
  from inv obtain pl where pl: "heap_p s pool = Some pl" "manager_ok s pool g pl"
    by (auto simp: pool_inv_def)
  have ib: "in_block ?t pool bs r = in_block s pool bs r" for bs r by (simp add: in_block_def)
  have lc: "large_chunk ?t bs r = large_chunk s bs r" for bs r by (simp add: large_chunk_def)
  have "next_c ?t = next_c s" using c by (auto simp: fun_eq_iff)
  moreover have "handler_ok ?t g x = handler_ok s g x" for x by (simp add: handler_ok_def)
  ultimately have "cleanups_ok ?t pool g (pl_cleanup pl)"
    using pl(2) c(2) ib h by (auto simp: manager_ok_def cleanups_ok_def)
  moreover have "larges_ok ?t pool g (pl_large pl)"
    using pl(2) by (auto simp: manager_ok_def ib lc elim!: larges_ok_mono)
  ultimately show ?thesis using ok pl ib lc
    by (auto simp: pool_inv_def manager_ok_def live_ok_def blocks_ok_def block_ok_def regions_ok_def)
qed

lemma ngx_pool_run_cleanup_file_spec:
  assumes inv: "pool_inv s pool g"
  obtains (none) "ngx_pool_run_cleanup_file s pool fd = Some s" and "\<forall>c \<in> set (g_cleanups g). \<not> closes s fd c"
  | (some) c where "c \<in> set (g_cleanups g)" and "closes s fd c"
      and "ngx_pool_run_cleanup_file s pool fd = Some (closed_early s fd c)"
      and "pool_inv (closed_early s fd c) pool g"
proof -
  from inv obtain pl where pl: "heap_p s pool = Some pl" "cleanups_ok s pool g (pl_cleanup pl)"
    by (auto simp: pool_inv_def manager_ok_def)
  then have run: "ngx_pool_run_cleanup_file s pool fd =
      Some (case List.find (closes s fd) (g_cleanups g) of None \<Rightarrow> s | Some x \<Rightarrow> closed_early s fd x)"
    using run_cleanup_file_loop_spec [of s "pl_cleanup pl" "g_cleanups g" g fd]
    by (simp add: ngx_pool_run_cleanup_file_def cleanups_ok_def)
  show thesis
  proof (cases "List.find (closes s fd) (g_cleanups g)")
    case None
    then have "\<forall>c \<in> set (g_cleanups g). \<not> closes s fd c" by (simp add: find_None_iff)
    then show thesis using run None that(1) by simp
  next
    case (Some c)
    then have c: "c \<in> set (g_cleanups g)" "closes s fd c" by (auto simp: find_Some_iff)
    then obtain e where e: "heap_c s c = Some e" using pl(2) by (auto simp: cleanups_ok_def)
    have "pool_inv (closed_early s fd c) pool g"
      using unhandled_inv [OF inv c(1) e, of NoHandler] e by (simp add: closed_early_def handler_ok_def)
    then show thesis using c run Some by (intro that(2)) auto
  qed
qed

end
