(* ===== verification/Ngx_Pool.thy ===== *)
theory Ngx_Pool
  imports Ngx_Palloc_Cleanup
begin

text \<open>
  The memory pool as its users see it: the interface of an allocator of disjoint regions and
  its two providers \<^verbatim>\<open>ngx_palloc\<close> and \<^verbatim>\<open>ngx_pnalloc\<close>, the life of a pool as a sequence of
  calls in any order, and the properties of \<^verbatim>\<open>core/ngx_palloc.c\<close>.
\<close>

section \<open>The interface of a region allocator\<close>

text \<open>
  What a client of the pool relies on: a call always returns; a call that fails was refused
  and leaves the regions handed out as they are; a call that succeeds hands out a region that
  overlaps none of the earlier ones. A request is a pair of a mode and a size.
\<close>

locale region_allocator =
  fixes alloc :: "mem \<Rightarrow> 'm \<times> nat \<Rightarrow> (ptr \<times> mem) option"
    and good :: "mem \<Rightarrow> ghost \<Rightarrow> bool"
    and refused :: "mem \<Rightarrow> ghost \<Rightarrow> nat \<Rightarrow> bool"
  assumes alloc_returns: "good s g \<Longrightarrow> \<exists>p t. alloc s q = Some (p, t)"
    and alloc_null: "good s g \<Longrightarrow> alloc s q = Some (0, t) \<Longrightarrow> good t g \<and> refused s g (snd q)"
    and alloc_region: "good s g \<Longrightarrow> alloc s q = Some (p, t) \<Longrightarrow> p \<noteq> 0 \<Longrightarrow>
      \<exists>g'. good t g' \<and> insert (p, snd q) (set (g_regions g)) \<subseteq> set (g_regions g') \<and>
        (\<forall>r \<in> set (g_regions g). disjoint (p, snd q) r)"

text \<open>
  A client: a sequence of requests and their answers, each the address returned and the size
  asked for; the regions obtained are the answers other than \<^verbatim>\<open>NULL\<close>.
\<close>

primrec alloc_all ::
  "(mem \<Rightarrow> 'm \<times> nat \<Rightarrow> (ptr \<times> mem) option) \<Rightarrow> mem \<Rightarrow> ('m \<times> nat) list \<Rightarrow> (region list \<times> mem) option"
where
  "alloc_all f s [] = Some ([], s)"
| "alloc_all f s (q # qs) = do {
     (p, t) \<leftarrow> f s q;
     (rs, u) \<leftarrow> alloc_all f t qs;
     Some ((p, snd q) # rs, u)
   }"

definition obtained :: "region list \<Rightarrow> region list" where
  "obtained rs = filter (\<lambda>r. fst r \<noteq> 0) rs"

lemma obtained_simps [simp]:
  "obtained [] = []" "obtained ((p, n) # rs) = (if p = 0 then obtained rs else (p, n) # obtained rs)"
  by (simp_all add: obtained_def)

context region_allocator
begin

lemma alloc_all_separated:
  assumes "good s g"
  shows "\<exists>rs t g'. alloc_all alloc s qs = Some (rs, t) \<and> map snd rs = map snd qs \<and> good t g' \<and> separated (obtained rs) \<and>
    set (obtained rs) \<union> set (g_regions g) \<subseteq> set (g_regions g') \<and>
    (\<forall>r \<in> set (obtained rs). \<forall>q \<in> set (g_regions g). disjoint r q)"
  using assms
proof (induction qs arbitrary: s g)
  case Nil
  then show ?case by auto
next
  case (Cons q qs)
  obtain p t where pt: "alloc s q = Some (p, t)" using alloc_returns [OF Cons.prems] by blast
  show ?case
  proof (cases "p = 0")
    case True
    then have "good t g" using alloc_null Cons.prems pt by blast
    from Cons.IH [OF this] show ?thesis using pt True by auto
  next
    case False
    then obtain g1 where g1: "good t g1" "insert (p, snd q) (set (g_regions g)) \<subseteq> set (g_regions g1)"
      "\<forall>r \<in> set (g_regions g). disjoint (p, snd q) r"
      using alloc_region [OF Cons.prems pt] by blast
    from Cons.IH [OF g1(1)] obtain rs u g2 where r: "alloc_all alloc t qs = Some (rs, u)" "map snd rs = map snd qs" "good u g2"
      "separated (obtained rs)" "set (obtained rs) \<union> set (g_regions g1) \<subseteq> set (g_regions g2)"
      "\<forall>r \<in> set (obtained rs). \<forall>q \<in> set (g_regions g1). disjoint r q" by blast
    have "separated ((p, snd q) # obtained rs)" using r(4,6) g1(2) disjoint_sym by auto
    then show ?thesis using pt False r g1
      by (intro exI [of _ "(p, snd q) # rs"] exI [of _ u] exI [of _ g2]) auto
  qed
qed

text \<open>A request of the sequence that was answered with \<^verbatim>\<open>NULL\<close> was refused in the state the earlier ones led to.\<close>

lemma alloc_all_null:
  assumes "good s g" and "alloc_all alloc s qs = Some (rs, t)" and "i < length qs" and "fst (rs ! i) = 0"
  shows "\<exists>os u h. alloc_all alloc s (take i qs) = Some (os, u) \<and> good u h \<and> refused u h (snd (qs ! i))"
  using assms
proof (induction qs arbitrary: s g rs i)
  case (Cons q qs)
  obtain p t1 where pt: "alloc s q = Some (p, t1)" using alloc_returns [OF Cons.prems(1)] by blast
  then obtain rs' where rs: "alloc_all alloc t1 qs = Some (rs', t)" "rs = (p, snd q) # rs'"
    using Cons.prems(2) by (auto simp: bind_eq_Some_conv)
  obtain g1 where g1: "good t1 g1" using alloc_null [OF Cons.prems(1)] alloc_region [OF Cons.prems(1) pt] pt by (cases "p = 0") blast+
  show ?case
  proof (cases i)
    case 0
    then show ?thesis using alloc_null [OF Cons.prems(1), of q] Cons.prems(1,4) pt rs by auto
  next
    case (Suc j)
    from Cons.IH [OF g1 rs(1), of j] Suc Cons.prems(3,4) rs(2) obtain os u h where
      "alloc_all alloc t1 (take j qs) = Some (os, u)" "good u h" "refused u h (snd (qs ! j))" by auto
    then show ?thesis using Suc pt by auto
  qed
qed simp

end

lemma alloc_spec_laws:
  assumes "alloc_spec A s pool g n al res"
  shows "\<exists>p t. res = Some (p, t)"
    and "res = Some (0, t) \<Longrightarrow> pool_inv t pool g \<and> request_refused A s pool g n"
    and "res = Some (p, t) \<Longrightarrow> p \<noteq> 0 \<Longrightarrow>
      \<exists>g'. pool_inv t pool g' \<and> insert (p, n) (set (g_regions g)) \<subseteq> set (g_regions g') \<and>
        (\<forall>q \<in> set (g_regions g). disjoint (p, n) q)"
  using assms by (auto simp: alloc_spec_def) (auto simp: handed_def)

text \<open>The requests to \<^verbatim>\<open>ngx_palloc\<close> and to \<^verbatim>\<open>ngx_pnalloc\<close>, in any order.\<close>

fun pool_request :: "allocator \<Rightarrow> ptr \<Rightarrow> mem \<Rightarrow> bool \<times> nat \<Rightarrow> (ptr \<times> mem) option" where
  "pool_request A pool s (aligned, n) = (if aligned then ngx_palloc A s pool n else ngx_pnalloc A s pool n)"

lemma pool_request_meets:
  assumes "allocator_ok A" and "pool_inv s pool g"
  shows "\<exists>al. alloc_spec A s pool g (snd q) al (pool_request A pool s q)"
  using ngx_palloc_meets [OF assms] ngx_pnalloc_meets [OF assms] by (cases q; cases "fst q") auto

interpretation requests: region_allocator "pool_request A pool"
    "\<lambda>s g. allocator_ok A \<and> pool_inv s pool g" "\<lambda>s g. request_refused A s pool g" for A pool
proof (unfold_locales, goal_cases)
  case (1 s g q)
  then obtain al where "alloc_spec A s pool g (snd q) al (pool_request A pool s q)" using pool_request_meets by blast
  then show ?case by (rule alloc_spec_laws(1))
next
  case (2 s g q t)
  then obtain al where "alloc_spec A s pool g (snd q) al (pool_request A pool s q)" using pool_request_meets by blast
  from alloc_spec_laws(2) [OF this] 2 show ?case by simp
next
  case (3 s g q p t)
  then obtain al where "alloc_spec A s pool g (snd q) al (pool_request A pool s q)" using pool_request_meets by blast
  from alloc_spec_laws(3) [OF this] 3 show ?case by simp
qed

lemma ngx_pcalloc_cases:
  assumes "allocator_ok A" and "pool_inv s pool g"
  obtains (fail) t where "ngx_pcalloc A s pool sz = Some (0, t)" and "pool_inv t pool g" and "request_refused A s pool g sz"
  | (ok) m t g' where "ngx_palloc A s pool sz = Some (m, t)" and "m \<noteq> 0"
      and "ngx_pcalloc A s pool sz = Some (m, ngx_memzero m sz t)" and "handed s pool g (m, sz) t g'"
  using ngx_palloc_meets [OF assms, of sz] by (auto simp: alloc_spec_def ngx_pcalloc_def)

text \<open>A small request on a pool whose first block is empty.\<close>

lemma palloc_first:
  assumes inv: "pool_inv t pool g" and p: "heap_p t pool = Some pl" "pl_current pl = pool" "n \<le> pl_max pl"
    and d: "heap_d t pool = Some d" "d_last d = pool + 80"
  shows "\<exists>u. ngx_palloc A t pool n = Some (pool + 80, u) \<and> live u = live t"
proof -
  have b: "block_ok t pool (g_size g) pool" and lo: "live_ok t" and sz: "8 dvd g_size g" "pl_max pl + 80 \<le> g_size g"
    using inv p(1) pool_in_blocks [of t pool g] by (auto simp: pool_inv_def blocks_ok_def manager_ok_def)
  note bd = start_in_bounds [OF b lo sz(1) d(1)]
  have "16 dvd pool" and e: "pool + g_size g + 16 \<le> 2 ^ 64" using b lo d by (auto elim!: block_okE)
  then have "8 dvd pool + 80" by presburger
  moreover have "start_in True d < pool + 80 + 8" using align_bounds(3) [of "pool + 80"] e d sz by (simp add: start_in_def)
  ultimately have "start_in True d = pool + 80" using bd(1) [of True] bd(4) [of True] d by presburger
  moreover have "n \<le> g_size g - 80" using sz(2) p(3) by simp
  ultimately have "palloc_small_loop t pool n True = Some (Some (pool + 80, t\<lparr>heap_d := (heap_d t)(pool \<mapsto> d\<lparr>d_last := pool + 80 + n\<rparr>)\<rparr>))"
    using palloc_small_loop_unfold [OF d(1), of n True] bd(3) bd(6) [of True] sz p(3) by simp
  then show ?thesis using p by (simp add: ngx_palloc_def ngx_palloc_small_def)
qed

section \<open>The life of a pool\<close>

text \<open>
  The calls on a pool in any order, from its creation on. The user sets the handler of a
  cleanup entry it registered to a function of its own, or registers one of the two file handlers of the pool
  and fills in its structure, as the code that opens files does. Three uses are left out: an aligned
  request of size 0, a reset while cleanups are registered, and a write through a stale pointer.
\<close>

abbreviation (input) sizeof_pool_cleanup_file :: nat where "sizeof_pool_cleanup_file \<equiv> 24"

inductive pool_run :: "allocator \<Rightarrow> nat \<Rightarrow> ptr \<Rightarrow> mem \<Rightarrow> bool" for A sz pool where
  run_create: "ngx_create_pool A sz log s = (pool, t) \<Longrightarrow> pool \<noteq> 0 \<Longrightarrow> live_ok s \<Longrightarrow>
     pagesize_ok s \<Longrightarrow> pool_run A sz pool t"
| run_palloc: "pool_run A sz pool s \<Longrightarrow> ngx_palloc A s pool n = Some (p, t) \<Longrightarrow> pool_run A sz pool t"
| run_pnalloc: "pool_run A sz pool s \<Longrightarrow> ngx_pnalloc A s pool n = Some (p, t) \<Longrightarrow> pool_run A sz pool t"
| run_pcalloc: "pool_run A sz pool s \<Longrightarrow> ngx_pcalloc A s pool n = Some (p, t) \<Longrightarrow> pool_run A sz pool t"
| run_pmemalign: "pool_run A sz pool s \<Longrightarrow> 0 < n \<Longrightarrow> ngx_pmemalign A s pool n al = Some (p, t) \<Longrightarrow>
     pool_run A sz pool t"
| run_pfree: "pool_run A sz pool s \<Longrightarrow> ngx_pfree s pool q = Some (r, t) \<Longrightarrow> pool_run A sz pool t"
| run_cleanup_add: "pool_run A sz pool s \<Longrightarrow> ngx_pool_cleanup_add A s pool n = Some (c, t) \<Longrightarrow>
     pool_run A sz pool t"
| run_set_handler: "pool_run A sz pool s \<Longrightarrow> heap_c s c = Some e \<Longrightarrow>
     pool_run A sz pool (s\<lparr>heap_c := (heap_c s)(c \<mapsto> e\<lparr>cl_handler := UserHandler f\<rparr>)\<rparr>)"
| run_file_handler: "pool_run A sz pool s \<Longrightarrow> ngx_pool_cleanup_add A s pool sizeof_pool_cleanup_file = Some (c, t) \<Longrightarrow> c \<noteq> 0 \<Longrightarrow>
     heap_c t c = Some e \<Longrightarrow> h = CleanupFile \<or> h = DeleteFile \<Longrightarrow>
     pool_run A sz pool (t\<lparr>heap_f := (heap_f t)(cl_data e \<mapsto> f), heap_c := (heap_c t)(c \<mapsto> e\<lparr>cl_handler := h\<rparr>)\<rparr>)"
| run_cleanup_file: "pool_run A sz pool s \<Longrightarrow> ngx_pool_run_cleanup_file s pool fd = Some t \<Longrightarrow>
     pool_run A sz pool t"
| run_reset: "pool_run A sz pool s \<Longrightarrow> heap_p s pool = Some pl \<Longrightarrow> pl_cleanup pl = 0 \<Longrightarrow>
     ngx_reset_pool s pool = Some t \<Longrightarrow> pool_run A sz pool t"

lemma set_handler_inv:
  assumes inv: "pool_inv s pool g" and e: "heap_c s c = Some e"
  shows "pool_inv (s\<lparr>heap_c := (heap_c s)(c \<mapsto> e\<lparr>cl_handler := UserHandler f\<rparr>)\<rparr>) pool g"
proof (cases "c \<in> set (g_cleanups g)")
  case True
  then show ?thesis using unhandled_inv [OF inv True e, of "UserHandler f" "events s"]
    by (simp add: handler_ok_def)
next
  case False
  let ?t = "s\<lparr>heap_c := (heap_c s)(c \<mapsto> e\<lparr>cl_handler := UserHandler f\<rparr>)\<rparr>"
  from inv obtain pl where pl: "heap_p s pool = Some pl" "manager_ok s pool g pl"
    by (auto simp: pool_inv_def)
  have "cleanups_ok ?t pool g (pl_cleanup pl)"
    by (rule cleanups_ok_mono [of s pool g])
      (use False pl(2) in \<open>auto simp: manager_ok_def in_block_def\<close>)
  moreover have "larges_ok ?t pool g (pl_large pl)"
    by (rule larges_ok_mono [of s pool g])
      (use pl(2) in \<open>auto simp: manager_ok_def in_block_def large_chunk_def\<close>)
  ultimately show ?thesis using inv pl
    by (auto simp: pool_inv_def manager_ok_def live_ok_def blocks_ok_def block_ok_def regions_ok_def
      in_block_def large_chunk_def)
qed

lemma file_handler_inv:
  assumes add: "cleanup_added s pool g 24 c t g'" and e: "heap_c t c = Some e" and h: "h = CleanupFile \<or> h = DeleteFile"
  shows "pool_inv (t\<lparr>heap_f := (heap_f t)(cl_data e \<mapsto> f), heap_c := (heap_c t)(c \<mapsto> e\<lparr>cl_handler := h\<rparr>)\<rparr>) pool g'"
proof -
  let ?t = "t\<lparr>heap_f := (heap_f t)(cl_data e \<mapsto> f)\<rparr>"
  have inv: "pool_inv t pool g'" and c: "c \<in> set (g_cleanups g')" and ib: "in_block t pool (g_blocks g') (cl_data e, 24)"
    using add e by (auto simp: cleanup_added_def)
  have "pool_inv ?t pool g'"
  proof -
    have "handler_ok ?t g' x" if "handler_ok t g' x" for x using that by (auto simp: handler_ok_def)
    then have "cleanups_ok ?t pool g' k" if "cleanups_ok t pool g' k" for k
      using that unfolding cleanups_ok_def in_block_def by fastforce
    moreover have "live_ok ?t = live_ok t" "blocks_ok ?t pool g' = blocks_ok t pool g'" "regions_ok ?t pool g' = regions_ok t pool g'"
      "larges_ok ?t pool g' k = larges_ok t pool g' k" for k
      by (simp_all add: larges_ok_def allocs_def live_ok_def blocks_ok_def block_ok_def regions_ok_def in_block_def large_chunk_def)
    ultimately show ?thesis using inv by (auto simp: pool_inv_def manager_ok_def)
  qed
  moreover have "\<exists>b \<in> set (g_blocks g'). b \<le> cl_data e \<and> cl_data e < b + g_size g'"
    using in_block_bounds [OF _ ib] inv by (auto simp: pool_inv_def)
  then have "handler_ok ?t g' (e\<lparr>cl_handler := h\<rparr>)" by (simp add: handler_ok_def)
  ultimately show ?thesis using unhandled_inv [of ?t pool g' c e h "events t"] c e by simp
qed

lemma pfree_loop_null: "path (next_l s) l ls \<Longrightarrow> \<exists>b. pfree_loop s l 0 = Some (b, s)"
proof (induction ls arbitrary: l)
  case Nil
  then show ?case by (subst pfree_loop.simps) auto
next
  case (Cons x ls)
  then obtain e where e: "heap_l s x = Some e" "l = x" "x \<noteq> 0" "path (next_l s) (lg_next e) ls" by auto
  then have "(heap_l s)(x \<mapsto> e\<lparr>lg_alloc := 0\<rparr>) = heap_l s" if "lg_alloc e = 0"
    using that by (cases e) (auto simp: fun_upd_idem)
  then show ?case using e Cons.IH [OF e(4)] by (subst pfree_loop.simps) (auto simp: c_free_def)
qed

lemma ngx_pfree_null: "pool_inv s pool g \<Longrightarrow> \<exists>b. ngx_pfree s pool 0 = Some (b, s)"
  using pfree_loop_null by (fastforce simp: ngx_pfree_def pool_inv_def manager_ok_def larges_ok_def)

lemma no_cleanups:
  assumes "pool_inv s pool g" and "heap_p s pool = Some pl" and "pl_cleanup pl = 0"
  shows "g_cleanups g = []"
  using assms by (auto simp: pool_inv_def manager_ok_def cleanups_ok_def)

lemma pool_run_inv:
  assumes "pool_run A sz pool s" and A: "allocator_ok A" and sz: "pool_size_ok sz"
  shows "\<exists>g. pool_inv s pool g"
  using assms(1)
proof induction
  case (run_create log s t)
  from A run_create(3) sz run_create(4) show ?case
    by (cases rule: ngx_create_pool_spec [where log = log]) (use run_create(1,2) in auto)
next
  case (run_palloc s n p t)
  then obtain g where "pool_inv s pool g" by blast
  from alloc_spec_laws(2,3) [OF ngx_palloc_meets [OF A this], of n] run_palloc(2) show ?case
    by (cases "p = 0") blast+
next
  case (run_pnalloc s n p t)
  then obtain g where "pool_inv s pool g" by blast
  from alloc_spec_laws(2,3) [OF ngx_pnalloc_meets [OF A this], of n] run_pnalloc(2) show ?case
    by (cases "p = 0") blast+
next
  case (run_pcalloc s n p t)
  then obtain g where "pool_inv s pool g" by blast
  from A this show ?case
    by (cases rule: ngx_pcalloc_cases [where sz = n]) (use run_pcalloc(2) in \<open>auto simp: handed_def\<close>)
next
  case (run_pmemalign s n al p t)
  then obtain g where "pool_inv s pool g" by blast
  from ngx_pmemalign_meets [OF A this run_pmemalign(2), of al] run_pmemalign(3) show ?case
    by (auto simp: handed_def)
next
  case (run_pfree s q r t)
  then obtain g where g: "pool_inv s pool g" by blast
  show ?case
  proof (cases "q = 0")
    case True
    then show ?thesis using g ngx_pfree_null [OF g] run_pfree(2) by auto
  next
    case False
    with g show ?thesis by (cases rule: ngx_pfree_spec) (use run_pfree(2) g in auto)
  qed
next
  case (run_cleanup_add s n c t)
  then obtain g where "pool_inv s pool g" by blast
  from A this show ?case
    by (cases rule: ngx_pool_cleanup_add_spec [where sz = n])
      (use run_cleanup_add(2) in \<open>auto simp: cleanup_added_def\<close>)
next
  case (run_set_handler s c e f)
  then show ?case using set_handler_inv by blast
next
  case (run_file_handler s c t e h f)
  then obtain g where "pool_inv s pool g" by blast
  from A this show ?case
  proof (cases rule: ngx_pool_cleanup_add_spec [where sz = 24])
    case (ok c' t' g')
    then have "cleanup_added s pool g 24 c t g'" using run_file_handler(2) by simp
    from file_handler_inv [OF this run_file_handler(4,5)] show ?thesis by blast
  qed (use run_file_handler(2,3) in simp)
next
  case (run_cleanup_file s fd t)
  then obtain g where g: "pool_inv s pool g" by blast
  then show ?case
    by (cases rule: ngx_pool_run_cleanup_file_spec [where fd = fd]) (use g run_cleanup_file(2) in auto)
next
  case (run_reset s pl t)
  then obtain g where g: "pool_inv s pool g" by blast
  from g no_cleanups [OF g run_reset(2,3)] show ?case
    by (cases rule: ngx_reset_pool_spec) (use run_reset(4) in auto)
qed

section \<open>A concrete C library\<close>

text \<open>
  An allocator that satisfies the contract: the first aligned address above every live
  chunk. The witnesses run the pool on it.
\<close>

definition top_of :: "region list \<Rightarrow> nat" where
  "top_of cs = foldr (\<lambda>c m. max m (fst c + max 1 (snd c))) cs 0"

definition above :: allocator where
  "above al cs n =
     (let p = al * (top_of cs div al + 1)
      in if al = 0 \<or> 2 ^ 64 < p + n + 16 then None else Some p)"

lemma top_of_le: "c \<in> set cs \<Longrightarrow> fst c + max 1 (snd c) \<le> top_of cs"
  by (induction cs) (auto simp: top_of_def)

lemma above_ok: "allocator_ok above"
proof -
  have "top_of cs < al * (top_of cs div al + 1)" if "al \<noteq> 0" for al cs
    using that dividend_less_times_div [of al "top_of cs"] by (simp add: algebra_simps)
  then show ?thesis
    unfolding allocator_ok_def above_def Let_def disjoint_def
    by (auto split: if_splits dest!: top_of_le) (metis add.commute fst_conv le_trans less_imp_le_nat snd_conv)
qed

definition demo_pool :: mem where
  "demo_pool = snd (ngx_create_pool above 1024 0 (mem_init 4096))"

lemma demo_create: "ngx_create_pool above 1024 0 (mem_init 4096) = (16, demo_pool)"
  by (simp add: demo_pool_def ngx_create_pool_def ngx_memalign_def c_memalign_def above_def top_of_def
      mem_init_def Let_def)

lemma demo_ok: "pool_size_ok 1024" "live_ok (mem_init 4096)" "pagesize_ok (mem_init 4096)"
  by (simp_all add: pool_size_ok_def live_ok_def mem_init_def pagesize_ok_def)

lemma demo_run: "pool_run above 1024 16 demo_pool"
  using run_create [OF demo_create _ demo_ok(2,3)] by simp

lemma demo_inv: "pool_inv demo_pool 16 (g_new 1024 16)"
  by (rule ngx_create_pool_spec [OF above_ok demo_ok(2,1,3), where log = 0]) (use demo_create in auto)

section \<open>Properties\<close>

text \<open>
  (C1) \<^verbatim>\<open>ngx_palloc\<close> on a well-formed pool never faults. It returns \<^verbatim>\<open>NULL\<close> only when the C
  library, in the state of the call, refuses the request the call makes: a new block for a small size, the chunk or the
  block for its list entry for a large one; the pool is then as well-formed as before. Otherwise the
  region it returns is 8-byte aligned, lies in the used part of a block or is a live chunk of
  its own, overlaps no region handed out before, and is remembered by the pool.
\<close>

theorem ngx_palloc_safe:
  assumes "allocator_ok A" and "pool_inv s pool g"
  shows "\<exists>p t. ngx_palloc A s pool n = Some (p, t) \<and>
    (if p = 0 then pool_inv t pool g \<and> request_refused A s pool g n
     else 8 dvd p \<and> (\<exists>g'. pool_inv t pool g' \<and>
       insert (p, n) (set (g_regions g)) \<subseteq> set (g_regions g') \<and>
       (\<forall>q \<in> set (g_regions g). disjoint (p, n) q) \<and>
       (in_block t pool (g_blocks g') (p, n) \<or> (p, n) \<in> set (live t))))"
proof -
  from ngx_palloc_meets [OF assms, of n] consider
    (null) t where "ngx_palloc A s pool n = Some (0, t)" "pool_inv t pool g" "request_refused A s pool g n"
    | (ok) m t g' where "ngx_palloc A s pool n = Some (m, t)" "m \<noteq> 0" "8 dvd m" "handed s pool g (m, n) t g'"
    unfolding alloc_spec_def by blast
  then show ?thesis
  proof cases
    case null
    then show ?thesis by simp
  next
    case ok
    then have inv: "pool_inv t pool g'" and r: "(m, n) \<in> set (g_regions g')"
      and rs: "set (g_regions g) \<subseteq> set (g_regions g')" "\<forall>q \<in> set (g_regions g). disjoint (m, n) q"
      by (auto simp: handed_def)
    have "in_block t pool (g_blocks g') (m, n) \<or> (m, n) \<in> set (live t)"
      using inv r unfolding pool_inv_def regions_ok_def large_chunk_def by blast
    then show ?thesis using ok inv r rs
      by (intro exI [of _ m] exI [of _ t]) (auto intro!: exI [of _ g'])
  qed
qed

theorem ngx_palloc_safe_witness:
  "\<exists>p t. ngx_palloc above demo_pool 16 100 = Some (p, t) \<and>
    (if p = 0 then pool_inv t 16 (g_new 1024 16) \<and> request_refused above demo_pool 16 (g_new 1024 16) 100
     else 8 dvd p \<and> (\<exists>g'. pool_inv t 16 g' \<and>
       insert (p, 100) (set (g_regions (g_new 1024 16))) \<subseteq> set (g_regions g') \<and>
       (\<forall>q \<in> set (g_regions (g_new 1024 16)). disjoint (p, 100) q) \<and>
       (in_block t 16 (g_blocks g') (p, 100) \<or> (p, 100) \<in> set (live t))))"
  by (rule ngx_palloc_safe [OF above_ok demo_inv])

text \<open>
  (C2) No sequence of calls on a pool, in any order, leads to a state where the next call
  faults: no operation reads memory that was freed or never initialised, none frees an
  address that is not live, and every loop ends. The size of the pool is a multiple of 8 and at least
  \<^verbatim>\<open>NGX_MIN_POOL_SIZE\<close>; the cleanups may be functions of the user and the file handlers of the pool;
  aligned requests are of positive size, and the pool is reset only while no cleanup is registered.
\<close>

theorem pool_run_no_fault:
  assumes "pool_run A sz pool s" and "allocator_ok A" and "pool_size_ok sz"
  shows "ngx_palloc A s pool n \<noteq> None \<and> ngx_pnalloc A s pool n \<noteq> None \<and>
    ngx_pcalloc A s pool n \<noteq> None \<and> (0 < n \<longrightarrow> ngx_pmemalign A s pool n al \<noteq> None) \<and>
    ngx_pfree s pool q \<noteq> None \<and> ngx_pool_cleanup_add A s pool n \<noteq> None \<and>
    ngx_pool_run_cleanup_file s pool fd \<noteq> None \<and>
    (map_option pl_cleanup (heap_p s pool) = Some 0 \<longrightarrow> ngx_reset_pool s pool \<noteq> None) \<and>
    ngx_destroy_pool s pool \<noteq> None"
proof -
  from pool_run_inv [OF assms] obtain g where g: "pool_inv s pool g" ..
  note A = assms(2)
  have "ngx_palloc A s pool n \<noteq> None" using alloc_spec_laws(1) [OF ngx_palloc_meets [OF A g]] by force
  moreover have "ngx_pnalloc A s pool n \<noteq> None" using alloc_spec_laws(1) [OF ngx_pnalloc_meets [OF A g]] by force
  moreover have "ngx_pcalloc A s pool n \<noteq> None" by (cases rule: ngx_pcalloc_cases [OF A g, where sz = n]) auto
  moreover have "0 < n \<longrightarrow> ngx_pmemalign A s pool n al \<noteq> None" 
  proof
    assume "0 < n"
    from ngx_pmemalign_meets [OF A g this, of al] show "ngx_pmemalign A s pool n al \<noteq> None" by auto
  qed
  moreover have "ngx_pfree s pool q \<noteq> None"
  proof (cases "q = 0")
    case True
    then show ?thesis using ngx_pfree_null [OF g] by auto
  next
    case False
    with g show ?thesis by (cases rule: ngx_pfree_spec) auto
  qed
  moreover have "ngx_pool_cleanup_add A s pool n \<noteq> None"
    by (cases rule: ngx_pool_cleanup_add_spec [OF A g, where sz = n]) auto
  moreover have "ngx_pool_run_cleanup_file s pool fd \<noteq> None"
    by (cases rule: ngx_pool_run_cleanup_file_spec [OF g, where fd = fd]) auto
  moreover have "map_option pl_cleanup (heap_p s pool) = Some 0 \<longrightarrow> ngx_reset_pool s pool \<noteq> None"
  proof
    assume "map_option pl_cleanup (heap_p s pool) = Some 0"
    then have "g_cleanups g = []" using no_cleanups [OF g] by auto
    from g this show "ngx_reset_pool s pool \<noteq> None" by (cases rule: ngx_reset_pool_spec) auto
  qed
  moreover have "ngx_destroy_pool s pool \<noteq> None" using ngx_destroy_pool_released [OF g] by simp
  ultimately show ?thesis by blast
qed

theorem pool_run_no_fault_witness:
  "ngx_palloc above demo_pool 16 5000 \<noteq> None \<and> ngx_pfree demo_pool 16 4096 \<noteq> None \<and>
   ngx_destroy_pool demo_pool 16 \<noteq> None"
  using pool_run_no_fault [OF demo_run above_ok demo_ok(1), of 5000 16 4096 0] by simp

text \<open>
  (C3) \<^verbatim>\<open>ngx_destroy_pool\<close> runs the cleanup handlers from the most recently registered to the
  oldest, and gives back exactly the pool's chunks: its blocks and its large allocations,
  each once; no other chunk is freed and none of the pool's is left.
\<close>

theorem ngx_destroy_pool_exact:
  assumes "pool_inv s pool g"
  shows "\<exists>t. ngx_destroy_pool s pool = Some t \<and>
    events t = events s @ cleanup_events s (g_cleanups g) \<and>
    live t = filter (\<lambda>c. fst c \<notin> set (g_blocks g @ allocs s (g_larges g))) (live s) \<and>
    distinct (g_blocks g @ allocs s (g_larges g)) \<and>
    set (g_blocks g @ allocs s (g_larges g)) \<subseteq> fst ` set (live s) \<and>
    (\<forall>b \<in> set (g_blocks g). heap_d t b = None)"
proof -
  let ?P = "set (g_blocks g) \<union> set (allocs s (g_larges g))"
  have "wiped (chunks_of s ?P) (heap_d s) b = None" if "b \<in> set (g_blocks g)" for b
  proof -
    have "(b, g_size g) \<in> set (live s)" "0 < g_size g"
      using assms that by (auto simp: pool_inv_def blocks_ok_def block_ok_def)
    then have "(b, g_size g) \<in> chunks_of s ?P" "fst (b, g_size g) \<le> b \<and> b < fst (b, g_size g) + snd (b, g_size g)"
      using that by auto
    then show ?thesis unfolding wiped_def by (metis (no_types, lifting))
  qed
  then show ?thesis using ngx_destroy_pool_released [OF assms] pool_inv_chunks [OF assms] by simp
qed

theorem ngx_destroy_pool_exact_witness:
  "\<exists>t. ngx_destroy_pool demo_pool 16 = Some t \<and> live t = []"
  using ngx_destroy_pool_exact [OF demo_inv] demo_create
  by (auto simp: g_new_def allocs_def demo_pool_def ngx_create_pool_def ngx_memalign_def c_memalign_def
      above_def top_of_def mem_init_def Let_def)

text \<open>
  (C4) Any sequence of requests to \<^verbatim>\<open>ngx_palloc\<close> and \<^verbatim>\<open>ngx_pnalloc\<close>, in any order and whatever the sizes,
  yields regions that are pairwise disjoint and disjoint from every region handed out before, and leaves a well-formed pool that
  remembers them all; a request is answered with \<^verbatim>\<open>NULL\<close> only where the C library refuses it.
\<close>

theorem pool_regions_disjoint:
  assumes "allocator_ok A" and "pool_inv s pool g"
  shows "\<exists>rs t g'. alloc_all (pool_request A pool) s qs = Some (rs, t) \<and> map snd rs = map snd qs \<and>
    pool_inv t pool g' \<and> set (obtained rs) \<union> set (g_regions g) \<subseteq> set (g_regions g') \<and>
    separated (obtained rs) \<and> (\<forall>r \<in> set (obtained rs). \<forall>q \<in> set (g_regions g). disjoint r q) \<and>
    (\<forall>i < length qs. fst (rs ! i) = 0 \<longrightarrow> (\<exists>os u h. alloc_all (pool_request A pool) s (take i qs) = Some (os, u) \<and>
       pool_inv u pool h \<and> request_refused A u pool h (snd (qs ! i))))"
proof -
  from requests.alloc_all_separated [where A = A and pool = pool and s = s and g = g and qs = qs] assms obtain rs t g' where
    1: "alloc_all (pool_request A pool) s qs = Some (rs, t)" "map snd rs = map snd qs" "pool_inv t pool g'" "separated (obtained rs)"
      "set (obtained rs) \<union> set (g_regions g) \<subseteq> set (g_regions g')"
      "\<forall>r \<in> set (obtained rs). \<forall>q \<in> set (g_regions g). disjoint r q" by blast
  show ?thesis
    using 1 requests.alloc_all_null [OF _ 1(1), of g] assms by blast
qed

theorem pool_regions_disjoint_witness:
  "\<exists>rs t g'. alloc_all (pool_request above 16) demo_pool [(True, 100), (False, 3), (True, 5000), (False, 7)] = Some (rs, t) \<and>
    map snd rs = [100, 3, 5000, 7] \<and> pool_inv t 16 g' \<and> separated (obtained rs)"
  using pool_regions_disjoint [OF above_ok demo_inv, of "[(True, 100), (False, 3), (True, 5000), (False, 7)]"] by auto

text \<open>
  (C5) \<^verbatim>\<open>ngx_pfree\<close> frees a chunk exactly when the pool owns it as a large allocation: the
  chunk disappears from the live ones, its region is given up, and the pool stays
  well-formed. Every other address is declined and nothing changes.
\<close>

theorem ngx_pfree_exact:
  assumes "pool_inv s pool g" and "p \<noteq> 0"
  shows "if p \<in> set (allocs s (g_larges g))
    then \<exists>t n. ngx_pfree s pool p = Some (True, t) \<and> (p, n) \<in> set (live s) \<and>
      live t = filter (\<lambda>c. fst c \<noteq> p) (live s) \<and> pool_inv t pool (g_drop g (p, n))
    else ngx_pfree s pool p = Some (False, s)"
  by (cases rule: ngx_pfree_spec [OF assms]) auto

theorem ngx_pfree_exact_witness: "ngx_pfree demo_pool 16 32 = Some (False, demo_pool)"
  using ngx_pfree_exact [OF demo_inv, of 32] by (simp add: g_new_def allocs_def)

text \<open>
  (C6) \<^verbatim>\<open>ngx_reset_pool\<close> on a pool without cleanups keeps its blocks, frees every large
  allocation and no other chunk, and leaves a well-formed pool that has handed out nothing: every block is empty from the end of a
  pool header on and has no failures counted, the search starts at the first block, and the next small request of any size is
  served from there without a call to the C library.
\<close>

theorem ngx_reset_pool_empties:
  assumes "pool_inv s pool g" and "g_cleanups g = []"
  shows "\<exists>t. ngx_reset_pool s pool = Some t \<and>
    pool_inv t pool (g\<lparr>g_larges := [], g_regions := []\<rparr>) \<and>
    live t = filter (\<lambda>c. fst c \<notin> set (allocs s (g_larges g))) (live s) \<and>
    (\<forall>b \<in> set (g_blocks g). \<exists>d. heap_d t b = Some d \<and> d_last d = b + 80 \<and> d_end d = b + g_size g \<and> d_failed d = 0) \<and>
    (\<exists>pl. heap_p t pool = Some pl \<and> pl_current pl = pool \<and> pl_large pl = 0 \<and>
      (\<forall>n \<le> pl_max pl. \<exists>u. ngx_palloc A t pool n = Some (pool + 80, u) \<and> live u = live t))"
proof (cases rule: ngx_reset_pool_spec [OF assms])
  case (1 t)
  from assms(1) obtain pl where pl: "heap_p s pool = Some pl" by (auto simp: pool_inv_def)
  have "\<exists>d. heap_d t b = Some d \<and> d_last d = b + 80 \<and> d_end d = b + g_size g \<and> d_failed d = 0" if "b \<in> set (g_blocks g)" for b
    using 1(5) that assms(1) by (auto simp: pool_inv_def blocks_ok_def block_ok_def)
  moreover have "\<exists>u. ngx_palloc A t pool n = Some (pool + 80, u) \<and> live u = live t" if "n \<le> pl_max (pl\<lparr>pl_current := pool, pl_chain := 0, pl_large := 0\<rparr>)" for n
  proof -
    have "pool \<in> set (g_blocks g)" using pool_in_blocks [of s pool g] assms(1) by (simp add: pool_inv_def)
    then obtain d where "heap_d t pool = Some d" "d_last d = pool + 80" using 1(5) assms(1) by (auto simp: pool_inv_def blocks_ok_def block_ok_def)
    from palloc_first [OF 1(2) _ _ that this] show ?thesis using 1(6) pl by simp
  qed
  ultimately show ?thesis using 1 pl by (auto simp: g_reset_def)
qed

theorem ngx_reset_pool_empties_witness: "\<exists>t. ngx_reset_pool demo_pool 16 = Some t \<and>
    pool_inv t 16 ((g_new 1024 16)\<lparr>g_larges := [], g_regions := []\<rparr>)"
  using ngx_reset_pool_empties [OF demo_inv] by (auto simp: g_new_def)

text \<open>
  \<^verbatim>\<open>ngx_pool_cleanup_add\<close> puts the new entry in front of the registered ones, without a
  handler, with fresh memory of the size asked for as its data, and leaves the other entries
  alone; it fails only when the C library refuses the entry or its data, and then the list of cleanups is unchanged.
\<close>

theorem ngx_pool_cleanup_add_links:
  assumes "allocator_ok A" and "pool_inv s pool g"
  shows "\<exists>c t g'. ngx_pool_cleanup_add A s pool sz = Some (c, t) \<and> pool_inv t pool g' \<and>
    (if c = 0 then g_cleanups g' = g_cleanups g \<and> cleanup_refused A s pool g sz
     else g_cleanups g' = c # g_cleanups g \<and>
       (\<exists>e. heap_c t c = Some e \<and> cl_handler e = NoHandler \<and>
          (if sz = 0 then cl_data e = 0
           else cl_data e \<noteq> 0 \<and> (\<forall>q \<in> set (g_regions g). disjoint (cl_data e, sz) q))) \<and>
       (\<forall>x. x \<noteq> c \<longrightarrow> heap_c t x = heap_c s x))"
  by (cases rule: ngx_pool_cleanup_add_spec [OF assms, where sz = sz])
    (force simp: cleanup_added_def split: if_splits)+

theorem ngx_pool_cleanup_add_links_witness:
  "\<exists>c t g'. ngx_pool_cleanup_add above demo_pool 16 24 = Some (c, t) \<and> pool_inv t 16 g'"
  using ngx_pool_cleanup_add_links [OF above_ok demo_inv, of 24] by blast

text \<open>
  \<^verbatim>\<open>ngx_pool_run_cleanup_file\<close> closes the descriptor of the first matching file cleanup
  and disables that entry, so that the destruction of the pool does not run it again; without
  a matching entry nothing happens.
\<close>

theorem ngx_pool_run_cleanup_file_once:
  assumes "pool_inv s pool g"
  shows "\<exists>t. ngx_pool_run_cleanup_file s pool fd = Some t \<and> pool_inv t pool g \<and>
    (if \<exists>c \<in> set (g_cleanups g). closes s fd c
     then events t = events s @ [Closed fd] \<and>
       (\<exists>c \<in> set (g_cleanups g). closes s fd c \<and> handler_events t (the (heap_c t c)) = [])
     else t = s)"
  by (cases rule: ngx_pool_run_cleanup_file_spec [OF assms, where fd = fd])
    (use assms in \<open>force simp: closed_early_def handler_events_def\<close>)+

theorem ngx_pool_run_cleanup_file_once_witness: "ngx_pool_run_cleanup_file demo_pool 16 3 = Some demo_pool"
  using ngx_pool_run_cleanup_file_once [OF demo_inv, of 3] by (auto simp: g_new_def)

text \<open>
  (C7) \<^verbatim>\<open>ngx_create_pool\<close> with a size that is a multiple of 8 and at least
  \<^verbatim>\<open>NGX_MIN_POOL_SIZE\<close> returns \<^verbatim>\<open>NULL\<close> and changes nothing when the C library refuses, and
  otherwise a well-formed empty pool of one block.
\<close>

theorem ngx_create_pool_wellformed:
  assumes "allocator_ok A" and "live_ok s" and "pool_size_ok sz" and "pagesize_ok s"
  shows "\<exists>p t. ngx_create_pool A sz log s = (p, t) \<and>
    (if p = 0 then t = s \<and> A 16 (live s) sz = None
     else pool_inv t p (g_new sz p) \<and> live t = (p, sz) # live s)"
  by (cases rule: ngx_create_pool_spec [OF assms, where log = log]) auto

theorem ngx_create_pool_wellformed_witness:
  "\<exists>p t. ngx_create_pool above 1024 0 (mem_init 4096) = (p, t) \<and>
    (if p = 0 then t = mem_init 4096 \<and> above 16 (live (mem_init 4096)) 1024 = None
     else pool_inv t p (g_new 1024 p) \<and> live t = (p, 1024) # live (mem_init 4096))"
  by (rule ngx_create_pool_wellformed [OF above_ok demo_ok(2,1,3)])

text \<open>
  \<^verbatim>\<open>ngx_pcalloc\<close> returns zeroed memory and changes no byte outside the region it
  returns; it fails only when the C library refuses its request.
\<close>

theorem ngx_pcalloc_zeroed:
  assumes "allocator_ok A" and "pool_inv s pool g"
  shows "\<exists>p t. ngx_pcalloc A s pool n = Some (p, t) \<and>
    (p = 0 \<longrightarrow> request_refused A s pool g n) \<and>
    (p \<noteq> 0 \<longrightarrow> (\<forall>x. raw t x = (if p \<le> x \<and> x < p + n then 0 else raw s x)) \<and>
       (\<exists>g'. pool_inv t pool g' \<and> (p, n) \<in> set (g_regions g') \<and> (\<forall>q \<in> set (g_regions g). disjoint (p, n) q)))"
  by (cases rule: ngx_pcalloc_cases [OF assms, where sz = n])
    (auto simp: handed_def ngx_memzero_def intro: memzero_inv [THEN iffD2, unfolded ngx_memzero_def])

theorem ngx_pcalloc_zeroed_witness:
  "\<exists>p t. ngx_pcalloc above demo_pool 16 10 = Some (p, t) \<and>
    (p \<noteq> 0 \<longrightarrow> (\<forall>x. raw t x = (if p \<le> x \<and> x < p + 10 then 0 else raw demo_pool x)))"
  using ngx_pcalloc_zeroed [OF above_ok demo_inv, of 10] by blast

end
