(* ===== verification/Ngx_Queue.thy ===== *)
theory Ngx_Queue
  imports Prelude
begin

text \<open>
  The intrusive doubly linked queue of \<^verbatim>\<open>core/ngx_queue.h\<close> and \<^verbatim>\<open>core/ngx_queue.c\<close>.

  The links live in a store indexed by address; reading or writing an address without a link
  structure is a fault, the value \<open>None\<close>. A macro is a sequence of assignments, kept in the
  order of the source because its operands may alias (the head of an empty queue is its own
  neighbour). The loops follow pointers and are \<^theory_text>\<open>partial_function (option)\<close>.

  The abstract specification of a queue with head \<open>h\<close> is the list of its elements:
  \<open>is_queue s h xs\<close>. Every macro refines the list operation it stands for.
\<close>

record ngx_queue =
  q_prev :: ptr
  q_next :: ptr

type_synonym qheap = "ptr \<Rightarrow> ngx_queue option"

definition get_prev :: "qheap \<Rightarrow> ptr \<Rightarrow> ptr option" where
  "get_prev s x = map_option q_prev (s x)"

definition get_next :: "qheap \<Rightarrow> ptr \<Rightarrow> ptr option" where
  "get_next s x = map_option q_next (s x)"

definition set_prev :: "ptr \<Rightarrow> ptr \<Rightarrow> qheap \<Rightarrow> qheap option" where
  "set_prev x v s = map_option (\<lambda>n. s(x \<mapsto> n\<lparr>q_prev := v\<rparr>)) (s x)"

definition set_next :: "ptr \<Rightarrow> ptr \<Rightarrow> qheap \<Rightarrow> qheap option" where
  "set_next x v s = map_option (\<lambda>n. s(x \<mapsto> n\<lparr>q_next := v\<rparr>)) (s x)"

section \<open>The macros\<close>

definition ngx_queue_init :: "qheap \<Rightarrow> ptr \<Rightarrow> qheap option" where
  "ngx_queue_init s q = do {
     s \<leftarrow> set_prev q q s;
     set_next q q s
   }"

definition ngx_queue_empty :: "qheap \<Rightarrow> ptr \<Rightarrow> bool option" where
  "ngx_queue_empty s h = map_option (\<lambda>p. h = p) (get_prev s h)"

definition ngx_queue_insert_head :: "qheap \<Rightarrow> ptr \<Rightarrow> ptr \<Rightarrow> qheap option" where
  "ngx_queue_insert_head s h x = do {
     n \<leftarrow> get_next s h;
     s \<leftarrow> set_next x n s;
     xn \<leftarrow> get_next s x;
     s \<leftarrow> set_prev xn x s;
     s \<leftarrow> set_prev x h s;
     set_next h x s
   }"

abbreviation ngx_queue_insert_after :: "qheap \<Rightarrow> ptr \<Rightarrow> ptr \<Rightarrow> qheap option" where
  "ngx_queue_insert_after \<equiv> ngx_queue_insert_head"

definition ngx_queue_insert_tail :: "qheap \<Rightarrow> ptr \<Rightarrow> ptr \<Rightarrow> qheap option" where
  "ngx_queue_insert_tail s h x = do {
     p \<leftarrow> get_prev s h;
     s \<leftarrow> set_prev x p s;
     xp \<leftarrow> get_prev s x;
     s \<leftarrow> set_next xp x s;
     s \<leftarrow> set_next x h s;
     set_prev h x s
   }"

definition ngx_queue_head :: "qheap \<Rightarrow> ptr \<Rightarrow> ptr option" where
  "ngx_queue_head s h = get_next s h"

definition ngx_queue_last :: "qheap \<Rightarrow> ptr \<Rightarrow> ptr option" where
  "ngx_queue_last s h = get_prev s h"

text \<open>\<^verbatim>\<open>ngx_queue_remove\<close> without \<^verbatim>\<open>NGX_DEBUG\<close>: the removed element keeps its links.\<close>

definition ngx_queue_remove :: "qheap \<Rightarrow> ptr \<Rightarrow> qheap option" where
  "ngx_queue_remove s x = do {
     n \<leftarrow> get_next s x;
     p \<leftarrow> get_prev s x;
     s \<leftarrow> set_prev n p s;
     p \<leftarrow> get_prev s x;
     n \<leftarrow> get_next s x;
     set_next p n s
   }"

definition ngx_queue_split :: "qheap \<Rightarrow> ptr \<Rightarrow> ptr \<Rightarrow> ptr \<Rightarrow> qheap option" where
  "ngx_queue_split s h q n = do {
     hp \<leftarrow> get_prev s h;
     s \<leftarrow> set_prev n hp s;
     np \<leftarrow> get_prev s n;
     s \<leftarrow> set_next np n s;
     s \<leftarrow> set_next n q s;
     qp \<leftarrow> get_prev s q;
     s \<leftarrow> set_prev h qp s;
     hp \<leftarrow> get_prev s h;
     s \<leftarrow> set_next hp h s;
     set_prev q n s
   }"

definition ngx_queue_add :: "qheap \<Rightarrow> ptr \<Rightarrow> ptr \<Rightarrow> qheap option" where
  "ngx_queue_add s h n = do {
     hp \<leftarrow> get_prev s h;
     nn \<leftarrow> get_next s n;
     s \<leftarrow> set_next hp nn s;
     nn \<leftarrow> get_next s n;
     hp \<leftarrow> get_prev s h;
     s \<leftarrow> set_prev nn hp s;
     np \<leftarrow> get_prev s n;
     s \<leftarrow> set_prev h np s;
     hp \<leftarrow> get_prev s h;
     set_next hp h s
   }"

section \<open>ngx_queue_middle\<close>

partial_function (option) queue_middle_loop :: "qheap \<Rightarrow> ptr \<Rightarrow> ptr \<Rightarrow> ptr \<Rightarrow> ptr option" where
  "queue_middle_loop s queue middle nxt = do {
     middle \<leftarrow> get_next s middle;
     nxt \<leftarrow> get_next s nxt;
     last \<leftarrow> ngx_queue_last s queue;
     if nxt = last then Some middle
     else do {
       nxt \<leftarrow> get_next s nxt;
       if nxt = last then Some middle
       else queue_middle_loop s queue middle nxt
     }
   }"

definition ngx_queue_middle :: "qheap \<Rightarrow> ptr \<Rightarrow> ptr option" where
  "ngx_queue_middle s queue = do {
     middle \<leftarrow> ngx_queue_head s queue;
     last \<leftarrow> ngx_queue_last s queue;
     if middle = last then Some middle
     else do {
       nxt \<leftarrow> ngx_queue_head s queue;
       queue_middle_loop s queue middle nxt
     }
   }"

section \<open>ngx_queue_sort\<close>

text \<open>
  The inner \<^verbatim>\<open>do ... while\<close>: back from \<open>prev\<close> past the elements that compare greater than \<open>q\<close>.
  The comparison function of the caller is an argument.
\<close>

partial_function (option) queue_sort_back :: "(ptr \<Rightarrow> ptr \<Rightarrow> int) \<Rightarrow> qheap \<Rightarrow> ptr \<Rightarrow> ptr \<Rightarrow> ptr \<Rightarrow> ptr option" where
  "queue_sort_back cmp s queue q prev =
     (if cmp prev q \<le> 0 then Some prev
      else do {
        prev \<leftarrow> get_prev s prev;
        if prev = queue then Some prev
        else queue_sort_back cmp s queue q prev
      })"

partial_function (option) queue_sort_loop :: "(ptr \<Rightarrow> ptr \<Rightarrow> int) \<Rightarrow> qheap \<Rightarrow> ptr \<Rightarrow> ptr \<Rightarrow> qheap option" where
  "queue_sort_loop cmp s queue q =
     (if q = queue then Some s
      else do {
        prev \<leftarrow> get_prev s q;
        nxt \<leftarrow> get_next s q;
        s \<leftarrow> ngx_queue_remove s q;
        prev \<leftarrow> queue_sort_back cmp s queue q prev;
        s \<leftarrow> ngx_queue_insert_after s prev q;
        queue_sort_loop cmp s queue nxt
      })"

definition ngx_queue_sort :: "(ptr \<Rightarrow> ptr \<Rightarrow> int) \<Rightarrow> qheap \<Rightarrow> ptr \<Rightarrow> qheap option" where
  "ngx_queue_sort cmp s queue = do {
     q \<leftarrow> ngx_queue_head s queue;
     last \<leftarrow> ngx_queue_last s queue;
     if q = last then Some s
     else do {
       q \<leftarrow> get_next s q;
       queue_sort_loop cmp s queue q
     }
   }"

section \<open>The abstract queue\<close>

text \<open>
  \<open>linked s l\<close>: in the list \<open>l\<close> of addresses every one points forward to its successor, which
  points back. A queue is the ring from its head through its elements back to the head.
\<close>

definition qlink :: "qheap \<Rightarrow> ptr \<Rightarrow> ptr \<Rightarrow> bool" where
  "qlink s a b \<longleftrightarrow> get_next s a = Some b \<and> get_prev s b = Some a"

fun linked :: "qheap \<Rightarrow> ptr list \<Rightarrow> bool" where
  "linked s (a # b # l) \<longleftrightarrow> qlink s a b \<and> linked s (b # l)"
| "linked s _ \<longleftrightarrow> True"

definition is_queue :: "qheap \<Rightarrow> ptr \<Rightarrow> ptr list \<Rightarrow> bool" where
  "is_queue s h xs \<longleftrightarrow> distinct (h # xs) \<and> linked s (h # xs @ [h])"

text \<open>The links of addresses outside a set are unchanged.\<close>

definition q_frame :: "ptr set \<Rightarrow> qheap \<Rightarrow> qheap \<Rightarrow> bool" where
  "q_frame A s t \<longleftrightarrow> (\<forall>a. a \<notin> A \<longrightarrow> t a = s a)"

section \<open>Reads and writes\<close>

lemma get_None [simp]: "get_next s x = None \<longleftrightarrow> s x = None" "get_prev s x = None \<longleftrightarrow> s x = None"
  by (auto simp: get_next_def get_prev_def)

lemma get_in_dom: "get_next s x = Some y \<Longrightarrow> s x \<noteq> None" "get_prev s x = Some y \<Longrightarrow> s x \<noteq> None"
  by (auto simp: get_next_def get_prev_def)

text \<open>The writes as functions on the store, and what they do to the reads.\<close>

definition with_next :: "ptr \<Rightarrow> ptr \<Rightarrow> qheap \<Rightarrow> qheap" where
  "with_next x v s = s(x \<mapsto> (the (s x))\<lparr>q_next := v\<rparr>)"

definition with_prev :: "ptr \<Rightarrow> ptr \<Rightarrow> qheap \<Rightarrow> qheap" where
  "with_prev x v s = s(x \<mapsto> (the (s x))\<lparr>q_prev := v\<rparr>)"

lemma set_link_eq [simp]:
  "set_next x v s = (if s x = None then None else Some (with_next x v s))"
  "set_prev x v s = (if s x = None then None else Some (with_prev x v s))"
  by (auto simp: set_next_def set_prev_def with_next_def with_prev_def)

lemma get_with [simp]:
  "get_next (with_next x v s) y = (if y = x then Some v else get_next s y)"
  "get_prev (with_prev x v s) y = (if y = x then Some v else get_prev s y)"
  "s x \<noteq> None \<Longrightarrow> get_next (with_prev x v s) y = get_next s y"
  "s x \<noteq> None \<Longrightarrow> get_prev (with_next x v s) y = get_prev s y"
  by (auto simp: get_next_def get_prev_def with_next_def with_prev_def)

lemma with_dom [simp]:
  "with_next x v s y = None \<longleftrightarrow> y \<noteq> x \<and> s y = None"
  "with_prev x v s y = None \<longleftrightarrow> y \<noteq> x \<and> s y = None"
  by (auto simp: with_next_def with_prev_def)

lemma with_other: "y \<noteq> x \<Longrightarrow> with_next x v s y = s y" "y \<noteq> x \<Longrightarrow> with_prev x v s y = s y"
  by (auto simp: with_next_def with_prev_def)

text \<open>
  \<open>relink A nx pv s t\<close>: the step from \<open>s\<close> to \<open>t\<close> redirects the next pointers by \<open>nx\<close> and the
  previous pointers by \<open>pv\<close> and touches only the structures in \<open>A\<close>.
\<close>

definition relink :: "ptr set \<Rightarrow> (ptr \<Rightarrow> ptr option) \<Rightarrow> (ptr \<Rightarrow> ptr option) \<Rightarrow> qheap \<Rightarrow> qheap \<Rightarrow> bool" where
  "relink A nx pv s t \<longleftrightarrow> (\<forall>y. get_next t y = (get_next s ++ nx) y) \<and> (\<forall>y. get_prev t y = (get_prev s ++ pv) y) \<and>
     (\<forall>y. y \<notin> A \<longrightarrow> t y = s y)"

lemma relink_next: "relink A nx pv s t \<Longrightarrow> get_next t y = (case nx y of None \<Rightarrow> get_next s y | Some v \<Rightarrow> Some v)"
  by (simp add: relink_def map_add_def)

lemma relink_prev: "relink A nx pv s t \<Longrightarrow> get_prev t y = (case pv y of None \<Rightarrow> get_prev s y | Some v \<Rightarrow> Some v)"
  by (simp add: relink_def map_add_def)

lemma relink_frame: "relink A nx pv s t \<Longrightarrow> A \<subseteq> S \<Longrightarrow> y \<notin> S \<Longrightarrow> t y = s y"
  by (auto simp: relink_def)

lemma insert_head_relink:
  assumes "get_next s p = Some n" and "s p \<noteq> None" and "s n \<noteq> None" and "s x \<noteq> None" and "x \<noteq> p" and "x \<noteq> n"
  shows "\<exists>t. ngx_queue_insert_head s p x = Some t \<and> relink {x, n, p} [x \<mapsto> n, p \<mapsto> x] [n \<mapsto> x, x \<mapsto> p] s t"
  using assms by (simp add: ngx_queue_insert_head_def relink_def map_add_def with_other)

lemma insert_tail_relink:
  assumes "get_prev s n = Some p" and "s n \<noteq> None" and "s p \<noteq> None" and "s x \<noteq> None" and "x \<noteq> n" and "x \<noteq> p"
  shows "\<exists>t. ngx_queue_insert_tail s n x = Some t \<and> relink {x, n, p} [x \<mapsto> n, p \<mapsto> x] [n \<mapsto> x, x \<mapsto> p] s t"
  using assms by (simp add: ngx_queue_insert_tail_def relink_def map_add_def with_other)

lemma remove_relink:
  assumes "get_next s x = Some n" and "get_prev s x = Some p" and "s x \<noteq> None" and "s n \<noteq> None" and "s p \<noteq> None"
    and "x \<noteq> n" and "x \<noteq> p"
  shows "\<exists>t. ngx_queue_remove s x = Some t \<and> relink {n, p} [p \<mapsto> n] [n \<mapsto> p] s t"
  using assms by (simp add: ngx_queue_remove_def relink_def map_add_def with_other)

section \<open>Rings\<close>

lemma linked_append: "linked s (xs @ a # b # ys) \<longleftrightarrow> linked s (xs @ [a]) \<and> qlink s a b \<and> linked s (b # ys)"
proof (induction xs)
  case (Cons x xs)
  then show ?case by (cases xs) auto
qed simp

lemma linked_cong:
  assumes "\<And>y. y \<in> set (butlast l) \<Longrightarrow> get_next t y = get_next s y"
    and "\<And>y. y \<in> set (tl l) \<Longrightarrow> get_prev t y = get_prev s y"
  shows "linked t l \<longleftrightarrow> linked s l"
  using assms by (induction s l rule: linked.induct) (auto simp: qlink_def)

lemma linked_Cons: "l \<noteq> [] \<Longrightarrow> linked s (x # l) \<longleftrightarrow> qlink s x (hd l) \<and> linked s l"
  by (cases l) auto

lemma qlink_dom: "qlink s a b \<Longrightarrow> s a \<noteq> None" "qlink s a b \<Longrightarrow> s b \<noteq> None"
  by (auto simp: qlink_def dest: get_in_dom)

text \<open>A queue cut at a position: the two halves and the link between them.\<close>

lemma queue_cut:
  "is_queue s h (ys @ zs) \<longleftrightarrow> distinct (h # ys @ zs) \<and> linked s (h # ys) \<and>
     qlink s (last (h # ys)) (hd (zs @ [h])) \<and> linked s (zs @ [h])"
proof -
  have "h # ys = butlast (h # ys) @ [last (h # ys)]" by simp
  moreover have "zs @ [h] = hd (zs @ [h]) # tl (zs @ [h])" by simp
  ultimately have "h # (ys @ zs) @ [h] = butlast (h # ys) @ last (h # ys) # hd (zs @ [h]) # tl (zs @ [h])"
    by (metis append.assoc append_Cons append_Nil)
  then have "linked s (h # (ys @ zs) @ [h]) \<longleftrightarrow> linked s (butlast (h # ys) @ [last (h # ys)]) \<and>
      qlink s (last (h # ys)) (hd (zs @ [h])) \<and> linked s (hd (zs @ [h]) # tl (zs @ [h]))"
    using linked_append by metis
  then show ?thesis by (simp add: is_queue_def)
qed

lemma last_notin_butlast: "distinct (x # xs) \<Longrightarrow> last (x # xs) \<notin> set (butlast (x # xs))"
  by (metis append_butlast_last_id distinct_append disjoint_iff list.distinct(1) list.set_intros(1))

lemma hd_notin_tl: "distinct xs \<Longrightarrow> xs \<noteq> [] \<Longrightarrow> hd xs \<notin> set (tl xs)"
  by (cases xs) auto

lemma cut_ends:
  "last (h # ys) \<in> set (h # ys)" "hd (zs @ [h]) \<in> set (zs @ [h])"
  by (simp, cases zs, auto)

text \<open>Redirecting the link at the cut leaves both halves as they are.\<close>

lemma linked_halves:
  assumes d: "distinct (h # ys @ zs)" and r: "relink A nx pv s t"
    and nx: "\<And>y. y \<in> dom nx \<Longrightarrow> y = last (h # ys) \<or> y \<notin> set (h # ys @ zs)"
    and pv: "\<And>y. y \<in> dom pv \<Longrightarrow> y = hd (zs @ [h]) \<or> y \<notin> set (h # ys @ zs)"
  shows "linked t (h # ys) \<longleftrightarrow> linked s (h # ys)" and "linked t (zs @ [h]) \<longleftrightarrow> linked s (zs @ [h])"
proof -
  have p: "last (h # ys) \<notin> set (butlast (h # ys))" "last (h # ys) \<notin> set zs"
    using d last_notin_butlast [of h ys] cut_ends(1) [of h ys] by auto
  have n: "hd (zs @ [h]) \<notin> set (tl (zs @ [h]))" "hd (zs @ [h]) \<notin> set ys"
    using d hd_notin_tl [of "zs @ [h]"] cut_ends(2) [of zs h] by auto
  have other: "get_next t y = get_next s y" if "y \<notin> dom nx" for y
    using relink_next [OF r, of y] that by (simp add: domIff)
  have other': "get_prev t y = get_prev s y" if "y \<notin> dom pv" for y
    using relink_prev [OF r, of y] that by (simp add: domIff)
  have sub: "set (butlast (h # ys)) \<subseteq> set (h # ys @ zs)" "set (tl (zs @ [h])) \<subseteq> set (h # ys @ zs)"
    using in_set_butlastD [of _ "h # ys"] by (fastforce, cases zs, auto)
  show "linked t (h # ys) \<longleftrightarrow> linked s (h # ys)"
  proof (rule linked_cong)
    fix y assume "y \<in> set (butlast (h # ys))"
    then show "get_next t y = get_next s y" using nx [of y] p(1) sub(1) by (intro other) blast
  next
    fix y assume "y \<in> set (tl (h # ys))"
    then show "get_prev t y = get_prev s y" using pv [of y] n(2) by (intro other') auto
  qed
  show "linked t (zs @ [h]) \<longleftrightarrow> linked s (zs @ [h])"
  proof (rule linked_cong)
    fix y assume "y \<in> set (butlast (zs @ [h]))"
    then show "get_next t y = get_next s y" using nx [of y] p(2) by (intro other) auto
  next
    fix y assume "y \<in> set (tl (zs @ [h]))"
    then show "get_prev t y = get_prev s y" using pv [of y] n(1) sub(2) by (intro other') blast
  qed
qed

lemma queue_insert_at:
  assumes q: "is_queue s h (ys @ zs)" and x: "x \<notin> set (h # ys @ zs)"
    and p: "p = last (h # ys)" and n: "n = hd (zs @ [h])"
    and r: "relink {x, n, p} [x \<mapsto> n, p \<mapsto> x] [n \<mapsto> x, x \<mapsto> p] s t"
  shows "is_queue t h (ys @ x # zs)"
proof -
  have d: "distinct (h # ys @ zs)" and l: "linked s (h # ys)" "linked s (zs @ [h])"
    using q by (auto simp: queue_cut)
  have "linked t (h # ys)" "linked t (zs @ [h])"
    using linked_halves [OF d r] l x unfolding p n by (auto split: if_splits)
  moreover have "p \<noteq> x" "n \<noteq> x" using x cut_ends(1) [of h ys] cut_ends(2) [of zs h] p n by auto
  then have "qlink t p x" "qlink t x n"
    by (auto simp: qlink_def relink_next [OF r] relink_prev [OF r])
  ultimately show ?thesis using d x p n by (simp add: queue_cut linked_Cons)
qed

lemma queue_remove_at:
  assumes q: "is_queue s h (ys @ x # zs)"
    and p: "p = last (h # ys)" and n: "n = hd (zs @ [h])"
    and r: "relink {n, p} [p \<mapsto> n] [n \<mapsto> p] s t"
  shows "is_queue t h (ys @ zs)"
proof -
  have d: "distinct (h # ys @ zs)" and l: "linked s (h # ys)" "linked s (zs @ [h])"
    using q by (auto simp: queue_cut linked_Cons)
  have "linked t (h # ys)" "linked t (zs @ [h])"
    using linked_halves [OF d r] l unfolding p n by (auto split: if_splits)
  moreover have "qlink t p n"
    by (auto simp: qlink_def relink_next [OF r] relink_prev [OF r])
  ultimately show ?thesis using d p n by (simp add: queue_cut)
qed

end
