(* ===== verification/Byte_Parser.thy ===== *)
theory Byte_Parser
  imports Prelude
begin

text \<open>
  The shape shared by the incremental parsers of nginx (request line, header line, status
  line, chunked body): a state machine that consumes the bytes of a buffer one at a time,
  stops at a label or a return statement, and reports \<^verbatim>\<open>NGX_AGAIN\<close> with its state saved when
  the bytes run out.

  An iteration of the loop ends in one of three ways: it goes on with the next byte, it looks
  at the same byte again in another state (\<^verbatim>\<open>p--; break;\<close>), or it leaves the loop. The locale
  \<open>byte_parser\<close> states what the parsers have in common and proves once that feeding a parser
  the input in pieces gives the same result as feeding it the whole input at once.
\<close>

datatype ('s, 'r, 'e) act =
  Next 's 'r
| Stay 's 'r
| Leave 's 'r 'e

datatype ('s, 'r, 'e) outcome =
  More nat 's 'r
| Stop nat 's 'r 'e

text \<open>One round of the loop \<^verbatim>\<open>for (p = b->pos; p < b->last; p++) { ch = *p; switch (state) ... }\<close>.\<close>

definition parse_round ::
  "(u8 list \<Rightarrow> nat \<Rightarrow> 's \<Rightarrow> 'r \<Rightarrow> ('s, 'r, 'e) act) \<Rightarrow>
   (u8 list \<Rightarrow> nat \<Rightarrow> 's \<Rightarrow> 'r \<Rightarrow> ('s, 'r, 'e) outcome) \<Rightarrow>
   u8 list \<Rightarrow> nat \<Rightarrow> 's \<Rightarrow> 'r \<Rightarrow> ('s, 'r, 'e) outcome"
where
  "parse_round step loop buf p s r =
     (if p < length buf
      then (case step buf p s r of
              Next s' r' \<Rightarrow> loop buf (p + 1) s' r'
            | Stay s' r' \<Rightarrow> loop buf p s' r'
            | Leave s' r' e \<Rightarrow> Stop p s' r' e)
      else More p s r)"

text \<open>A byte of the buffer; past its end the value is irrelevant (see the users).\<close>

definition byte_at :: "u8 list \<Rightarrow> nat \<Rightarrow> u8" where
  "byte_at buf i = (if i < length buf then buf ! i else 0)"

lemma byte_at_append: "i < length xs \<Longrightarrow> byte_at (xs @ ys) i = byte_at xs i"
  by (simp add: byte_at_def nth_append)

lemma byte_at_Cons [simp]:
  "byte_at (x # xs) 0 = x" "byte_at (x # xs) (Suc n) = byte_at xs n"
  "byte_at (x # xs) (numeral k) = byte_at xs (pred_numeral k)"
  by (simp_all add: byte_at_def numeral_eq_Suc)

lemma byte_at_skip [simp]: "byte_at (xs @ ys) (length xs) = byte_at ys 0"
  "byte_at (xs @ ys) (Suc (length xs)) = byte_at ys 1"
  "byte_at (xs @ ys) (Suc (Suc (length xs))) = byte_at ys 2"
  "byte_at (xs @ ys) (Suc (Suc (Suc (length xs)))) = byte_at ys 3"
  "byte_at (xs @ ys) (length xs + n) = byte_at ys n"
  by (simp_all add: byte_at_def nth_append eval_nat_numeral)

lemma byte_at_here: "byte_at (xs @ y # ys) (length xs) = y"
  by (simp add: byte_at_def nth_append)

lemma byte_at_in: "i < length ys \<Longrightarrow> byte_at (ys @ zs) i = ys ! i"
  by (simp add: byte_at_def nth_append)

locale byte_parser =
  fixes step :: "u8 list \<Rightarrow> nat \<Rightarrow> 's \<Rightarrow> 'r \<Rightarrow> ('s, 'r, 'e) act"
    and loop :: "u8 list \<Rightarrow> nat \<Rightarrow> 's \<Rightarrow> 'r \<Rightarrow> ('s, 'r, 'e) outcome"
    and weight :: "'s \<Rightarrow> nat"
  assumes loop_round: "loop buf p s r = parse_round step loop buf p s r"
    and step_prefix: "p < length xs \<Longrightarrow> step (xs @ ys) p s r = step xs p s r"
    and stay_weight: "step buf p s r = Stay s' r' \<Longrightarrow> weight s' < weight s"
begin

text \<open>Induction along a run of the loop.\<close>

lemma run_induct [case_names finish advance stay leave]:
  assumes fin: "\<And>p s r. \<not> p < length buf \<Longrightarrow> P p s r"
    and nxt: "\<And>p s r s' r'. p < length buf \<Longrightarrow> step buf p s r = Next s' r' \<Longrightarrow> P (p + 1) s' r' \<Longrightarrow> P p s r"
    and sty: "\<And>p s r s' r'. p < length buf \<Longrightarrow> step buf p s r = Stay s' r' \<Longrightarrow> P p s' r' \<Longrightarrow> P p s r"
    and lv: "\<And>p s r s' r' e. p < length buf \<Longrightarrow> step buf p s r = Leave s' r' e \<Longrightarrow> P p s r"
  shows "P p s r"
proof -
  have "\<forall>s r. length buf - p \<le> k \<longrightarrow> P p s r" for k
  proof (induction k arbitrary: p)
    case 0
    then show ?case using fin by simp
  next
    case (Suc k)
    have "weight s = w \<longrightarrow> length buf - p \<le> Suc k \<longrightarrow> P p s r" for w s r
    proof (induction w arbitrary: s r rule: less_induct)
      case (less w)
      show ?case
      proof (intro impI)
        assume w: "weight s = w" and k: "length buf - p \<le> Suc k"
        show "P p s r"
        proof (cases "p < length buf")
          case True
          show ?thesis
          proof (cases "step buf p s r")
            case (Next s' r')
            have "P (p + 1) s' r'" using Suc.IH [of "p + 1"] k by simp
            then show ?thesis using nxt True Next by blast
          next
            case (Stay s' r')
            then have "weight s' < w" using stay_weight w by blast
            then have "P p s' r'" using less.IH [of "weight s'" s' r'] k by blast
            then show ?thesis using sty True Stay by blast
          next
            case (Leave s' r' e)
            then show ?thesis using lv True by blast
          qed
        qed (use fin in blast)
      qed
    qed
    then show ?case by blast
  qed
  then show ?thesis by blast
qed

text \<open>More input does not change what the loop did with the input it has seen.\<close>

lemma loop_append:
  "loop (xs @ ys) p s r =
     (case loop xs p s r of More p' s' r' \<Rightarrow> loop (xs @ ys) p' s' r' | Stop p' s' r' e \<Rightarrow> Stop p' s' r' e)"
proof (induction p s r rule: run_induct [where buf = xs])
  case (finish p s r)
  then show ?case by (subst (2) loop_round) (simp add: parse_round_def)
next
  case (advance p s r s' r')
  then show ?case
    by (subst (1 2) loop_round) (simp add: parse_round_def step_prefix)
next
  case (stay p s r s' r')
  then show ?case
    by (subst (1 2) loop_round) (simp add: parse_round_def step_prefix)
next
  case (leave p s r s' r' e)
  then show ?case
    by (subst (1 2) loop_round) (simp add: parse_round_def step_prefix)
qed

lemma loop_resume:
  "loop xs p s r = More p' s' r' \<Longrightarrow> loop (xs @ ys) p s r = loop (xs @ ys) p' s' r'"
  by (simp add: loop_append [of xs])

lemma loop_stopped: "loop xs p s r = Stop p' s' r' e \<Longrightarrow> loop (xs @ ys) p s r = Stop p' s' r' e"
  by (simp add: loop_append)

text \<open>Where the loop can end.\<close>

lemma loop_more_end: "loop buf p s r = More p' s' r' \<Longrightarrow> p \<le> length buf \<Longrightarrow> p' = length buf"
proof (induction p s r rule: run_induct [where buf = buf])
  case (finish p s r)
  then show ?case by (subst (asm) loop_round) (simp add: parse_round_def)
next
  case (advance p s r s' r')
  then show ?case by (subst (asm) (2) loop_round) (simp add: parse_round_def)
next
  case (stay p s r s' r')
  then show ?case by (subst (asm) (2) loop_round) (simp add: parse_round_def)
next
  case (leave p s r s' r' e)
  then show ?case by (subst (asm) loop_round) (simp add: parse_round_def)
qed

text \<open>Invariants: what every step keeps holds at the end.\<close>

lemma loop_invariant:
  assumes step: "\<And>p s r. p < length buf \<Longrightarrow> I p s r \<Longrightarrow>
      (case step buf p s r of
         Next s' r' \<Rightarrow> I (p + 1) s' r' | Stay s' r' \<Rightarrow> I p s' r' | Leave s' r' e \<Rightarrow> Q p s' r' e)"
    and start: "I p s r"
  shows "case loop buf p s r of More p' s' r' \<Rightarrow> I p' s' r' | Stop p' s' r' e \<Rightarrow> Q p' s' r' e"
  using start
proof (induction p s r rule: run_induct [where buf = buf])
  case (finish p s r)
  then show ?case by (subst loop_round) (simp add: parse_round_def)
next
  case (advance p s r s' r')
  then show ?case using step [of p s r] by (subst loop_round) (simp add: parse_round_def)
next
  case (stay p s r s' r')
  then show ?case using step [of p s r] by (subst loop_round) (simp add: parse_round_def)
next
  case (leave p s r s' r' e)
  then show ?case using step [of p s r] by (subst loop_round) (simp add: parse_round_def)
qed

text \<open>A stretch of bytes the parser consumes without changing its state.\<close>

lemma loop_skip:
  assumes "\<And>i. p \<le> i \<Longrightarrow> i < q \<Longrightarrow> step buf i s r = Next s r" and "p \<le> q" and "q \<le> length buf"
  shows "loop buf p s r = loop buf q s r"
  using assms(2,1)
proof (induction p rule: inc_induct)
  case (step n)
  have "loop buf n s r = loop buf (Suc n) s r"
    using step.prems [of n] step.hyps assms(3) by (subst loop_round) (simp add: parse_round_def)
  then show ?case using step.IH step.prems by simp
qed simp

end

end
