(* ===== verification/Ngx_String.thy ===== *)
theory Ngx_String
  imports Byte_Parser "HOL-Library.Multiset"
begin

text \<open>
  Comparing, searching and copying strings, \<^verbatim>\<open>core/ngx_string.c\<close> and the inline functions of
  \<^verbatim>\<open>core/ngx_string.h\<close>, and \<^verbatim>\<open>ngx_sort\<close>.

  A pointer into a null-terminated string is the list of the bytes from it up to the terminator;
  \<^const>\<open>byte_at\<close> reads the terminator behind the end. The comparisons return the difference of two
  unsigned characters converted to \<^verbatim>\<open>ngx_int_t\<close>, an integer here. A search returns the offset of the match.
\<close>

section \<open>Copying\<close>

definition ngx_tolower :: "u8 \<Rightarrow> u8" where
  "ngx_tolower c = (if C CHR ''A'' \<le> c \<and> c \<le> C CHR ''Z'' then c OR 0x20 else c)"

definition ngx_toupper :: "u8 \<Rightarrow> u8" where
  "ngx_toupper c = (if C CHR ''a'' \<le> c \<and> c \<le> C CHR ''z'' then c AND NOT 0x20 else c)"

fun ngx_strlow :: "u8 list \<Rightarrow> nat \<Rightarrow> u8 list" where
  "ngx_strlow src 0 = []"
| "ngx_strlow src (Suc n) = ngx_tolower (byte_at src 0) # ngx_strlow (tl src) n"

fun strnlen_loop :: "u8 list \<Rightarrow> nat \<Rightarrow> nat \<Rightarrow> nat" where
  "strnlen_loop p i 0 = i"
| "strnlen_loop p i (Suc m) = (if byte_at p i = 0 then i else strnlen_loop p (i + 1) m)"

definition ngx_strnlen :: "u8 list \<Rightarrow> nat \<Rightarrow> nat" where
  "ngx_strnlen p n = strnlen_loop p 0 n"

text \<open>The bytes written at \<^verbatim>\<open>dst\<close>, the terminator included; the first equation is the call with \<^verbatim>\<open>n == 0\<close>.\<close>

fun cpystrn_loop :: "u8 list \<Rightarrow> nat \<Rightarrow> u8 list" where
  "cpystrn_loop src 0 = [0]"
| "cpystrn_loop src (Suc n) =
     (if byte_at src 0 = 0 then [0] else byte_at src 0 # cpystrn_loop (tl src) n)"

definition ngx_cpystrn :: "u8 list \<Rightarrow> nat \<Rightarrow> u8 list" where
  "ngx_cpystrn src n = (if n = 0 then [] else cpystrn_loop src (n - 1))"

text \<open>\<^verbatim>\<open>ngx_strlchr\<close>: the bytes from \<^verbatim>\<open>p\<close> to \<^verbatim>\<open>last\<close>.\<close>

fun ngx_strlchr :: "u8 list \<Rightarrow> u8 \<Rightarrow> nat option" where
  "ngx_strlchr [] c = None"
| "ngx_strlchr (x # p) c = (if x = c then Some 0 else map_option Suc (ngx_strlchr p c))"

section \<open>Comparing\<close>

text \<open>The idiom \<^verbatim>\<open>(c1 >= 'A' && c1 <= 'Z') ? (c1 | 0x20) : c1\<close> on an \<^verbatim>\<open>ngx_uint_t\<close> that holds a byte.\<close>

function ngx_strcasecmp :: "u8 list \<Rightarrow> u8 list \<Rightarrow> int" where
  "ngx_strcasecmp s1 s2 =
     (let c1 = ngx_tolower (byte_at s1 0); c2 = ngx_tolower (byte_at s2 0) in
      if c1 = c2 then (if c1 \<noteq> 0 then ngx_strcasecmp (tl s1) (tl s2) else 0) else uint c1 - uint c2)"
  by pat_completeness auto
termination
  by (relation "measure (\<lambda>(s1, s2). length s1)") (auto simp: byte_at_def ngx_tolower_def split: if_splits)

declare ngx_strcasecmp.simps [simp del]

fun ngx_strncasecmp :: "u8 list \<Rightarrow> u8 list \<Rightarrow> nat \<Rightarrow> int" where
  "ngx_strncasecmp s1 s2 0 = 0"
| "ngx_strncasecmp s1 s2 (Suc n) =
     (let c1 = ngx_tolower (byte_at s1 0); c2 = ngx_tolower (byte_at s2 0) in
      if c1 = c2 then (if c1 \<noteq> 0 then ngx_strncasecmp (tl s1) (tl s2) n else 0) else uint c1 - uint c2)"

text \<open>The C library function \<^verbatim>\<open>strncmp\<close>, up to the sign of its result.\<close>

fun c_strncmp :: "u8 list \<Rightarrow> u8 list \<Rightarrow> nat \<Rightarrow> int" where
  "c_strncmp s1 s2 0 = 0"
| "c_strncmp s1 s2 (Suc n) =
     (let c1 = byte_at s1 0; c2 = byte_at s2 0 in
      if c1 = c2 then (if c1 \<noteq> 0 then c_strncmp (tl s1) (tl s2) n else 0) else uint c1 - uint c2)"

text \<open>\<open>n\<close> bytes compared from the end.\<close>

fun rstrncmp_loop :: "u8 list \<Rightarrow> u8 list \<Rightarrow> nat \<Rightarrow> int" where
  "rstrncmp_loop s1 s2 0 = (if byte_at s1 0 \<noteq> byte_at s2 0 then uint (byte_at s1 0) - uint (byte_at s2 0) else 0)"
| "rstrncmp_loop s1 s2 (Suc n) =
     (if byte_at s1 (Suc n) \<noteq> byte_at s2 (Suc n) then uint (byte_at s1 (Suc n)) - uint (byte_at s2 (Suc n))
      else rstrncmp_loop s1 s2 n)"

definition ngx_rstrncmp :: "u8 list \<Rightarrow> u8 list \<Rightarrow> nat \<Rightarrow> int" where
  "ngx_rstrncmp s1 s2 n = (if n = 0 then 0 else rstrncmp_loop s1 s2 (n - 1))"

text \<open>The idiom \<^verbatim>\<open>if (c1 >= 'a' && c1 <= 'z') { c1 -= 'a' - 'A'; }\<close>.\<close>

definition upcase :: "u8 \<Rightarrow> u8" where
  "upcase c = (if C CHR ''a'' \<le> c \<and> c \<le> C CHR ''z'' then c - (C CHR ''a'' - C CHR ''A'') else c)"

definition ngx_rstrncasecmp :: "u8 list \<Rightarrow> u8 list \<Rightarrow> nat \<Rightarrow> int" where
  "ngx_rstrncasecmp s1 s2 n = (if n = 0 then 0 else rstrncmp_loop (map upcase s1) (map upcase s2) (n - 1))"

text \<open>\<^verbatim>\<open>memcmp\<close> of the C library, on two strings of at least \<open>n\<close> bytes.\<close>

fun c_memcmp :: "u8 list \<Rightarrow> u8 list \<Rightarrow> nat \<Rightarrow> int" where
  "c_memcmp s1 s2 0 = 0"
| "c_memcmp s1 s2 (Suc n) =
     (if byte_at s1 0 \<noteq> byte_at s2 0 then uint (byte_at s1 0) - uint (byte_at s2 0)
      else c_memcmp (tl s1) (tl s2) n)"

definition ngx_memn2cmp :: "u8 list \<Rightarrow> u8 list \<Rightarrow> int" where
  "ngx_memn2cmp s1 s2 =
     (let (n, z) = (if length s1 \<le> length s2 then (length s1, -1) else (length s2, 1));
          m = c_memcmp s1 s2 n
      in if m \<noteq> 0 \<or> length s1 = length s2 then m else z)"

definition dns_low :: "u8 \<Rightarrow> int" where
  "dns_low c = (if c = C CHR ''.'' then 32 else uint c)"

function ngx_dns_strcmp :: "u8 list \<Rightarrow> u8 list \<Rightarrow> int" where
  "ngx_dns_strcmp s1 s2 =
     (let c1 = ngx_tolower (byte_at s1 0); c2 = ngx_tolower (byte_at s2 0) in
      if c1 = c2 then (if c1 \<noteq> 0 then ngx_dns_strcmp (tl s1) (tl s2) else 0) else dns_low c1 - dns_low c2)"
  by pat_completeness auto
termination
  by (relation "measure (\<lambda>(s1, s2). length s1)") (auto simp: byte_at_def ngx_tolower_def split: if_splits)

declare ngx_dns_strcmp.simps [simp del]

definition slash_low :: "u8 \<Rightarrow> int" where
  "slash_low c = (if c = C CHR ''/'' then 0 else uint c)"

fun ngx_filename_cmp :: "u8 list \<Rightarrow> u8 list \<Rightarrow> nat \<Rightarrow> int" where
  "ngx_filename_cmp s1 s2 0 = 0"
| "ngx_filename_cmp s1 s2 (Suc n) =
     (let c1 = byte_at s1 0; c2 = byte_at s2 0 in
      if c1 = c2 then (if c1 \<noteq> 0 then ngx_filename_cmp (tl s1) (tl s2) n else 0)
      else if c1 = 0 \<or> c2 = 0 then uint c1 - uint c2
      else slash_low c1 - slash_low c2)"

section \<open>Searching\<close>

text \<open>\<open>k\<close> is the offset of the byte under inspection, \<open>len\<close> the number of bytes that may be inspected.\<close>

fun strnstr_loop :: "u8 list \<Rightarrow> u8 list \<Rightarrow> nat \<Rightarrow> nat \<Rightarrow> nat option" where
  "strnstr_loop s1 s2 k 0 = None"
| "strnstr_loop s1 s2 k (Suc len) =
     (if byte_at s1 k = 0 then None
      else if byte_at s1 k \<noteq> byte_at s2 0 then strnstr_loop s1 s2 (k + 1) len
      else if len < length (tl s2) then None
      else if c_strncmp (drop (k + 1) s1) (tl s2) (length (tl s2)) \<noteq> 0 then strnstr_loop s1 s2 (k + 1) len
      else Some k)"

definition ngx_strnstr :: "u8 list \<Rightarrow> u8 list \<Rightarrow> nat \<Rightarrow> nat option" where
  "ngx_strnstr s1 s2 len = strnstr_loop s1 s2 0 len"

text \<open>The argument \<^verbatim>\<open>n\<close> is the length of the second string minus one.\<close>

function strstrn_loop :: "u8 list \<Rightarrow> u8 list \<Rightarrow> nat \<Rightarrow> nat \<Rightarrow> nat option" where
  "strstrn_loop s1 s2 n k =
     (if byte_at s1 k = 0 then None
      else if byte_at s1 k \<noteq> byte_at s2 0 \<or> c_strncmp (drop (k + 1) s1) (tl s2) n \<noteq> 0 then strstrn_loop s1 s2 n (k + 1)
      else Some k)"
  by pat_completeness auto
termination
  by (relation "measure (\<lambda>(s1, s2, n, k). length s1 - k)") (auto simp: byte_at_def split: if_splits)

declare strstrn_loop.simps [simp del]

definition ngx_strstrn :: "u8 list \<Rightarrow> u8 list \<Rightarrow> nat \<Rightarrow> nat option" where
  "ngx_strstrn s1 s2 n = strstrn_loop s1 s2 n 0"

function strcasestrn_loop :: "u8 list \<Rightarrow> u8 list \<Rightarrow> nat \<Rightarrow> nat \<Rightarrow> nat option" where
  "strcasestrn_loop s1 s2 n k =
     (if byte_at s1 k = 0 then None
      else if ngx_tolower (byte_at s1 k) \<noteq> ngx_tolower (byte_at s2 0) \<or>
        ngx_strncasecmp (drop (k + 1) s1) (tl s2) n \<noteq> 0 then strcasestrn_loop s1 s2 n (k + 1)
      else Some k)"
  by pat_completeness auto
termination
  by (relation "measure (\<lambda>(s1, s2, n, k). length s1 - k)") (auto simp: byte_at_def split: if_splits)

declare strcasestrn_loop.simps [simp del]

definition ngx_strcasestrn :: "u8 list \<Rightarrow> u8 list \<Rightarrow> nat \<Rightarrow> nat option" where
  "ngx_strcasestrn s1 s2 n = strcasestrn_loop s1 s2 n 0"

text \<open>
  \<open>s1\<close> holds the bytes from \<^verbatim>\<open>s1\<close> to \<^verbatim>\<open>last\<close>; the search ends at \<^verbatim>\<open>last - n\<close>, which lies before
  \<^verbatim>\<open>s1\<close> when the string is shorter than \<open>n\<close>.
\<close>

function strlcasestrn_loop :: "u8 list \<Rightarrow> u8 list \<Rightarrow> nat \<Rightarrow> nat \<Rightarrow> nat option" where
  "strlcasestrn_loop s1 s2 n k =
     (if int (length s1) - int n \<le> int k then None
      else if ngx_tolower (byte_at s1 k) \<noteq> ngx_tolower (byte_at s2 0) \<or>
        ngx_strncasecmp (drop (k + 1) s1) (tl s2) n \<noteq> 0 then strlcasestrn_loop s1 s2 n (k + 1)
      else Some k)"
  by pat_completeness auto
termination
  by (relation "measure (\<lambda>(s1, s2, n, k). length s1 - k)") auto

declare strlcasestrn_loop.simps [simp del]

definition ngx_strlcasestrn :: "u8 list \<Rightarrow> u8 list \<Rightarrow> nat \<Rightarrow> nat option" where
  "ngx_strlcasestrn s1 s2 n = strlcasestrn_loop s1 s2 n 0"

section \<open>Sorting\<close>

text \<open>
  The inner loop of \<^verbatim>\<open>ngx_sort\<close>: the elements before \<^verbatim>\<open>p1\<close> that compare greater than the copy \<open>x\<close> move up
  by one, from the last one down; \<open>x\<close> is stored in the gap. \<open>xs\<close> is the sorted part, last element first.
\<close>

fun sort_shift :: "('a \<Rightarrow> 'a \<Rightarrow> int) \<Rightarrow> 'a \<Rightarrow> 'a list \<Rightarrow> 'a list" where
  "sort_shift cmp x [] = [x]"
| "sort_shift cmp x (y # xs) = (if 0 < cmp y x then y # sort_shift cmp x xs else x # y # xs)"

text \<open>The outer loop; the allocation of the temporary element may fail, and then nothing is done.\<close>

fun sort_loop :: "('a \<Rightarrow> 'a \<Rightarrow> int) \<Rightarrow> 'a list \<Rightarrow> 'a list \<Rightarrow> 'a list" where
  "sort_loop cmp done_part [] = rev done_part"
| "sort_loop cmp done_part (x # rest) = sort_loop cmp (sort_shift cmp x done_part) rest"

definition ngx_sort :: "bool \<Rightarrow> ('a \<Rightarrow> 'a \<Rightarrow> int) \<Rightarrow> 'a list \<Rightarrow> 'a list" where
  "ngx_sort alloc_ok cmp base = (if alloc_ok then sort_loop cmp [] base else base)"

end
