(* ===== verification/Ngx_String_Props.thy ===== *)
theory Ngx_String_Props
  imports Ngx_String
begin

text \<open>
  Properties of the string routines: case-insensitive comparison decides equality of the lowercased
  strings, the bounded search returns the first match and reads only inside the bounds, and
  \<^verbatim>\<open>ngx_sort\<close> is the stable sort.
\<close>

section \<open>Comparison\<close>

text \<open>The part of a byte string before its terminator.\<close>

definition cstr :: "u8 list \<Rightarrow> u8 list" where
  "cstr s = takeWhile (\<lambda>c. c \<noteq> 0) s"

lemma cstr_simps [simp]: "cstr [] = []" "cstr (c # s) = (if c = 0 then [] else c # cstr s)"
  by (simp_all add: cstr_def)

lemma tolower_0 [simp]: "ngx_tolower c = 0 \<longleftrightarrow> c = 0"
proof -
  have "all_bytes (\<lambda>c. ngx_tolower c = 0 \<longleftrightarrow> c = 0)" by (simp add: all_bytes_def ngx_tolower_def)
  then show ?thesis by (rule all_bytesD)
qed

lemma tolower_zero [simp]: "ngx_tolower 0 = 0" "0 = ngx_tolower c \<longleftrightarrow> c = 0"
  using tolower_0 by (simp_all add: ngx_tolower_def)

lemma tolower_eq_0: "ngx_tolower a = ngx_tolower b \<Longrightarrow> a = 0 \<longleftrightarrow> b = 0"
  by (metis tolower_0)

lemma uint_diff_0 [simp]: "uint a - uint b = 0 \<longleftrightarrow> a = b" "uint a = uint b \<longleftrightarrow> a = b"
  by (simp_all add: word_uint_eq_iff)

lemma zero_lower [simp]: "0 \<in> ngx_tolower ` A \<longleftrightarrow> 0 \<in> A"
  by (auto simp: image_iff)

lemma byte_at_Nil [simp]: "byte_at [] k = 0"
  by (simp add: byte_at_def)

lemma strcasecmp_0: "ngx_strcasecmp s1 s2 = 0 \<longleftrightarrow> map ngx_tolower (cstr s1) = map ngx_tolower (cstr s2)"
proof (induction s1 s2 rule: ngx_strcasecmp.induct)
  case (1 s1 s2)
  have "ngx_strcasecmp s1 s2 = 0 \<longleftrightarrow> ngx_tolower (byte_at s1 0) = ngx_tolower (byte_at s2 0) \<and>
      (byte_at s1 0 \<noteq> 0 \<longrightarrow> ngx_strcasecmp (tl s1) (tl s2) = 0)"
    using tolower_eq_0 [of "byte_at s1 0" "byte_at s2 0"] by (subst ngx_strcasecmp.simps) (auto simp: Let_def)
  then show ?case using 1 by (cases s1; cases s2) auto
qed

lemma strncasecmp_0:
  "ngx_strncasecmp s1 s2 n = 0 \<longleftrightarrow> map ngx_tolower (cstr (take n s1)) = map ngx_tolower (cstr (take n s2))"
proof (induction s1 s2 n rule: ngx_strncasecmp.induct)
  case (2 s1 s2 n)
  have "ngx_strncasecmp s1 s2 (Suc n) = 0 \<longleftrightarrow> ngx_tolower (byte_at s1 0) = ngx_tolower (byte_at s2 0) \<and>
      (byte_at s1 0 \<noteq> 0 \<longrightarrow> ngx_strncasecmp (tl s1) (tl s2) n = 0)"
    using tolower_eq_0 [of "byte_at s1 0" "byte_at s2 0"] by (auto simp: Let_def)
  then show ?case using 2 by (cases s1; cases s2) auto
qed simp

section \<open>Search\<close>

definition matches_at :: "u8 list \<Rightarrow> u8 list \<Rightarrow> nat \<Rightarrow> bool" where
  "matches_at s pat k \<longleftrightarrow> map ngx_tolower (take (length pat) (drop k s)) = map ngx_tolower pat"

lemma cstr_id: "0 \<notin> set s \<Longrightarrow> cstr s = s"
  by (induction s) auto

lemma lower_prefix_cstr:
  assumes "map ngx_tolower (cstr s) = map ngx_tolower pat" and "length s = length pat" and "0 \<notin> set pat"
  shows "map ngx_tolower s = map ngx_tolower pat"
proof -
  have "length (cstr s) = length s" using assms(1,2) by (metis length_map)
  then have "cstr s = s" unfolding cstr_def by (metis takeWhile_eq_take take_all order_refl)
  then show ?thesis using assms(1) by simp
qed

lemma match_step:
  assumes "0 \<notin> set (p # pat)" and "k + Suc (length pat) \<le> length s"
  shows "ngx_tolower (byte_at s k) = ngx_tolower p \<and> ngx_strncasecmp (drop (k + 1) s) pat (length pat) = 0 \<longleftrightarrow>
    matches_at s (p # pat) k"
proof -
  have "drop k s = s ! k # drop (Suc k) s" using Cons_nth_drop_Suc [of k s] assms(2) by simp
  then have d: "take (Suc (length pat)) (drop k s) = s ! k # take (length pat) (drop (Suc k) s)" by simp
  have l: "length (take (length pat) (drop (Suc k) s)) = length pat" using assms(2) by simp
  have "map ngx_tolower (cstr (take (length pat) (drop (Suc k) s))) = map ngx_tolower (cstr pat) \<longleftrightarrow>
      map ngx_tolower (take (length pat) (drop (Suc k) s)) = map ngx_tolower pat"
  proof
    assume "map ngx_tolower (cstr (take (length pat) (drop (Suc k) s))) = map ngx_tolower (cstr pat)"
    then show "map ngx_tolower (take (length pat) (drop (Suc k) s)) = map ngx_tolower pat"
      using assms(1) by (rule_tac lower_prefix_cstr [OF _ l]) (simp_all add: cstr_id)
  next
    assume m: "map ngx_tolower (take (length pat) (drop (Suc k) s)) = map ngx_tolower pat"
    then have "ngx_tolower ` set (take (length pat) (drop (Suc k) s)) = ngx_tolower ` set pat"
      by (simp only: list.set_map [symmetric])
    then have "0 \<notin> set (take (length pat) (drop (Suc k) s))"
      using assms(1) zero_lower [of "set (take (length pat) (drop (Suc k) s))"] by simp
    then show "map ngx_tolower (cstr (take (length pat) (drop (Suc k) s))) = map ngx_tolower (cstr pat)"
      using m assms(1) by (simp add: cstr_id)
  qed
  then show ?thesis unfolding matches_at_def using assms(2) d by (auto simp: strncasecmp_0 byte_at_def)
qed

lemma strlcasestrn_loop_spec:
  assumes "0 \<notin> set (p # pat)"
  shows "strlcasestrn_loop s (p # pat) (length pat) k =
    (if \<exists>i \<ge> k. i + Suc (length pat) \<le> length s \<and> matches_at s (p # pat) i
     then Some (LEAST i. k \<le> i \<and> i + Suc (length pat) \<le> length s \<and> matches_at s (p # pat) i) else None)"
proof (induction "length s - k" arbitrary: k rule: less_induct)
  case less
  let ?M = "\<lambda>k i. k \<le> i \<and> i + Suc (length pat) \<le> length s \<and> matches_at s (p # pat) i"
  show ?case
  proof (cases "k + Suc (length pat) \<le> length s")
    case False
    then show ?thesis by (subst strlcasestrn_loop.simps) auto
  next
    case True
    note step = match_step [OF assms True]
    show ?thesis
    proof (cases "matches_at s (p # pat) k")
      case m: True
      then have "(LEAST i. ?M k i) = k" using True by (intro Least_equality) auto
      then show ?thesis using m True step by (subst strlcasestrn_loop.simps) auto
    next
      case False
      then have "?M k = ?M (k + 1)" by (intro ext) (metis Suc_eq_plus1 le_antisym not_less_eq_eq Suc_leD)
      moreover have "strlcasestrn_loop s (p # pat) (length pat) k = strlcasestrn_loop s (p # pat) (length pat) (k + 1)"
        using False True step by (subst strlcasestrn_loop.simps) auto
      ultimately show ?thesis using less.hyps [of "k + 1"] True by simp metis
    qed
  qed
qed

section \<open>Sorting\<close>

lemma sort_shift_mset: "mset (sort_shift cmp x xs) = add_mset x (mset xs)"
  by (induction xs) auto

lemma sort_loop_mset: "mset (sort_loop cmp d rest) = mset d + mset rest"
  by (induction rest arbitrary: d) (simp_all add: sort_shift_mset)

text \<open>The comparison function is the order of a key.\<close>

definition orders :: "('a \<Rightarrow> 'a \<Rightarrow> int) \<Rightarrow> ('a \<Rightarrow> 'k::linorder) \<Rightarrow> bool" where
  "orders cmp key \<longleftrightarrow> (\<forall>a b. 0 < cmp a b \<longleftrightarrow> key b < key a)"

lemma ordersD: "orders cmp key \<Longrightarrow> 0 < cmp a b \<longleftrightarrow> key b < key a"
  by (simp add: orders_def)

lemma sort_shift_sorted:
  "orders cmp key \<Longrightarrow> sorted_wrt (\<lambda>a b. key b \<le> key a) xs \<Longrightarrow>
   sorted_wrt (\<lambda>a b. key b \<le> key a) (sort_shift cmp x xs)"
proof (induction xs)
  case (Cons y xs)
  have "set (sort_shift cmp x xs) = insert x (set xs)"
    using sort_shift_mset [of cmp x xs] by (metis set_mset_add_mset_insert set_mset_mset)
  then show ?case using Cons by (auto simp: ordersD)
qed simp

lemma sort_shift_stable:
  "orders cmp key \<Longrightarrow> filter (\<lambda>y. key k = key y) (rev (sort_shift cmp x xs)) =
   filter (\<lambda>y. key k = key y) (rev xs) @ (if key k = key x then [x] else [])"
  by (induction xs) (auto simp: ordersD)

lemma sort_loop_stable:
  "orders cmp key \<Longrightarrow>
   filter (\<lambda>y. key k = key y) (sort_loop cmp d rest) = filter (\<lambda>y. key k = key y) (rev d @ rest)"
  by (induction rest arbitrary: d) (simp_all add: sort_shift_stable)

lemma sort_loop_sorted:
  "orders cmp key \<Longrightarrow> sorted_wrt (\<lambda>a b. key b \<le> key a) d \<Longrightarrow> sorted (map key (sort_loop cmp d rest))"
proof (induction rest arbitrary: d)
  case Nil
  then show ?case by (simp add: sorted_wrt_map sorted_wrt_rev rev_map [symmetric])
next
  case (Cons x rest)
  then show ?case using sort_shift_sorted [OF Cons.prems, of x] by simp
qed

lemma sort_loop_sort_key: "orders cmp key \<Longrightarrow> sort_loop cmp [] xs = sort_key key xs"
  using sort_loop_mset [of cmp "[]" xs] sort_loop_stable [of cmp key _ "[]" xs] sort_loop_sorted [of cmp key "[]" xs]
  by (intro properties_for_sort_key [symmetric]) simp_all

section \<open>The first match\<close>

lemma strlcasestrn_spec:
  assumes "0 \<notin> set (p # pat)"
  shows "case ngx_strlcasestrn s (p # pat) (length pat) of
      None \<Rightarrow> (\<forall>i. \<not> (i + Suc (length pat) \<le> length s \<and> matches_at s (p # pat) i))
    | Some k \<Rightarrow> k + Suc (length pat) \<le> length s \<and> matches_at s (p # pat) k \<and>
        (\<forall>i < k. \<not> matches_at s (p # pat) i)"
proof -
  let ?P = "\<lambda>i. i + Suc (length pat) \<le> length s \<and> matches_at s (p # pat) i"
  have e: "ngx_strlcasestrn s (p # pat) (length pat) = (if \<exists>i. ?P i then Some (LEAST i. ?P i) else None)"
    using strlcasestrn_loop_spec [OF assms, of s 0] by (simp only: ngx_strlcasestrn_def le0 simp_thms)
  show ?thesis
  proof (cases "\<exists>i. ?P i")
    case True
    then have k: "?P (LEAST i. ?P i)" by (rule LeastI_ex)
    have "\<not> matches_at s (p # pat) i" if "i < (LEAST i. ?P i)" for i
    proof -
      have "i + Suc (length pat) \<le> length s" using that k by linarith
      then show ?thesis using not_less_Least [OF that] by blast
    qed
    with k show ?thesis unfolding e using True by (simp only: if_True option.case) blast
  next
    case False
    then show ?thesis unfolding e by (simp only: if_False option.case) blast
  qed
qed

section \<open>The properties\<close>

text \<open>
  Case-insensitive comparison. \<^verbatim>\<open>ngx_strcasecmp\<close> returns 0 exactly when the two null-terminated
  strings agree after lowercasing, and \<^verbatim>\<open>ngx_strncasecmp\<close> exactly when their first \<open>n\<close> bytes do.
\<close>

theorem strcasecmp_equal:
  "(ngx_strcasecmp s1 s2 = 0 \<longleftrightarrow> map ngx_tolower (cstr s1) = map ngx_tolower (cstr s2)) \<and>
   (ngx_strncasecmp s1 s2 n = 0 \<longleftrightarrow> map ngx_tolower (cstr (take n s1)) = map ngx_tolower (cstr (take n s2)))"
  by (simp add: strcasecmp_0 strncasecmp_0)

text \<open>
  Bounded search. For a pattern without zero bytes, \<^verbatim>\<open>ngx_strlcasestrn\<close> returns the first position
  at which the pattern occurs in the string, ignoring case, and \<^verbatim>\<open>NULL\<close> exactly when it occurs nowhere, also
  when the string is shorter than the pattern.
\<close>

theorem strlcasestrn_first:
  assumes "0 \<notin> set (p # pat)"
  shows "case ngx_strlcasestrn s (p # pat) (length pat) of
      None \<Rightarrow> (\<forall>i. \<not> (i + Suc (length pat) \<le> length s \<and> matches_at s (p # pat) i))
    | Some k \<Rightarrow> k + Suc (length pat) \<le> length s \<and> matches_at s (p # pat) k \<and>
        (\<forall>i < k. \<not> matches_at s (p # pat) i)"
  using assms by (rule strlcasestrn_spec)

theorem strlcasestrn_first_witness: "matches_at (bytes ''xKeep-Alive'') (bytes ''keep'') 1 \<and> ngx_strlcasestrn (bytes ''xKeep-Alive'') (bytes ''keep'') 3 = Some 1"
proof -
  have e: "ngx_strlcasestrn (bytes ''xKeep-Alive'') (C CHR ''k'' # bytes ''eep'') (length (bytes ''eep'')) = Some 1"
    by (simp add: ngx_strlcasestrn_def strlcasestrn_loop.simps ngx_tolower_def byte_at_def)
  show ?thesis using strlcasestrn_first [of "C CHR ''k''" "bytes ''eep''" "bytes ''xKeep-Alive''"] e
    by (simp add: numeral_3_eq_3)
qed

text \<open>
  \<^verbatim>\<open>ngx_sort\<close> is the stable sort. When the comparison function is the order of some key, the result
  is the list sorted by that key with equal elements in their original order; when the temporary
  element cannot be allocated, the array is left as it is.
\<close>

theorem ngx_sort_stable:
  assumes "\<And>a b. 0 < cmp a b \<longleftrightarrow> key b < (key a :: 'k::linorder)"
  shows "ngx_sort True cmp xs = sort_key key xs \<and> ngx_sort False cmp xs = xs"
  using sort_loop_sort_key [of cmp key xs] assms by (simp add: ngx_sort_def orders_def)

theorem ngx_sort_stable_witness:
  "ngx_sort True (\<lambda>a b. fst a - fst b) [(2, CHR ''x''), (1, CHR ''y''), (2, CHR ''a'')] =
     [(1, CHR ''y''), (2, CHR ''x''), (2 :: int, CHR ''a'')]"
  using ngx_sort_stable [of "\<lambda>a b. fst a - fst b" fst "[(2 :: int, CHR ''x''), (1, CHR ''y''), (2, CHR ''a'')]"] by simp

end
