(* ===== verification/Ngx_Queue_Props.thy ===== *)
theory Ngx_Queue_Props
  imports Ngx_Queue Ngx_String_Props
begin

text \<open>
  The queue refines the list of its elements: each macro is the list operation, and
  \<^verbatim>\<open>ngx_queue_sort\<close> is the same insertion sort as \<^verbatim>\<open>ngx_sort\<close> on the elements, so its result
  follows from that function's.
\<close>

section \<open>Neighbours\<close>

lemma queue_neighbours:
  assumes "is_queue s h (ys @ x # zs)"
  shows "get_prev s x = Some (last (h # ys))" and "get_next s x = Some (hd (zs @ [h]))"
    and "get_next s (last (h # ys)) = Some x" and "get_prev s (hd (zs @ [h])) = Some x"
  using assms by (auto simp: queue_cut linked_Cons qlink_def)

lemma queue_ends:
  assumes "is_queue s h xs"
  shows "get_next s h = Some (hd (xs @ [h]))" and "get_prev s h = Some (last (h # xs))"
  using assms queue_cut [of s h "[]" xs] queue_cut [of s h xs "[]"] by (auto simp: qlink_def)

lemma queue_dom:
  assumes "is_queue s h xs" and "y \<in> set (h # xs)"
  shows "s y \<noteq> None"
proof (cases "y = h")
  case True
  then show ?thesis using queue_ends(1) [OF assms(1)] get_in_dom(1) by blast
next
  case False
  then obtain ys zs where "xs = ys @ y # zs" using assms(2) by (auto dest: split_list)
  then show ?thesis using queue_neighbours(2) [of s h ys y zs] assms(1) get_in_dom(1) by blast
qed

lemma queue_next_nth: "is_queue s h xs \<Longrightarrow> Suc i < length xs \<Longrightarrow> get_next s (xs ! i) = Some (xs ! Suc i)"
  using queue_neighbours(2) [of s h "take i xs" "xs ! i" "drop (Suc i) xs"]
  by (simp add: id_take_nth_drop [symmetric] hd_append hd_drop_conv_nth)

section \<open>The macros refine the list operations\<close>

lemma insert_after_refines:
  assumes q: "is_queue s h (ys @ zs)" and x: "x \<notin> set (h # ys @ zs)" "s x \<noteq> None" and p: "p = last (h # ys)"
  shows "\<exists>t. ngx_queue_insert_after s p x = Some t \<and> is_queue t h (ys @ x # zs) \<and>
    (\<forall>y. y \<notin> set (h # x # ys @ zs) \<longrightarrow> t y = s y)"
proof -
  let ?n = "hd (zs @ [h])"
  have n: "get_next s p = Some ?n" using q p by (auto simp: queue_cut qlink_def)
  have m: "p \<in> set (h # ys @ zs)" "?n \<in> set (h # ys @ zs)"
    using cut_ends(1) [of h ys] cut_ends(2) [of zs h] p by auto
  then have "s p \<noteq> None" "s ?n \<noteq> None" "x \<noteq> p" "x \<noteq> ?n"
    using queue_dom [OF q] x(1) by auto
  then obtain t where t: "ngx_queue_insert_after s p x = Some t"
    "relink {x, ?n, p} [x \<mapsto> ?n, p \<mapsto> x] [?n \<mapsto> x, x \<mapsto> p] s t"
    using insert_head_relink [OF n] x(2) by blast
  have "is_queue t h (ys @ x # zs)" by (rule queue_insert_at [OF q x(1) p refl t(2)])
  moreover have "t y = s y" if "y \<notin> set (h # x # ys @ zs)" for y
    by (rule relink_frame [OF t(2) _ that]) (use m in auto)
  ultimately show ?thesis using t(1) by blast
qed

lemma insert_tail_refines:
  assumes q: "is_queue s h xs" and x: "x \<notin> set (h # xs)" "s x \<noteq> None"
  shows "\<exists>t. ngx_queue_insert_tail s h x = Some t \<and> is_queue t h (xs @ [x]) \<and>
    (\<forall>y. y \<notin> set (h # x # xs) \<longrightarrow> t y = s y)"
proof -
  let ?p = "last (h # xs)"
  have q': "is_queue s h (xs @ [])" using q by simp
  have m: "?p \<in> set (h # xs)" by (rule cut_ends(1))
  then have "s ?p \<noteq> None" "s h \<noteq> None" "x \<noteq> ?p" "x \<noteq> h" using queue_dom [OF q] x(1) by auto
  then obtain t where t: "ngx_queue_insert_tail s h x = Some t"
    "relink {x, h, ?p} [x \<mapsto> h, ?p \<mapsto> x] [h \<mapsto> x, x \<mapsto> ?p] s t"
    using insert_tail_relink [OF queue_ends(2) [OF q]] x(2) by blast
  have "is_queue t h (xs @ x # [])"
    by (rule queue_insert_at [OF q' _ refl _ t(2)]) (use x(1) in auto)
  moreover have "t y = s y" if "y \<notin> set (h # x # xs)" for y
    by (rule relink_frame [OF t(2) _ that]) (use m in auto)
  ultimately show ?thesis using t(1) by auto
qed

lemma remove_refines:
  assumes q: "is_queue s h (ys @ x # zs)"
  shows "\<exists>t. ngx_queue_remove s x = Some t \<and> is_queue t h (ys @ zs) \<and>
    (\<forall>y. y \<notin> set (h # ys @ zs) \<longrightarrow> t y = s y)"
proof -
  let ?p = "last (h # ys)" and ?n = "hd (zs @ [h])"
  have m: "?p \<in> set (h # ys @ zs)" "?n \<in> set (h # ys @ zs)"
    using cut_ends(1) [of h ys] cut_ends(2) [of zs h] by auto
  moreover have "x \<notin> set (h # ys @ zs)" using q by (auto simp: is_queue_def)
  ultimately have "s x \<noteq> None" "s ?n \<noteq> None" "s ?p \<noteq> None" "x \<noteq> ?n" "x \<noteq> ?p"
    using queue_dom [OF q] by auto
  then obtain t where t: "ngx_queue_remove s x = Some t" "relink {?n, ?p} [?p \<mapsto> ?n] [?n \<mapsto> ?p] s t"
    using remove_relink [OF queue_neighbours(2) [OF q] queue_neighbours(1) [OF q]] by blast
  have "is_queue t h (ys @ zs)" by (rule queue_remove_at [OF q refl refl t(2)])
  moreover have "t y = s y" if "y \<notin> set (h # ys @ zs)" for y
    by (rule relink_frame [OF t(2) _ that]) (use m in auto)
  ultimately show ?thesis using t(1) by blast
qed

lemma init_refines:
  assumes "s h \<noteq> None"
  shows "\<exists>t. ngx_queue_init s h = Some t \<and> is_queue t h [] \<and> (\<forall>y. y \<noteq> h \<longrightarrow> t y = s y)"
  using assms by (auto simp: ngx_queue_init_def is_queue_def qlink_def with_other)

lemma empty_refines: "is_queue s h xs \<Longrightarrow> ngx_queue_empty s h = Some (xs = [])"
  using cut_ends(1) [of h xs]
  by (auto simp: ngx_queue_empty_def queue_ends is_queue_def split: if_splits dest: last_in_set)

lemma is_queue_frame:
  assumes "is_queue s h xs" and "\<And>y. y \<in> set (h # xs) \<Longrightarrow> t y = s y"
  shows "is_queue t h xs"
proof -
  have "linked t (h # xs @ [h]) \<longleftrightarrow> linked s (h # xs @ [h])"
    using assms(2) by (intro linked_cong) (auto simp: get_next_def get_prev_def dest: in_set_butlastD)
  then show ?thesis using assms(1) by (simp add: is_queue_def)
qed

section \<open>Splitting and joining\<close>

lemma split_relink:
  assumes "get_prev s h = Some l" and "get_prev s q = Some p" and "s h \<noteq> None" and "s q \<noteq> None" and "s n \<noteq> None"
    and "s l \<noteq> None" and "s p \<noteq> None" and "n \<noteq> h" and "n \<noteq> q" and "n \<noteq> l" and "n \<noteq> p" and "h \<noteq> q" and "l \<noteq> p"
  shows "\<exists>t. ngx_queue_split s h q n = Some t \<and>
    relink {n, l, h, p, q} [l \<mapsto> n, n \<mapsto> q, p \<mapsto> h] [n \<mapsto> l, h \<mapsto> p, q \<mapsto> n] s t"
  using assms by (simp add: ngx_queue_split_def relink_def map_add_def with_other)

lemma add_relink:
  assumes "get_prev s h = Some p" and "get_next s n = Some f" and "get_prev s n = Some l" and "s h \<noteq> None" and "s n \<noteq> None"
    and "s p \<noteq> None" and "s f \<noteq> None" and "s l \<noteq> None" and "n \<noteq> h" and "n \<noteq> p" and "n \<noteq> f" and "n \<noteq> l" and "f \<noteq> h" and "l \<noteq> p"
  shows "\<exists>t. ngx_queue_add s h n = Some t \<and> relink {p, f, h, l} [p \<mapsto> f, l \<mapsto> h] [f \<mapsto> p, h \<mapsto> l] s t"
  using assms by (simp add: ngx_queue_add_def relink_def map_add_def with_other)

lemma linked_snoc: "xs \<noteq> [] \<Longrightarrow> linked s (xs @ [y]) \<longleftrightarrow> linked s xs \<and> qlink s (last xs) y"
  using linked_append [of s "butlast xs" "last xs" y "[]"] append_butlast_last_id [of xs]
  by (metis append.assoc append_Cons append_Nil linked.simps(3))

lemma relink_linked:
  assumes "relink A nx pv s t" and "dom nx \<inter> set (butlast l) = {}" and "dom pv \<inter> set (tl l) = {}"
  shows "linked t l \<longleftrightarrow> linked s l"
proof (rule linked_cong)
  fix y assume "y \<in> set (butlast l)"
  then have "nx y = None" using assms(2) by (auto simp: domIff)
  then show "get_next t y = get_next s y" by (simp add: relink_next [OF assms(1)])
next
  fix y assume "y \<in> set (tl l)"
  then have "pv y = None" using assms(3) by (auto simp: domIff)
  then show "get_prev t y = get_prev s y" by (simp add: relink_prev [OF assms(1)])
qed

lemma segment_relink:
  assumes r: "relink A nx pv s t" and d: "distinct (a # l)" and z: "z = last (a # l)"
    and nx: "dom nx \<inter> set (a # l) \<subseteq> {z}" and pv: "dom pv \<inter> set (a # l) \<subseteq> {a}"
  shows "linked t (a # l) \<longleftrightarrow> linked s (a # l)"
proof (rule relink_linked [OF r])
  have "set (butlast (a # l)) \<subseteq> set (a # l)" by (meson in_set_butlastD subsetI)
  then show "dom nx \<inter> set (butlast (a # l)) = {}"
    using nx last_notin_butlast [OF d] z by blast
  show "dom pv \<inter> set (tl (a # l)) = {}" using pv d by auto
qed

lemma split_refines:
  assumes qu: "is_queue s h (ys @ q # zs)" and n: "n \<notin> set (h # ys @ q # zs)" "s n \<noteq> None"
  shows "\<exists>t. ngx_queue_split s h q n = Some t \<and> is_queue t h ys \<and> is_queue t n (q # zs) \<and>
    (\<forall>y. y \<notin> set (h # n # ys @ q # zs) \<longrightarrow> t y = s y)"
proof -
  define l p where lp: "l = last (q # zs)" "p = last (h # ys)"
  have d: "distinct (h # ys @ q # zs)" and li: "linked s (h # ys)" "linked s ((q # zs) @ [h])"
    using qu unfolding queue_cut by blast+
  have m: "l \<in> set (q # zs)" "p \<in> set (h # ys)" unfolding lp by (rule cut_ends(1))+
  have e: "get_prev s h = Some l" "get_prev s q = Some p"
    using queue_ends(2) [OF qu] queue_neighbours(1) [OF qu] by (simp_all add: lp)
  have "s h \<noteq> None" "s q \<noteq> None" "s l \<noteq> None" "s p \<noteq> None" using m queue_dom [OF qu] by auto
  moreover have ne: "n \<noteq> h" "n \<noteq> q" "n \<noteq> l" "n \<noteq> p" "h \<noteq> q" "l \<noteq> p" using m n(1) d by auto
  ultimately obtain t where t: "ngx_queue_split s h q n = Some t"
    "relink {n, l, h, p, q} [l \<mapsto> n, n \<mapsto> q, p \<mapsto> h] [n \<mapsto> l, h \<mapsto> p, q \<mapsto> n] s t"
    using split_relink [OF e] n(2) by blast
  have "linked t (h # ys) \<longleftrightarrow> linked s (h # ys)"
    by (rule segment_relink [OF t(2) _ lp(2)]) (use d n m in auto)
  moreover have "linked t (q # zs) \<longleftrightarrow> linked s (q # zs)"
    by (rule segment_relink [OF t(2) _ lp(1)]) (use d n m in auto)
  moreover have "linked s (q # zs)" using li(2) by (subst (asm) linked_snoc) auto
  ultimately have "linked t (h # ys)" "linked t (q # zs)" using li(1) by blast+
  moreover have "qlink t p h" "qlink t n q" "qlink t l n"
    using ne by (auto simp: qlink_def relink_next [OF t(2)] relink_prev [OF t(2)])
  ultimately have "is_queue t h (ys @ [])" "is_queue t n ((q # zs) @ [])"
    using d n(1) unfolding queue_cut lp by (auto simp: linked_Cons)
  moreover have "t y = s y" if "y \<notin> set (h # n # ys @ q # zs)" for y
    by (rule relink_frame [OF t(2) _ that]) (use m in auto)
  ultimately show ?thesis using t(1) by auto
qed

lemma add_refines:
  assumes qh: "is_queue s h xs" and qn: "is_queue s n (y # ys)" and dj: "set (h # xs) \<inter> set (n # y # ys) = {}"
  shows "\<exists>t. ngx_queue_add s h n = Some t \<and> is_queue t h (xs @ y # ys) \<and>
    (\<forall>a. a \<notin> set (h # xs @ y # ys) \<longrightarrow> t a = s a)"
proof -
  define l p where lp: "l = last (y # ys)" "p = last (h # xs)"
  have d: "distinct (h # xs)" "distinct (n # y # ys)" and lh: "linked s (h # xs)" and ln: "linked s ((y # ys) @ [n])"
    using qh qn queue_cut [of s h xs "[]"] queue_cut [of s n "[]" "y # ys"] by auto
  have m: "l \<in> set (y # ys)" "p \<in> set (h # xs)" unfolding lp by (rule cut_ends(1))+
  have e: "get_prev s h = Some p" "get_next s n = Some y" "get_prev s n = Some l"
    using queue_ends [OF qh] queue_ends [OF qn] by (simp_all add: lp)
  have "s h \<noteq> None" "s n \<noteq> None" "s p \<noteq> None" "s y \<noteq> None" "s l \<noteq> None"
    using m queue_dom [OF qh] queue_dom [OF qn] by auto
  moreover have ne: "n \<noteq> h" "n \<noteq> p" "n \<noteq> y" "n \<noteq> l" "y \<noteq> h" "l \<noteq> p" using m d dj by auto
  ultimately obtain t where t: "ngx_queue_add s h n = Some t"
    "relink {p, y, h, l} [p \<mapsto> y, l \<mapsto> h] [y \<mapsto> p, h \<mapsto> l] s t"
    using add_relink [OF e] by blast
  have "linked t (h # xs) \<longleftrightarrow> linked s (h # xs)"
    by (rule segment_relink [OF t(2) _ lp(2)]) (use d dj m in auto)
  moreover have "linked t (y # ys) \<longleftrightarrow> linked s (y # ys)"
    by (rule segment_relink [OF t(2) _ lp(1)]) (use d dj m in auto)
  moreover have "linked s (y # ys)" using ln by (subst (asm) linked_snoc) auto
  ultimately have "linked t (h # xs)" "linked t (y # ys)" using lh by blast+
  moreover have "qlink t p y" "qlink t l h"
    using ne by (auto simp: qlink_def relink_next [OF t(2)] relink_prev [OF t(2)])
  moreover have "distinct (h # xs @ y # ys)" using d dj by auto
  ultimately have "is_queue t h (xs @ y # ys)"
    unfolding queue_cut lp append_Cons [symmetric] by (subst linked_snoc) auto
  moreover have "t a = s a" if "a \<notin> set (h # xs @ y # ys)" for a
    by (rule relink_frame [OF t(2) _ that]) (use m in auto)
  ultimately show ?thesis using t(1) by auto
qed

section \<open>The middle element\<close>

lemma middle_loop_finds:
  assumes q: "is_queue s h xs" and "2 * i + 1 < length xs"
  shows "queue_middle_loop s h (xs ! i) (xs ! (2 * i)) = Some (xs ! (length xs div 2))"
  using assms(2)
proof (induction "length xs - i" arbitrary: i rule: less_induct)
  case less
  have ne: "xs \<noteq> []" using less.prems by auto
  have la: "ngx_queue_last s h = Some (xs ! (length xs - 1))"
    using queue_ends(2) [OF q] ne by (simp add: ngx_queue_last_def last_conv_nth)
  have inj: "xs ! j = xs ! k \<longleftrightarrow> j = k" if "j < length xs" "k < length xs" for j k
    using q that by (simp add: is_queue_def nth_eq_iff_index_eq)
  have nx: "get_next s (xs ! i) = Some (xs ! Suc i)" "get_next s (xs ! (2 * i)) = Some (xs ! (2 * i + 1))"
    using queue_next_nth [OF q, of i] queue_next_nth [OF q, of "2 * i"] less.prems by auto
  consider "2 * i + 2 = length xs" | "2 * i + 3 = length xs" | "2 * i + 3 < length xs"
    using less.prems by linarith
  then show ?case
  proof cases
    case 1
    then have "length xs div 2 = Suc i" "length xs - 1 = 2 * i + 1" by linarith+
    with 1 nx la inj less.prems show ?thesis by (subst queue_middle_loop.simps) simp
  next
    case 2
    then have "length xs div 2 = Suc i" "length xs - 1 = 2 * i + 2" by linarith+
    moreover have "get_next s (xs ! (2 * i + 1)) = Some (xs ! (2 * i + 2))"
      using queue_next_nth [OF q, of "2 * i + 1"] 2 by simp
    ultimately show ?thesis using 2 nx la inj less.prems by (subst queue_middle_loop.simps) simp
  next
    case 3
    have "get_next s (xs ! (2 * i + 1)) = Some (xs ! (2 * i + 2))"
      using queue_next_nth [OF q, of "2 * i + 1"] 3 by simp
    moreover have "queue_middle_loop s h (xs ! Suc i) (xs ! (2 * Suc i)) = Some (xs ! (length xs div 2))"
      using less.hyps [of "Suc i"] 3 by simp
    moreover have "Suc (Suc (2 * i)) \<noteq> length xs - Suc 0" "Suc (2 * i) \<noteq> length xs - Suc 0"
      using 3 by linarith+
    ultimately show ?thesis using 3 nx la inj less.prems by (subst queue_middle_loop.simps) simp
  qed
qed

lemma queue_middle_finds:
  assumes q: "is_queue s h xs" and "xs \<noteq> []"
  shows "ngx_queue_middle s h = Some (xs ! (length xs div 2))"
proof (cases "length xs = 1")
  case True
  then obtain x where "xs = [x]" by (cases xs) auto
  then show ?thesis using queue_ends [OF q] by (simp add: ngx_queue_middle_def ngx_queue_head_def ngx_queue_last_def)
next
  case False
  then have "2 * 0 + 1 < length xs" using assms(2) by (cases xs) auto
  moreover have "hd xs \<noteq> last xs"
    using False q assms(2) by (cases xs) (auto simp: is_queue_def split: if_splits dest: last_in_set)
  ultimately show ?thesis
    using middle_loop_finds [OF q, of 0] queue_ends [OF q] assms(2)
    by (simp add: ngx_queue_middle_def ngx_queue_head_def ngx_queue_last_def hd_append flip: hd_conv_nth)
qed

section \<open>Sorting\<close>

lemma sort_shift_split:
  "sort_shift cmp x l = takeWhile (\<lambda>y. 0 < cmp y x) l @ x # dropWhile (\<lambda>y. 0 < cmp y x) l"
  by (induction l) auto

text \<open>The inner loop stops behind the last element that is not greater, or at the head.\<close>

lemma sort_back_stops:
  assumes "is_queue s h (rev (y # l) @ zs)"
  shows "queue_sort_back cmp s h x y = Some (last (h # rev (dropWhile (\<lambda>y. 0 < cmp y x) (y # l))))"
  using assms
proof (induction l arbitrary: y zs)
  case Nil
  then have "get_prev s y = Some h" using queue_neighbours(1) [of s h "[]" y zs] by simp
  then show ?case by (subst queue_sort_back.simps) simp
next
  case (Cons y' l)
  have "is_queue s h (rev (y' # l) @ y # zs)" using Cons.prems by simp
  note ih = Cons.IH [OF this]
  have p: "get_prev s y = Some y'" using queue_neighbours(1) [of s h "rev (y' # l)" y zs] Cons.prems by simp
  have "y' \<noteq> h" using Cons.prems by (auto simp: is_queue_def)
  then show ?case using p ih by (subst queue_sort_back.simps) simp
qed

lemma sort_loop_refines:
  assumes "is_queue s h (rev l @ rest)" and "l \<noteq> []"
  shows "\<exists>t. queue_sort_loop cmp s h (hd (rest @ [h])) = Some t \<and> is_queue t h (sort_loop cmp l rest) \<and>
    (\<forall>a. a \<notin> set (h # l @ rest) \<longrightarrow> t a = s a)"
  using assms
proof (induction rest arbitrary: s l)
  case Nil
  then show ?case by (subst queue_sort_loop.simps) simp
next
  case (Cons x rest)
  note q = Cons.prems(1)
  obtain y l' where l: "l = y # l'" using Cons.prems(2) by (cases l) auto
  define a b where ab: "a = takeWhile (\<lambda>y. 0 < cmp y x) l" "b = dropWhile (\<lambda>y. 0 < cmp y x) l"
  have lab: "l = a @ b" and sh: "sort_shift cmp x l = a @ x # b" by (simp_all add: ab sort_shift_split)
  have x: "x \<noteq> h" "x \<notin> set (h # rev b @ rev a @ rest)" using q lab by (auto simp: is_queue_def)
  have nb: "get_prev s x = Some y" "get_next s x = Some (hd (rest @ [h]))" "s x \<noteq> None"
    using queue_neighbours(1,2) [OF q] queue_dom [OF q, of x] l by simp_all
  obtain s1 where s1: "ngx_queue_remove s x = Some s1" "is_queue s1 h (rev l @ rest)"
    "\<forall>y. y \<notin> set (h # rev l @ rest) \<longrightarrow> s1 y = s y"
    using remove_refines [OF q] by blast
  have bk: "queue_sort_back cmp s1 h x y = Some (last (h # rev b))"
    using sort_back_stops [of s1 h y l' rest cmp x] s1(2) l ab(2) by simp
  have q1: "is_queue s1 h (rev b @ rev a @ rest)" using s1(2) lab by simp
  have "s1 x \<noteq> None" using s1(3) x(2) nb(3) lab by auto
  then obtain s2 where s2: "ngx_queue_insert_after s1 (last (h # rev b)) x = Some s2"
    "is_queue s2 h (rev b @ x # rev a @ rest)" "\<forall>y. y \<notin> set (h # x # rev b @ rev a @ rest) \<longrightarrow> s2 y = s1 y"
    using insert_after_refines [OF q1 x(2) _ refl] by blast
  have "is_queue s2 h (rev (sort_shift cmp x l) @ rest)" "sort_shift cmp x l \<noteq> []" using s2(2) sh by simp_all
  from Cons.IH [OF this] obtain t where t: "queue_sort_loop cmp s2 h (hd (rest @ [h])) = Some t"
    "is_queue t h (sort_loop cmp (sort_shift cmp x l) rest)"
    "\<forall>y. y \<notin> set (h # sort_shift cmp x l @ rest) \<longrightarrow> t y = s2 y" by blast
  have "queue_sort_loop cmp s h x = Some t"
    using x(1) nb s1(1) bk s2(1) t(1) by (subst queue_sort_loop.simps) simp
  moreover have "t y = s y" if "y \<notin> set (h # l @ x # rest)" for y
    using that s1(3) s2(3) t(3) sh lab by simp
  ultimately show ?case using t(2) by (auto intro!: exI [of _ t])
qed

lemma queue_sort_refines:
  assumes q: "is_queue s h xs"
  shows "\<exists>t. ngx_queue_sort cmp s h = Some t \<and> is_queue t h (sort_loop cmp [] xs) \<and>
    (\<forall>a. a \<notin> set (h # xs) \<longrightarrow> t a = s a)"
proof (cases xs)
  case Nil
  then show ?thesis using q queue_ends [OF q] by (simp add: ngx_queue_sort_def ngx_queue_head_def ngx_queue_last_def)
next
  case (Cons x rest)
  have n: "get_next s x = Some (hd (rest @ [h]))" using queue_neighbours(2) [of s h "[]" x rest] q Cons by simp
  show ?thesis
  proof (cases "rest = []")
    case True
    then show ?thesis using q Cons queue_ends [OF q]
      by (simp add: ngx_queue_sort_def ngx_queue_head_def ngx_queue_last_def)
  next
    case False
    then have "x \<noteq> last xs" using q Cons by (auto simp: is_queue_def dest: last_in_set)
    moreover obtain t where "queue_sort_loop cmp s h (hd (rest @ [h])) = Some t" "is_queue t h (sort_loop cmp [x] rest)"
      "\<forall>a. a \<notin> set (h # [x] @ rest) \<longrightarrow> t a = s a"
      using sort_loop_refines [of s h "[x]" rest cmp] q Cons by auto
    ultimately show ?thesis using n Cons queue_ends [OF q]
      by (simp add: ngx_queue_sort_def ngx_queue_head_def ngx_queue_last_def)
  qed
qed

section \<open>The properties\<close>

text \<open>
  (C8) The macros refine operations on lists. Initialising a structure makes it an empty queue. On a queue that holds \<open>xs\<close>, the
  emptiness test, the end elements and the neighbours of an element are those of the list, inserting at the head, at the tail or
  after any element a structure that is not in the queue adds it there, removing an element removes it, splitting at an element
  gives the two parts of the list, and joining to it a queue that is not empty appends the list of the other; no other structure changes, and no macro faults.
\<close>

theorem queue_refines_list:
  assumes q: "is_queue s h xs"
  shows "(\<forall>n. s n \<noteq> None \<longrightarrow> (\<exists>t. ngx_queue_init s n = Some t \<and> is_queue t n [] \<and> (\<forall>y. y \<noteq> n \<longrightarrow> t y = s y))) \<and>
    ngx_queue_empty s h = Some (xs = []) \<and>
    ngx_queue_head s h = Some (hd (xs @ [h])) \<and> ngx_queue_last s h = Some (last (h # xs)) \<and>
    (\<forall>x. x \<notin> set (h # xs) \<and> s x \<noteq> None \<longrightarrow>
      (\<exists>t. ngx_queue_insert_head s h x = Some t \<and> is_queue t h (x # xs) \<and> (\<forall>y. y \<notin> set (h # x # xs) \<longrightarrow> t y = s y)) \<and>
      (\<exists>t. ngx_queue_insert_tail s h x = Some t \<and> is_queue t h (xs @ [x]) \<and> (\<forall>y. y \<notin> set (h # x # xs) \<longrightarrow> t y = s y)) \<and>
      (\<forall>ys p zs. xs = ys @ p # zs \<longrightarrow>
        (\<exists>t. ngx_queue_insert_after s p x = Some t \<and> is_queue t h (ys @ p # x # zs) \<and> (\<forall>y. y \<notin> set (h # x # xs) \<longrightarrow> t y = s y)))) \<and>
    (\<forall>ys x zs. xs = ys @ x # zs \<longrightarrow>
      get_next s x = Some (hd (zs @ [h])) \<and> get_prev s x = Some (last (h # ys)) \<and>
      (\<exists>t. ngx_queue_remove s x = Some t \<and> is_queue t h (ys @ zs) \<and> (\<forall>y. y \<notin> set (h # ys @ zs) \<longrightarrow> t y = s y)) \<and>
      (\<forall>n. n \<notin> set (h # xs) \<and> s n \<noteq> None \<longrightarrow>
        (\<exists>t. ngx_queue_split s h x n = Some t \<and> is_queue t h ys \<and> is_queue t n (x # zs) \<and> (\<forall>y. y \<notin> set (h # n # xs) \<longrightarrow> t y = s y)))) \<and>
    (\<forall>n z zs. is_queue s n (z # zs) \<and> set (h # xs) \<inter> set (n # z # zs) = {} \<longrightarrow>
      (\<exists>t. ngx_queue_add s h n = Some t \<and> is_queue t h (xs @ z # zs) \<and> (\<forall>y. y \<notin> set (h # xs @ z # zs) \<longrightarrow> t y = s y)))"
proof (intro conjI allI impI; (elim conjE)?)
  show "ngx_queue_empty s h = Some (xs = [])" by (rule empty_refines [OF q])
  show "ngx_queue_head s h = Some (hd (xs @ [h]))" "ngx_queue_last s h = Some (last (h # xs))"
    using queue_ends [OF q] by (simp_all add: ngx_queue_head_def ngx_queue_last_def)
next
  fix n assume "s n \<noteq> None"
  then show "\<exists>t. ngx_queue_init s n = Some t \<and> is_queue t n [] \<and> (\<forall>y. y \<noteq> n \<longrightarrow> t y = s y)" by (rule init_refines)
next
  fix x assume x: "x \<notin> set (h # xs)" "s x \<noteq> None"
  show "\<exists>t. ngx_queue_insert_head s h x = Some t \<and> is_queue t h (x # xs) \<and> (\<forall>y. y \<notin> set (h # x # xs) \<longrightarrow> t y = s y)"
    using insert_after_refines [of s h "[]" xs x h] q x by simp
  show "\<exists>t. ngx_queue_insert_tail s h x = Some t \<and> is_queue t h (xs @ [x]) \<and> (\<forall>y. y \<notin> set (h # x # xs) \<longrightarrow> t y = s y)"
    by (rule insert_tail_refines [OF q x])
next
  fix x ys p zs assume "x \<notin> set (h # xs)" "s x \<noteq> None" "xs = ys @ p # zs"
  then show "\<exists>t. ngx_queue_insert_after s p x = Some t \<and> is_queue t h (ys @ p # x # zs) \<and> (\<forall>y. y \<notin> set (h # x # xs) \<longrightarrow> t y = s y)"
    using insert_after_refines [of s h "ys @ [p]" zs x p] q by simp
next
  fix ys x zs assume e: "xs = ys @ x # zs"
  then show "get_next s x = Some (hd (zs @ [h]))" "get_prev s x = Some (last (h # ys))"
    using queue_neighbours [of s h ys x zs] q by simp_all
  show "\<exists>t. ngx_queue_remove s x = Some t \<and> is_queue t h (ys @ zs) \<and> (\<forall>y. y \<notin> set (h # ys @ zs) \<longrightarrow> t y = s y)"
    using q e by (intro remove_refines) simp
next
  fix ys x zs n assume "xs = ys @ x # zs" "n \<notin> set (h # xs)" "s n \<noteq> None"
  then show "\<exists>t. ngx_queue_split s h x n = Some t \<and> is_queue t h ys \<and> is_queue t n (x # zs) \<and> (\<forall>y. y \<notin> set (h # n # xs) \<longrightarrow> t y = s y)"
    using split_refines [of s h ys x zs n] q by auto
next
  fix n z zs assume "is_queue s n (z # zs)" "set (h # xs) \<inter> set (n # z # zs) = {}"
  then show "\<exists>t. ngx_queue_add s h n = Some t \<and> is_queue t h (xs @ z # zs) \<and> (\<forall>y. y \<notin> set (h # xs @ z # zs) \<longrightarrow> t y = s y)"
    by (rule add_refines [OF q])
qed

text \<open>A queue at address 8 with two elements, and a detached element 64.\<close>

definition example_links :: qheap where
  "example_links = [8 \<mapsto> \<lparr>q_prev = 48, q_next = 32\<rparr>, 32 \<mapsto> \<lparr>q_prev = 8, q_next = 48\<rparr>,
     48 \<mapsto> \<lparr>q_prev = 32, q_next = 8\<rparr>, 64 \<mapsto> \<lparr>q_prev = 0, q_next = 0\<rparr>]"

lemma example_links_queue: "is_queue example_links 8 [32, 48]"
  by (simp add: is_queue_def example_links_def qlink_def get_next_def get_prev_def)

theorem queue_refines_list_witness:
  "is_queue example_links 8 [32, 48] \<and> ngx_queue_head example_links 8 = Some 32 \<and>
   (\<exists>t. ngx_queue_insert_tail example_links 8 64 = Some t \<and> is_queue t 8 [32, 48, 64]) \<and>
   (\<exists>t. ngx_queue_remove example_links 32 = Some t \<and> is_queue t 8 [48]) \<and>
   (\<exists>t. ngx_queue_split example_links 8 48 64 = Some t \<and> is_queue t 8 [32] \<and> is_queue t 64 [48])"
proof -
  note r = queue_refines_list [OF example_links_queue, THEN conjunct2]
  have "example_links 64 \<noteq> None" by (simp add: example_links_def)
  moreover have "\<forall>n. n \<notin> set [8, 32, 48] \<and> example_links n \<noteq> None \<longrightarrow> (\<exists>t. ngx_queue_split example_links 8 48 n = Some t \<and>
      is_queue t 8 [32] \<and> is_queue t n [48])"
    using r [THEN conjunct2, THEN conjunct2, THEN conjunct2, THEN conjunct2, THEN conjunct1, THEN spec, THEN spec, THEN spec, of "[32]" 48 "[]"]
    by fastforce
  from this [THEN spec, of 64] calculation have "\<exists>t. ngx_queue_split example_links 8 48 64 = Some t \<and> is_queue t 8 [32] \<and> is_queue t 64 [48]"
    by simp
  ultimately have "\<exists>t. ngx_queue_insert_tail example_links 8 64 = Some t \<and> is_queue t 8 ([32, 48] @ [64])"
    "\<exists>t. ngx_queue_remove example_links 32 = Some t \<and> is_queue t 8 ([] @ [48])"
    "\<exists>t. ngx_queue_split example_links 8 48 64 = Some t \<and> is_queue t 8 [32] \<and> is_queue t 64 (48 # [])"
    using r [THEN conjunct2, THEN conjunct2, THEN conjunct2, THEN conjunct1, THEN spec, of 64]
      r [THEN conjunct2, THEN conjunct2, THEN conjunct2, THEN conjunct2, THEN conjunct1, THEN spec, THEN spec, THEN spec, of "[]" 32 "[48]"]
    by auto
  then show ?thesis using r example_links_queue by simp
qed

text \<open>
  (C9) \<^verbatim>\<open>ngx_queue_sort\<close> terminates and is the stable sort the comment announces: when the comparison function
  is the order of some key, the queue holds the same elements sorted by that key, equal ones in
  their original order. \<^verbatim>\<open>ngx_queue_middle\<close> of a queue with elements terminates and returns the middle element,
  the first of the second half when their number is even.
\<close>

theorem queue_sort_stable:
  assumes "is_queue s h xs" and "\<And>a b. 0 < cmp a b \<longleftrightarrow> key b < (key a :: 'k::linorder)"
  shows "(\<exists>t. ngx_queue_sort cmp s h = Some t \<and> is_queue t h (sort_key key xs) \<and>
      (\<forall>y. y \<notin> set (h # xs) \<longrightarrow> t y = s y)) \<and>
    (xs = [] \<or> ngx_queue_middle s h = Some (xs ! (length xs div 2)))"
  using queue_sort_refines [OF assms(1), of cmp] queue_middle_finds [OF assms(1)] assms(2)
    sort_loop_sort_key [of cmp key xs] by (auto simp: orders_def)

theorem queue_sort_stable_witness:
  "ngx_queue_middle example_links 8 = Some 48 \<and>
   (\<exists>t. ngx_queue_sort (\<lambda>a b. int b - int a) example_links 8 = Some t \<and> is_queue t 8 [48, 32])"
proof -
  have "sort_key (\<lambda>a. - int a) [32, 48] = [48, 32 :: nat]" by simp
  then show ?thesis
    using queue_sort_stable [OF example_links_queue, of "\<lambda>a b. int b - int a" "\<lambda>a. - int a"] by auto
qed

end
