(* ===== verification/Ngx_Event_Posted.thy ===== *)
theory Ngx_Event_Posted
  imports Ngx_Queue_Props
begin

text \<open>
  The posted events of \<^verbatim>\<open>event/ngx_event_posted.h\<close> and \<^verbatim>\<open>event/ngx_event_posted.c\<close>: a client of
  the queue. An event is named by its address, its queue link lies at
  \<^verbatim>\<open>offsetof(ngx_event_t, queue)\<close>. The handler of an event is code of the modules: it is an
  argument, a function of the event and of the whole state, which may post or delete events or
  fault. The log messages are left out.
\<close>

abbreviation (input) offsetof_queue :: nat where "offsetof_queue \<equiv> 80"

record 'w ev_state =
  ev_links :: qheap
  ev_posted :: "ptr \<Rightarrow> bool option"
  ev_world :: 'w

definition ngx_post_event :: "ptr \<Rightarrow> ptr \<Rightarrow> 'w ev_state \<Rightarrow> 'w ev_state option" where
  "ngx_post_event ev q s = do {
     b \<leftarrow> ev_posted s ev;
     if \<not> b then do {
       let s = s\<lparr>ev_posted := (ev_posted s)(ev \<mapsto> True)\<rparr>;
       l \<leftarrow> ngx_queue_insert_tail (ev_links s) q (ev + offsetof_queue);
       Some (s\<lparr>ev_links := l\<rparr>)
     }
     else Some s
   }"

definition ngx_delete_posted_event :: "ptr \<Rightarrow> 'w ev_state \<Rightarrow> 'w ev_state option" where
  "ngx_delete_posted_event ev s = do {
     _ \<leftarrow> ev_posted s ev;
     let s = s\<lparr>ev_posted := (ev_posted s)(ev \<mapsto> False)\<rparr>;
     l \<leftarrow> ngx_queue_remove (ev_links s) (ev + offsetof_queue);
     Some (s\<lparr>ev_links := l\<rparr>)
   }"

partial_function (option) ngx_event_process_posted ::
  "(ptr \<Rightarrow> 'w ev_state \<Rightarrow> 'w ev_state option) \<Rightarrow> ptr \<Rightarrow> 'w ev_state \<Rightarrow> 'w ev_state option"
where
  "ngx_event_process_posted handler posted s = do {
     e \<leftarrow> ngx_queue_empty (ev_links s) posted;
     if e then Some s
     else do {
       q \<leftarrow> ngx_queue_head (ev_links s) posted;
       let ev = q - offsetof_queue;
       s \<leftarrow> ngx_delete_posted_event ev s;
       s \<leftarrow> handler ev s;
       ngx_event_process_posted handler posted s
     }
   }"

section \<open>The invariant\<close>

text \<open>
  The queue with head \<open>h\<close> holds the events \<open>evs\<close>, in this order; the flag \<^verbatim>\<open>posted\<close> is set for them and for the events \<open>others\<close>
  that are posted to another queue; every event has its link structure.
\<close>

definition posted_inv :: "'w ev_state \<Rightarrow> ptr set \<Rightarrow> ptr \<Rightarrow> ptr list \<Rightarrow> bool" where
  "posted_inv s others h evs \<longleftrightarrow> is_queue (ev_links s) h (map (\<lambda>ev. ev + offsetof_queue) evs) \<and>
     (\<forall>ev. ev_posted s ev = Some True \<longleftrightarrow> ev \<in> set evs \<union> others) \<and> set evs \<inter> others = {} \<and>
     (\<forall>ev. ev_posted s ev \<noteq> None \<longrightarrow> ev_links s (ev + offsetof_queue) \<noteq> None \<and> ev + offsetof_queue \<noteq> h)"

lemma posted_inv_distinct: "posted_inv s others h evs \<Longrightarrow> distinct evs"
  by (auto simp: posted_inv_def is_queue_def distinct_map)

lemma post_event_spec:
  assumes inv: "posted_inv s others h evs" and ev: "ev_posted s ev \<noteq> None"
  shows "\<exists>t. ngx_post_event ev h s = Some t \<and> posted_inv t others h (if ev \<in> set evs \<union> others then evs else evs @ [ev]) \<and>
    ev_world t = ev_world s"
proof (cases "ev \<in> set evs \<union> others")
  case True
  then have "ev_posted s ev = Some True" using inv by (simp add: posted_inv_def)
  then show ?thesis using inv True by (simp add: ngx_post_event_def)
next
  case False
  then have p: "ev_posted s ev = Some False" using inv ev by (auto simp: posted_inv_def)
  have q: "is_queue (ev_links s) h (map (\<lambda>ev. ev + offsetof_queue) evs)"
    and x: "ev + offsetof_queue \<notin> set (h # map (\<lambda>ev. ev + offsetof_queue) evs)" "ev_links s (ev + offsetof_queue) \<noteq> None"
    using inv ev False by (auto simp: posted_inv_def)
  obtain l where l: "ngx_queue_insert_tail (ev_links s) h (ev + offsetof_queue) = Some l"
    "is_queue l h (map (\<lambda>ev. ev + offsetof_queue) evs @ [ev + offsetof_queue])"
    "\<forall>y. y \<notin> set (h # (ev + offsetof_queue) # map (\<lambda>ev. ev + offsetof_queue) evs) \<longrightarrow> l y = ev_links s y"
    using insert_tail_refines [OF q x] by blast
  let ?t = "s\<lparr>ev_posted := (ev_posted s)(ev \<mapsto> True), ev_links := l\<rparr>"
  have "l (e + offsetof_queue) \<noteq> None" if "ev_posted s e \<noteq> None" for e
  proof (cases "e + offsetof_queue \<in> set (h # map (\<lambda>ev. ev + offsetof_queue) evs @ [ev + offsetof_queue])")
    case True
    then show ?thesis by (rule queue_dom [OF l(2)])
  next
    case False
    then show ?thesis using l(3) inv that by (simp add: posted_inv_def)
  qed
  then have "posted_inv ?t others h (evs @ [ev])"
    using l(2) inv p by (auto simp: posted_inv_def)
  then show ?thesis using l(1) p False by (simp add: ngx_post_event_def)
qed

lemma delete_posted_spec:
  assumes inv: "posted_inv s others h (as @ ev # bs)"
  shows "\<exists>t. ngx_delete_posted_event ev s = Some t \<and> posted_inv t others h (as @ bs) \<and> ev_world t = ev_world s \<and>
    ev_posted t ev = Some False"
proof -
  have p: "ev_posted s ev = Some True" using inv by (auto simp: posted_inv_def)
  have q: "is_queue (ev_links s) h (map (\<lambda>ev. ev + offsetof_queue) as @ (ev + offsetof_queue) # map (\<lambda>ev. ev + offsetof_queue) bs)"
    using inv by (simp add: posted_inv_def)
  obtain l where l: "ngx_queue_remove (ev_links s) (ev + offsetof_queue) = Some l"
    "is_queue l h (map (\<lambda>ev. ev + offsetof_queue) as @ map (\<lambda>ev. ev + offsetof_queue) bs)"
    "\<forall>y. y \<notin> set (h # map (\<lambda>ev. ev + offsetof_queue) as @ map (\<lambda>ev. ev + offsetof_queue) bs) \<longrightarrow> l y = ev_links s y"
    using remove_refines [OF q] by blast
  let ?t = "s\<lparr>ev_posted := (ev_posted s)(ev \<mapsto> False), ev_links := l\<rparr>"
  have "l (e + offsetof_queue) \<noteq> None" if "ev_posted s e \<noteq> None" for e
  proof (cases "e + offsetof_queue \<in> set (h # map (\<lambda>ev. ev + offsetof_queue) as @ map (\<lambda>ev. ev + offsetof_queue) bs)")
    case True
    then show ?thesis by (rule queue_dom [OF l(2)])
  next
    case False
    then show ?thesis using l(3) inv that by (simp add: posted_inv_def)
  qed
  moreover have "ev + 80 \<noteq> h" using q by (auto simp: is_queue_def)
  ultimately have "posted_inv ?t others h (as @ bs)"
    using l(2) inv p posted_inv_distinct [OF inv] \<open>ev + 80 \<noteq> h\<close> by (auto simp: posted_inv_def)
  then show ?thesis using l(1) p by (simp add: ngx_delete_posted_event_def)
qed

lemma process_posted_Nil:
  "posted_inv s others h [] \<Longrightarrow> ngx_event_process_posted H h s = Some s"
  using empty_refines [of "ev_links s" h "[]"]
  by (subst ngx_event_process_posted.simps) (simp add: posted_inv_def)

lemma process_posted_Cons:
  assumes inv: "posted_inv s others h (ev # evs)"
  shows "\<exists>t. ngx_event_process_posted H h s = do { u \<leftarrow> H ev t; ngx_event_process_posted H h u } \<and>
    posted_inv t others h evs \<and> ev_world t = ev_world s \<and> ev_posted t ev = Some False"
proof -
  obtain t where t: "ngx_delete_posted_event ev s = Some t" "posted_inv t others h evs" "ev_world t = ev_world s"
      "ev_posted t ev = Some False"
    using delete_posted_spec [of s others h "[]" ev evs] inv by auto
  have q: "is_queue (ev_links s) h ((ev + offsetof_queue) # map (\<lambda>ev. ev + offsetof_queue) evs)"
    using inv by (simp add: posted_inv_def)
  have "ngx_event_process_posted H h s = do { u \<leftarrow> H ev t; ngx_event_process_posted H h u }"
    using empty_refines [OF q] queue_ends(1) [OF q] t(1)
    by (subst ngx_event_process_posted.simps) (simp add: ngx_queue_head_def)
  then show ?thesis using t by blast
qed

lemma process_posted_terminates:
  assumes "posted_inv s others h evs"
    and H: "\<And>ev s others evs. posted_inv s others h evs \<Longrightarrow> ev_posted s ev = Some False \<Longrightarrow>
      \<exists>t others' evs'. H ev s = Some t \<and> posted_inv t others' h evs' \<and>
        length evs' + budget (ev_world t) \<le> length evs + (budget (ev_world s) :: nat)"
  shows "\<exists>t others'. ngx_event_process_posted H h s = Some t \<and> posted_inv t others' h []"
  using assms(1)
proof (induction "length evs + budget (ev_world s)" arbitrary: s others evs rule: less_induct)
  case less
  show ?case
  proof (cases evs)
    case Nil
    then show ?thesis using process_posted_Nil less.prems by blast
  next
    case (Cons ev rest)
    obtain t where t: "ngx_event_process_posted H h s = do { u \<leftarrow> H ev t; ngx_event_process_posted H h u }"
      "posted_inv t others h rest" "ev_world t = ev_world s" "ev_posted t ev = Some False"
      using process_posted_Cons less.prems Cons by blast
    obtain u others' evs' where u: "H ev t = Some u" "posted_inv u others' h evs'"
      "length evs' + budget (ev_world u) \<le> length rest + budget (ev_world t)"
      using H [OF t(2,4)] by blast
    have "length evs' + budget (ev_world u) < length evs + budget (ev_world s)"
      using u(3) t(3) Cons by simp
    from less.hyps [OF this u(2)] show ?thesis using t(1) u(1) by simp
  qed
qed

lemma process_posted_in_order:
  assumes "posted_inv s others h evs" and H: "\<And>ev s. H ev s = Some (s\<lparr>ev_world := f ev (ev_world s)\<rparr>)"
  shows "\<exists>t. ngx_event_process_posted H h s = Some t \<and> posted_inv t others h [] \<and> ev_world t = fold f evs (ev_world s)"
  using assms(1)
proof (induction evs arbitrary: s)
  case Nil
  then show ?case using process_posted_Nil by fastforce
next
  case (Cons ev evs)
  obtain t where t: "ngx_event_process_posted H h s = do { u \<leftarrow> H ev t; ngx_event_process_posted H h u }"
    "posted_inv t others h evs" "ev_world t = ev_world s" "ev_posted t ev = Some False"
    using process_posted_Cons Cons.prems by blast
  have "posted_inv (t\<lparr>ev_world := f ev (ev_world t)\<rparr>) others h evs" using t(2) by (simp add: posted_inv_def)
  from Cons.IH [OF this] show ?case using t(1,3) H [of ev t] by simp
qed

section \<open>The properties\<close>

text \<open>
  (C15) The queue of posted events is drained. The processing loop ends with an empty queue, whenever each handler returns and leaves
  a well-formed queue, and the handlers add events only out of a finite budget: the number of pending events and the budget
  together do not grow while a handler runs. A handler may post events, delete pending events of its own or of other connections,
  and post to or delete from the other queues. Afterwards only events in other queues are still marked as posted.
\<close>

theorem process_posted_drains:
  assumes "posted_inv s others h evs"
    and "\<And>ev s others evs. posted_inv s others h evs \<Longrightarrow> ev_posted s ev = Some False \<Longrightarrow>
      \<exists>t others' evs'. H ev s = Some t \<and> posted_inv t others' h evs' \<and>
        length evs' + budget (ev_world t) \<le> length evs + (budget (ev_world s) :: nat)"
  shows "\<exists>t others'. ngx_event_process_posted H h s = Some t \<and> ngx_queue_empty (ev_links t) h = Some True \<and>
    posted_inv t others' h [] \<and> (\<forall>ev. ev_posted t ev = Some True \<longleftrightarrow> ev \<in> others')"
proof -
  obtain t others' where "ngx_event_process_posted H h s = Some t" "posted_inv t others' h []"
    using process_posted_terminates [where H = H and budget = budget, OF assms(1)] assms(2) by metis
  moreover from this have "ngx_queue_empty (ev_links t) h = Some True" "\<forall>ev. ev_posted t ev = Some True \<longleftrightarrow> ev \<in> others'"
    using empty_refines [of "ev_links t" h "[]"] by (simp_all add: posted_inv_def)
  ultimately show ?thesis by blast
qed

text \<open>
  A queue at address 8 with the posted events 100 and 300. The handler of 100 deletes the event 300, if it is pending, and posts the
  event 200.
\<close>

definition example_events :: "nat ev_state" where
  "example_events = \<lparr>ev_links = [8 \<mapsto> \<lparr>q_prev = 380, q_next = 180\<rparr>, 180 \<mapsto> \<lparr>q_prev = 8, q_next = 380\<rparr>,
       380 \<mapsto> \<lparr>q_prev = 180, q_next = 8\<rparr>, 280 \<mapsto> \<lparr>q_prev = 0, q_next = 0\<rparr>],
     ev_posted = [100 \<mapsto> True, 300 \<mapsto> True, 200 \<mapsto> False], ev_world = 1\<rparr>"

lemma example_events_inv: "posted_inv example_events {} 8 [100, 300]"
  by (simp add: posted_inv_def example_events_def is_queue_def qlink_def get_next_def get_prev_def)

definition closing_handler :: "ptr \<Rightarrow> nat ev_state \<Rightarrow> nat ev_state option" where
  "closing_handler ev s =
     (if ngx_queue_head (ev_links s) 8 = Some 380 then ngx_delete_posted_event 300 s
      else if 0 < ev_world s \<and> ev_posted s 200 \<noteq> None then ngx_post_event 200 8 (s\<lparr>ev_world := ev_world s - 1\<rparr>)
      else Some s)"

lemma closing_handler_ok:
  assumes inv: "posted_inv s others 8 evs"
  shows "\<exists>t others' evs'. closing_handler ev s = Some t \<and> posted_inv t others' 8 evs' \<and>
    length evs' + id (ev_world t) \<le> length evs + id (ev_world s)"
proof (cases "ngx_queue_head (ev_links s) 8 = Some 380")
  case True
  have q: "is_queue (ev_links s) 8 (map (\<lambda>ev. ev + offsetof_queue) evs)" using inv by (simp add: posted_inv_def)
  obtain bs where "evs = 300 # bs" using True queue_ends(1) [OF q] by (cases evs) (auto simp: ngx_queue_head_def)
  from delete_posted_spec [of s others 8 "[]" 300 bs] inv this show ?thesis using True by (fastforce simp: closing_handler_def)
next
  case head: False
  show ?thesis
  proof (cases "0 < ev_world s \<and> ev_posted s 200 \<noteq> None")
    case True
    let ?s = "s\<lparr>ev_world := ev_world s - 1\<rparr>"
    have "posted_inv ?s others 8 evs" using inv by (simp add: posted_inv_def)
    from post_event_spec [OF this, of 200] True obtain t where t: "ngx_post_event 200 8 ?s = Some t"
      "posted_inv t others 8 (if 200 \<in> set evs \<union> others then evs else evs @ [200])" "ev_world t = ev_world s - 1"
      by auto
    then show ?thesis using True head
      by (intro exI [of _ t] exI [of _ others] exI [of _ "if 200 \<in> set evs \<union> others then evs else evs @ [200]"]) (auto simp: closing_handler_def)
  next
    case False
    then show ?thesis using inv head by (auto simp: closing_handler_def)
  qed
qed

theorem process_posted_drains_witness:
  "\<exists>t. ngx_event_process_posted closing_handler 8 example_events = Some t \<and> ngx_queue_empty (ev_links t) 8 = Some True"
  using process_posted_drains [OF example_events_inv, of closing_handler id] closing_handler_ok by blast

text \<open>
  Posting and delivery. Posting an event appends it to the queue unless it is there already, deleting
  takes exactly that event off, and events whose handlers only act on the rest of the state are
  delivered first in, first out, each once.
\<close>

theorem posted_events_fifo:
  assumes "posted_inv s others h evs"
  shows "(\<forall>ev. ev_posted s ev \<noteq> None \<longrightarrow> (\<exists>t. ngx_post_event ev h s = Some t \<and>
      posted_inv t others h (if ev \<in> set evs \<union> others then evs else evs @ [ev]) \<and> ev_world t = ev_world s)) \<and>
    (\<forall>ev \<in> set evs. \<exists>t. ngx_delete_posted_event ev s = Some t \<and> posted_inv t others h (remove1 ev evs)) \<and>
    (\<exists>t. ngx_event_process_posted (\<lambda>ev s. Some (s\<lparr>ev_world := f ev (ev_world s)\<rparr>)) h s = Some t \<and>
      posted_inv t others h [] \<and> ev_world t = fold f evs (ev_world s))"
proof (intro conjI ballI)
  fix ev assume "ev \<in> set evs"
  then obtain as bs where e: "evs = as @ ev # bs" "ev \<notin> set as" by (auto dest: split_list_first)
  then have "remove1 ev evs = as @ bs" by (simp add: remove1_append)
  then show "\<exists>t. ngx_delete_posted_event ev s = Some t \<and> posted_inv t others h (remove1 ev evs)"
    using delete_posted_spec [of s others h as ev bs] assms e by auto
qed (use post_event_spec [OF assms] process_posted_in_order [OF assms, OF refl] in blast)+

theorem posted_events_fifo_witness:
  "posted_inv example_events {} 8 [100, 300] \<and>
   (\<exists>t. ngx_event_process_posted (\<lambda>ev s. Some (s\<lparr>ev_world := ev + ev_world s\<rparr>)) 8 example_events = Some t \<and>
      posted_inv t {} 8 [] \<and> ev_world t = 401)"
  using posted_events_fifo [OF example_events_inv, of "(+)"] example_events_inv
  by (simp add: example_events_def)

end
