(* ===== verification/Ngx_Crc32.thy ===== *)
theory Ngx_Crc32
  imports Prelude
begin

text \<open>
  The checksums of \<^verbatim>\<open>core/ngx_crc32.h\<close>, \<^verbatim>\<open>core/ngx_crc32.c\<close> and \<^verbatim>\<open>core/ngx_crc.h\<close>. Both table-driven
  loops are compared with the definition of CRC-32 they optimise: one shift of the register per bit,
  with the reflected polynomial added when a one is shifted out.
\<close>

section \<open>The tables and the loops\<close>

definition ngx_crc32_table16 :: "u32 list" where
  "ngx_crc32_table16 =
    [0x00000000, 0x1db71064, 0x3b6e20c8, 0x26d930ac,
     0x76dc4190, 0x6b6b51f4, 0x4db26158, 0x5005713c,
     0xedb88320, 0xf00f9344, 0xd6d6a3e8, 0xcb61b38c,
     0x9b64c2b0, 0x86d3d2d4, 0xa00ae278, 0xbdbdf21c]"

definition ngx_crc32_table256 :: "u32 list" where
  "ngx_crc32_table256 =
    [0x00000000, 0x77073096, 0xee0e612c, 0x990951ba,
     0x076dc419, 0x706af48f, 0xe963a535, 0x9e6495a3,
     0x0edb8832, 0x79dcb8a4, 0xe0d5e91e, 0x97d2d988,
     0x09b64c2b, 0x7eb17cbd, 0xe7b82d07, 0x90bf1d91,
     0x1db71064, 0x6ab020f2, 0xf3b97148, 0x84be41de,
     0x1adad47d, 0x6ddde4eb, 0xf4d4b551, 0x83d385c7,
     0x136c9856, 0x646ba8c0, 0xfd62f97a, 0x8a65c9ec,
     0x14015c4f, 0x63066cd9, 0xfa0f3d63, 0x8d080df5,
     0x3b6e20c8, 0x4c69105e, 0xd56041e4, 0xa2677172,
     0x3c03e4d1, 0x4b04d447, 0xd20d85fd, 0xa50ab56b,
     0x35b5a8fa, 0x42b2986c, 0xdbbbc9d6, 0xacbcf940,
     0x32d86ce3, 0x45df5c75, 0xdcd60dcf, 0xabd13d59,
     0x26d930ac, 0x51de003a, 0xc8d75180, 0xbfd06116,
     0x21b4f4b5, 0x56b3c423, 0xcfba9599, 0xb8bda50f,
     0x2802b89e, 0x5f058808, 0xc60cd9b2, 0xb10be924,
     0x2f6f7c87, 0x58684c11, 0xc1611dab, 0xb6662d3d,
     0x76dc4190, 0x01db7106, 0x98d220bc, 0xefd5102a,
     0x71b18589, 0x06b6b51f, 0x9fbfe4a5, 0xe8b8d433,
     0x7807c9a2, 0x0f00f934, 0x9609a88e, 0xe10e9818,
     0x7f6a0dbb, 0x086d3d2d, 0x91646c97, 0xe6635c01,
     0x6b6b51f4, 0x1c6c6162, 0x856530d8, 0xf262004e,
     0x6c0695ed, 0x1b01a57b, 0x8208f4c1, 0xf50fc457,
     0x65b0d9c6, 0x12b7e950, 0x8bbeb8ea, 0xfcb9887c,
     0x62dd1ddf, 0x15da2d49, 0x8cd37cf3, 0xfbd44c65,
     0x4db26158, 0x3ab551ce, 0xa3bc0074, 0xd4bb30e2,
     0x4adfa541, 0x3dd895d7, 0xa4d1c46d, 0xd3d6f4fb,
     0x4369e96a, 0x346ed9fc, 0xad678846, 0xda60b8d0,
     0x44042d73, 0x33031de5, 0xaa0a4c5f, 0xdd0d7cc9,
     0x5005713c, 0x270241aa, 0xbe0b1010, 0xc90c2086,
     0x5768b525, 0x206f85b3, 0xb966d409, 0xce61e49f,
     0x5edef90e, 0x29d9c998, 0xb0d09822, 0xc7d7a8b4,
     0x59b33d17, 0x2eb40d81, 0xb7bd5c3b, 0xc0ba6cad,
     0xedb88320, 0x9abfb3b6, 0x03b6e20c, 0x74b1d29a,
     0xead54739, 0x9dd277af, 0x04db2615, 0x73dc1683,
     0xe3630b12, 0x94643b84, 0x0d6d6a3e, 0x7a6a5aa8,
     0xe40ecf0b, 0x9309ff9d, 0x0a00ae27, 0x7d079eb1,
     0xf00f9344, 0x8708a3d2, 0x1e01f268, 0x6906c2fe,
     0xf762575d, 0x806567cb, 0x196c3671, 0x6e6b06e7,
     0xfed41b76, 0x89d32be0, 0x10da7a5a, 0x67dd4acc,
     0xf9b9df6f, 0x8ebeeff9, 0x17b7be43, 0x60b08ed5,
     0xd6d6a3e8, 0xa1d1937e, 0x38d8c2c4, 0x4fdff252,
     0xd1bb67f1, 0xa6bc5767, 0x3fb506dd, 0x48b2364b,
     0xd80d2bda, 0xaf0a1b4c, 0x36034af6, 0x41047a60,
     0xdf60efc3, 0xa867df55, 0x316e8eef, 0x4669be79,
     0xcb61b38c, 0xbc66831a, 0x256fd2a0, 0x5268e236,
     0xcc0c7795, 0xbb0b4703, 0x220216b9, 0x5505262f,
     0xc5ba3bbe, 0xb2bd0b28, 0x2bb45a92, 0x5cb36a04,
     0xc2d7ffa7, 0xb5d0cf31, 0x2cd99e8b, 0x5bdeae1d,
     0x9b64c2b0, 0xec63f226, 0x756aa39c, 0x026d930a,
     0x9c0906a9, 0xeb0e363f, 0x72076785, 0x05005713,
     0x95bf4a82, 0xe2b87a14, 0x7bb12bae, 0x0cb61b38,
     0x92d28e9b, 0xe5d5be0d, 0x7cdcefb7, 0x0bdbdf21,
     0x86d3d2d4, 0xf1d4e242, 0x68ddb3f8, 0x1fda836e,
     0x81be16cd, 0xf6b9265b, 0x6fb077e1, 0x18b74777,
     0x88085ae6, 0xff0f6a70, 0x66063bca, 0x11010b5c,
     0x8f659eff, 0xf862ae69, 0x616bffd3, 0x166ccf45,
     0xa00ae278, 0xd70dd2ee, 0x4e048354, 0x3903b3c2,
     0xa7672661, 0xd06016f7, 0x4969474d, 0x3e6e77db,
     0xaed16a4a, 0xd9d65adc, 0x40df0b66, 0x37d83bf0,
     0xa9bcae53, 0xdebb9ec5, 0x47b2cf7f, 0x30b5ffe9,
     0xbdbdf21c, 0xcabac28a, 0x53b39330, 0x24b4a3a6,
     0xbad03605, 0xcdd70693, 0x54de5729, 0x23d967bf,
     0xb3667a2e, 0xc4614ab8, 0x5d681b02, 0x2a6f2b94,
     0xb40bbe37, 0xc30c8ea1, 0x5a05df1b, 0x2d02ef8d]"

text \<open>The bodies of the loops, on the register and one byte.\<close>

definition crc32_short_byte :: "u32 \<Rightarrow> u8 \<Rightarrow> u32" where
  "crc32_short_byte crc c =
     (let crc = ngx_crc32_table16 ! unat ((crc XOR ucast (c AND 0xf)) AND 0xf) XOR drop_bit 4 crc
      in ngx_crc32_table16 ! unat ((crc XOR ucast (drop_bit 4 c)) AND 0xf) XOR drop_bit 4 crc)"

definition crc32_long_byte :: "u32 \<Rightarrow> u8 \<Rightarrow> u32" where
  "crc32_long_byte crc c = ngx_crc32_table256 ! unat ((crc XOR ucast c) AND 0xff) XOR drop_bit 8 crc"

fun crc32_short_loop :: "u32 \<Rightarrow> u8 list \<Rightarrow> u32" where
  "crc32_short_loop crc [] = crc"
| "crc32_short_loop crc (c # p) = crc32_short_loop (crc32_short_byte crc c) p"

fun crc32_long_loop :: "u32 \<Rightarrow> u8 list \<Rightarrow> u32" where
  "crc32_long_loop crc [] = crc"
| "crc32_long_loop crc (c # p) = crc32_long_loop (crc32_long_byte crc c) p"

definition ngx_crc32_short :: "u8 list \<Rightarrow> u32" where
  "ngx_crc32_short p = crc32_short_loop 0xffffffff p XOR 0xffffffff"

definition ngx_crc32_long :: "u8 list \<Rightarrow> u32" where
  "ngx_crc32_long p = crc32_long_loop 0xffffffff p XOR 0xffffffff"

definition ngx_crc32_init :: u32 where
  "ngx_crc32_init = 0xffffffff"

definition ngx_crc32_update :: "u32 \<Rightarrow> u8 list \<Rightarrow> u32" where
  "ngx_crc32_update crc p = crc32_long_loop crc p"

definition ngx_crc32_final :: "u32 \<Rightarrow> u32" where
  "ngx_crc32_final crc = crc XOR 0xffffffff"

text \<open>The rotating sum of \<^verbatim>\<open>ngx_crc.h\<close>.\<close>

fun crc_loop :: "u32 \<Rightarrow> u8 list \<Rightarrow> u32" where
  "crc_loop acc [] = acc"
| "crc_loop acc (c # p) = crc_loop ((drop_bit 1 acc OR push_bit 31 acc) + ucast c) p"

definition ngx_crc :: "u8 list \<Rightarrow> u32" where
  "ngx_crc p = crc_loop 0 p"

section \<open>The reference\<close>

definition crc_bit :: "u32 \<Rightarrow> u32" where
  "crc_bit c = (if bit c 0 then drop_bit 1 c XOR 0xedb88320 else drop_bit 1 c)"

definition crc_byte :: "u32 \<Rightarrow> u8 \<Rightarrow> u32" where
  "crc_byte c b = (crc_bit ^^ 8) (c XOR ucast b)"

definition crc32_ref :: "u8 list \<Rightarrow> u32" where
  "crc32_ref p = foldl crc_byte 0xffffffff p XOR 0xffffffff"

section \<open>Linearity\<close>

lemma crc_bit_xor: "crc_bit (a XOR b) = crc_bit a XOR crc_bit b"
  by (auto simp: crc_bit_def bit_simps intro!: bit_word_eqI)

lemma crc_bits_xor: "(crc_bit ^^ n) (a XOR b) = (crc_bit ^^ n) a XOR (crc_bit ^^ n) b"
  by (induction n) (simp_all add: crc_bit_xor)

text \<open>While only zeros are shifted out, the register is shifted.\<close>

lemma crc_bits_shift: "(\<And>i. i < n \<Longrightarrow> \<not> bit c i) \<Longrightarrow> (crc_bit ^^ n) c = drop_bit n c"
proof (induction n arbitrary: c)
  case (Suc n)
  have "(crc_bit ^^ Suc n) c = (crc_bit ^^ n) (crc_bit c)" by (simp add: funpow_swap1)
  also have "crc_bit c = drop_bit 1 c" using Suc.prems [of 0] by (simp add: crc_bit_def)
  also have "(crc_bit ^^ n) (drop_bit 1 c) = drop_bit n (drop_bit 1 c)"
    by (rule Suc.IH) (use Suc.prems in \<open>simp add: bit_simps\<close>)
  finally show ?case by simp
qed simp

lemma crc_bits_table:
  assumes "n \<le> 32"
  shows "(crc_bit ^^ n) c = (crc_bit ^^ n) (c AND mask n) XOR drop_bit n c"
proof -
  have "c = (c AND mask n) XOR (c AND NOT (mask n))"
    by (rule bit_word_eqI) (auto simp: bit_simps)
  then have "(crc_bit ^^ n) c = (crc_bit ^^ n) (c AND mask n) XOR (crc_bit ^^ n) (c AND NOT (mask n))"
    by (metis crc_bits_xor)
  moreover have "(crc_bit ^^ n) (c AND NOT (mask n)) = drop_bit n (c AND NOT (mask n))"
    by (rule crc_bits_shift) (auto simp: bit_simps)
  moreover have "drop_bit n (c AND NOT (mask n)) = drop_bit n c"
    by (rule bit_word_eqI) (auto simp: bit_simps dest: bit_imp_le_length)
  ultimately show ?thesis by simp
qed

section \<open>The tables hold the reference\<close>

lemma table16_ref: "map (\<lambda>i. (crc_bit ^^ 4) (of_nat i)) [0..<16] = ngx_crc32_table16"
  by code_simp

lemma unat_low: "unat ((c :: u32) AND 0xf) < 16" "unat ((c :: u32) AND 0xff) < 256"
proof -
  have "c AND 0xf \<le> 0xf" "c AND 0xff \<le> 0xff" by (rule word_and_le1)+
  then show "unat (c AND 0xf) < 16" "unat (c AND 0xff) < 256" by (simp_all add: word_le_nat_alt)
qed

text \<open>Four bits at a time.\<close>

definition crc_nibble :: "u32 \<Rightarrow> u32" where
  "crc_nibble c = ngx_crc32_table16 ! unat (c AND 0xf) XOR drop_bit 4 c"

lemma table16_nth: "i < 16 \<Longrightarrow> ngx_crc32_table16 ! i = (crc_bit ^^ 4) (of_nat i)"
  unfolding table16_ref [symmetric] by simp

lemma crc_nibble_ref: "crc_nibble c = (crc_bit ^^ 4) c"
proof -
  have "(crc_bit ^^ 4) (c AND 0xf) = ngx_crc32_table16 ! unat (c AND 0xf)"
    using table16_nth [OF unat_low(1), of c] by simp
  then show ?thesis using crc_bits_table [of 4 c] by (simp add: crc_nibble_def mask_eq_exp_minus_1)
qed

lemma table256_nibbles: "map (\<lambda>i. crc_nibble (crc_nibble (of_nat i))) [0..<256] = ngx_crc32_table256"
  by code_simp

lemma table256_nth:
  assumes "i < 256"
  shows "ngx_crc32_table256 ! i = (crc_bit ^^ 8) (of_nat i)"
proof -
  have "(crc_bit ^^ 8) c = (crc_bit ^^ 4) ((crc_bit ^^ 4) c)" for c
    using funpow_add [of 4 4 crc_bit] by (simp add: fun_eq_iff)
  then show ?thesis unfolding table256_nibbles [symmetric] crc_nibble_ref using assms by simp
qed

lemma bit_byte: "bit (b :: u8) n \<Longrightarrow> n < 8"
  using bit_imp_le_length [of b n] by simp

lemma long_byte_ref: "crc32_long_byte c b = crc_byte c b"
proof -
  let ?x = "c XOR ucast b"
  have "(crc_bit ^^ 8) (?x AND 0xff) = ngx_crc32_table256 ! unat (?x AND 0xff)"
    using table256_nth [OF unat_low(2), of ?x] by simp
  moreover have "drop_bit 8 ?x = drop_bit 8 c"
    by (rule bit_word_eqI) (auto simp: bit_simps dest: bit_byte)
  ultimately show ?thesis using crc_bits_table [of 8 ?x]
    by (simp add: crc32_long_byte_def crc_byte_def mask_eq_exp_minus_1)
qed

lemma short_byte_ref: "crc32_short_byte c b = crc_byte c b"
proof -
  define lo hi :: u32 where lh: "lo = ucast (b AND 0xf)" "hi = ucast (drop_bit 4 b)"
  have m: "b AND 0xf = take_bit 4 b" by (simp add: take_bit_eq_mask mask_eq_exp_minus_1)
  have blo: "bit lo n \<longleftrightarrow> n < 4 \<and> bit b n" and bhi: "bit hi n \<longleftrightarrow> bit b (4 + n)" for n
    using bit_byte [of b n] bit_byte [of b "4 + n"] by (auto simp: lh m bit_simps)
  have z: "drop_bit 4 lo = 0" "drop_bit 4 hi = 0" "drop_bit 8 lo = 0"
    by (auto intro!: bit_word_eqI simp: bit_simps blo bhi dest: bit_byte)
  have b: "ucast b = lo XOR push_bit 4 hi"
    by (rule bit_word_eqI) (auto simp: bit_simps blo bhi)
  have "(crc_bit ^^ 4) (push_bit 4 hi) = drop_bit 4 (push_bit 4 hi)"
    by (rule crc_bits_shift) (simp add: bit_simps)
  also have "\<dots> = hi" by (rule bit_word_eqI) (auto simp: bit_simps bhi dest: bit_byte)
  finally have "(crc_bit ^^ 4) (c XOR ucast b) = (crc_bit ^^ 4) (c XOR lo) XOR hi"
    unfolding b by (simp add: crc_bits_xor xor.assoc)
  moreover have "(crc_bit ^^ 8) x = (crc_bit ^^ 4) ((crc_bit ^^ 4) x)" for x
    using funpow_add [of 4 4 crc_bit] by (simp add: fun_eq_iff)
  ultimately have "crc_byte c b = crc_nibble (crc_nibble (c XOR lo) XOR hi)"
    by (simp add: crc_byte_def crc_nibble_ref)
  also have "\<dots> = crc32_short_byte c b"
    by (simp add: crc32_short_byte_def crc_nibble_def Let_def z flip: lh)
  finally show ?thesis by simp
qed

lemma long_loop_ref: "crc32_long_loop c p = foldl crc_byte c p"
  by (induction p arbitrary: c) (simp_all add: long_byte_ref)

lemma short_loop_ref: "crc32_short_loop c p = foldl crc_byte c p"
  by (induction p arbitrary: c) (simp_all add: short_byte_ref)

section \<open>Error detection\<close>

lemma xor_cancel: "a XOR c = b XOR c \<longleftrightarrow> a = (b :: u32)"
proof
  assume "a XOR c = b XOR c"
  then have "(a XOR c) XOR c = (b XOR c) XOR c" by (rule arg_cong)
  then show "a = b" by (simp add: xor.assoc)
qed simp

lemma crc_bit_0: "crc_bit x = 0 \<longleftrightarrow> x = 0"
proof
  assume z: "crc_bit x = 0"
  have n0: "\<not> bit x 0"
  proof
    assume "bit x 0"
    with z have "drop_bit 1 x XOR 0xedb88320 = 0xedb88320 XOR 0xedb88320" by (simp add: crc_bit_def)
    then have e: "drop_bit 1 x = (0xedb88320 :: u32)" unfolding xor_cancel .
    have "\<not> bit (drop_bit 1 x) 31" using bit_imp_le_length [of x 32] by (auto simp: bit_simps)
    then show False unfolding e by simp
  qed
  then have d: "drop_bit 1 x = 0" using z by (simp add: crc_bit_def)
  show "x = 0"
  proof (rule bit_word_eqI)
    fix n
    show "bit x n \<longleftrightarrow> bit 0 n"
      using n0 arg_cong [OF d, of "\<lambda>w. bit w (n - 1)"] by (cases n) (auto simp: bit_simps)
  qed
qed (simp add: crc_bit_def)

lemma crc_bits_inj: "(crc_bit ^^ n) a = (crc_bit ^^ n) b \<longleftrightarrow> a = b"
proof -
  have "(crc_bit ^^ n) x = 0 \<longleftrightarrow> x = 0" for x
    by (induction n) (simp_all add: crc_bit_0)
  from this [of "a XOR b"] show ?thesis
    using xor_cancel [of a b b] xor_cancel [of "(crc_bit ^^ n) a" "(crc_bit ^^ n) b" "(crc_bit ^^ n) b"]
    by (simp add: crc_bits_xor)
qed

lemma crc_byte_inj: "crc_byte a x = crc_byte b x \<longleftrightarrow> a = b"
  by (simp add: crc_byte_def crc_bits_inj xor_cancel)

lemma crc_byte_inj2: "crc_byte a x = crc_byte a y \<longleftrightarrow> x = y"
proof -
  have "a XOR ucast x = a XOR ucast y \<longleftrightarrow> ucast x = (ucast y :: u32)"
    using xor_cancel [of "ucast x" a "ucast y"] by (simp add: xor.commute)
  then have "crc_byte a x = crc_byte a y \<longleftrightarrow> ucast x = (ucast y :: u32)"
    by (simp add: crc_byte_def crc_bits_inj)
  also have "\<dots> \<longleftrightarrow> x = y"
  proof
    assume e: "ucast x = (ucast y :: u32)"
    show "x = y"
    proof (rule bit_word_eqI)
      fix n :: nat assume "n < LENGTH(8)"
      then show "bit x n \<longleftrightarrow> bit y n" using arg_cong [OF e, of "\<lambda>w. bit w n"] by (simp add: bit_simps)
    qed
  qed simp
  finally show ?thesis .
qed

lemma crc_fold_inj: "foldl crc_byte a p = foldl crc_byte b p \<longleftrightarrow> a = b"
  by (induction p arbitrary: a b) (simp_all add: crc_byte_inj)

section \<open>The properties\<close>

text \<open>
  (C32) The two table-driven loops compute the same checksum, the bitwise CRC-32 of the data, whatever the
  length; and computing it over pieces with \<^verbatim>\<open>ngx_crc32_init\<close>, \<^verbatim>\<open>ngx_crc32_update\<close> and
  \<^verbatim>\<open>ngx_crc32_final\<close> gives the checksum of the concatenation.
\<close>

theorem crc32_loops_agree:
  "ngx_crc32_short p = crc32_ref p \<and> ngx_crc32_long p = crc32_ref p \<and>
   ngx_crc32_final (foldl ngx_crc32_update ngx_crc32_init ps) = ngx_crc32_long (concat ps)"
proof -
  have "foldl ngx_crc32_update c ps = foldl crc_byte c (concat ps)" for c
    by (induction ps arbitrary: c) (simp_all add: ngx_crc32_update_def long_loop_ref)
  then show ?thesis
    by (simp add: ngx_crc32_short_def ngx_crc32_long_def crc32_ref_def long_loop_ref short_loop_ref
        ngx_crc32_final_def ngx_crc32_init_def)
qed

text \<open>A change confined to one byte of the data is always detected.\<close>

theorem crc32_detects_byte:
  "ngx_crc32_long (xs @ a # ys) = ngx_crc32_long (xs @ b # ys) \<longleftrightarrow> a = b"
  by (simp only: ngx_crc32_long_def long_loop_ref xor_cancel foldl_append foldl.simps crc_fold_inj crc_byte_inj2)

end
