(* ===== verification/Block_Digest.thy ===== *)
theory Block_Digest
  imports Prelude
begin

text \<open>
  What \<^verbatim>\<open>core/ngx_md5.c\<close> and \<^verbatim>\<open>core/ngx_sha1.c\<close> share: a context of a byte counter, chaining
  variables and a buffer of 64 bytes, filled by \<^verbatim>\<open>update\<close> and padded by \<^verbatim>\<open>final\<close>. The functions of
  this theory are the shape of that code with the compression of one block as an argument; each
  component proves that its own functions have this shape and gets, through the locale
  \<open>block_digest\<close>, that feeding a message in pieces yields the digest of the padded message.

  A read or write outside an array is a fault, the value \<open>None\<close>.
\<close>

section \<open>Writing into the buffer\<close>

definition buf_write :: "u8 list \<Rightarrow> nat \<Rightarrow> u8 list \<Rightarrow> u8 list option" where
  "buf_write b off xs =
     (if off + length xs \<le> length b then Some (take off b @ xs @ drop (off + length xs) b) else None)"

lemma buf_write_length: "buf_write b off xs = Some c \<Longrightarrow> length c = length b"
  by (auto simp: buf_write_def split: if_splits)

lemma buf_write_ok: "off + length xs \<le> length b \<Longrightarrow> buf_write b off xs = Some (take off b @ xs @ drop (off + length xs) b)"
  by (simp add: buf_write_def)

section \<open>Numbers as octets\<close>

text \<open>
  The standards read and print numbers as octets, least significant first (MD5) or last (SHA-1). The
  references below write this with arithmetic; the code shifts, casts and ors.
\<close>

definition octets_le :: "nat \<Rightarrow> nat \<Rightarrow> u8 list" where
  "octets_le k n = map (\<lambda>j. of_nat (n div 256 ^ j mod 256)) [0..<k]"

definition octets_be :: "nat \<Rightarrow> nat \<Rightarrow> u8 list" where
  "octets_be k n = rev (octets_le k n)"

definition word_le :: "u8 list \<Rightarrow> nat \<Rightarrow> u32" where
  "word_le p i = of_nat (\<Sum>j<4. unat (p ! (4 * i + j)) * 256 ^ j)"

definition word_be :: "u8 list \<Rightarrow> nat \<Rightarrow> u32" where
  "word_be p i = of_nat (\<Sum>j<4. unat (p ! (4 * i + j)) * 256 ^ (3 - j))"

lemma sum_four: "(\<Sum>j<4::nat. f j) = f 0 + f 1 + f 2 + (f 3 :: nat)"
proof -
  have "{..<4} = {0, 1, 2, 3 :: nat}" by auto
  then show ?thesis by simp
qed

lemma ucast_octet: "ucast (drop_bit (8 * j) w) = (of_nat (unat (w :: 'a :: len word) div 256 ^ j mod 256) :: u8)"
proof -
  have "(256 :: nat) ^ j = 2 ^ (8 * j)" by (simp add: power_mult)
  then have "(ucast (drop_bit (8 * j) w) :: u8) = of_nat (unat w div 256 ^ j)"
    unfolding ucast_of_nat unat_drop_bit_eq by (simp only: drop_bit_eq_div)
  then show ?thesis by (simp add: word_of_nat_eq_iff take_bit_eq_mod)
qed

lemma or_shift_add:
  assumes "unat w < 2 ^ k"
  shows "w OR push_bit k v = w + v * 2 ^ k"
proof -
  have "n < k" if "bit w n" for n
  proof -
    have "bit (take_bit k (unat w)) n"
      using that assms by (simp add: take_bit_nat_eq_self bit_unsigned_iff)
    then show ?thesis by (simp only: bit_take_bit_iff)
  qed
  then have "\<not> bit w n \<or> \<not> bit (push_bit k v) n" for n
    by (fastforce simp: bit_push_bit_iff)
  then have "w + push_bit k v = w OR push_bit k v" by (intro disjunctive_add) blast
  then show ?thesis by (simp add: push_bit_eq_mult)
qed

text \<open>Octets put together by shifts, as one sum.\<close>

lemma or_octets:
  "ucast (a :: u8) OR push_bit 8 (ucast (b :: u8)) OR push_bit 16 (ucast (c :: u8)) OR push_bit 24 (ucast (d :: u8)) =
   (of_nat (unat a + unat b * 256 + unat c * 65536 + unat d * 16777216) :: u32)"
proof -
  let ?n1 = "unat a + unat b * 256" and ?n2 = "unat a + unat b * 256 + unat c * 65536"
  have l: "unat x < 256" for x :: u8 using unsigned_less [of x] by simp
  have small: "unat (of_nat m :: u32) < 2 ^ k" if "m < 2 ^ k" for m k
    using that by (simp add: unat_of_nat le_less_trans [OF mod_less_eq_dividend])
  have "(of_nat (unat a) :: u32) OR push_bit 8 (of_nat (unat b)) = of_nat ?n1"
    by (subst or_shift_add) (use small [of "unat a" 8] l [of a] in simp_all)
  moreover have "(of_nat ?n1 :: u32) OR push_bit 16 (of_nat (unat c)) = of_nat ?n2"
    by (subst or_shift_add) (use small [of ?n1 16] l [of a] l [of b] in simp_all)
  moreover have "(of_nat ?n2 :: u32) OR push_bit 24 (of_nat (unat d)) =
      of_nat (unat a + unat b * 256 + unat c * 65536 + unat d * 16777216)"
    by (subst or_shift_add) (use small [of ?n2 24] l [of a] l [of b] l [of c] in simp_all)
  ultimately show ?thesis by (simp only: ucast_of_nat or.assoc [symmetric])
qed

text \<open>A rotation written with shifts.\<close>

lemma rotl_shifts:
  assumes "0 < s" and "s < 32"
  shows "push_bit s w OR drop_bit (32 - s) w = word_rotl s (w :: u32)"
proof (rule bit_word_eqI)
  fix n assume n: "n < LENGTH(32)"
  show "bit (push_bit s w OR drop_bit (32 - s) w) n \<longleftrightarrow> bit (word_rotl s w) n"
  proof (cases "n < s")
    case True
    then have "(n + (LENGTH(32) - s mod LENGTH(32))) mod LENGTH(32) = 32 - s + n" using assms by simp
    then show ?thesis using True n by (simp add: bit_or_iff bit_push_bit_iff bit_drop_bit_eq bit_word_rotl_iff)
  next
    case False
    then have "n + (LENGTH(32) - s mod LENGTH(32)) = (n - s) + 32" using assms by simp
    then have "(n + (LENGTH(32) - s mod LENGTH(32))) mod LENGTH(32) = n - s" using n by simp
    moreover have "\<not> bit w (32 - s + n)" using False assms bit_imp_le_length [of w "32 - s + n"] by auto
    ultimately show ?thesis using False n by (simp add: bit_or_iff bit_push_bit_iff bit_drop_bit_eq bit_word_rotl_iff)
  qed
qed

section \<open>The shape of the code\<close>

text \<open>The \<^verbatim>\<open>do ... while (size -= 64)\<close> loop over the blocks of the data.\<close>

function body_loop :: "('h \<Rightarrow> u8 list \<Rightarrow> 'h) \<Rightarrow> 'h \<Rightarrow> u8 list \<Rightarrow> u64 \<Rightarrow> ('h \<times> u8 list) option" where
  "body_loop block h p sz =
     (if length p < 64 then None
      else let h' = block h (take 64 p); sz' = sz - 64
           in if sz' \<noteq> 0 then body_loop block h' (drop 64 p) sz' else Some (h', drop 64 p))"
  by pat_completeness auto
termination by (relation "measure (\<lambda>(_, _, p, _). length p)") auto

declare body_loop.simps [simp del]

definition absorb_rest ::
  "('h \<Rightarrow> u8 list \<Rightarrow> 'h) \<Rightarrow> 'h \<Rightarrow> u8 list \<Rightarrow> u8 list \<Rightarrow> nat \<Rightarrow> ('h \<times> u8 list) option"
where
  "absorb_rest block h b data sz = do {
     (h, data, sz) \<leftarrow>
       (if 64 \<le> sz then do {
          (h, data) \<leftarrow> body_loop block h data (of_nat sz AND NOT 0x3f);
          Some (h, data, unat (of_nat sz AND 0x3f :: u64))
        }
        else Some (h, data, sz));
     b \<leftarrow> buf_write b 0 (take sz data);
     Some (h, b)
   }"

definition absorb ::
  "('h \<Rightarrow> u8 list \<Rightarrow> 'h) \<Rightarrow> u64 \<Rightarrow> 'h \<Rightarrow> u8 list \<Rightarrow> u8 list \<Rightarrow> (u64 \<times> 'h \<times> u8 list) option"
where
  "absorb block n h b data = (
     let used = unat (n AND 0x3f); sz = length data; n = n + of_nat sz
     in if used \<noteq> 0 then
          let free = 64 - used
          in if sz < free then do {
               b \<leftarrow> buf_write b used (take sz data);
               Some (n, h, b)
             }
             else do {
               b \<leftarrow> buf_write b used (take free data);
               (h, _) \<leftarrow> body_loop block h b 64;
               (h, b) \<leftarrow> absorb_rest block h b (drop free data) (sz - free);
               Some (n, h, b)
             }
        else do {
          (h, b) \<leftarrow> absorb_rest block h b data sz;
          Some (n, h, b)
        })"

definition finish :: "('h \<Rightarrow> u8 list \<Rightarrow> 'h) \<Rightarrow> (u64 \<Rightarrow> u8 list) \<Rightarrow> u64 \<Rightarrow> 'h \<Rightarrow> u8 list \<Rightarrow> 'h option" where
  "finish block enc n h b = do {
     let used = unat (n AND 0x3f);
     b \<leftarrow> buf_write b used [0x80];
     let used = used + 1;
     let free = 64 - used;
     (h, b, used, free) \<leftarrow>
       (if free < 8 then do {
          b \<leftarrow> buf_write b used (replicate free 0);
          (h, _) \<leftarrow> body_loop block h b 64;
          Some (h, b, 0, 64)
        }
        else Some (h, b, used, free));
     b \<leftarrow> buf_write b used (replicate (free - 8) 0);
     let n = push_bit 3 n;
     b \<leftarrow> buf_write b 56 (enc n);
     (h, _) \<leftarrow> body_loop block h b 64;
     Some h
   }"

section \<open>The digest of a message\<close>

function blocks64 :: "u8 list \<Rightarrow> u8 list list" where
  "blocks64 m = (if length m < 64 then [] else take 64 m # blocks64 (drop 64 m))"
  by pat_completeness auto
termination by (relation "measure length") auto

declare blocks64.simps [simp del]

text \<open>A message is followed by the octet 128, zeros and the low 64 bits of its length in bits.\<close>

definition pad :: "(u64 \<Rightarrow> u8 list) \<Rightarrow> u8 list \<Rightarrow> u8 list" where
  "pad enc m = m @ [0x80] @ replicate ((119 - length m mod 64) mod 64) 0 @ enc (of_nat (8 * length m))"

lemma blocks64_append:
  assumes "64 dvd length xs"
  shows "blocks64 (xs @ ys) = blocks64 xs @ blocks64 ys"
  using assms
proof (induction xs rule: blocks64.induct)
  case (1 xs)
  show ?case
  proof (cases "length xs < 64")
    case True
    then have "xs = []" using 1(2) by (auto dest: dvd_imp_le)
    then show ?thesis by (simp add: blocks64.simps [of "[]"])
  next
    case False
    then have "blocks64 (drop 64 xs @ ys) = blocks64 (drop 64 xs) @ blocks64 ys"
      using 1 by (simp add: dvd_diff_nat)
    then show ?thesis using False by (simp add: blocks64.simps [of xs] blocks64.simps [of "xs @ ys"])
  qed
qed

lemma blocks64_one: "length b = 64 \<Longrightarrow> blocks64 b = [b]"
  by (simp add: blocks64.simps [of b] blocks64.simps [of "[]"])

lemma body_loop_one:
  assumes "length b = 64"
  shows "body_loop block h b 64 = Some (block h b, [])"
  using assms by (simp add: body_loop.simps)

text \<open>On a positive multiple of 64 the loop runs over exactly that many bytes.\<close>

lemma body_loop_blocks:
  assumes "64 * k \<le> length p" and "0 < k" and "64 * k < 2 ^ 64"
  shows "body_loop block h p (of_nat (64 * k)) = Some (foldl block h (blocks64 (take (64 * k) p)), drop (64 * k) p)"
  using assms
proof (induction k arbitrary: h p)
  case (Suc k)
  have "of_nat (64 * Suc k) - 64 = (of_nat (64 * k) :: u64)" by simp
  moreover have "(of_nat (64 * k) :: u64) = 0 \<longleftrightarrow> k = 0"
  proof
    assume "(of_nat (64 * k) :: u64) = 0"
    then have "2 ^ LENGTH(64) dvd 64 * k" unfolding word_of_nat_eq_0_iff .
    then show "k = 0" using Suc.prems(3) by (auto dest: dvd_imp_le)
  qed simp
  moreover have "blocks64 (take (64 * Suc k) p) = take 64 p # blocks64 (take (64 * k) (drop 64 p))"
    using Suc.prems by (subst blocks64.simps) (simp add: min_def drop_take)
  ultimately show ?case
    using Suc by (subst body_loop.simps) (simp add: blocks64.simps [of "[]"] Let_def add.commute)
qed simp

lemma unat_low6: "unat ((w :: u64) AND 0x3f) = unat w mod 64"
proof -
  have "w AND 0x3f = take_bit 6 w" by (simp add: take_bit_eq_mask mask_eq_exp_minus_1)
  then have "unat (w AND 0x3f) = take_bit 6 (unat w)" by (simp only: unsigned_take_bit_eq)
  then show ?thesis by (simp add: take_bit_eq_mod)
qed

lemma used_mod: "unat ((of_nat n :: u64) AND 0x3f) = n mod 64"
  unfolding unat_low6 unat_of_nat by (rule mod_mod_cancel) simp

lemma size_blocks:
  assumes "n < 2 ^ 64"
  shows "(of_nat n AND NOT 0x3f :: u64) = of_nat (64 * (n div 64))"
proof -
  have "(of_nat n AND NOT 0x3f :: u64) = of_nat n AND NOT (mask 6)" by (simp add: mask_eq_exp_minus_1)
  then have e: "unat (of_nat n AND NOT 0x3f :: u64) = 64 * (n div 64)"
    using assms unat_and_not_mask [of "of_nat n :: u64" 6] by (simp add: unat_of_nat)
  have "(of_nat n AND NOT 0x3f :: u64) = of_nat (unat (of_nat n AND NOT 0x3f :: u64))"
    by simp
  then show ?thesis unfolding e .
qed

lemma blocks64_full: "blocks64 m = blocks64 (take (64 * (length m div 64)) m)"
proof -
  let ?k = "64 * (length m div 64)"
  have "blocks64 (take ?k m @ drop ?k m) = blocks64 (take ?k m) @ blocks64 (drop ?k m)"
    by (rule blocks64_append) (simp add: min_absorb2)
  moreover have "length (drop ?k m) < 64" by (simp add: minus_mult_div_eq_mod)
  then have "blocks64 (drop ?k m) = []" by (simp add: blocks64.simps [of "drop ?k m"])
  ultimately show ?thesis by simp
qed

text \<open>The rest of the data after a block boundary: the whole blocks are compressed, the others buffered.\<close>

lemma absorb_rest_spec:
  assumes b: "length b = 64" and d: "length data < 2 ^ 64"
  shows "\<exists>b'. absorb_rest block h b data (length data) = Some (foldl block h (blocks64 data), b') \<and>
    length b' = 64 \<and> take (length data mod 64) b' = drop (64 * (length data div 64)) data"
proof (cases "64 \<le> length data")
  case True
  let ?k = "length data div 64"
  have "body_loop block h data (of_nat (64 * ?k)) = Some (foldl block h (blocks64 (take (64 * ?k) data)), drop (64 * ?k) data)"
    by (rule body_loop_blocks) (use True d in \<open>auto simp: div_greater_zero_iff intro: le_less_trans [OF _ d]\<close>)
  then have "body_loop block h data (of_nat (length data) AND NOT 0x3f) =
      Some (foldl block h (blocks64 data), drop (64 * ?k) data)"
    by (simp only: size_blocks [OF d] blocks64_full [of data, symmetric])
  then have "absorb_rest block h b data (length data) =
      (buf_write b 0 (take (length data mod 64) (drop (64 * ?k) data)) \<bind> (\<lambda>b'. Some (foldl block h (blocks64 data), b')))"
    unfolding absorb_rest_def used_mod using True by (simp only: if_True bind.bind_lunit prod.case)
  moreover have r: "length (drop (64 * ?k) data) = length data mod 64" by (simp add: minus_mult_div_eq_mod)
  then have "take (length data mod 64) (drop (64 * ?k) data) = drop (64 * ?k) data" by simp
  moreover have "length data mod 64 < 64" by simp
  ultimately show ?thesis using b r by (simp add: buf_write_ok)
next
  case False
  then show ?thesis using b by (simp add: absorb_rest_def buf_write_ok blocks64.simps [of data])
qed

text \<open>
  \<open>pending h0 block m h b\<close>: the chaining variables are those of the whole blocks of \<open>m\<close>, the buffer
  starts with the rest.
\<close>

definition pending :: "('h \<Rightarrow> u8 list \<Rightarrow> 'h) \<Rightarrow> 'h \<Rightarrow> u8 list \<Rightarrow> 'h \<Rightarrow> u8 list \<Rightarrow> bool" where
  "pending block h0 m h b \<longleftrightarrow> h = foldl block h0 (blocks64 m) \<and> length b = 64 \<and>
     take (length m mod 64) b = drop (64 * (length m div 64)) m"

lemma pending_short:
  assumes "pending block h0 m h b" and "length m mod 64 + length d < 64"
  shows "pending block h0 (m @ d) h (take (length m mod 64) b @ d @ drop (length m mod 64 + length d) b)"
proof -
  let ?L = "length m"
  have dm: "(?L + length d) div 64 = ?L div 64" "(?L + length d) mod 64 = ?L mod 64 + length d"
    using assms(2) by (simp_all add: div_add1_eq [of ?L] mod_add_eq [of ?L 64 "length d", symmetric])
  have "blocks64 (m @ d) = blocks64 m"
    using blocks64_full [of "m @ d"] blocks64_full [of m] by (simp only: length_append dm) simp
  then show ?thesis using assms dm by (auto simp: pending_def minus_mult_div_eq_mod)
qed

lemma fill_up: "64 * q + u = L \<Longrightarrow> u < (64 :: nat) \<Longrightarrow> L + (64 - u) = 64 * (q + 1)"
  by simp

lemma pending_fill:
  assumes p: "pending block h0 m h b" and d: "length d = 64 - length m mod 64"
  shows "blocks64 (m @ d) = blocks64 m @ [take (length m mod 64) b @ d]" and "64 dvd length (m @ d)"
    and "length (take (length m mod 64) b @ d) = 64"
proof -
  let ?q = "64 * (length m div 64)"
  have m: "m = take ?q m @ drop ?q m" by simp
  have b: "take (length m mod 64) b = drop ?q m" and lb: "length b = 64" using p by (auto simp: pending_def)
  have l: "length (drop ?q m) = length m mod 64" by (simp add: minus_mult_div_eq_mod)
  have one: "length (drop ?q m @ d) = 64" using l d mod_less_divisor [of 64 "length m"] by simp
  then show "length (take (length m mod 64) b @ d) = 64" by (simp only: b)
  have "blocks64 (take ?q m @ (drop ?q m @ d)) = blocks64 (take ?q m) @ blocks64 (drop ?q m @ d)"
    by (rule blocks64_append) (simp add: min_absorb2)
  then show "blocks64 (m @ d) = blocks64 m @ [take (length m mod 64) b @ d]"
    unfolding b blocks64_one [OF one] using blocks64_full [of m] by (simp only: append_assoc [symmetric] append_take_drop_id)
  have "length (m @ d) = 64 * (length m div 64 + 1)"
    unfolding length_append d by (rule fill_up [OF mult_div_mod_eq mod_less_divisor [OF zero_less_numeral]])
  then show "64 dvd length (m @ d)" by simp
qed

lemma pending_rest:
  assumes "64 dvd length m" and "length b = 64" and "take (length d mod 64) b = drop (64 * (length d div 64)) d"
  shows "pending block h0 (m @ d) (foldl block (foldl block h0 (blocks64 m)) (blocks64 d)) b"
proof -
  obtain k where k: "length m = 64 * k" using assms(1) by (auto simp: dvd_def)
  have "(length m + length d) mod 64 = length d mod 64" "(length m + length d) div 64 = k + length d div 64"
    by (simp_all add: k)
  then show ?thesis using assms by (simp add: pending_def blocks64_append k)
qed

lemma absorb_spec:
  assumes p: "pending block h0 m h b" and d: "length data < 2 ^ 64"
  shows "\<exists>h' b'. absorb block (of_nat (length m)) h b data = Some (of_nat (length (m @ data)), h', b') \<and>
    pending block h0 (m @ data) h' b'"
proof -
  let ?u = "length m mod 64"
  have b: "length b = 64" and h: "h = foldl block h0 (blocks64 m)" using p by (auto simp: pending_def)
  have u: "?u < 64" by simp
  have n: "of_nat (length m) + of_nat (length data) = (of_nat (length (m @ data)) :: u64)" by simp
  consider "?u = 0" | "?u \<noteq> 0" "length data < 64 - ?u" | "?u \<noteq> 0" "\<not> length data < 64 - ?u" by blast
  then show ?thesis
  proof cases
    case 1
    obtain b' where "absorb_rest block h b data (length data) = Some (foldl block h (blocks64 data), b')"
      "length b' = 64" "take (length data mod 64) b' = drop (64 * (length data div 64)) data"
      using absorb_rest_spec [OF b d, of block h] by blast
    moreover have "64 dvd length m" using 1 by (rule mod_0_imp_dvd)
    ultimately show ?thesis using 1 pending_rest [of m b' data block h0] h
      unfolding absorb_def used_mod n by (auto simp: Let_def)
  next
    case 2
    then show ?thesis using pending_short [OF p, of data] b
      unfolding absorb_def used_mod n by (auto simp: Let_def buf_write_ok)
  next
    case 3
    let ?d1 = "take (64 - ?u) data" and ?d2 = "drop (64 - ?u) data" and ?b1 = "take ?u b @ take (64 - ?u) data"
    have l1: "length ?d1 = 64 - ?u" using 3 by simp
    note f = pending_fill [OF p l1]
    have w: "buf_write b ?u ?d1 = Some ?b1" using l1 b u by (simp add: buf_write_ok)
    have d2: "length ?d2 < 2 ^ 64" using d unfolding length_drop by linarith
    obtain b' where r: "absorb_rest block (block h ?b1) ?b1 ?d2 (length ?d2) = Some (foldl block (block h ?b1) (blocks64 ?d2), b')"
      "length b' = 64" "take (length ?d2 mod 64) b' = drop (64 * (length ?d2 div 64)) ?d2"
      using absorb_rest_spec [OF f(3) d2, of block "block h ?b1"] by blast
    have "pending block h0 ((m @ ?d1) @ ?d2) (foldl block (block h ?b1) (blocks64 ?d2)) b'"
      using pending_rest [OF f(2) r(2,3), of block h0] by (simp only: f(1) foldl_append foldl.simps h)
    then show ?thesis using 3 w r(1) body_loop_one [OF f(3), of block h]
      unfolding absorb_def used_mod n by (auto simp: Let_def)
  qed
qed

text \<open>The padding completes one or two blocks.\<close>

lemma pad_zeros_one:
  assumes "u \<le> (55 :: nat)"
  shows "(119 - u) mod 64 = 55 - u"
proof -
  obtain k where k: "55 = u + k" using le_Suc_ex [OF assms] by blast
  then have "119 - u = k + 64" and "k < 64" by simp_all
  then show ?thesis using k by simp
qed

lemma pad_zeros_two: "55 < u \<Longrightarrow> (119 - u) mod 64 = 119 - (u :: nat)"
  by (rule mod_less) simp

lemma finish_one_block:
  assumes u: "u = unat (n AND 0x3f)" "u \<le> 55" and b: "length b = 64" and e: "length (enc (push_bit 3 n)) = 8"
  shows "finish block enc n h b = Some (block h (take u b @ [0x80] @ replicate (55 - u) 0 @ enc (push_bit 3 n)))"
proof -
  let ?d = "[0x80] @ replicate (55 - u) 0 @ enc (push_bit 3 n)"
  have l: "length (take u b @ ?d) = 64" using u(2) b e by simp
  have w1: "buf_write b u [0x80] = Some (take u b @ [0x80] @ drop (u + 1) b)" using b u(2) by (simp add: buf_write_ok)
  have w2: "buf_write (take u b @ [0x80] @ drop (u + 1) b) (u + 1) (replicate (55 - u) 0) =
      Some (take u b @ [0x80] @ replicate (55 - u) 0 @ drop 56 b)"
    using u(2) b by (simp add: buf_write_ok min_absorb2 Suc_diff_le drop_Cons')
  have w3: "buf_write (take u b @ [0x80] @ replicate (55 - u) 0 @ drop 56 b) 56 (enc (push_bit 3 n)) = Some (take u b @ ?d)"
    using u(2) b e by (simp add: buf_write_ok min_absorb2 Suc_diff_le take_Cons')
  have z: "64 - (u + 1) - 8 = 55 - u" "\<not> 64 - (u + 1) < 8" using u(2) by simp_all
  show ?thesis
    unfolding finish_def Let_def u(1) [symmetric] z
    by (simp only: w1 bind.bind_lunit z if_False prod.case w2 w3 body_loop_one [OF l])
qed

lemma finish_two_blocks:
  assumes u: "u = unat (n AND 0x3f)" "55 < u" "u < 64" and b: "length b = 64" and e: "length (enc (push_bit 3 n)) = 8"
  shows "finish block enc n h b =
    Some (block (block h (take u b @ [0x80] @ replicate (63 - u) 0)) (replicate 56 0 @ enc (push_bit 3 n)))"
proof -
  let ?d = "[0x80] @ replicate (63 - u) 0" and ?b2 = "replicate 56 0 @ enc (push_bit 3 n)"
  have l: "length (take u b @ ?d) = 64" "length ?b2 = 64" using u(2,3) b e by simp_all
  have w1: "buf_write b u [0x80] = Some (take u b @ [0x80] @ drop (u + 1) b)" using b u(3) by (simp add: buf_write_ok)
  have w2: "buf_write (take u b @ [0x80] @ drop (u + 1) b) (u + 1) (replicate (63 - u) 0) = Some (take u b @ ?d)"
    using u(3) b by (simp add: buf_write_ok min_absorb2)
  have w3: "buf_write (take u b @ ?d) 0 (replicate 56 0) = Some (replicate 56 0 @ drop 56 (take u b @ ?d))"
    using l(1) buf_write_ok [of 0 "replicate 56 0" "take u b @ ?d"] by simp
  have w4: "buf_write (replicate 56 0 @ drop 56 (take u b @ ?d)) 56 (enc (push_bit 3 n)) = Some ?b2"
    using l(1) e buf_write_ok [of 56 "enc (push_bit 3 n)" "replicate 56 0 @ drop 56 (take u b @ ?d)"] by simp
  have z: "64 - (u + 1) = 63 - u" "63 - u < 8" "(64 :: nat) - 8 = 56" using u(2,3) by simp_all
  show ?thesis
    unfolding finish_def Let_def u(1) [symmetric] z(1)
    by (simp only: w1 bind.bind_lunit z if_True prod.case w2 w3 w4 body_loop_one [OF l(1)] body_loop_one [OF l(2)])
qed

lemma finish_spec:
  assumes p: "pending block h0 m h b" and e: "\<And>w. length (enc w) = 8"
  shows "finish block enc (of_nat (length m)) h b = Some (foldl block h0 (blocks64 (pad enc m)))"
proof -
  define u where u: "u = length m mod 64"
  let ?n = "of_nat (length m) :: u64" and ?e = "enc (of_nat (8 * length m))"
  have b: "length b = 64" and h: "h = foldl block h0 (blocks64 m)" using p by (auto simp: pending_def)
  have u64: "u < 64" by (simp add: u)
  have used: "u = unat (?n AND 0x3f)" unfolding used_mod u ..
  have n: "push_bit 3 ?n = of_nat (8 * length m)" by (simp add: push_bit_eq_mult)
  show ?thesis
  proof (cases "u \<le> 55")
    case True
    have "length ([0x80] @ replicate (55 - u) 0 @ ?e) = 64 - length m mod 64" using True e u by simp
    note f = pending_fill [OF p this]
    show ?thesis
      using finish_one_block [OF used True b e] f(1) pad_zeros_one [OF True]
      by (simp add: pad_def n h flip: u)
  next
    case False
    then have u55: "55 < u" by simp
    let ?d = "[0x80] @ replicate (63 - u) 0" and ?b2 = "replicate 56 0 @ ?e"
    have "length ?d = 64 - length m mod 64" using u64 u by simp
    note f = pending_fill [OF p this]
    have "replicate (119 - u) 0 = replicate (63 - u) 0 @ replicate 56 (0 :: u8)"
      using u64 by (simp flip: replicate_add)
    then have "pad enc m = (m @ ?d) @ ?b2" by (simp add: pad_def pad_zeros_two [OF u55] flip: u)
    then have "blocks64 (pad enc m) = blocks64 m @ [take u b @ ?d, ?b2]"
      using blocks64_append [OF f(2), of ?b2] f(1) blocks64_one [of ?b2] e by (simp add: u)
    then show ?thesis using finish_two_blocks [OF used u55 u64 b e] by (simp add: n h)
  qed
qed

text \<open>Feeding a message in pieces.\<close>

primrec feed :: "('c \<Rightarrow> u8 list \<Rightarrow> 'c option) \<Rightarrow> 'c \<Rightarrow> u8 list list \<Rightarrow> 'c option" where
  "feed up c [] = Some c"
| "feed up c (d # ds) = do { c' \<leftarrow> up c d; feed up c' ds }"

section \<open>The interface\<close>

text \<open>
  A component provides its context type through \<open>mk\<close> (counter, chaining variables, buffer), its
  \<open>update\<close> and \<open>final\<close>, and shows that they have the shape above.
\<close>

locale block_digest =
  fixes mk :: "u64 \<Rightarrow> 'h \<Rightarrow> u8 list \<Rightarrow> 'c"
    and block :: "'h \<Rightarrow> u8 list \<Rightarrow> 'h"
    and start :: 'h
    and enc :: "u64 \<Rightarrow> u8 list"
    and out :: "'h \<Rightarrow> u8 list"
    and update :: "'c \<Rightarrow> u8 list \<Rightarrow> 'c option"
    and final :: "'c \<Rightarrow> u8 list option"
  assumes update_shape: "update (mk n h b) data = map_option (\<lambda>(n, h, b). mk n h b) (absorb block n h b data)"
    and final_shape: "final (mk n h b) = map_option out (finish block enc n h b)"
    and enc_length: "length (enc w) = 8"
begin

text \<open>The context has absorbed the message \<open>m\<close>.\<close>

definition holds :: "'c \<Rightarrow> u8 list \<Rightarrow> bool" where
  "holds c m \<longleftrightarrow> (\<exists>h b. c = mk (of_nat (length m)) h b \<and> pending block start m h b)"

lemma holds_start: "length b = 64 \<Longrightarrow> holds (mk 0 start b) []"
  by (auto simp: holds_def pending_def blocks64.simps)

lemma holds_update: "holds c m \<Longrightarrow> length d < 2 ^ 64 \<Longrightarrow> \<exists>c'. update c d = Some c' \<and> holds c' (m @ d)"
  using absorb_spec [of block start m _ _ d] by (fastforce simp: holds_def update_shape)

lemma holds_final: "holds c m \<Longrightarrow> final c = Some (out (foldl block start (blocks64 (pad enc m))))"
  using finish_spec [of block start m _ _ enc] enc_length by (auto simp: holds_def final_shape)

lemma holds_feed:
  "holds c m \<Longrightarrow> \<forall>d \<in> set ds. length d < 2 ^ 64 \<Longrightarrow> \<exists>c'. feed update c ds = Some c' \<and> holds c' (m @ concat ds)"
proof (induction ds arbitrary: c m)
  case (Cons d ds)
  obtain c' where "update c d = Some c'" "holds c' (m @ d)" using holds_update Cons.prems by fastforce
  then show ?case using Cons.IH [of c' "m @ d"] Cons.prems by auto
qed simp

lemma digest_of_pieces:
  assumes "length b = 64" and "\<forall>d \<in> set ds. length d < 2 ^ 64"
  shows "do { c \<leftarrow> feed update (mk 0 start b) ds; final c } = Some (out (foldl block start (blocks64 (pad enc (concat ds)))))"
  using holds_feed [OF holds_start [OF assms(1)] assms(2)] holds_final by fastforce

end

end
