(* ===== verification/Ngx_Md5.thy ===== *)
theory Ngx_Md5
  imports Block_Digest
begin

text \<open>
  The MD5 digest of \<^verbatim>\<open>core/ngx_md5.c\<close>. The unrolled rounds are compared with the loop of RFC 1321,
  the buffering with the padding of the whole message.
\<close>

section \<open>The context\<close>

record ngx_md5 =
  md5_bytes :: u64
  md5_a :: u32
  md5_b :: u32
  md5_c :: u32
  md5_d :: u32
  md5_buffer :: "u8 list"

type_synonym md5_vars = "u32 \<times> u32 \<times> u32 \<times> u32"

definition ngx_md5_init :: "ngx_md5 \<Rightarrow> ngx_md5" where
  "ngx_md5_init ctx = ctx\<lparr>md5_a := 0x67452301, md5_b := 0xefcdab89, md5_c := 0x98badcfe,
     md5_d := 0x10325476, md5_bytes := 0\<rparr>"

section \<open>One block\<close>

definition md5_F :: "u32 \<Rightarrow> u32 \<Rightarrow> u32 \<Rightarrow> u32" where "md5_F x y z = z XOR (x AND (y XOR z))"
definition md5_G :: "u32 \<Rightarrow> u32 \<Rightarrow> u32 \<Rightarrow> u32" where "md5_G x y z = y XOR (z AND (x XOR y))"
definition md5_H :: "u32 \<Rightarrow> u32 \<Rightarrow> u32 \<Rightarrow> u32" where "md5_H x y z = x XOR y XOR z"
definition md5_I :: "u32 \<Rightarrow> u32 \<Rightarrow> u32 \<Rightarrow> u32" where "md5_I x y z = y XOR (x OR NOT z)"

text \<open>The macro \<^verbatim>\<open>STEP\<close>: the new value of its second argument.\<close>

definition md5_step ::
  "(u32 \<Rightarrow> u32 \<Rightarrow> u32 \<Rightarrow> u32) \<Rightarrow> u32 \<Rightarrow> u32 \<Rightarrow> u32 \<Rightarrow> u32 \<Rightarrow> u32 \<Rightarrow> u32 \<Rightarrow> nat \<Rightarrow> u32"
where
  "md5_step f a b c d x t s =
     (let a = a + (f b c d + x + t);
          a = push_bit s a OR drop_bit (32 - s) (a AND 0xffffffff)
      in a + b)"

text \<open>The macros \<^verbatim>\<open>SET\<close> and \<^verbatim>\<open>GET\<close>: a 32-bit load from a little-endian machine's memory.\<close>

definition md5_get :: "u8 list \<Rightarrow> nat \<Rightarrow> u32" where
  "md5_get p n = ucast (p ! (n * 4)) OR push_bit 8 (ucast (p ! (n * 4 + 1))) OR
     push_bit 16 (ucast (p ! (n * 4 + 2))) OR push_bit 24 (ucast (p ! (n * 4 + 3)))"

definition md5_round1 :: "u8 list \<Rightarrow> md5_vars \<Rightarrow> md5_vars" where
  "md5_round1 p = (\<lambda>(a, b, c, d).
      let a = md5_step md5_F a b c d (md5_get p 0) 0xd76aa478 7 in
      let d = md5_step md5_F d a b c (md5_get p 1) 0xe8c7b756 12 in
      let c = md5_step md5_F c d a b (md5_get p 2) 0x242070db 17 in
      let b = md5_step md5_F b c d a (md5_get p 3) 0xc1bdceee 22 in
      let a = md5_step md5_F a b c d (md5_get p 4) 0xf57c0faf 7 in
      let d = md5_step md5_F d a b c (md5_get p 5) 0x4787c62a 12 in
      let c = md5_step md5_F c d a b (md5_get p 6) 0xa8304613 17 in
      let b = md5_step md5_F b c d a (md5_get p 7) 0xfd469501 22 in
      let a = md5_step md5_F a b c d (md5_get p 8) 0x698098d8 7 in
      let d = md5_step md5_F d a b c (md5_get p 9) 0x8b44f7af 12 in
      let c = md5_step md5_F c d a b (md5_get p 10) 0xffff5bb1 17 in
      let b = md5_step md5_F b c d a (md5_get p 11) 0x895cd7be 22 in
      let a = md5_step md5_F a b c d (md5_get p 12) 0x6b901122 7 in
      let d = md5_step md5_F d a b c (md5_get p 13) 0xfd987193 12 in
      let c = md5_step md5_F c d a b (md5_get p 14) 0xa679438e 17 in
      let b = md5_step md5_F b c d a (md5_get p 15) 0x49b40821 22
      in (a, b, c, d))"

definition md5_round2 :: "u8 list \<Rightarrow> md5_vars \<Rightarrow> md5_vars" where
  "md5_round2 p = (\<lambda>(a, b, c, d).
      let a = md5_step md5_G a b c d (md5_get p 1) 0xf61e2562 5 in
      let d = md5_step md5_G d a b c (md5_get p 6) 0xc040b340 9 in
      let c = md5_step md5_G c d a b (md5_get p 11) 0x265e5a51 14 in
      let b = md5_step md5_G b c d a (md5_get p 0) 0xe9b6c7aa 20 in
      let a = md5_step md5_G a b c d (md5_get p 5) 0xd62f105d 5 in
      let d = md5_step md5_G d a b c (md5_get p 10) 0x02441453 9 in
      let c = md5_step md5_G c d a b (md5_get p 15) 0xd8a1e681 14 in
      let b = md5_step md5_G b c d a (md5_get p 4) 0xe7d3fbc8 20 in
      let a = md5_step md5_G a b c d (md5_get p 9) 0x21e1cde6 5 in
      let d = md5_step md5_G d a b c (md5_get p 14) 0xc33707d6 9 in
      let c = md5_step md5_G c d a b (md5_get p 3) 0xf4d50d87 14 in
      let b = md5_step md5_G b c d a (md5_get p 8) 0x455a14ed 20 in
      let a = md5_step md5_G a b c d (md5_get p 13) 0xa9e3e905 5 in
      let d = md5_step md5_G d a b c (md5_get p 2) 0xfcefa3f8 9 in
      let c = md5_step md5_G c d a b (md5_get p 7) 0x676f02d9 14 in
      let b = md5_step md5_G b c d a (md5_get p 12) 0x8d2a4c8a 20
      in (a, b, c, d))"

definition md5_round3 :: "u8 list \<Rightarrow> md5_vars \<Rightarrow> md5_vars" where
  "md5_round3 p = (\<lambda>(a, b, c, d).
      let a = md5_step md5_H a b c d (md5_get p 5) 0xfffa3942 4 in
      let d = md5_step md5_H d a b c (md5_get p 8) 0x8771f681 11 in
      let c = md5_step md5_H c d a b (md5_get p 11) 0x6d9d6122 16 in
      let b = md5_step md5_H b c d a (md5_get p 14) 0xfde5380c 23 in
      let a = md5_step md5_H a b c d (md5_get p 1) 0xa4beea44 4 in
      let d = md5_step md5_H d a b c (md5_get p 4) 0x4bdecfa9 11 in
      let c = md5_step md5_H c d a b (md5_get p 7) 0xf6bb4b60 16 in
      let b = md5_step md5_H b c d a (md5_get p 10) 0xbebfbc70 23 in
      let a = md5_step md5_H a b c d (md5_get p 13) 0x289b7ec6 4 in
      let d = md5_step md5_H d a b c (md5_get p 0) 0xeaa127fa 11 in
      let c = md5_step md5_H c d a b (md5_get p 3) 0xd4ef3085 16 in
      let b = md5_step md5_H b c d a (md5_get p 6) 0x04881d05 23 in
      let a = md5_step md5_H a b c d (md5_get p 9) 0xd9d4d039 4 in
      let d = md5_step md5_H d a b c (md5_get p 12) 0xe6db99e5 11 in
      let c = md5_step md5_H c d a b (md5_get p 15) 0x1fa27cf8 16 in
      let b = md5_step md5_H b c d a (md5_get p 2) 0xc4ac5665 23
      in (a, b, c, d))"

definition md5_round4 :: "u8 list \<Rightarrow> md5_vars \<Rightarrow> md5_vars" where
  "md5_round4 p = (\<lambda>(a, b, c, d).
      let a = md5_step md5_I a b c d (md5_get p 0) 0xf4292244 6 in
      let d = md5_step md5_I d a b c (md5_get p 7) 0x432aff97 10 in
      let c = md5_step md5_I c d a b (md5_get p 14) 0xab9423a7 15 in
      let b = md5_step md5_I b c d a (md5_get p 5) 0xfc93a039 21 in
      let a = md5_step md5_I a b c d (md5_get p 12) 0x655b59c3 6 in
      let d = md5_step md5_I d a b c (md5_get p 3) 0x8f0ccc92 10 in
      let c = md5_step md5_I c d a b (md5_get p 10) 0xffeff47d 15 in
      let b = md5_step md5_I b c d a (md5_get p 1) 0x85845dd1 21 in
      let a = md5_step md5_I a b c d (md5_get p 8) 0x6fa87e4f 6 in
      let d = md5_step md5_I d a b c (md5_get p 15) 0xfe2ce6e0 10 in
      let c = md5_step md5_I c d a b (md5_get p 6) 0xa3014314 15 in
      let b = md5_step md5_I b c d a (md5_get p 13) 0x4e0811a1 21 in
      let a = md5_step md5_I a b c d (md5_get p 4) 0xf7537e82 6 in
      let d = md5_step md5_I d a b c (md5_get p 11) 0xbd3af235 10 in
      let c = md5_step md5_I c d a b (md5_get p 2) 0x2ad7d2bb 15 in
      let b = md5_step md5_I b c d a (md5_get p 9) 0xeb86d391 21
      in (a, b, c, d))"

text \<open>The body of the loop of \<^verbatim>\<open>ngx_md5_body\<close>.\<close>

definition md5_block :: "md5_vars \<Rightarrow> u8 list \<Rightarrow> md5_vars" where
  "md5_block = (\<lambda>(saved_a, saved_b, saved_c, saved_d) p.
     let (a, b, c, d) = md5_round4 p (md5_round3 p (md5_round2 p (md5_round1 p (saved_a, saved_b, saved_c, saved_d))))
     in (a + saved_a, b + saved_b, c + saved_c, d + saved_d))"

function md5_body_loop :: "md5_vars \<Rightarrow> u8 list \<Rightarrow> u64 \<Rightarrow> (md5_vars \<times> u8 list) option" where
  "md5_body_loop v p sz =
     (if length p < 64 then None
      else let v = md5_block v (take 64 p); p = drop 64 p; sz = sz - 64
           in if sz \<noteq> 0 then md5_body_loop v p sz else Some (v, p))"
  by pat_completeness auto
termination by (relation "measure (\<lambda>(_, p, _). length p)") auto

declare md5_body_loop.simps [simp del]

definition ngx_md5_body :: "ngx_md5 \<Rightarrow> u8 list \<Rightarrow> u64 \<Rightarrow> (ngx_md5 \<times> u8 list) option" where
  "ngx_md5_body ctx data sz = do {
     ((a, b, c, d), p) \<leftarrow> md5_body_loop (md5_a ctx, md5_b ctx, md5_c ctx, md5_d ctx) data sz;
     Some (ctx\<lparr>md5_a := a, md5_b := b, md5_c := c, md5_d := d\<rparr>, p)
   }"

section \<open>Update and final\<close>

definition md5_update_rest :: "ngx_md5 \<Rightarrow> u8 list \<Rightarrow> nat \<Rightarrow> ngx_md5 option" where
  "md5_update_rest ctx data sz = do {
     (ctx, data, sz) \<leftarrow>
       (if 64 \<le> sz then do {
          (ctx, data) \<leftarrow> ngx_md5_body ctx data (of_nat sz AND NOT 0x3f);
          Some (ctx, data, unat (of_nat sz AND 0x3f :: u64))
        }
        else Some (ctx, data, sz));
     b \<leftarrow> buf_write (md5_buffer ctx) 0 (take sz data);
     Some (ctx\<lparr>md5_buffer := b\<rparr>)
   }"

definition ngx_md5_update :: "ngx_md5 \<Rightarrow> u8 list \<Rightarrow> ngx_md5 option" where
  "ngx_md5_update ctx data = (
     let sz = length data;
         used = unat (md5_bytes ctx AND 0x3f);
         ctx = ctx\<lparr>md5_bytes := md5_bytes ctx + of_nat sz\<rparr>
     in if used \<noteq> 0 then
          let free = 64 - used
          in if sz < free then do {
               b \<leftarrow> buf_write (md5_buffer ctx) used (take sz data);
               Some (ctx\<lparr>md5_buffer := b\<rparr>)
             }
             else do {
               b \<leftarrow> buf_write (md5_buffer ctx) used (take free data);
               let ctx = ctx\<lparr>md5_buffer := b\<rparr>;
               (ctx, _) \<leftarrow> ngx_md5_body ctx (md5_buffer ctx) 64;
               md5_update_rest ctx (drop free data) (sz - free)
             }
        else md5_update_rest ctx data sz)"

definition md5_length :: "u64 \<Rightarrow> u8 list" where
  "md5_length n = [ucast n, ucast (drop_bit 8 n), ucast (drop_bit 16 n), ucast (drop_bit 24 n),
     ucast (drop_bit 32 n), ucast (drop_bit 40 n), ucast (drop_bit 48 n), ucast (drop_bit 56 n)]"

definition md5_word :: "u32 \<Rightarrow> u8 list" where
  "md5_word w = [ucast w, ucast (drop_bit 8 w), ucast (drop_bit 16 w), ucast (drop_bit 24 w)]"

definition md5_result :: "md5_vars \<Rightarrow> u8 list" where
  "md5_result = (\<lambda>(a, b, c, d). md5_word a @ md5_word b @ md5_word c @ md5_word d)"

text \<open>\<^verbatim>\<open>ngx_md5_final\<close>: the result and the context, which is cleared.\<close>

definition ngx_md5_final :: "ngx_md5 \<Rightarrow> (u8 list \<times> ngx_md5) option" where
  "ngx_md5_final ctx = do {
     let used = unat (md5_bytes ctx AND 0x3f);
     b \<leftarrow> buf_write (md5_buffer ctx) used [0x80];
     let ctx = ctx\<lparr>md5_buffer := b\<rparr>;
     let used = used + 1;
     let free = 64 - used;
     (ctx, used, free) \<leftarrow>
       (if free < 8 then do {
          b \<leftarrow> buf_write (md5_buffer ctx) used (replicate free 0);
          let ctx = ctx\<lparr>md5_buffer := b\<rparr>;
          (ctx, _) \<leftarrow> ngx_md5_body ctx (md5_buffer ctx) 64;
          Some (ctx, 0, 64)
        }
        else Some (ctx, used, free));
     b \<leftarrow> buf_write (md5_buffer ctx) used (replicate (free - 8) 0);
     let ctx = ctx\<lparr>md5_buffer := b, md5_bytes := push_bit 3 (md5_bytes ctx)\<rparr>;
     b \<leftarrow> buf_write (md5_buffer ctx) 56 (md5_length (md5_bytes ctx));
     let ctx = ctx\<lparr>md5_buffer := b\<rparr>;
     (ctx, _) \<leftarrow> ngx_md5_body ctx (md5_buffer ctx) 64;
     Some (md5_result (md5_a ctx, md5_b ctx, md5_c ctx, md5_d ctx),
       \<lparr>md5_bytes = 0, md5_a = 0, md5_b = 0, md5_c = 0, md5_d = 0, md5_buffer = replicate 64 0\<rparr>)
   }"

section \<open>The functions have the shape of a block digest\<close>

fun md5_mk :: "u64 \<Rightarrow> md5_vars \<Rightarrow> u8 list \<Rightarrow> ngx_md5" where
  "md5_mk n (a, b, c, d) buf = \<lparr>md5_bytes = n, md5_a = a, md5_b = b, md5_c = c, md5_d = d, md5_buffer = buf\<rparr>"

definition md5_start :: md5_vars where
  "md5_start = (0x67452301, 0xefcdab89, 0x98badcfe, 0x10325476)"

lemma md5_body_loop_shape: "md5_body_loop v p sz = body_loop md5_block v p sz"
proof (induction v p sz rule: md5_body_loop.induct)
  case (1 v p sz)
  then show ?case by (subst md5_body_loop.simps, subst body_loop.simps) (simp add: Let_def)
qed

lemma md5_mk_simps [simp]:
  "md5_bytes (md5_mk n v b) = n" "md5_buffer (md5_mk n v b) = b"
  "(md5_mk n v b)\<lparr>md5_buffer := b'\<rparr> = md5_mk n v b'" "(md5_mk n v b)\<lparr>md5_bytes := n'\<rparr> = md5_mk n' v b"
  "(md5_a (md5_mk n v b), md5_b (md5_mk n v b), md5_c (md5_mk n v b), md5_d (md5_mk n v b)) = v"
  by (cases v; simp)+

lemma md5_body_shape:
  "ngx_md5_body (md5_mk n v buf) p sz = map_option (\<lambda>(v, p). (md5_mk n v buf, p)) (body_loop md5_block v p sz)"
proof -
  have "(md5_mk n v buf)\<lparr>md5_a := a, md5_b := b, md5_c := c, md5_d := d\<rparr> = md5_mk n (a, b, c, d) buf" for a b c d
    by (cases v) simp
  then show ?thesis
    by (cases "body_loop md5_block v p sz") (auto simp: ngx_md5_body_def md5_body_loop_shape)
qed

lemma md5_update_rest_shape:
  "md5_update_rest (md5_mk n v b) data sz = map_option (\<lambda>(v, b). md5_mk n v b) (absorb_rest md5_block v b data sz)"
  by (simp add: md5_update_rest_def absorb_rest_def md5_body_shape map_conv_bind_option split: Option.bind_split)

lemma md5_update_shape:
  "ngx_md5_update (md5_mk n v b) data = map_option (\<lambda>(n, v, b). md5_mk n v b) (absorb md5_block n v b data)"
  by (simp add: ngx_md5_update_def absorb_def Let_def md5_update_rest_shape md5_body_shape map_conv_bind_option
      split: Option.bind_split)

lemma md5_final_shape:
  "map_option fst (ngx_md5_final (md5_mk n v b)) = map_option md5_result (finish md5_block md5_length n v b)"
  by (simp add: ngx_md5_final_def finish_def Let_def md5_body_shape map_conv_bind_option split: Option.bind_split)

interpretation md5: block_digest md5_mk md5_block md5_start md5_length md5_result ngx_md5_update
    "\<lambda>c. map_option fst (ngx_md5_final c)"
  by unfold_locales (simp_all add: md5_update_shape md5_final_shape md5_length_def)

section \<open>The rounds of RFC 1321\<close>

definition rfc_T :: "u32 list" where
  "rfc_T =
    [0xd76aa478, 0xe8c7b756, 0x242070db, 0xc1bdceee,
     0xf57c0faf, 0x4787c62a, 0xa8304613, 0xfd469501,
     0x698098d8, 0x8b44f7af, 0xffff5bb1, 0x895cd7be,
     0x6b901122, 0xfd987193, 0xa679438e, 0x49b40821,
     0xf61e2562, 0xc040b340, 0x265e5a51, 0xe9b6c7aa,
     0xd62f105d, 0x02441453, 0xd8a1e681, 0xe7d3fbc8,
     0x21e1cde6, 0xc33707d6, 0xf4d50d87, 0x455a14ed,
     0xa9e3e905, 0xfcefa3f8, 0x676f02d9, 0x8d2a4c8a,
     0xfffa3942, 0x8771f681, 0x6d9d6122, 0xfde5380c,
     0xa4beea44, 0x4bdecfa9, 0xf6bb4b60, 0xbebfbc70,
     0x289b7ec6, 0xeaa127fa, 0xd4ef3085, 0x04881d05,
     0xd9d4d039, 0xe6db99e5, 0x1fa27cf8, 0xc4ac5665,
     0xf4292244, 0x432aff97, 0xab9423a7, 0xfc93a039,
     0x655b59c3, 0x8f0ccc92, 0xffeff47d, 0x85845dd1,
     0x6fa87e4f, 0xfe2ce6e0, 0xa3014314, 0x4e0811a1,
     0xf7537e82, 0xbd3af235, 0x2ad7d2bb, 0xeb86d391]"

definition rfc_f :: "nat \<Rightarrow> u32 \<Rightarrow> u32 \<Rightarrow> u32 \<Rightarrow> u32" where
  "rfc_f i x y z =
     (if i < 16 then (x AND y) OR (NOT x AND z)
      else if i < 32 then (x AND z) OR (y AND NOT z)
      else if i < 48 then x XOR y XOR z
      else y XOR (x OR NOT z))"

definition rfc_k :: "nat \<Rightarrow> nat" where
  "rfc_k i = (if i < 16 then i else if i < 32 then (5 * i + 1) mod 16
     else if i < 48 then (3 * i + 5) mod 16 else 7 * i mod 16)"

definition rfc_s :: "nat \<Rightarrow> nat" where
  "rfc_s i = (if i < 16 then [7, 12, 17, 22] else if i < 32 then [5, 9, 14, 20]
     else if i < 48 then [4, 11, 16, 23] else [6, 10, 15, 21]) ! (i mod 4)"

definition rfc_step :: "u8 list \<Rightarrow> nat \<Rightarrow> md5_vars \<Rightarrow> md5_vars" where
  "rfc_step p i = (\<lambda>(a, b, c, d).
     (d, b + word_rotl (rfc_s i) (a + rfc_f i b c d + word_le p (rfc_k i) + rfc_T ! i), b, c))"

definition rfc_block :: "md5_vars \<Rightarrow> u8 list \<Rightarrow> md5_vars" where
  "rfc_block = (\<lambda>(a0, b0, c0, d0) p.
     let (a, b, c, d) = fold (rfc_step p) [0..<64] (a0, b0, c0, d0)
     in (a + a0, b + b0, c + c0, d + d0))"

definition md5_rfc :: "u8 list \<Rightarrow> u8 list" where
  "md5_rfc m =
     (let (a, b, c, d) = foldl rfc_block md5_start (blocks64 (pad (\<lambda>n. octets_le 8 (unat n)) m))
      in concat (map (\<lambda>w. octets_le 4 (unat w)) [a, b, c, d]))"

text \<open>The loads and stores of the code are those of the standard.\<close>

lemma md5_get_le: "md5_get p n = word_le p n"
  by (simp add: md5_get_def word_le_def or_octets sum_four mult.commute)

lemma md5_length_le: "md5_length n = octets_le 8 (unat n)"
  using ucast_octet [of 0 n] ucast_octet [of 1 n] ucast_octet [of 2 n] ucast_octet [of 3 n]
    ucast_octet [of 4 n] ucast_octet [of 5 n] ucast_octet [of 6 n] ucast_octet [of 7 n]
  by (simp add: md5_length_def octets_le_def upt_rec)

lemma md5_word_le: "md5_word w = octets_le 4 (unat w)"
  using ucast_octet [of 0 w] ucast_octet [of 1 w] ucast_octet [of 2 w] ucast_octet [of 3 w]
  by (simp add: md5_word_def octets_le_def upt_rec)

lemma rotl_code:
  assumes "0 < s" and "s < 32"
  shows "push_bit s w OR drop_bit (32 - s) (w AND 0xffffffff) = word_rotl s (w :: u32)"
proof -
  have "w AND 0xffffffff = take_bit 32 w" by (simp add: take_bit_eq_mask mask_eq_exp_minus_1)
  then have "w AND 0xffffffff = w" by (simp add: take_bit_word_eq_self)
  then show ?thesis using rotl_shifts [OF assms] by simp
qed

lemma md5_funs: "md5_F x y z = (x AND y) OR (NOT x AND z)" "md5_G x y z = (x AND z) OR (y AND NOT z)"
  by (auto simp: md5_F_def md5_G_def bit_simps intro!: bit_word_eqI)

lemma rfc_step_code:
  assumes "0 < rfc_s i" and "rfc_s i < 32"
    and "f = (if i < 16 then md5_F else if i < 32 then md5_G else if i < 48 then md5_H else md5_I)"
  shows "rfc_step p i (a, b, c, d) = (d, md5_step f a b c d (md5_get p (rfc_k i)) (rfc_T ! i) (rfc_s i), b, c)"
proof -
  have "f b c d = rfc_f i b c d"
    by (simp add: assms(3) rfc_f_def md5_funs md5_H_def md5_I_def)
  then show ?thesis using rotl_code [OF assms(1,2)]
    by (simp add: rfc_step_def md5_step_def md5_get_le Let_def algebra_simps)
qed

lemma let_eqI: "(\<And>x. t = x \<Longrightarrow> f x = y) \<Longrightarrow> Let t f = y"
  by (simp add: Let_def)

lemma md5_round1_rfc: "md5_round1 p v = fold (rfc_step p) [0..<16] v"
proof -
  obtain a b c d where v: "v = (a, b, c, d)" by (cases v) auto
  have u: "[0..<16] = [0,1,2,3,4,5,6,7,8,9,10,11,12,13,14,15 :: nat]" by (simp add: upt_rec)
  show ?thesis
    unfolding md5_round1_def v prod.case u
    by (intro let_eqI) (simp add: rfc_step_code [OF _ _ refl] rfc_s_def rfc_k_def rfc_T_def)
qed

lemma md5_round2_rfc: "md5_round2 p v = fold (rfc_step p) [16..<32] v"
proof -
  obtain a b c d where v: "v = (a, b, c, d)" by (cases v) auto
  have u: "[16..<32] = [16,17,18,19,20,21,22,23,24,25,26,27,28,29,30,31 :: nat]" by (simp add: upt_rec)
  show ?thesis
    unfolding md5_round2_def v prod.case u
    by (intro let_eqI) (simp add: rfc_step_code [OF _ _ refl] rfc_s_def rfc_k_def rfc_T_def)
qed

lemma md5_round3_rfc: "md5_round3 p v = fold (rfc_step p) [32..<48] v"
proof -
  obtain a b c d where v: "v = (a, b, c, d)" by (cases v) auto
  have u: "[32..<48] = [32,33,34,35,36,37,38,39,40,41,42,43,44,45,46,47 :: nat]" by (simp add: upt_rec)
  show ?thesis
    unfolding md5_round3_def v prod.case u
    by (intro let_eqI) (simp add: rfc_step_code [OF _ _ refl] rfc_s_def rfc_k_def rfc_T_def)
qed

lemma md5_round4_rfc: "md5_round4 p v = fold (rfc_step p) [48..<64] v"
proof -
  obtain a b c d where v: "v = (a, b, c, d)" by (cases v) auto
  have u: "[48..<64] = [48,49,50,51,52,53,54,55,56,57,58,59,60,61,62,63 :: nat]" by (simp add: upt_rec)
  show ?thesis
    unfolding md5_round4_def v prod.case u
    by (intro let_eqI) (simp add: rfc_step_code [OF _ _ refl] rfc_s_def rfc_k_def rfc_T_def)
qed

lemma md5_block_rfc: "md5_block v p = rfc_block v p"
proof -
  have "[0..<64] = [0..<16] @ [16..<32] @ [32..<48] @ [48..<64 :: nat]"
    by (simp add: upt_rec)
  then show ?thesis
    by (simp add: md5_block_def rfc_block_def md5_round1_rfc md5_round2_rfc md5_round3_rfc md5_round4_rfc split: prod.split)
qed

section \<open>The properties\<close>

text \<open>
  (C33) The digest of a message in pieces. Whatever pieces a message is fed in, every read and write stays
  inside the buffers, and the result is the MD5 digest of the whole message as RFC 1321 defines it:
  the message is padded and followed by its length, its octets are read as little-endian words,
  the blocks are compressed by the 64 steps of the standard, and the four chaining variables are
  printed least significant octet first. The reference shares no helper with the code.
\<close>

theorem md5_of_pieces:
  assumes "length (md5_buffer ctx) = 64" and "\<forall>d \<in> set ds. length d < 2 ^ 64"
  shows "\<exists>c. feed ngx_md5_update (ngx_md5_init ctx) ds = Some c \<and>
    map_option fst (ngx_md5_final c) = Some (md5_rfc (concat ds))"
proof -
  have "md5_block = rfc_block" "md5_length = (\<lambda>n. octets_le 8 (unat n))"
    by (intro ext md5_block_rfc md5_length_le)+
  moreover have "md5_result v = (let (a, b, c, d) = v in concat (map (\<lambda>w. octets_le 4 (unat w)) [a, b, c, d]))" for v
    by (cases v) (simp add: md5_result_def md5_word_le)
  moreover have "ngx_md5_init ctx = md5_mk 0 md5_start (md5_buffer ctx)"
    by (simp add: ngx_md5_init_def md5_start_def)
  ultimately show ?thesis
    using md5.holds_feed [OF md5.holds_start [OF assms(1)] assms(2)] md5.holds_final by (auto simp: md5_rfc_def)
qed

theorem md5_of_pieces_witness:
  "\<exists>c. feed ngx_md5_update
      (ngx_md5_init \<lparr>md5_bytes = 7, md5_a = 0, md5_b = 0, md5_c = 0, md5_d = 0, md5_buffer = replicate 64 0\<rparr>)
      [bytes ''a'', [], bytes ''bc''] = Some c \<and>
    map_option fst (ngx_md5_final c) = Some (md5_rfc (bytes ''abc''))"
  using md5_of_pieces [of "\<lparr>md5_bytes = 7, md5_a = 0, md5_b = 0, md5_c = 0, md5_d = 0, md5_buffer = replicate 64 0\<rparr>"
      "[bytes ''a'', [], bytes ''bc'']"] by simp

end
