(* ===== verification/Ngx_Sha1.thy ===== *)
theory Ngx_Sha1
  imports Block_Digest
begin

text \<open>
  The SHA-1 digest of \<^verbatim>\<open>core/ngx_sha1.c\<close>, compared with FIPS 180: the schedule of words, the functions
  and constants of the eighty steps, and the padding of the whole message.
\<close>

section \<open>The context\<close>

record ngx_sha1 =
  sha1_bytes :: u64
  sha1_a :: u32
  sha1_b :: u32
  sha1_c :: u32
  sha1_d :: u32
  sha1_e :: u32
  sha1_f :: u32
  sha1_buffer :: "u8 list"

type_synonym sha1_vars = "u32 \<times> u32 \<times> u32 \<times> u32 \<times> u32"

definition ngx_sha1_init :: "ngx_sha1 \<Rightarrow> ngx_sha1" where
  "ngx_sha1_init ctx = ctx\<lparr>sha1_a := 0x67452301, sha1_b := 0xefcdab89, sha1_c := 0x98badcfe,
     sha1_d := 0x10325476, sha1_e := 0xc3d2e1f0, sha1_bytes := 0\<rparr>"

section \<open>One block\<close>

definition sha1_rotate :: "nat \<Rightarrow> u32 \<Rightarrow> u32" where
  "sha1_rotate n w = push_bit n w OR drop_bit (32 - n) w"

definition sha1_F1 :: "u32 \<Rightarrow> u32 \<Rightarrow> u32 \<Rightarrow> u32" where "sha1_F1 b c d = (b AND c) OR (NOT b AND d)"
definition sha1_F2 :: "u32 \<Rightarrow> u32 \<Rightarrow> u32 \<Rightarrow> u32" where "sha1_F2 b c d = b XOR c XOR d"
definition sha1_F3 :: "u32 \<Rightarrow> u32 \<Rightarrow> u32 \<Rightarrow> u32" where "sha1_F3 b c d = (b AND c) OR (b AND d) OR (c AND d)"

text \<open>The macro \<^verbatim>\<open>STEP\<close>.\<close>

definition sha1_step :: "(u32 \<Rightarrow> u32 \<Rightarrow> u32 \<Rightarrow> u32) \<Rightarrow> u32 \<Rightarrow> u32 \<Rightarrow> sha1_vars \<Rightarrow> sha1_vars" where
  "sha1_step f w t = (\<lambda>(a, b, c, d, e).
     let temp = sha1_rotate 5 a + f b c d + e + w + t
     in (temp, a, sha1_rotate 30 b, c, d))"

text \<open>The macro \<^verbatim>\<open>GET\<close>: a big-endian word.\<close>

definition sha1_get :: "u8 list \<Rightarrow> nat \<Rightarrow> u32" where
  "sha1_get p n = ucast (p ! (n * 4 + 3)) OR push_bit 8 (ucast (p ! (n * 4 + 2))) OR
     push_bit 16 (ucast (p ! (n * 4 + 1))) OR push_bit 24 (ucast (p ! (n * 4)))"

text \<open>The two loops that fill \<^verbatim>\<open>words[80]\<close>; the list is the part of the array that is filled.\<close>

function sha1_expand :: "nat \<Rightarrow> u32 list \<Rightarrow> u32 list" where
  "sha1_expand i words =
     (if i < 80 then sha1_expand (i + 1) (words @
        [sha1_rotate 1 (words ! (i - 3) XOR words ! (i - 8) XOR words ! (i - 14) XOR words ! (i - 16))])
      else words)"
  by pat_completeness auto
termination by (relation "measure (\<lambda>(i, _). 80 - i)") auto

declare sha1_expand.simps [simp del]

definition sha1_words :: "u8 list \<Rightarrow> u32 list" where
  "sha1_words p = sha1_expand 16 (map (sha1_get p) [0..<16])"

text \<open>The body of the loop of \<^verbatim>\<open>ngx_sha1_body\<close>; each \<open>fold\<close> is a sequence of twenty uses of \<^verbatim>\<open>STEP\<close>.\<close>

definition sha1_block :: "sha1_vars \<Rightarrow> u8 list \<Rightarrow> sha1_vars" where
  "sha1_block = (\<lambda>(saved_a, saved_b, saved_c, saved_d, saved_e) p.
     let words = sha1_words p;
         v = (saved_a, saved_b, saved_c, saved_d, saved_e);
         v = fold (\<lambda>i. sha1_step sha1_F1 (words ! i) 0x5a827999) [0..<20] v;
         v = fold (\<lambda>i. sha1_step sha1_F2 (words ! i) 0x6ed9eba1) [20..<40] v;
         v = fold (\<lambda>i. sha1_step sha1_F3 (words ! i) 0x8f1bbcdc) [40..<60] v;
         (a, b, c, d, e) = fold (\<lambda>i. sha1_step sha1_F2 (words ! i) 0xca62c1d6) [60..<80] v
     in (a + saved_a, b + saved_b, c + saved_c, d + saved_d, e + saved_e))"

function sha1_body_loop :: "sha1_vars \<Rightarrow> u8 list \<Rightarrow> u64 \<Rightarrow> (sha1_vars \<times> u8 list) option" where
  "sha1_body_loop v p sz =
     (if length p < 64 then None
      else let v = sha1_block v (take 64 p); p = drop 64 p; sz = sz - 64
           in if sz \<noteq> 0 then sha1_body_loop v p sz else Some (v, p))"
  by pat_completeness auto
termination by (relation "measure (\<lambda>(_, p, _). length p)") auto

declare sha1_body_loop.simps [simp del]

definition ngx_sha1_body :: "ngx_sha1 \<Rightarrow> u8 list \<Rightarrow> u64 \<Rightarrow> (ngx_sha1 \<times> u8 list) option" where
  "ngx_sha1_body ctx data sz = do {
     ((a, b, c, d, e), p) \<leftarrow> sha1_body_loop (sha1_a ctx, sha1_b ctx, sha1_c ctx, sha1_d ctx, sha1_e ctx) data sz;
     Some (ctx\<lparr>sha1_a := a, sha1_b := b, sha1_c := c, sha1_d := d, sha1_e := e\<rparr>, p)
   }"

section \<open>Update and final\<close>

definition sha1_update_rest :: "ngx_sha1 \<Rightarrow> u8 list \<Rightarrow> nat \<Rightarrow> ngx_sha1 option" where
  "sha1_update_rest ctx data sz = do {
     (ctx, data, sz) \<leftarrow>
       (if 64 \<le> sz then do {
          (ctx, data) \<leftarrow> ngx_sha1_body ctx data (of_nat sz AND NOT 0x3f);
          Some (ctx, data, unat (of_nat sz AND 0x3f :: u64))
        }
        else Some (ctx, data, sz));
     b \<leftarrow> buf_write (sha1_buffer ctx) 0 (take sz data);
     Some (ctx\<lparr>sha1_buffer := b\<rparr>)
   }"

definition ngx_sha1_update :: "ngx_sha1 \<Rightarrow> u8 list \<Rightarrow> ngx_sha1 option" where
  "ngx_sha1_update ctx data = (
     let sz = length data;
         used = unat (sha1_bytes ctx AND 0x3f);
         ctx = ctx\<lparr>sha1_bytes := sha1_bytes ctx + of_nat sz\<rparr>
     in if used \<noteq> 0 then
          let free = 64 - used
          in if sz < free then do {
               b \<leftarrow> buf_write (sha1_buffer ctx) used (take sz data);
               Some (ctx\<lparr>sha1_buffer := b\<rparr>)
             }
             else do {
               b \<leftarrow> buf_write (sha1_buffer ctx) used (take free data);
               let ctx = ctx\<lparr>sha1_buffer := b\<rparr>;
               (ctx, _) \<leftarrow> ngx_sha1_body ctx (sha1_buffer ctx) 64;
               sha1_update_rest ctx (drop free data) (sz - free)
             }
        else sha1_update_rest ctx data sz)"

definition sha1_length :: "u64 \<Rightarrow> u8 list" where
  "sha1_length n = [ucast (drop_bit 56 n), ucast (drop_bit 48 n), ucast (drop_bit 40 n), ucast (drop_bit 32 n),
     ucast (drop_bit 24 n), ucast (drop_bit 16 n), ucast (drop_bit 8 n), ucast n]"

definition sha1_word :: "u32 \<Rightarrow> u8 list" where
  "sha1_word w = [ucast (drop_bit 24 w), ucast (drop_bit 16 w), ucast (drop_bit 8 w), ucast w]"

definition sha1_result :: "sha1_vars \<Rightarrow> u8 list" where
  "sha1_result = (\<lambda>(a, b, c, d, e). sha1_word a @ sha1_word b @ sha1_word c @ sha1_word d @ sha1_word e)"

text \<open>\<^verbatim>\<open>ngx_sha1_final\<close>: the result and the context, which is cleared.\<close>

definition ngx_sha1_final :: "ngx_sha1 \<Rightarrow> (u8 list \<times> ngx_sha1) option" where
  "ngx_sha1_final ctx = do {
     let used = unat (sha1_bytes ctx AND 0x3f);
     b \<leftarrow> buf_write (sha1_buffer ctx) used [0x80];
     let ctx = ctx\<lparr>sha1_buffer := b\<rparr>;
     let used = used + 1;
     let free = 64 - used;
     (ctx, used, free) \<leftarrow>
       (if free < 8 then do {
          b \<leftarrow> buf_write (sha1_buffer ctx) used (replicate free 0);
          let ctx = ctx\<lparr>sha1_buffer := b\<rparr>;
          (ctx, _) \<leftarrow> ngx_sha1_body ctx (sha1_buffer ctx) 64;
          Some (ctx, 0, 64)
        }
        else Some (ctx, used, free));
     b \<leftarrow> buf_write (sha1_buffer ctx) used (replicate (free - 8) 0);
     let ctx = ctx\<lparr>sha1_buffer := b, sha1_bytes := push_bit 3 (sha1_bytes ctx)\<rparr>;
     b \<leftarrow> buf_write (sha1_buffer ctx) 56 (sha1_length (sha1_bytes ctx));
     let ctx = ctx\<lparr>sha1_buffer := b\<rparr>;
     (ctx, _) \<leftarrow> ngx_sha1_body ctx (sha1_buffer ctx) 64;
     Some (sha1_result (sha1_a ctx, sha1_b ctx, sha1_c ctx, sha1_d ctx, sha1_e ctx),
       \<lparr>sha1_bytes = 0, sha1_a = 0, sha1_b = 0, sha1_c = 0, sha1_d = 0, sha1_e = 0, sha1_f = 0,
         sha1_buffer = replicate 64 0\<rparr>)
   }"

section \<open>The functions have the shape of a block digest\<close>

text \<open>The field \<^verbatim>\<open>f\<close> of the context is never used.\<close>

fun sha1_mk :: "u32 \<Rightarrow> u64 \<Rightarrow> sha1_vars \<Rightarrow> u8 list \<Rightarrow> ngx_sha1" where
  "sha1_mk f n (a, b, c, d, e) buf = \<lparr>sha1_bytes = n, sha1_a = a, sha1_b = b, sha1_c = c, sha1_d = d,
     sha1_e = e, sha1_f = f, sha1_buffer = buf\<rparr>"

definition sha1_start :: sha1_vars where
  "sha1_start = (0x67452301, 0xefcdab89, 0x98badcfe, 0x10325476, 0xc3d2e1f0)"

lemma sha1_body_loop_shape: "sha1_body_loop v p sz = body_loop sha1_block v p sz"
proof (induction v p sz rule: sha1_body_loop.induct)
  case (1 v p sz)
  then show ?case by (subst sha1_body_loop.simps, subst body_loop.simps) (simp add: Let_def)
qed

lemma sha1_mk_simps [simp]:
  "sha1_bytes (sha1_mk f n v b) = n" "sha1_buffer (sha1_mk f n v b) = b"
  "(sha1_mk f n v b)\<lparr>sha1_buffer := b'\<rparr> = sha1_mk f n v b'" "(sha1_mk f n v b)\<lparr>sha1_bytes := n'\<rparr> = sha1_mk f n' v b"
  "(sha1_a (sha1_mk f n v b), sha1_b (sha1_mk f n v b), sha1_c (sha1_mk f n v b), sha1_d (sha1_mk f n v b),
    sha1_e (sha1_mk f n v b)) = v"
  by (cases v; simp)+

lemma sha1_body_shape:
  "ngx_sha1_body (sha1_mk f n v buf) p sz = map_option (\<lambda>(v, p). (sha1_mk f n v buf, p)) (body_loop sha1_block v p sz)"
proof -
  have "(sha1_mk f n v buf)\<lparr>sha1_a := a, sha1_b := b, sha1_c := c, sha1_d := d, sha1_e := e\<rparr> =
      sha1_mk f n (a, b, c, d, e) buf" for a b c d e
    by (cases v) simp
  then show ?thesis
    by (cases "body_loop sha1_block v p sz") (auto simp: ngx_sha1_body_def sha1_body_loop_shape)
qed

lemma sha1_update_rest_shape:
  "sha1_update_rest (sha1_mk f n v b) data sz = map_option (\<lambda>(v, b). sha1_mk f n v b) (absorb_rest sha1_block v b data sz)"
  by (simp add: sha1_update_rest_def absorb_rest_def sha1_body_shape map_conv_bind_option split: Option.bind_split)

lemma sha1_update_shape:
  "ngx_sha1_update (sha1_mk f n v b) data = map_option (\<lambda>(n, v, b). sha1_mk f n v b) (absorb sha1_block n v b data)"
  by (simp add: ngx_sha1_update_def absorb_def Let_def sha1_update_rest_shape sha1_body_shape map_conv_bind_option
      split: Option.bind_split)

lemma sha1_final_shape:
  "map_option fst (ngx_sha1_final (sha1_mk f n v b)) = map_option sha1_result (finish sha1_block sha1_length n v b)"
  by (simp add: ngx_sha1_final_def finish_def Let_def sha1_body_shape map_conv_bind_option split: Option.bind_split)

interpretation sha1: block_digest "sha1_mk f" sha1_block sha1_start sha1_length sha1_result ngx_sha1_update
    "\<lambda>c. map_option fst (ngx_sha1_final c)" for f
  by unfold_locales (simp_all add: sha1_update_shape sha1_final_shape sha1_length_def)

section \<open>FIPS 180\<close>

function fips_W :: "u8 list \<Rightarrow> nat \<Rightarrow> u32" where
  "fips_W p t =
     (if t < 16 then word_be p t
      else word_rotl 1 (fips_W p (t - 3) XOR fips_W p (t - 8) XOR fips_W p (t - 14) XOR fips_W p (t - 16)))"
  by pat_completeness auto
termination by (relation "measure snd") auto

declare fips_W.simps [simp del]

definition fips_f :: "nat \<Rightarrow> u32 \<Rightarrow> u32 \<Rightarrow> u32 \<Rightarrow> u32" where
  "fips_f t x y z =
     (if t < 20 then (x AND y) XOR (NOT x AND z)
      else if t < 40 then x XOR y XOR z
      else if t < 60 then (x AND y) XOR (x AND z) XOR (y AND z)
      else x XOR y XOR z)"

definition fips_K :: "nat \<Rightarrow> u32" where
  "fips_K t = (if t < 20 then 0x5a827999 else if t < 40 then 0x6ed9eba1
     else if t < 60 then 0x8f1bbcdc else 0xca62c1d6)"

definition fips_step :: "u8 list \<Rightarrow> nat \<Rightarrow> sha1_vars \<Rightarrow> sha1_vars" where
  "fips_step p t = (\<lambda>(a, b, c, d, e).
     (word_rotl 5 a + fips_f t b c d + e + fips_K t + fips_W p t, a, word_rotl 30 b, c, d))"

definition fips_block :: "sha1_vars \<Rightarrow> u8 list \<Rightarrow> sha1_vars" where
  "fips_block = (\<lambda>(h0, h1, h2, h3, h4) p.
     let (a, b, c, d, e) = fold (fips_step p) [0..<80] (h0, h1, h2, h3, h4)
     in (a + h0, b + h1, c + h2, d + h3, e + h4))"

definition sha1_fips :: "u8 list \<Rightarrow> u8 list" where
  "sha1_fips m =
     (let (a, b, c, d, e) = foldl fips_block sha1_start (blocks64 (pad (\<lambda>n. octets_be 8 (unat n)) m))
      in concat (map (\<lambda>w. octets_be 4 (unat w)) [a, b, c, d, e]))"

text \<open>The loads and stores of the code are those of the standard.\<close>

lemma sha1_get_be: "sha1_get p n = word_be p n"
  by (simp add: sha1_get_def word_be_def or_octets sum_four mult.commute add_ac)

lemma sha1_length_be: "sha1_length n = octets_be 8 (unat n)"
  using ucast_octet [of 0 n] ucast_octet [of 1 n] ucast_octet [of 2 n] ucast_octet [of 3 n]
    ucast_octet [of 4 n] ucast_octet [of 5 n] ucast_octet [of 6 n] ucast_octet [of 7 n]
  by (simp add: sha1_length_def octets_be_def octets_le_def upt_rec)

lemma sha1_word_be: "sha1_word w = octets_be 4 (unat w)"
  using ucast_octet [of 0 w] ucast_octet [of 1 w] ucast_octet [of 2 w] ucast_octet [of 3 w]
  by (simp add: sha1_word_def octets_be_def octets_le_def upt_rec)

lemma sha1_rotate_rotl: "0 < n \<Longrightarrow> n < 32 \<Longrightarrow> sha1_rotate n w = word_rotl n w"
  by (simp add: sha1_rotate_def rotl_shifts)

lemma sha1_expand_fips:
  assumes "16 \<le> i" and "i \<le> 80"
  shows "sha1_expand i (map (fips_W p) [0..<i]) = map (fips_W p) [0..<80]"
  using assms
proof (induction "80 - i" arbitrary: i)
  case 0
  then show ?case by (subst sha1_expand.simps) simp
next
  case (Suc k)
  then have "i < 80" by simp
  moreover have "fips_W p i = sha1_rotate 1 (fips_W p (i - 3) XOR fips_W p (i - 8) XOR fips_W p (i - 14) XOR fips_W p (i - 16))"
    using Suc.prems by (subst fips_W.simps) (simp add: sha1_rotate_rotl)
  then have "map (fips_W p) [0..<i] @ [sha1_rotate 1 (fips_W p (i - 3) XOR fips_W p (i - 8) XOR fips_W p (i - 14) XOR
      fips_W p (i - 16))] = map (fips_W p) [0..<i + 1]" by simp
  moreover have "sha1_expand (i + 1) (map (fips_W p) [0..<i + 1]) = map (fips_W p) [0..<80]"
    by (rule Suc.hyps(1)) (use Suc in linarith)+
  ultimately show ?case using Suc.prems by (subst sha1_expand.simps) simp
qed

lemma sha1_words_fips: "i < 80 \<Longrightarrow> sha1_words p ! i = fips_W p i"
proof -
  have "map (sha1_get p) [0..<16] = map (fips_W p) [0..<16]" by (simp add: fips_W.simps sha1_get_be)
  then have "sha1_words p = map (fips_W p) [0..<80]" using sha1_expand_fips [of 16 p] by (simp only: sha1_words_def)
  then show "i < 80 \<Longrightarrow> sha1_words p ! i = fips_W p i" by simp
qed

lemma sha1_funs: "sha1_F1 x y z = (x AND y) XOR (NOT x AND z)"
    "sha1_F3 x y z = (x AND y) XOR (x AND z) XOR (y AND z)"
  by (auto simp: sha1_F1_def sha1_F3_def bit_simps intro!: bit_word_eqI)

lemma sha1_step_fips:
  assumes "i < 80" and "\<And>x y z. f x y z = fips_f i x y z" and "t = fips_K i"
  shows "sha1_step f (sha1_words p ! i) t v = fips_step p i v"
  using assms by (cases v) (simp add: sha1_step_def fips_step_def sha1_words_fips sha1_rotate_rotl algebra_simps)

lemma fold_sha1_fips:
  assumes "j \<le> 80" and "\<And>k x y z. i \<le> k \<Longrightarrow> k < j \<Longrightarrow> f x y z = fips_f k x y z"
    and "\<And>k. i \<le> k \<Longrightarrow> k < j \<Longrightarrow> t = fips_K k"
  shows "fold (\<lambda>i. sha1_step f (sha1_words p ! i) t) [i..<j] v = fold (fips_step p) [i..<j] v"
  using assms by (intro fold_cong) (auto intro!: sha1_step_fips)

lemma sha1_block_fips: "sha1_block v p = fips_block v p"
proof -
  have "[0..<80] = [0..<20] @ [20..<40] @ [40..<60] @ [60..<80 :: nat]" by (simp add: upt_rec)
  moreover have
    "fold (\<lambda>i. sha1_step sha1_F1 (sha1_words p ! i) 0x5a827999) [0..<20] v = fold (fips_step p) [0..<20] v"
    "fold (\<lambda>i. sha1_step sha1_F2 (sha1_words p ! i) 0x6ed9eba1) [20..<40] v = fold (fips_step p) [20..<40] v"
    "fold (\<lambda>i. sha1_step sha1_F3 (sha1_words p ! i) 0x8f1bbcdc) [40..<60] v = fold (fips_step p) [40..<60] v"
    "fold (\<lambda>i. sha1_step sha1_F2 (sha1_words p ! i) 0xca62c1d6) [60..<80] v = fold (fips_step p) [60..<80] v" for v
    by (rule fold_sha1_fips; simp add: fips_f_def fips_K_def sha1_funs sha1_F2_def)+
  ultimately show ?thesis
    by (simp only: sha1_block_def fips_block_def Let_def fold_append comp_apply split: prod.split) simp
qed

section \<open>The properties\<close>

text \<open>
  (C34) The digest of a message in pieces. Whatever pieces a message is fed in, every read and write stays
  inside the buffers, and the result is the SHA-1 digest of the whole message as FIPS 180 defines it:
  the padded message followed by its length, read as big-endian words, its schedule and eighty
  steps per block, and the five chaining variables printed most significant octet first. The
  reference shares no helper with the code.
\<close>

theorem sha1_of_pieces:
  assumes "length (sha1_buffer ctx) = 64" and "\<forall>d \<in> set ds. length d < 2 ^ 64"
  shows "\<exists>c. feed ngx_sha1_update (ngx_sha1_init ctx) ds = Some c \<and>
    map_option fst (ngx_sha1_final c) = Some (sha1_fips (concat ds))"
proof -
  have "sha1_block = fips_block" "sha1_length = (\<lambda>n. octets_be 8 (unat n))"
    by (intro ext sha1_block_fips sha1_length_be)+
  moreover have "sha1_result v =
      (let (a, b, c, d, e) = v in concat (map (\<lambda>w. octets_be 4 (unat w)) [a, b, c, d, e]))" for v
    by (cases v) (simp add: sha1_result_def sha1_word_be)
  moreover have "ngx_sha1_init ctx = sha1_mk (sha1_f ctx) 0 sha1_start (sha1_buffer ctx)"
    by (simp add: ngx_sha1_init_def sha1_start_def)
  ultimately show ?thesis
    using sha1.holds_feed [OF sha1.holds_start [OF assms(1)] assms(2), of "sha1_f ctx"]
      sha1.holds_final [of "sha1_f ctx"] by (auto simp: sha1_fips_def)
qed

theorem sha1_of_pieces_witness:
  "\<exists>c. feed ngx_sha1_update (ngx_sha1_init \<lparr>sha1_bytes = 7, sha1_a = 0, sha1_b = 0, sha1_c = 0, sha1_d = 0,
      sha1_e = 0, sha1_f = 0, sha1_buffer = replicate 64 0\<rparr>) [bytes ''a'', [], bytes ''bc''] = Some c \<and>
    map_option fst (ngx_sha1_final c) = Some (sha1_fips (bytes ''abc''))"
  using sha1_of_pieces [of "\<lparr>sha1_bytes = 7, sha1_a = 0, sha1_b = 0, sha1_c = 0, sha1_d = 0,
      sha1_e = 0, sha1_f = 0, sha1_buffer = replicate 64 0\<rparr>" "[bytes ''a'', [], bytes ''bc'']"] by simp

end
