(* ===== verification/Ngx_Http_Request.thy ===== *)
theory Ngx_Http_Request
  imports Byte_Parser
begin

text \<open>
  What the parsers of \<^verbatim>\<open>http/ngx_http_parse.c\<close> share: the fields of \<^verbatim>\<open>ngx_http_request_t\<close> they
  set, the return codes, the table \<^verbatim>\<open>usual\<close> and the macros that compare a method name with
  one or two 32-bit loads.

  A pointer into the buffer is an index, \<open>None\<close> is \<^verbatim>\<open>NULL\<close>; of \<^verbatim>\<open>r->upstream\<close> only whether it is set. The field \<^verbatim>\<open>r->state\<close>, an integer
  each parser reads as its own enumeration, is passed to the parsers beside the record.
\<close>

record ngx_http_request =
  r_method :: nat
  http_version :: nat
  http_protocol_data :: "nat option"
  complex_uri :: bool
  quoted_uri :: bool
  plus_in_uri :: bool
  space_in_uri :: bool
  invalid_header :: bool
  upstream :: bool
  header_hash :: u64
  lowcase_index :: nat
  lowcase_header :: "u8 list"
  header_name_start :: "nat option"
  header_name_end :: "nat option"
  header_start :: "nat option"
  header_end :: "nat option"
  uri_start :: "nat option"
  uri_end :: "nat option"
  uri_ext :: "nat option"
  args_start :: "nat option"
  request_start :: "nat option"
  request_end :: "nat option"
  method_end :: "nat option"
  schema_start :: "nat option"
  schema_end :: "nat option"
  host_start :: "nat option"
  host_end :: "nat option"
  port_start :: "nat option"
  port_end :: "nat option"
  http_minor :: "16 word"
  http_major :: "16 word"

datatype rc = NGX_OK | NGX_ERROR | NGX_AGAIN | NGX_DONE | NGX_DECLINED
  | NGX_HTTP_PARSE_HEADER_DONE | NGX_HTTP_PARSE_INVALID_METHOD | NGX_HTTP_PARSE_INVALID_REQUEST
  | NGX_HTTP_PARSE_INVALID_09_METHOD | NGX_HTTP_PARSE_INVALID_HEADER

text \<open>How a parser leaves its loop: by a \<^verbatim>\<open>goto\<close> or by a \<^verbatim>\<open>return\<close>.\<close>

datatype exit = Goto_done | Return rc

abbreviation (input) NGX_HTTP_UNKNOWN :: nat where "NGX_HTTP_UNKNOWN \<equiv> 0x0001"
abbreviation (input) NGX_HTTP_GET :: nat where "NGX_HTTP_GET \<equiv> 0x0002"
abbreviation (input) NGX_HTTP_HEAD :: nat where "NGX_HTTP_HEAD \<equiv> 0x0004"
abbreviation (input) NGX_HTTP_POST :: nat where "NGX_HTTP_POST \<equiv> 0x0008"
abbreviation (input) NGX_HTTP_PUT :: nat where "NGX_HTTP_PUT \<equiv> 0x0010"
abbreviation (input) NGX_HTTP_DELETE :: nat where "NGX_HTTP_DELETE \<equiv> 0x0020"
abbreviation (input) NGX_HTTP_MKCOL :: nat where "NGX_HTTP_MKCOL \<equiv> 0x0040"
abbreviation (input) NGX_HTTP_COPY :: nat where "NGX_HTTP_COPY \<equiv> 0x0080"
abbreviation (input) NGX_HTTP_MOVE :: nat where "NGX_HTTP_MOVE \<equiv> 0x0100"
abbreviation (input) NGX_HTTP_OPTIONS :: nat where "NGX_HTTP_OPTIONS \<equiv> 0x0200"
abbreviation (input) NGX_HTTP_PROPFIND :: nat where "NGX_HTTP_PROPFIND \<equiv> 0x0400"
abbreviation (input) NGX_HTTP_PROPPATCH :: nat where "NGX_HTTP_PROPPATCH \<equiv> 0x0800"
abbreviation (input) NGX_HTTP_LOCK :: nat where "NGX_HTTP_LOCK \<equiv> 0x1000"
abbreviation (input) NGX_HTTP_UNLOCK :: nat where "NGX_HTTP_UNLOCK \<equiv> 0x2000"
abbreviation (input) NGX_HTTP_PATCH :: nat where "NGX_HTTP_PATCH \<equiv> 0x4000"
abbreviation (input) NGX_HTTP_TRACE :: nat where "NGX_HTTP_TRACE \<equiv> 0x8000"

text \<open>A request as \<^verbatim>\<open>ngx_http_create_request\<close> leaves it: zeroed, with an unknown method.\<close>

definition request_init :: ngx_http_request where
  "request_init = \<lparr>r_method = NGX_HTTP_UNKNOWN, http_version = 1000, http_protocol_data = None,
     complex_uri = False, quoted_uri = False, plus_in_uri = False, space_in_uri = False,
     invalid_header = False, upstream = False, header_hash = 0, lowcase_index = 0, lowcase_header = replicate 32 0,
     header_name_start = None, header_name_end = None, header_start = None, header_end = None,
     uri_start = None, uri_end = None, uri_ext = None, args_start = None, request_start = None,
     request_end = None, method_end = None, schema_start = None, schema_end = None,
     host_start = None, host_end = None, port_start = None, port_end = None,
     http_minor = 0, http_major = 0\<rparr>"

section \<open>Character tests\<close>

definition usual :: "u32 list" where
  "usual = [0xffffdbfe, 0x7fff37d6, 0xffffffff, 0xffffffff,
            0xffffffff, 0xffffffff, 0xffffffff, 0xffffffff]"

text \<open>The test \<^verbatim>\<open>usual[ch >> 5] & (1U << (ch & 0x1f))\<close>.\<close>

definition is_usual :: "u8 \<Rightarrow> bool" where
  "is_usual ch \<longleftrightarrow> (usual ! unat (drop_bit 5 ch)) AND push_bit (unat (ch AND 0x1f)) 1 \<noteq> 0"

text \<open>The test \<^verbatim>\<open>c = (u_char) (ch | 0x20); c >= 'a' && c <= 'z'\<close>.\<close>

definition is_alpha :: "u8 \<Rightarrow> bool" where
  "is_alpha ch \<longleftrightarrow> C CHR ''a'' \<le> ch OR 0x20 \<and> ch OR 0x20 \<le> C CHR ''z''"

text \<open>The bytes that may occur in a method name: the negation of the test before \<^verbatim>\<open>NGX_HTTP_PARSE_INVALID_METHOD\<close>.\<close>

definition is_method_char :: "u8 \<Rightarrow> bool" where
  "is_method_char ch \<longleftrightarrow> \<not> ((ch < C CHR ''A'' \<or> C CHR ''Z'' < ch) \<and> ch \<noteq> C CHR ''_'' \<and> ch \<noteq> C CHR ''-'')"

section \<open>Comparing method names by words\<close>

text \<open>A 32-bit little-endian load at \<^verbatim>\<open>m\<close>.\<close>

definition load32 :: "u8 list \<Rightarrow> nat \<Rightarrow> u32" where
  "load32 buf m = push_bit 24 (ucast (byte_at buf (m + 3))) OR push_bit 16 (ucast (byte_at buf (m + 2))) OR
     push_bit 8 (ucast (byte_at buf (m + 1))) OR ucast (byte_at buf m)"

definition pack32 :: "char \<Rightarrow> char \<Rightarrow> char \<Rightarrow> char \<Rightarrow> u32" where
  "pack32 c0 c1 c2 c3 = push_bit 24 (of_char c3) OR push_bit 16 (of_char c2) OR push_bit 8 (of_char c1) OR of_char c0"

text \<open>\<^verbatim>\<open>ngx_str3_cmp\<close>, \<^verbatim>\<open>ngx_str3Ocmp\<close> and \<^verbatim>\<open>ngx_str4cmp\<close> are the same comparison.\<close>

definition ngx_str4cmp :: "u8 list \<Rightarrow> nat \<Rightarrow> char \<Rightarrow> char \<Rightarrow> char \<Rightarrow> char \<Rightarrow> bool" where
  "ngx_str4cmp buf m c0 c1 c2 c3 \<longleftrightarrow> load32 buf m = pack32 c0 c1 c2 c3"

definition ngx_str5cmp :: "u8 list \<Rightarrow> nat \<Rightarrow> char \<Rightarrow> char \<Rightarrow> char \<Rightarrow> char \<Rightarrow> char \<Rightarrow> bool" where
  "ngx_str5cmp buf m c0 c1 c2 c3 c4 \<longleftrightarrow>
     load32 buf m = pack32 c0 c1 c2 c3 \<and> byte_at buf (m + 4) = C c4"

definition ngx_str6cmp ::
  "u8 list \<Rightarrow> nat \<Rightarrow> char \<Rightarrow> char \<Rightarrow> char \<Rightarrow> char \<Rightarrow> char \<Rightarrow> char \<Rightarrow> bool"
where
  "ngx_str6cmp buf m c0 c1 c2 c3 c4 c5 \<longleftrightarrow>
     load32 buf m = pack32 c0 c1 c2 c3 \<and>
     load32 buf (m + 4) AND 0xffff = push_bit 8 (of_char c5) OR of_char c4"

definition ngx_str8cmp ::
  "u8 list \<Rightarrow> nat \<Rightarrow> char \<Rightarrow> char \<Rightarrow> char \<Rightarrow> char \<Rightarrow> char \<Rightarrow> char \<Rightarrow> char \<Rightarrow> char \<Rightarrow> bool"
where
  "ngx_str8cmp buf m c0 c1 c2 c3 c4 c5 c6 c7 \<longleftrightarrow>
     load32 buf m = pack32 c0 c1 c2 c3 \<and> load32 buf (m + 4) = pack32 c4 c5 c6 c7"

definition ngx_str9cmp ::
  "u8 list \<Rightarrow> nat \<Rightarrow> char \<Rightarrow> char \<Rightarrow> char \<Rightarrow> char \<Rightarrow> char \<Rightarrow> char \<Rightarrow> char \<Rightarrow> char \<Rightarrow> char \<Rightarrow> bool"
where
  "ngx_str9cmp buf m c0 c1 c2 c3 c4 c5 c6 c7 c8 \<longleftrightarrow>
     load32 buf m = pack32 c0 c1 c2 c3 \<and> load32 buf (m + 4) = pack32 c4 c5 c6 c7 \<and>
     byte_at buf (m + 8) = C c8"

text \<open>The \<^verbatim>\<open>switch (p - m)\<close> of the request line parser: the method a name of that length denotes.\<close>

definition method_of :: "u8 list \<Rightarrow> nat \<Rightarrow> nat \<Rightarrow> nat option" where
  "method_of buf m len =
    (if len = 3 then
       (if ngx_str4cmp buf m CHR ''G'' CHR ''E'' CHR ''T'' CHR '' '' then Some NGX_HTTP_GET
        else if ngx_str4cmp buf m CHR ''P'' CHR ''U'' CHR ''T'' CHR '' '' then Some NGX_HTTP_PUT
        else None)
     else if len = 4 then
       (if byte_at buf (m + 1) = C CHR ''O'' then
          (if ngx_str4cmp buf m CHR ''P'' CHR ''O'' CHR ''S'' CHR ''T'' then Some NGX_HTTP_POST
           else if ngx_str4cmp buf m CHR ''C'' CHR ''O'' CHR ''P'' CHR ''Y'' then Some NGX_HTTP_COPY
           else if ngx_str4cmp buf m CHR ''M'' CHR ''O'' CHR ''V'' CHR ''E'' then Some NGX_HTTP_MOVE
           else if ngx_str4cmp buf m CHR ''L'' CHR ''O'' CHR ''C'' CHR ''K'' then Some NGX_HTTP_LOCK
           else None)
        else
          (if ngx_str4cmp buf m CHR ''H'' CHR ''E'' CHR ''A'' CHR ''D'' then Some NGX_HTTP_HEAD
           else None))
     else if len = 5 then
       (if ngx_str5cmp buf m CHR ''M'' CHR ''K'' CHR ''C'' CHR ''O'' CHR ''L'' then Some NGX_HTTP_MKCOL
        else if ngx_str5cmp buf m CHR ''P'' CHR ''A'' CHR ''T'' CHR ''C'' CHR ''H'' then Some NGX_HTTP_PATCH
        else if ngx_str5cmp buf m CHR ''T'' CHR ''R'' CHR ''A'' CHR ''C'' CHR ''E'' then Some NGX_HTTP_TRACE
        else None)
     else if len = 6 then
       (if ngx_str6cmp buf m CHR ''D'' CHR ''E'' CHR ''L'' CHR ''E'' CHR ''T'' CHR ''E'' then Some NGX_HTTP_DELETE
        else if ngx_str6cmp buf m CHR ''U'' CHR ''N'' CHR ''L'' CHR ''O'' CHR ''C'' CHR ''K'' then Some NGX_HTTP_UNLOCK
        else None)
     else if len = 7 then
       (if ngx_str8cmp buf m CHR ''O'' CHR ''P'' CHR ''T'' CHR ''I'' CHR ''O'' CHR ''N'' CHR ''S'' CHR '' ''
        then Some NGX_HTTP_OPTIONS else None)
     else if len = 8 then
       (if ngx_str8cmp buf m CHR ''P'' CHR ''R'' CHR ''O'' CHR ''P'' CHR ''F'' CHR ''I'' CHR ''N'' CHR ''D''
        then Some NGX_HTTP_PROPFIND else None)
     else if len = 9 then
       (if ngx_str9cmp buf m CHR ''P'' CHR ''R'' CHR ''O'' CHR ''P'' CHR ''P'' CHR ''A'' CHR ''T'' CHR ''C'' CHR ''H''
        then Some NGX_HTTP_PROPPATCH else None)
     else None)"

section \<open>Facts about the tests\<close>

lemma is_usual_iff: "is_usual ch \<longleftrightarrow>
    ch \<notin> {0, LF, CR, C CHR '' '', C CHR ''#'', C CHR ''%'', C CHR ''+'', C CHR ''.'', C CHR ''/'', C CHR ''?''}"
proof -
  have "all_bytes (\<lambda>ch. is_usual ch \<longleftrightarrow>
    ch \<notin> {0, LF, CR, C CHR '' '', C CHR ''#'', C CHR ''%'', C CHR ''+'', C CHR ''.'', C CHR ''/'', C CHR ''?''})"
    by (simp add: all_bytes_def is_usual_def usual_def)
  then show ?thesis by (rule all_bytesD)
qed

text \<open>The word comparison is the comparison byte by byte.\<close>

definition join32 :: "u8 \<Rightarrow> u8 \<Rightarrow> u8 \<Rightarrow> u8 \<Rightarrow> u32" where
  "join32 a b c d = push_bit 24 (ucast d) OR push_bit 16 (ucast c) OR push_bit 8 (ucast b) OR ucast a"

lemma bit8_ge [simp]: "8 \<le> n \<Longrightarrow> \<not> bit (w :: u8) n"
  using bit_imp_le_length [of w n] by auto

lemma join32_bits:
  assumes "n < 8"
  shows "bit (join32 a b c d) n = bit a n" and "bit (join32 a b c d) (n + 8) = bit b n"
    and "bit (join32 a b c d) (n + 16) = bit c n" and "bit (join32 a b c d) (n + 24) = bit d n"
  using assms by (simp_all add: join32_def bit_simps)

lemma join32_eq_iff: "join32 a b c d = join32 a' b' c' d' \<longleftrightarrow> a = a' \<and> b = b' \<and> c = c' \<and> d = d'"
proof
  assume eq: "join32 a b c d = join32 a' b' c' d'"
  have "bit a n = bit a' n" "bit b n = bit b' n" "bit c n = bit c' n" "bit d n = bit d' n" if "n < 8" for n
    using join32_bits [OF that, of a b c d] join32_bits [OF that, of a' b' c' d'] eq by simp_all
  then show "a = a' \<and> b = b' \<and> c = c' \<and> d = d'" by (auto intro!: bit_word_eqI)
qed simp

lemma of_char_ucast: "(of_char c :: u32) = ucast (of_char c :: u8)"
  by (cases c) (simp add: of_char_def)

lemma load32_join: "load32 buf m = join32 (byte_at buf m) (byte_at buf (m + 1)) (byte_at buf (m + 2)) (byte_at buf (m + 3))"
  by (simp add: load32_def join32_def)

lemma pack32_join: "pack32 c0 c1 c2 c3 = join32 (C c0) (C c1) (C c2) (C c3)"
  by (simp add: pack32_def join32_def of_char_ucast)

lemma low16_join: "join32 a b c d AND 0xffff = join32 a b 0 0"
proof (rule bit_word_eqI)
  fix n assume "n < LENGTH(32)"
  have m: "(0xffff :: u32) = mask 16" by (simp add: mask_eq_exp_minus_1)
  show "bit (join32 a b c d AND 0xffff) n = bit (join32 a b 0 0) n"
    unfolding m by (cases "n < 16") (auto simp: join32_def bit_simps)
qed

lemma low16_pack: "push_bit 8 (of_char c5) OR (of_char c4 :: u32) = join32 (C c4) (C c5) 0 0"
  by (simp add: join32_def of_char_ucast)

lemmas str_cmp_simps = ngx_str4cmp_def ngx_str5cmp_def ngx_str6cmp_def ngx_str8cmp_def ngx_str9cmp_def
  load32_join pack32_join low16_join low16_pack join32_eq_iff

section \<open>Stretches of the buffer\<close>

text \<open>No NUL, CR or LF in \<open>[c, d)\<close>.\<close>

definition no_ctl :: "u8 list \<Rightarrow> nat \<Rightarrow> nat \<Rightarrow> bool" where
  "no_ctl buf c d \<longleftrightarrow> (\<forall>i. c \<le> i \<and> i < d \<longrightarrow> byte_at buf i \<notin> {0, CR, LF})"

lemma no_ctl_Suc: "no_ctl buf c p \<Longrightarrow> byte_at buf p \<notin> {0, CR, LF} \<Longrightarrow> no_ctl buf c (Suc p)"
  by (auto simp: no_ctl_def less_Suc_eq)

section \<open>Version digits\<close>

lemma digit_bound16:
  fixes m :: "16 word" and ch :: u8
  assumes "m \<le> 99" and "48 \<le> ch" and "ch \<le> 57"
  shows "m * 10 + ucast ch - 48 \<le> 999" and "ucast ch - 48 \<le> (9 :: 16 word)"
proof -
  have m: "unat m \<le> 99" and c: "48 \<le> unat ch" "unat ch \<le> 57"
    using assms by (simp_all add: word_le_nat_alt)
  have u: "unat (ucast ch :: 16 word) = unat ch"
    using c by (simp add: unsigned_ucast_eq take_bit_nat_eq_self)
  have s: "unat (m * 10 + ucast ch) = unat m * 10 + unat ch"
    using m c by (simp add: unat_word_ariths u)
  have "48 \<le> m * 10 + (ucast ch :: 16 word)" "48 \<le> (ucast ch :: 16 word)"
    using c s u by (simp_all add: word_le_nat_alt)
  then show "m * 10 + ucast ch - 48 \<le> 999" "ucast ch - 48 \<le> (9 :: 16 word)"
    using m c s u by (simp_all add: word_le_nat_alt unat_sub)
qed

end
