(* ===== verification/Ngx_Http_Request_Line.thy ===== *)
theory Ngx_Http_Request_Line
  imports Ngx_Http_Request
begin

text \<open>
  \<^verbatim>\<open>ngx_http_parse_request_line\<close>: one definition per \<^verbatim>\<open>case\<close> of the \<^verbatim>\<open>switch (state)\<close>, the loop,
  and the code after the loop (the labels \<^verbatim>\<open>done\<close> and the saving of the state).
\<close>

datatype rl_state =
  sw_start | sw_method | sw_spaces_before_uri | sw_schema | sw_schema_slash
| sw_schema_slash_slash | sw_host_start | sw_host | sw_host_end | sw_host_ip_literal | sw_port
| sw_host_http_09 | sw_after_slash_in_uri | sw_check_uri | sw_check_uri_http_09 | sw_uri
| sw_http_09 | sw_http_H | sw_http_HT | sw_http_HTT | sw_http_HTTP | sw_first_major_digit
| sw_major_digit | sw_first_minor_digit | sw_minor_digit | sw_spaces_after_digit
| sw_almost_done

type_synonym rl_act = "(rl_state, ngx_http_request, exit) act"
type_synonym rl_outcome = "(rl_state, ngx_http_request, exit) outcome"

abbreviation (input) invalid_request :: "rl_state \<Rightarrow> ngx_http_request \<Rightarrow> rl_act" where
  "invalid_request s r \<equiv> Leave s r (Return NGX_HTTP_PARSE_INVALID_REQUEST)"

definition rl_start :: "nat \<Rightarrow> u8 \<Rightarrow> ngx_http_request \<Rightarrow> rl_act" where
  "rl_start p ch r0 =
     (let r = r0\<lparr>request_start := Some p\<rparr> in
      if ch = CR \<or> ch = LF then Next sw_start r
      else if \<not> is_method_char ch then Leave sw_start r (Return NGX_HTTP_PARSE_INVALID_METHOD)
      else Next sw_method r)"

definition rl_method :: "u8 list \<Rightarrow> nat \<Rightarrow> u8 \<Rightarrow> ngx_http_request \<Rightarrow> rl_act" where
  "rl_method buf p ch r0 =
     (if ch = C CHR '' '' then
        (let r = r0\<lparr>method_end := Some (p - 1)\<rparr>;
             m = (case request_start r of None \<Rightarrow> 0 | Some m \<Rightarrow> m)
         in case method_of buf m (p - m) of
              None \<Rightarrow> Next sw_spaces_before_uri r
            | Some k \<Rightarrow> Next sw_spaces_before_uri (r\<lparr>r_method := k\<rparr>))
      else if \<not> is_method_char ch then Leave sw_method r0 (Return NGX_HTTP_PARSE_INVALID_METHOD)
      else Next sw_method r0)"

definition rl_spaces_before_uri :: "nat \<Rightarrow> u8 \<Rightarrow> ngx_http_request \<Rightarrow> rl_act" where
  "rl_spaces_before_uri p ch r =
     (if ch = C CHR ''/'' then Next sw_after_slash_in_uri (r\<lparr>uri_start := Some p\<rparr>)
      else if is_alpha ch then Next sw_schema (r\<lparr>schema_start := Some p\<rparr>)
      else if ch = C CHR '' '' then Next sw_spaces_before_uri r
      else invalid_request sw_spaces_before_uri r)"

definition rl_schema :: "nat \<Rightarrow> u8 \<Rightarrow> ngx_http_request \<Rightarrow> rl_act" where
  "rl_schema p ch r =
     (if is_alpha ch then Next sw_schema r
      else if ch = C CHR '':'' then Next sw_schema_slash (r\<lparr>schema_end := Some p\<rparr>)
      else invalid_request sw_schema r)"

definition rl_schema_slash :: "u8 \<Rightarrow> ngx_http_request \<Rightarrow> rl_act" where
  "rl_schema_slash ch r =
     (if ch = C CHR ''/'' then Next sw_schema_slash_slash r else invalid_request sw_schema_slash r)"

definition rl_schema_slash_slash :: "u8 \<Rightarrow> ngx_http_request \<Rightarrow> rl_act" where
  "rl_schema_slash_slash ch r =
     (if ch = C CHR ''/'' then Next sw_host_start r else invalid_request sw_schema_slash_slash r)"

text \<open>
  The single \<^verbatim>\<open>"/"\<close> that stands for the missing path: the first slash after the schema.
\<close>

definition uri_from_schema :: "ngx_http_request \<Rightarrow> ngx_http_request" where
  "uri_from_schema r = r\<lparr>uri_start := map_option (\<lambda>e. e + 1) (schema_end r),
                         uri_end := map_option (\<lambda>e. e + 2) (schema_end r)\<rparr>"

definition rl_host_end :: "rl_state \<Rightarrow> nat \<Rightarrow> u8 \<Rightarrow> ngx_http_request \<Rightarrow> rl_act" where
  "rl_host_end st p ch r0 =
     (let r = r0\<lparr>host_end := Some p\<rparr> in
      if ch = C CHR '':'' then Next sw_port r
      else if ch = C CHR ''/'' then Next sw_after_slash_in_uri (r\<lparr>uri_start := Some p\<rparr>)
      else if ch = C CHR '' '' then Next sw_host_http_09 (uri_from_schema r)
      else invalid_request st r)"

definition rl_host :: "nat \<Rightarrow> u8 \<Rightarrow> ngx_http_request \<Rightarrow> rl_act" where
  "rl_host p ch r =
     (if is_alpha ch then Next sw_host r
      else if is_digit ch \<or> ch = C CHR ''.'' \<or> ch = C CHR ''-'' then Next sw_host r
      else rl_host_end sw_host p ch r)"

definition rl_host_start :: "nat \<Rightarrow> u8 \<Rightarrow> ngx_http_request \<Rightarrow> rl_act" where
  "rl_host_start p ch r0 =
     (let r = r0\<lparr>host_start := Some p\<rparr> in
      if ch = C CHR ''['' then Next sw_host_ip_literal r else rl_host p ch r)"

definition rl_host_ip_literal :: "u8 \<Rightarrow> ngx_http_request \<Rightarrow> rl_act" where
  "rl_host_ip_literal ch r =
     (if is_digit ch then Next sw_host_ip_literal r
      else if is_alpha ch then Next sw_host_ip_literal r
      else if ch = C CHR '':'' then Next sw_host_ip_literal r
      else if ch = C CHR '']'' then Next sw_host_end r
      else if ch \<in> set (bytes ''-._~'') then Next sw_host_ip_literal r
      else if ch \<in> set (bytes [CHR ''!'', CHR ''$'', CHR ''&'', CHR 0x27, CHR ''('', CHR '')'',
          CHR ''*'', CHR ''+'', CHR '','', CHR '';'', CHR ''='']) then Next sw_host_ip_literal r
      else invalid_request sw_host_ip_literal r)"

definition rl_port :: "nat \<Rightarrow> u8 \<Rightarrow> ngx_http_request \<Rightarrow> rl_act" where
  "rl_port p ch r =
     (if is_digit ch then Next sw_port r
      else if ch = C CHR ''/''
      then Next sw_after_slash_in_uri (r\<lparr>port_end := Some p, uri_start := Some p\<rparr>)
      else if ch = C CHR '' '' then Next sw_host_http_09 (uri_from_schema (r\<lparr>port_end := Some p\<rparr>))
      else invalid_request sw_port r)"

definition rl_host_http_09 :: "nat \<Rightarrow> u8 \<Rightarrow> ngx_http_request \<Rightarrow> rl_act" where
  "rl_host_http_09 p ch r =
     (if ch = C CHR '' '' then Next sw_host_http_09 r
      else if ch = CR then Next sw_almost_done (r\<lparr>http_minor := 9\<rparr>)
      else if ch = LF then Leave sw_host_http_09 (r\<lparr>http_minor := 9\<rparr>) Goto_done
      else if ch = C CHR ''H'' then Next sw_http_H (r\<lparr>http_protocol_data := Some p\<rparr>)
      else invalid_request sw_host_http_09 r)"

text \<open>Check \<^verbatim>\<open>"/."\<close>, \<^verbatim>\<open>"//"\<close> and \<^verbatim>\<open>"%"\<close> in the URI.\<close>

definition rl_after_slash_in_uri :: "nat \<Rightarrow> u8 \<Rightarrow> ngx_http_request \<Rightarrow> rl_act" where
  "rl_after_slash_in_uri p ch r =
     (if is_usual ch then Next sw_check_uri r
      else if ch = C CHR '' '' then Next sw_check_uri_http_09 (r\<lparr>uri_end := Some p\<rparr>)
      else if ch = CR then Next sw_almost_done (r\<lparr>uri_end := Some p, http_minor := 9\<rparr>)
      else if ch = LF then Leave sw_after_slash_in_uri (r\<lparr>uri_end := Some p, http_minor := 9\<rparr>) Goto_done
      else if ch = C CHR ''.'' then Next sw_uri (r\<lparr>complex_uri := True\<rparr>)
      else if ch = C CHR ''%'' then Next sw_uri (r\<lparr>quoted_uri := True\<rparr>)
      else if ch = C CHR ''/'' then Next sw_uri (r\<lparr>complex_uri := True\<rparr>)
      else if ch = C CHR ''?'' then Next sw_uri (r\<lparr>args_start := Some (p + 1)\<rparr>)
      else if ch = C CHR ''#'' then Next sw_uri (r\<lparr>complex_uri := True\<rparr>)
      else if ch = C CHR ''+'' then Next sw_after_slash_in_uri (r\<lparr>plus_in_uri := True\<rparr>)
      else if ch = 0 then invalid_request sw_after_slash_in_uri r
      else Next sw_check_uri r)"

definition rl_check_uri :: "nat \<Rightarrow> u8 \<Rightarrow> ngx_http_request \<Rightarrow> rl_act" where
  "rl_check_uri p ch r =
     (if is_usual ch then Next sw_check_uri r
      else if ch = C CHR ''/'' then Next sw_after_slash_in_uri (r\<lparr>uri_ext := None\<rparr>)
      else if ch = C CHR ''.'' then Next sw_check_uri (r\<lparr>uri_ext := Some (p + 1)\<rparr>)
      else if ch = C CHR '' '' then Next sw_check_uri_http_09 (r\<lparr>uri_end := Some p\<rparr>)
      else if ch = CR then Next sw_almost_done (r\<lparr>uri_end := Some p, http_minor := 9\<rparr>)
      else if ch = LF then Leave sw_check_uri (r\<lparr>uri_end := Some p, http_minor := 9\<rparr>) Goto_done
      else if ch = C CHR ''%'' then Next sw_uri (r\<lparr>quoted_uri := True\<rparr>)
      else if ch = C CHR ''?'' then Next sw_uri (r\<lparr>args_start := Some (p + 1)\<rparr>)
      else if ch = C CHR ''#'' then Next sw_uri (r\<lparr>complex_uri := True\<rparr>)
      else if ch = C CHR ''+'' then Next sw_check_uri (r\<lparr>plus_in_uri := True\<rparr>)
      else if ch = 0 then invalid_request sw_check_uri r
      else Next sw_check_uri r)"

definition rl_check_uri_http_09 :: "nat \<Rightarrow> u8 \<Rightarrow> ngx_http_request \<Rightarrow> rl_act" where
  "rl_check_uri_http_09 p ch r =
     (if ch = C CHR '' '' then Next sw_check_uri_http_09 r
      else if ch = CR then Next sw_almost_done (r\<lparr>http_minor := 9\<rparr>)
      else if ch = LF then Leave sw_check_uri_http_09 (r\<lparr>http_minor := 9\<rparr>) Goto_done
      else if ch = C CHR ''H'' then Next sw_http_H (r\<lparr>http_protocol_data := Some p\<rparr>)
      else Stay sw_check_uri (r\<lparr>space_in_uri := True\<rparr>))"

definition rl_uri :: "nat \<Rightarrow> u8 \<Rightarrow> ngx_http_request \<Rightarrow> rl_act" where
  "rl_uri p ch r =
     (if is_usual ch then Next sw_uri r
      else if ch = C CHR '' '' then Next sw_http_09 (r\<lparr>uri_end := Some p\<rparr>)
      else if ch = CR then Next sw_almost_done (r\<lparr>uri_end := Some p, http_minor := 9\<rparr>)
      else if ch = LF then Leave sw_uri (r\<lparr>uri_end := Some p, http_minor := 9\<rparr>) Goto_done
      else if ch = C CHR ''#'' then Next sw_uri (r\<lparr>complex_uri := True\<rparr>)
      else if ch = 0 then invalid_request sw_uri r
      else Next sw_uri r)"

definition rl_http_09 :: "nat \<Rightarrow> u8 \<Rightarrow> ngx_http_request \<Rightarrow> rl_act" where
  "rl_http_09 p ch r =
     (if ch = C CHR '' '' then Next sw_http_09 r
      else if ch = CR then Next sw_almost_done (r\<lparr>http_minor := 9\<rparr>)
      else if ch = LF then Leave sw_http_09 (r\<lparr>http_minor := 9\<rparr>) Goto_done
      else if ch = C CHR ''H'' then Next sw_http_H (r\<lparr>http_protocol_data := Some p\<rparr>)
      else Stay sw_uri (r\<lparr>space_in_uri := True\<rparr>))"

text \<open>The four states that match \<^verbatim>\<open>TTP/\<close>.\<close>

definition rl_expect :: "rl_state \<Rightarrow> char \<Rightarrow> rl_state \<Rightarrow> u8 \<Rightarrow> ngx_http_request \<Rightarrow> rl_act" where
  "rl_expect st c st' ch r = (if ch = C c then Next st' r else invalid_request st r)"

definition rl_first_major_digit :: "u8 \<Rightarrow> ngx_http_request \<Rightarrow> rl_act" where
  "rl_first_major_digit ch r =
     (if ch < C CHR ''1'' \<or> C CHR ''9'' < ch then invalid_request sw_first_major_digit r
      else Next sw_major_digit (r\<lparr>http_major := ucast ch - 48\<rparr>))"

definition rl_major_digit :: "u8 \<Rightarrow> ngx_http_request \<Rightarrow> rl_act" where
  "rl_major_digit ch r =
     (if ch = C CHR ''.'' then Next sw_first_minor_digit r
      else if ch < C CHR ''0'' \<or> C CHR ''9'' < ch then invalid_request sw_major_digit r
      else if 99 < http_major r then invalid_request sw_major_digit r
      else Next sw_major_digit (r\<lparr>http_major := http_major r * 10 + ucast ch - 48\<rparr>))"

definition rl_first_minor_digit :: "u8 \<Rightarrow> ngx_http_request \<Rightarrow> rl_act" where
  "rl_first_minor_digit ch r =
     (if ch < C CHR ''0'' \<or> C CHR ''9'' < ch then invalid_request sw_first_minor_digit r
      else Next sw_minor_digit (r\<lparr>http_minor := ucast ch - 48\<rparr>))"

definition rl_minor_digit :: "u8 \<Rightarrow> ngx_http_request \<Rightarrow> rl_act" where
  "rl_minor_digit ch r =
     (if ch = CR then Next sw_almost_done r
      else if ch = LF then Leave sw_minor_digit r Goto_done
      else if ch = C CHR '' '' then Next sw_spaces_after_digit r
      else if ch < C CHR ''0'' \<or> C CHR ''9'' < ch then invalid_request sw_minor_digit r
      else if 99 < http_minor r then invalid_request sw_minor_digit r
      else Next sw_minor_digit (r\<lparr>http_minor := http_minor r * 10 + ucast ch - 48\<rparr>))"

definition rl_spaces_after_digit :: "u8 \<Rightarrow> ngx_http_request \<Rightarrow> rl_act" where
  "rl_spaces_after_digit ch r =
     (if ch = C CHR '' '' then Next sw_spaces_after_digit r
      else if ch = CR then Next sw_almost_done r
      else if ch = LF then Leave sw_spaces_after_digit r Goto_done
      else invalid_request sw_spaces_after_digit r)"

definition rl_almost_done :: "nat \<Rightarrow> u8 \<Rightarrow> ngx_http_request \<Rightarrow> rl_act" where
  "rl_almost_done p ch r0 =
     (let r = r0\<lparr>request_end := Some (p - 1)\<rparr> in
      if ch = LF then Leave sw_almost_done r Goto_done else invalid_request sw_almost_done r)"

definition rl_step :: "u8 list \<Rightarrow> nat \<Rightarrow> rl_state \<Rightarrow> ngx_http_request \<Rightarrow> rl_act" where
  "rl_step buf p st r =
     (let ch = byte_at buf p in
      case st of
        sw_start \<Rightarrow> rl_start p ch r
      | sw_method \<Rightarrow> rl_method buf p ch r
      | sw_spaces_before_uri \<Rightarrow> rl_spaces_before_uri p ch r
      | sw_schema \<Rightarrow> rl_schema p ch r
      | sw_schema_slash \<Rightarrow> rl_schema_slash ch r
      | sw_schema_slash_slash \<Rightarrow> rl_schema_slash_slash ch r
      | sw_host_start \<Rightarrow> rl_host_start p ch r
      | sw_host \<Rightarrow> rl_host p ch r
      | sw_host_end \<Rightarrow> rl_host_end sw_host_end p ch r
      | sw_host_ip_literal \<Rightarrow> rl_host_ip_literal ch r
      | sw_port \<Rightarrow> rl_port p ch r
      | sw_host_http_09 \<Rightarrow> rl_host_http_09 p ch r
      | sw_after_slash_in_uri \<Rightarrow> rl_after_slash_in_uri p ch r
      | sw_check_uri \<Rightarrow> rl_check_uri p ch r
      | sw_check_uri_http_09 \<Rightarrow> rl_check_uri_http_09 p ch r
      | sw_uri \<Rightarrow> rl_uri p ch r
      | sw_http_09 \<Rightarrow> rl_http_09 p ch r
      | sw_http_H \<Rightarrow> rl_expect sw_http_H CHR ''T'' sw_http_HT ch r
      | sw_http_HT \<Rightarrow> rl_expect sw_http_HT CHR ''T'' sw_http_HTT ch r
      | sw_http_HTT \<Rightarrow> rl_expect sw_http_HTT CHR ''P'' sw_http_HTTP ch r
      | sw_http_HTTP \<Rightarrow> rl_expect sw_http_HTTP CHR ''/'' sw_first_major_digit ch r
      | sw_first_major_digit \<Rightarrow> rl_first_major_digit ch r
      | sw_major_digit \<Rightarrow> rl_major_digit ch r
      | sw_first_minor_digit \<Rightarrow> rl_first_minor_digit ch r
      | sw_minor_digit \<Rightarrow> rl_minor_digit ch r
      | sw_spaces_after_digit \<Rightarrow> rl_spaces_after_digit ch r
      | sw_almost_done \<Rightarrow> rl_almost_done p ch r)"

lemmas rl_state_defs = rl_start_def rl_method_def rl_spaces_before_uri_def rl_schema_def
  rl_schema_slash_def rl_schema_slash_slash_def rl_host_start_def rl_host_def rl_host_end_def
  rl_host_ip_literal_def rl_port_def rl_host_http_09_def rl_after_slash_in_uri_def rl_check_uri_def
  rl_check_uri_http_09_def rl_uri_def rl_http_09_def rl_expect_def rl_first_major_digit_def
  rl_major_digit_def rl_first_minor_digit_def rl_minor_digit_def rl_spaces_after_digit_def
  rl_almost_done_def

text \<open>The two states that look at a byte again do so in a state that consumes it.\<close>

fun rl_weight :: "rl_state \<Rightarrow> nat" where
  "rl_weight sw_check_uri_http_09 = 1"
| "rl_weight sw_http_09 = 1"
| "rl_weight _ = 0"

lemma rl_stay: "rl_step buf p st r = Stay st' r' \<Longrightarrow> rl_weight st' < rl_weight st"
  by (cases st) (auto simp: rl_step_def Let_def rl_state_defs split: if_splits option.splits)

function rl_loop :: "u8 list \<Rightarrow> nat \<Rightarrow> rl_state \<Rightarrow> ngx_http_request \<Rightarrow> rl_outcome" where
  "rl_loop buf p st r =
     (if p < length buf
      then (case rl_step buf p st r of
              Next st' r' \<Rightarrow> rl_loop buf (p + 1) st' r'
            | Stay st' r' \<Rightarrow> rl_loop buf p st' r'
            | Leave st' r' e \<Rightarrow> Stop p st' r' e)
      else More p st r)"
  by pat_completeness auto
termination
  by (relation "measures [\<lambda>(buf, p, st, r). length buf - p, \<lambda>(buf, p, st, r). rl_weight st]")
    (auto dest: rl_stay)

declare rl_loop.simps [simp del]

text \<open>
  The label \<^verbatim>\<open>done\<close>. The result of the parser is the return code, \<^verbatim>\<open>b->pos\<close>, \<^verbatim>\<open>r->state\<close> and the
  request.
\<close>

definition rl_done :: "nat \<Rightarrow> ngx_http_request \<Rightarrow> rc \<times> nat \<times> rl_state \<times> ngx_http_request" where
  "rl_done p r0 =
     (let r1 = (if request_end r0 = None then r0\<lparr>request_end := Some p\<rparr> else r0);
          r = r1\<lparr>http_version := unat (http_major r1) * 1000 + unat (http_minor r1)\<rparr>
      in if http_version r = 9 \<and> r_method r \<noteq> NGX_HTTP_GET
         then (NGX_HTTP_PARSE_INVALID_09_METHOD, p + 1, sw_start, r)
         else (NGX_OK, p + 1, sw_start, r))"

definition ngx_http_parse_request_line ::
  "u8 list \<Rightarrow> nat \<Rightarrow> rl_state \<Rightarrow> ngx_http_request \<Rightarrow> rc \<times> nat \<times> rl_state \<times> ngx_http_request"
where
  "ngx_http_parse_request_line buf pos st r =
     (case rl_loop buf pos st r of
        More p st' r' \<Rightarrow> (NGX_AGAIN, p, st', r')
      | Stop p st' r' Goto_done \<Rightarrow> rl_done p r'
      | Stop p st' r' (Return rc) \<Rightarrow> (rc, pos, st, r'))"

end
