(* ===== verification/Ngx_Http_Request_Line_Props.thy ===== *)
theory Ngx_Http_Request_Line_Props
  imports Ngx_Http_Request_Line
begin

text \<open>
  Properties of the request line parser: it can be fed in pieces, the positions it reports are
  ordered and inside the buffer, the version fields do not overflow, and a printed request
  line is read back.
\<close>

section \<open>The parser is incremental\<close>

lemma str_cmp_prefix:
  "m + 3 < length xs \<Longrightarrow> ngx_str4cmp (xs @ ys) m c0 c1 c2 c3 = ngx_str4cmp xs m c0 c1 c2 c3"
  "m + 4 < length xs \<Longrightarrow> ngx_str5cmp (xs @ ys) m c0 c1 c2 c3 c4 = ngx_str5cmp xs m c0 c1 c2 c3 c4"
  "m + 5 < length xs \<Longrightarrow> ngx_str6cmp (xs @ ys) m c0 c1 c2 c3 c4 c5 = ngx_str6cmp xs m c0 c1 c2 c3 c4 c5"
  "m + 7 < length xs \<Longrightarrow>
     ngx_str8cmp (xs @ ys) m c0 c1 c2 c3 c4 c5 c6 c7 = ngx_str8cmp xs m c0 c1 c2 c3 c4 c5 c6 c7"
  "m + 8 < length xs \<Longrightarrow>
     ngx_str9cmp (xs @ ys) m c0 c1 c2 c3 c4 c5 c6 c7 c8 = ngx_str9cmp xs m c0 c1 c2 c3 c4 c5 c6 c7 c8"
  by (simp_all add: str_cmp_simps byte_at_append)

lemma method_of_prefix:
  assumes "m + len < length xs"
  shows "method_of (xs @ ys) m len = method_of xs m len"
proof -
  have "byte_at (xs @ ys) (m + 1) = byte_at xs (m + 1)" if "len = 4"
    using assms that by (simp add: byte_at_append)
  then show ?thesis using assms
    unfolding method_of_def by (intro if_cong refl) (simp_all add: str_cmp_prefix)
qed

lemma method_of_short: "method_of buf m 0 = None"
  by (simp add: method_of_def)

lemma rl_step_prefix:
  assumes "p < length xs"
  shows "rl_step (xs @ ys) p st r = rl_step xs p st r"
proof -
  have "method_of (xs @ ys) m (p - m) = method_of xs m (p - m)" for m
    using assms by (cases "m \<le> p") (simp_all add: method_of_prefix method_of_short)
  then have "rl_method (xs @ ys) p ch r = rl_method xs p ch r" for ch by (simp add: rl_method_def)
  then show ?thesis using assms by (simp add: rl_step_def byte_at_append cong: rl_state.case_cong)
qed

interpretation rl: byte_parser rl_step rl_loop rl_weight
proof
  show "rl_loop buf p s r = parse_round rl_step rl_loop buf p s r" for buf p s r
    by (subst rl_loop.simps) (simp add: parse_round_def)
qed (use rl_step_prefix rl_stay in blast)+

lemma rl_leave:
  assumes "rl_step buf p st r = Leave st' r' e"
  shows "e \<in> {Goto_done, Return NGX_HTTP_PARSE_INVALID_METHOD, Return NGX_HTTP_PARSE_INVALID_REQUEST}"
  using assms by (cases st)
    (auto simp: rl_step_def Let_def rl_state_defs split: if_splits option.splits)

lemma rl_stop_exit:
  assumes "rl_loop buf p st r = Stop p' st' r' e"
  shows "e \<in> {Goto_done, Return NGX_HTTP_PARSE_INVALID_METHOD, Return NGX_HTTP_PARSE_INVALID_REQUEST}"
proof -
  have "case rl_loop buf p st r of More p' s' r' \<Rightarrow> True
    | Stop p' s' r' e \<Rightarrow> e \<in> {Goto_done, Return NGX_HTTP_PARSE_INVALID_METHOD, Return NGX_HTTP_PARSE_INVALID_REQUEST}"
    by (rule rl.loop_invariant [where I = "\<lambda>_ _ _. True"]) (auto split: act.splits dest: rl_leave)
  with assms show ?thesis by simp
qed

lemma rl_done_not_again: "fst (rl_done p r) \<noteq> NGX_AGAIN"
  by (simp add: rl_done_def Let_def)

lemma parse_request_line_again_iff:
  "ngx_http_parse_request_line buf pos st r = (NGX_AGAIN, p, s, r') \<longleftrightarrow> rl_loop buf pos st r = More p s r'"
  using rl_stop_exit [of buf pos st r] rl_done_not_again
  by (auto simp: ngx_http_parse_request_line_def split: outcome.splits exit.splits)
    (metis fst_conv)+

section \<open>Positions and version numbers\<close>

definition method_at :: "u8 list \<Rightarrow> nat \<Rightarrow> ngx_http_request \<Rightarrow> nat \<Rightarrow> bool" where
  "method_at buf p r q \<longleftrightarrow> (\<exists>a b. request_start r = Some a \<and> method_end r = Some b \<and> a \<le> b \<and> b + 1 < q \<and>
     q \<le> p \<and> (\<forall>i. a \<le> i \<and> i \<le> b \<longrightarrow> is_method_char (byte_at buf i)))"

text \<open>The URI found so far starts with a slash and holds no NUL, CR or LF.\<close>

definition uri_open :: "u8 list \<Rightarrow> nat \<Rightarrow> ngx_http_request \<Rightarrow> bool" where
  "uri_open buf p r \<longleftrightarrow> (\<exists>c. uri_start r = Some c \<and> c < p \<and> method_at buf p r c \<and>
     byte_at buf c = C CHR ''/'' \<and> no_ctl buf c p)"

definition uri_closed :: "u8 list \<Rightarrow> nat \<Rightarrow> ngx_http_request \<Rightarrow> bool" where
  "uri_closed buf p r \<longleftrightarrow> (\<exists>c d. uri_start r = Some c \<and> uri_end r = Some d \<and> c < d \<and> d < p \<and>
     method_at buf p r c \<and> byte_at buf c = C CHR ''/'' \<and> no_ctl buf c d)"

definition schema_at :: "u8 list \<Rightarrow> nat \<Rightarrow> ngx_http_request \<Rightarrow> nat \<Rightarrow> bool" where
  "schema_at buf p r k \<longleftrightarrow> (\<exists>e. schema_end r = Some e \<and> e + k \<le> p \<and> method_at buf p r e \<and>
     (1 < k \<longrightarrow> byte_at buf (e + 1) = C CHR ''/''))"

definition version_ok :: "ngx_http_request \<Rightarrow> bool" where
  "version_ok r \<longleftrightarrow> http_major r \<le> 999 \<and> http_minor r \<le> 999"

definition rl_ok :: "u8 list \<Rightarrow> nat \<Rightarrow> rl_state \<Rightarrow> ngx_http_request \<Rightarrow> bool" where
  "rl_ok buf p st r \<longleftrightarrow>
    (case st of
       sw_start \<Rightarrow> True
     | sw_method \<Rightarrow> (\<exists>a. request_start r = Some a \<and> a < p \<and>
         (\<forall>i. a \<le> i \<and> i < p \<longrightarrow> is_method_char (byte_at buf i)))
     | sw_spaces_before_uri \<Rightarrow> method_at buf p r p
     | sw_schema \<Rightarrow> method_at buf p r p
     | sw_schema_slash \<Rightarrow> (\<exists>e. schema_end r = Some e \<and> e + 1 = p \<and> method_at buf p r e)
     | sw_schema_slash_slash \<Rightarrow> (\<exists>e. schema_end r = Some e \<and> e + 2 = p \<and> method_at buf p r e \<and>
         byte_at buf (e + 1) = C CHR ''/'')
     | st \<Rightarrow>
         (if st \<in> {sw_host_start, sw_host, sw_host_end, sw_host_ip_literal, sw_port}
          then schema_at buf p r 3
          else if st \<in> {sw_after_slash_in_uri, sw_check_uri, sw_uri} then uri_open buf p r
          else if st \<in> {sw_check_uri_http_09, sw_http_09} then uri_open buf p r \<and> uri_closed buf p r
          else uri_closed buf p r))"

lemma method_at_mono:
  "method_at buf p r q \<Longrightarrow> request_start r' = request_start r \<Longrightarrow> method_end r' = method_end r \<Longrightarrow>
   q \<le> q' \<Longrightarrow> q' \<le> p' \<Longrightarrow> method_at buf p' r' q'"
  unfolding method_at_def by fastforce

lemma uri_open_Suc:
  assumes "uri_open buf p r" and "byte_at buf p \<notin> {0, CR, LF}"
    and "request_start r' = request_start r" "method_end r' = method_end r" "uri_start r' = uri_start r"
  shows "uri_open buf (Suc p) r'"
  using assms method_at_mono [of buf p r _ r' _ "Suc p"] no_ctl_Suc [of buf _ p]
  by (fastforce simp: uri_open_def)

lemma uri_open_same:
  "uri_open buf p r \<Longrightarrow> request_start r' = request_start r \<Longrightarrow> method_end r' = method_end r \<Longrightarrow>
   uri_start r' = uri_start r \<Longrightarrow> uri_open buf p r'"
  by (simp add: uri_open_def method_at_def)

lemma uri_open_start:
  assumes "method_at buf p r p" and "byte_at buf p = C CHR ''/''"
    and "request_start r' = request_start r" "method_end r' = method_end r" "uri_start r' = Some p"
  shows "uri_open buf (Suc p) r'"
  using assms method_at_mono [of buf p r p r' p "Suc p"] by (auto simp: uri_open_def no_ctl_def less_Suc_eq_le)

lemma uri_open_close:
  assumes "uri_open buf p r" and "request_start r' = request_start r" "method_end r' = method_end r"
    "uri_start r' = uri_start r" "uri_end r' = Some p"
  shows "uri_closed buf (Suc p) r'"
  using assms method_at_mono [of buf p r _ r' _ "Suc p"] by (fastforce simp: uri_open_def uri_closed_def)

lemma uri_closed_Suc:
  assumes "uri_closed buf p r" and "request_start r' = request_start r" "method_end r' = method_end r"
    "uri_start r' = uri_start r" "uri_end r' = uri_end r"
  shows "uri_closed buf (Suc p) r'"
  using assms method_at_mono [of buf p r _ r' _ "Suc p"] by (fastforce simp: uri_closed_def)

lemma schema_at_Suc:
  assumes "schema_at buf p r k" and "request_start r' = request_start r" "method_end r' = method_end r"
    "schema_end r' = schema_end r"
  shows "schema_at buf (Suc p) r' k"
  using assms method_at_mono [of buf p r _ r' _ "Suc p"] by (fastforce simp: schema_at_def)

lemma schema_closed:
  assumes "schema_at buf p r 3" and "request_start r' = request_start r" "method_end r' = method_end r"
    "schema_end r' = schema_end r"
  shows "uri_closed buf (Suc p) (uri_from_schema r')"
proof -
  from assms(1) obtain e where e: "schema_end r = Some e" "e + 3 \<le> p" "method_at buf p r e"
    "byte_at buf (e + 1) = C CHR ''/''" by (auto simp: schema_at_def)
  have "method_at buf (Suc p) (uri_from_schema r') (e + 1)"
    using method_at_mono [OF e(3), of "uri_from_schema r'" "e + 1" "Suc p"] assms(2,3) e(2)
    by (simp add: uri_from_schema_def)
  moreover have "no_ctl buf (e + 1) (e + 2)" using e(4) by (auto simp: no_ctl_def less_Suc_eq_le le_Suc_eq)
  ultimately show ?thesis using e assms(4)
    unfolding uri_closed_def by (intro exI [of _ "e + 1"] exI [of _ "e + 2"]) (simp add: uri_from_schema_def)
qed

lemma schema_uri_start:
  assumes "schema_at buf p r 3" and "byte_at buf p = C CHR ''/''"
    and "request_start r' = request_start r" "method_end r' = method_end r" "uri_start r' = Some p"
  shows "uri_open buf (Suc p) r'"
proof -
  have "method_at buf p r p" using assms(1) by (auto simp: schema_at_def intro: method_at_mono)
  then show ?thesis using uri_open_start assms(2-5) by blast
qed

text \<open>What holds when the parser reaches \<^verbatim>\<open>done\<close>.\<close>

definition rl_found :: "u8 list \<Rightarrow> nat \<Rightarrow> ngx_http_request \<Rightarrow> bool" where
  "rl_found buf p r \<longleftrightarrow> byte_at buf p = LF \<and> version_ok r \<and>
     (\<exists>e. (request_end r = None \<and> e = p \<or> request_end r = Some e \<and> e < p) \<and> uri_closed buf (Suc e) r)"

definition rl_inv :: "u8 list \<Rightarrow> nat \<Rightarrow> rl_state \<Rightarrow> ngx_http_request \<Rightarrow> bool" where
  "rl_inv buf p st r \<longleftrightarrow> rl_ok buf p st r \<and> request_end r = None \<and> version_ok r"

abbreviation rl_keeps :: "u8 list \<Rightarrow> nat \<Rightarrow> rl_act \<Rightarrow> bool" where
  "rl_keeps buf p a \<equiv> (case a of Next s' r' \<Rightarrow> rl_inv buf (p + 1) s' r' | Stay s' r' \<Rightarrow> rl_inv buf p s' r'
     | Leave s' r' e \<Rightarrow> e = Goto_done \<longrightarrow> rl_found buf p r')"

lemmas rl_inv_simps = rl_inv_def rl_ok_def rl_found_def version_ok_def

lemma rl_keeps_start:
  "rl_inv buf p sw_start r \<Longrightarrow> rl_keeps buf p (rl_step buf p sw_start r)"
  by (auto simp: rl_step_def rl_start_def rl_inv_simps Let_def less_Suc_eq)

lemma rl_keeps_method:
  assumes inv: "rl_inv buf p sw_method r"
  shows "rl_keeps buf p (rl_step buf p sw_method r)"
proof -
  from inv obtain a where a: "request_start r = Some a" "a < p"
    "\<And>i. a \<le> i \<Longrightarrow> i < p \<Longrightarrow> is_method_char (byte_at buf i)" by (auto simp: rl_inv_simps)
  have "method_at buf (Suc p) (r\<lparr>method_end := Some (p - 1)\<rparr>) (Suc p)"
    "method_at buf (Suc p) (r\<lparr>method_end := Some (p - 1), r_method := k\<rparr>) (Suc p)" for k
    using a by (auto simp: method_at_def)
  then show ?thesis using inv a
    by (auto simp: rl_step_def rl_method_def rl_inv_simps Let_def less_Suc_eq split: option.splits)
qed

lemma rl_keeps_schema:
  assumes inv: "rl_inv buf p st r"
    and st: "st \<in> {sw_spaces_before_uri, sw_schema, sw_schema_slash, sw_schema_slash_slash}"
  shows "rl_keeps buf p (rl_step buf p st r)"
proof -
  have m: "method_at buf (Suc x) r e" if "method_at buf x r e" for x e
    using that by (auto simp: method_at_def)
  have o: "uri_open buf (Suc p) (r\<lparr>uri_start := Some p\<rparr>)" if "method_at buf p r p" "byte_at buf p = 47"
    using uri_open_start [OF that(1), of "r\<lparr>uri_start := Some p\<rparr>"] that(2) by simp
  have n: "method_at buf (Suc p) r' q" if "method_at buf p r p" "request_start r' = request_start r"
    "method_end r' = method_end r" "p \<le> q" "q \<le> Suc p" for r' q
    using method_at_mono [OF that] .
  show ?thesis using inv st
    by (auto simp: rl_step_def rl_spaces_before_uri_def rl_schema_def rl_schema_slash_def
        rl_schema_slash_slash_def rl_inv_simps Let_def schema_at_def m o n)
qed

lemma rl_keeps_host:
  assumes inv: "rl_inv buf p st r"
    and st: "st \<in> {sw_host_start, sw_host, sw_host_end, sw_host_ip_literal, sw_port}"
  shows "rl_keeps buf p (rl_step buf p st r)"
proof -
  have s: "schema_at buf p r 3" using inv st by (auto simp: rl_inv_simps)
  note more = schema_at_Suc [OF s] schema_closed [OF s] schema_uri_start [OF s]
  have v: "http_major (uri_from_schema r') = http_major r'" "http_minor (uri_from_schema r') = http_minor r'"
    "request_end (uri_from_schema r') = request_end r'" for r'
    by (simp_all add: uri_from_schema_def)
  show ?thesis using inv st
    by (auto simp: rl_step_def rl_host_start_def rl_host_def rl_host_end_def rl_host_ip_literal_def rl_port_def
        rl_inv_def rl_ok_def Let_def v version_ok_def more)
qed

lemma usual_no_ctl: "is_usual ch \<Longrightarrow> ch \<notin> {0, CR, LF}"
  by (auto simp: is_usual_iff)

lemma rl_keeps_uri:
  assumes inv: "rl_inv buf p st r" and st: "st \<in> {sw_after_slash_in_uri, sw_check_uri, sw_uri}"
  shows "rl_keeps buf p (rl_step buf p st r)"
proof -
  have u: "uri_open buf p r" using inv st by (auto simp: rl_inv_simps)
  note more = uri_open_Suc [OF u] uri_open_close [OF u]
  show ?thesis using inv st usual_no_ctl [of "byte_at buf p"]
    by (auto simp: rl_step_def rl_after_slash_in_uri_def rl_check_uri_def rl_uri_def
        rl_inv_simps Let_def more)
qed

lemma rl_keeps_after_uri:
  assumes inv: "rl_inv buf p st r" and st: "st \<in> {sw_check_uri_http_09, sw_http_09, sw_host_http_09}"
  shows "rl_keeps buf p (rl_step buf p st r)"
proof -
  have c: "uri_closed buf p r" using inv st by (auto simp: rl_inv_simps)
  note more = uri_closed_Suc [OF c]
  have o: "uri_open buf (Suc p) r" if "uri_open buf p r" "byte_at buf p = 32"
    using uri_open_Suc [OF that(1)] that(2) by simp
  have sp: "uri_open buf p (r\<lparr>space_in_uri := True\<rparr>) = uri_open buf p r"
    by (simp add: uri_open_def method_at_def)
  show ?thesis using inv st
    by (auto simp: rl_step_def rl_check_uri_http_09_def rl_http_09_def rl_host_http_09_def
        rl_inv_simps Let_def more o sp)
qed

lemma rl_keeps_version:
  assumes inv: "rl_inv buf p st r"
    and st: "st \<in> {sw_http_H, sw_http_HT, sw_http_HTT, sw_http_HTTP, sw_first_major_digit, sw_major_digit,
      sw_first_minor_digit, sw_minor_digit, sw_spaces_after_digit}"
  shows "rl_keeps buf p (rl_step buf p st r)"
proof -
  have c: "uri_closed buf p r" using inv st by (auto simp: rl_inv_simps)
  note more = uri_closed_Suc [OF c]
  have d9: "x \<le> 999" if "x \<le> (9 :: 16 word)" for x using that by (rule order_trans) simp
  have d: "w * 10 + ucast ch - 48 \<le> 999" if "\<not> 99 < w" "\<not> ch < 48" "\<not> 57 < ch" for w :: "16 word" and ch :: u8
    using digit_bound16(1) [of w ch] that by (simp add: not_less)
  have e: "ucast ch - 48 \<le> (999 :: 16 word)" if "\<not> ch < 48" "\<not> 57 < ch" for ch :: u8
    using digit_bound16(2) [of 0 ch] that d9 by (simp add: not_less)
  have e1: "ucast ch - 48 \<le> (999 :: 16 word)" if "\<not> ch < 49" "\<not> 57 < ch" for ch :: u8
  proof (rule e)
    have "48 \<le> (49 :: u8)" by simp
    then show "\<not> ch < 48" using that(1) by (meson not_less order_trans)
  qed (rule that)
  show ?thesis using inv st
    by (auto simp: rl_step_def rl_expect_def rl_first_major_digit_def rl_major_digit_def
        rl_first_minor_digit_def rl_minor_digit_def rl_spaces_after_digit_def rl_inv_simps Let_def more d e e1)
qed

lemma rl_keeps_almost_done:
  assumes inv: "rl_inv buf p sw_almost_done r"
  shows "rl_keeps buf p (rl_step buf p sw_almost_done r)"
proof -
  have c: "uri_closed buf p r" "0 < p" using inv by (auto simp: rl_inv_simps uri_closed_def)
  then have "uri_closed buf (Suc (p - 1)) (r\<lparr>request_end := Some (p - 1)\<rparr>)"
    by (simp add: uri_closed_def method_at_def)
  then show ?thesis using inv c(2)
    by (auto simp: rl_step_def rl_almost_done_def rl_inv_simps Let_def)
qed

lemma rl_keeps_all: "rl_inv buf p st r \<Longrightarrow> rl_keeps buf p (rl_step buf p st r)"
  by (cases st)
    (simp_all only: rl_keeps_start rl_keeps_method rl_keeps_schema rl_keeps_host rl_keeps_uri
      rl_keeps_after_uri rl_keeps_version rl_keeps_almost_done insert_iff simp_thms)

section \<open>Reading back a printed request line\<close>

definition known_methods :: "(string \<times> nat) list" where
  "known_methods = [(''GET'', 0x0002), (''HEAD'', 0x0004), (''POST'', 0x0008), (''PUT'', 0x0010),
     (''DELETE'', 0x0020), (''MKCOL'', 0x0040), (''COPY'', 0x0080), (''MOVE'', 0x0100),
     (''OPTIONS'', 0x0200), (''PROPFIND'', 0x0400), (''PROPPATCH'', 0x0800), (''LOCK'', 0x1000),
     (''UNLOCK'', 0x2000), (''PATCH'', 0x4000), (''TRACE'', 0x8000)]"

definition request_line :: "string \<Rightarrow> u8 list \<Rightarrow> u8 \<Rightarrow> u8 \<Rightarrow> u8 list" where
  "request_line name tail major minor =
     bytes name @ [C CHR '' '', C CHR ''/''] @ tail @ bytes '' HTTP/'' @ [major, C CHR ''.'', minor, CR, LF]"

text \<open>One step of the loop on a byte at a known place.\<close>

lemma rl_loop_next:
  assumes "p < length buf" and "rl_step buf p st r = Next st' r'"
  shows "rl_loop buf p st r = rl_loop buf (Suc p) st' r'"
  using assms by (subst rl_loop.simps) simp

lemma rl_method_segment:
  assumes "list_all is_method_char us" and "request_start r = Some m"
  shows "rl_loop (xs @ us @ zs) (length xs) sw_method r = rl_loop (xs @ us @ zs) (length xs + length us) sw_method r"
proof (rule rl.loop_skip)
  fix i assume "length xs \<le> i" "i < length xs + length us"
  then obtain k where k: "i = length xs + k" "k < length us" by (metis add_less_cancel_left le_Suc_ex)
  then have "is_method_char (byte_at (xs @ us @ zs) i)" using assms(1) by (simp add: byte_at_in list_all_length)
  moreover have "\<not> is_method_char 32" by (simp add: is_method_char_def)
  ultimately show "rl_step (xs @ us @ zs) i sw_method r = Next sw_method r"
    by (auto simp: rl_step_def rl_method_def Let_def)
qed simp_all

lemma rl_usual_segment:
  assumes "list_all is_usual us"
  shows "rl_loop (xs @ us @ zs) (length xs) sw_check_uri r = rl_loop (xs @ us @ zs) (length xs + length us) sw_check_uri r"
proof (rule rl.loop_skip)
  fix i assume "length xs \<le> i" "i < length xs + length us"
  then obtain k where k: "i = length xs + k" "k < length us" by (metis add_less_cancel_left le_Suc_ex)
  then have "is_usual (byte_at (xs @ us @ zs) i)" using assms by (simp add: byte_at_in list_all_length)
  then show "rl_step (xs @ us @ zs) i sw_check_uri r = Next sw_check_uri r"
    by (simp add: rl_step_def rl_check_uri_def Let_def)
qed simp_all


text \<open>The method name and the space after it.\<close>

lemma method_chars: "(name, k) \<in> set known_methods \<Longrightarrow> list_all is_method_char (bytes name)"
  by (auto simp: known_methods_def is_method_char_def)

lemma method_of_known:
  "(name, k) \<in> set known_methods \<Longrightarrow> method_of (bytes name @ C CHR '' '' # zs) 0 (length name) = Some k"
  by (auto simp: known_methods_def; simp add: method_of_def str_cmp_simps; simp add: join32_def)

lemma rl_read_method:
  assumes "(name, k) \<in> set known_methods"
  shows "rl_loop (bytes name @ C CHR '' '' # zs) 0 sw_start r =
    rl_loop (bytes name @ C CHR '' '' # zs) (Suc (length name)) sw_spaces_before_uri
      (r\<lparr>request_start := Some 0, method_end := Some (length name - 1), r_method := k\<rparr>)"
proof -
  obtain c cs where n: "name = c # cs" using assms by (cases name) (auto simp: known_methods_def)
  let ?buf = "bytes name @ C CHR '' '' # zs" and ?r = "r\<lparr>request_start := Some 0\<rparr>"
  have mc: "is_method_char (C c)" "list_all is_method_char (bytes cs)"
    using method_chars [OF assms] n by simp_all
  have nctl: "\<not> is_method_char CR" "\<not> is_method_char LF" by (simp_all add: is_method_char_def)
  have "rl_step ?buf 0 sw_start r = Next sw_method ?r"
    using mc(1) nctl n by (auto simp: rl_step_def rl_start_def Let_def byte_at_def)
  then have "rl_loop ?buf 0 sw_start r = rl_loop ?buf (Suc 0) sw_method ?r"
    by (intro rl_loop_next) (simp_all add: n)
  also have "\<dots> = rl_loop ?buf (length name) sw_method ?r"
    using rl_method_segment [OF mc(2), of ?r 0 "[C c]" "C CHR '' '' # zs"] n by simp
  also have "\<dots> = rl_loop ?buf (Suc (length name)) sw_spaces_before_uri
      (?r\<lparr>method_end := Some (length name - 1), r_method := k\<rparr>)"
  proof (rule rl_loop_next)
    have "byte_at ?buf (length name) = 32" using byte_at_here [of "bytes name" 32 zs] by simp
    then show "rl_step ?buf (length name) sw_method ?r = Next sw_spaces_before_uri
      (?r\<lparr>method_end := Some (length name - 1), r_method := k\<rparr>)"
      using method_of_known [OF assms, of zs] by (simp add: rl_step_def rl_method_def Let_def)
  qed simp
  finally show ?thesis .
qed

text \<open>The protocol part, from the space that ends the URI.\<close>

lemma rl_read_protocol:
  assumes st: "st \<in> {sw_after_slash_in_uri, sw_check_uri}"
    and maj: "49 \<le> major" "major \<le> 57" and min: "48 \<le> minor" "minor \<le> 57"
  shows "rl_loop (pre @ bytes '' HTTP/'' @ [major, C CHR ''.'', minor, CR, LF] @ zs) (length pre) st r =
    Stop (length pre + 10) sw_almost_done
      (r\<lparr>uri_end := Some (length pre), http_protocol_data := Some (Suc (length pre)),
         http_major := ucast major - 48, http_minor := ucast minor - 48,
         request_end := Some (length pre + 9)\<rparr>) Goto_done"
proof -
  have nu: "\<not> is_usual 32" by (simp add: is_usual_iff)
  have m: "\<not> major < 49" "\<not> 57 < major" "\<not> minor < 48" "\<not> 57 < minor" using maj min by auto
  show ?thesis using st m
    by (auto simp: rl_loop.simps rl_step_def rl_state_defs byte_at_def nth_append nu Let_def)
qed

section \<open>Properties\<close>

text \<open>
  (C19) The request line parser may be given the input in pieces. If it ran out of bytes on
  \<open>xs\<close>, then calling it again with the saved state on the longer buffer \<open>xs @ ys\<close> gives the
  return code and the request that one call on \<open>xs @ ys\<close> gives (and the same position and
  state, unless the line is invalid); if it returned anything but \<^verbatim>\<open>NGX_AGAIN\<close> on \<open>xs\<close>, more
  input makes no difference.
\<close>

theorem parse_request_line_incremental:
  "case ngx_http_parse_request_line xs pos st r of (rc, p1, st1, r1) \<Rightarrow>
     if rc = NGX_AGAIN then
       (case (ngx_http_parse_request_line (xs @ ys) pos st r, ngx_http_parse_request_line (xs @ ys) p1 st1 r1) of
          ((rc, p, s, r), (rc', p', s', r')) \<Rightarrow> rc = rc' \<and> r = r' \<and>
            (rc \<in> {NGX_OK, NGX_AGAIN, NGX_HTTP_PARSE_INVALID_09_METHOD} \<longrightarrow> p = p' \<and> s = s'))
     else ngx_http_parse_request_line (xs @ ys) pos st r = (rc, p1, st1, r1)"
proof (cases "rl_loop xs pos st r")
  case (More p1 st1 r1)
  have l: "rl_loop (xs @ ys) pos st r = rl_loop (xs @ ys) p1 st1 r1" using rl.loop_resume [OF More] .
  have a: "ngx_http_parse_request_line xs pos st r = (NGX_AGAIN, p1, st1, r1)"
    using More by (simp add: parse_request_line_again_iff)
  show ?thesis
  proof (cases "rl_loop (xs @ ys) p1 st1 r1")
    case (Stop p s r' e)
    then show ?thesis using a l rl_stop_exit [OF Stop]
      by (auto simp: ngx_http_parse_request_line_def split: prod.splits)
  qed (use a l in \<open>simp add: ngx_http_parse_request_line_def\<close>)
next
  case (Stop p1 st1 r1 e)
  have "fst (ngx_http_parse_request_line xs pos st r) \<noteq> NGX_AGAIN"
    using parse_request_line_again_iff [of xs pos st r] Stop by (metis outcome.distinct(1) prod.collapse)
  moreover have "ngx_http_parse_request_line (xs @ ys) pos st r = ngx_http_parse_request_line xs pos st r"
    using rl.loop_stopped [OF Stop] Stop by (simp add: ngx_http_parse_request_line_def)
  ultimately show ?thesis by (cases "ngx_http_parse_request_line xs pos st r") auto
qed

theorem parse_request_line_incremental_witness:
  "case ngx_http_parse_request_line (bytes ''GE'') 0 sw_start request_init of (rc, p1, st1, r1) \<Rightarrow>
     rc = NGX_AGAIN \<and> p1 = 2 \<and>
     ngx_http_parse_request_line (bytes ''GE'' @ bytes ''T'') p1 st1 r1 =
     ngx_http_parse_request_line (bytes ''GE'' @ bytes ''T'') 0 sw_start request_init"
proof -
  note eval = ngx_http_parse_request_line_def rl_loop.simps rl_step_def rl_state_defs Let_def is_method_char_def
  have one: "ngx_http_parse_request_line (bytes ''GE'') 0 sw_start request_init =
      (NGX_AGAIN, 2, sw_method, request_init\<lparr>request_start := Some 0\<rparr>)" by (simp add: eval)
  have two: "ngx_http_parse_request_line (bytes ''GE'' @ bytes ''T'') 0 sw_start request_init =
      (NGX_AGAIN, 3, sw_method, request_init\<lparr>request_start := Some 0\<rparr>)" by (simp add: eval)
  from parse_request_line_incremental [where xs = "bytes ''GE''" and pos = 0 and st = sw_start and r = request_init and
      ys = "bytes ''T''"]
  show ?thesis unfolding one two by (auto split: prod.splits)
qed

text \<open>
  (C20) When the request line of a new request is accepted, the positions the parser reports
  are ordered and inside the buffer: the method is a non-empty run of the allowed bytes, the
  URI starts with a slash after it and holds no NUL, CR or LF, the line ends after the URI,
  and the position after the line feed is the next one to read. The version numbers have at
  most three digits, so the 16-bit fields do not wrap.
\<close>

theorem parse_request_line_positions:
  assumes "ngx_http_parse_request_line buf 0 sw_start request_init = (NGX_OK, pos, st, r)"
  shows "\<exists>a b c d e. request_start r = Some a \<and> method_end r = Some b \<and> uri_start r = Some c \<and>
    uri_end r = Some d \<and> request_end r = Some e \<and>
    a \<le> b \<and> b < c \<and> c < d \<and> d \<le> e \<and> e < pos \<and> pos \<le> length buf \<and>
    (\<forall>i. a \<le> i \<and> i \<le> b \<longrightarrow> is_method_char (buf ! i)) \<and> buf ! c = C CHR ''/'' \<and>
    (\<forall>i. c \<le> i \<and> i < d \<longrightarrow> buf ! i \<notin> {0, CR, LF}) \<and> buf ! (pos - 1) = LF \<and>
    unat (http_major r) \<le> 999 \<and> unat (http_minor r) \<le> 999 \<and>
    http_version r = unat (http_major r) * 1000 + unat (http_minor r) \<and> st = sw_start"
proof -
  have inv: "case rl_loop buf 0 sw_start request_init of More p s r \<Rightarrow> rl_inv buf p s r
      | Stop p s r e \<Rightarrow> p < length buf \<and> (e = Goto_done \<longrightarrow> rl_found buf p r)"
  proof (rule rl.loop_invariant)
    fix p s r assume "p < length buf" "rl_inv buf p s r"
    then show "case rl_step buf p s r of Next s' r' \<Rightarrow> rl_inv buf (p + 1) s' r' | Stay s' r' \<Rightarrow> rl_inv buf p s' r'
        | Leave s' r' e \<Rightarrow> p < length buf \<and> (e = Goto_done \<longrightarrow> rl_found buf p r')"
      using rl_keeps_all [of buf p s r] by (auto split: act.splits)
  qed (simp add: rl_inv_simps request_init_def)
  from assms rl_stop_exit [of buf 0 sw_start request_init] obtain p s q where q: "rl_loop buf 0 sw_start request_init = Stop p s q Goto_done"
    and r: "rl_done p q = (NGX_OK, pos, st, r)"
    unfolding ngx_http_parse_request_line_def by (auto split: outcome.splits exit.splits)
  with inv have p: "p < length buf" and f: "rl_found buf p q" by auto
  from f obtain e where e: "request_end q = None \<and> e = p \<or> request_end q = Some e \<and> e < p"
    and u: "uri_closed buf (Suc e) q" and lf: "byte_at buf p = LF" and v: "version_ok q"
    by (auto simp: rl_found_def)
  from u obtain c d where cd: "uri_start q = Some c" "uri_end q = Some d" "c < d" "d < Suc e"
    "method_at buf (Suc e) q c" "byte_at buf c = 47" "no_ctl buf c d" by (auto simp: uri_closed_def)
  from cd(5) obtain a b where ab: "request_start q = Some a" "method_end q = Some b" "a \<le> b" "b + 1 < c"
    "\<forall>i. a \<le> i \<and> i \<le> b \<longrightarrow> is_method_char (byte_at buf i)" by (auto simp: method_at_def)
  have rr: "pos = Suc p" "st = sw_start" "request_end r = Some e" "request_start r = Some a"
    "method_end r = Some b" "uri_start r = Some c" "uri_end r = Some d"
    "http_major r = http_major q" "http_minor r = http_minor q"
    "http_version r = unat (http_major q) * 1000 + unat (http_minor q)"
    using r e ab cd by (auto simp: rl_done_def Let_def split: if_splits)
  have le: "e \<le> p" using e by auto
  have at: "byte_at buf i = buf ! i" if "i \<le> p" for i using that p by (simp add: byte_at_def)
  have "is_method_char (buf ! i)" if "a \<le> i" "i \<le> b" for i
    using ab(4,5) cd(3,4) le at [of i] that by auto
  moreover have "buf ! i \<notin> {0, CR, LF}" if "c \<le> i" "i < d" for i
    using cd(4,7) le at [of i] that unfolding no_ctl_def by auto
  moreover have "unat (http_major q) \<le> 999" "unat (http_minor q) \<le> 999"
    using v by (simp_all add: version_ok_def word_le_nat_alt)
  ultimately show ?thesis using rr ab cd p le lf at [of c] at [of p] by auto
qed

theorem parse_request_line_positions_witness:
  "fst (ngx_http_parse_request_line (request_line ''GET'' (bytes ''a'') 49 49) 0 sw_start request_init) = NGX_OK \<and>
   (\<exists>a b c d. request_start (snd (snd (snd (ngx_http_parse_request_line (request_line ''GET'' (bytes ''a'') 49 49) 0
      sw_start request_init)))) = Some a \<and> a \<le> b \<and> b < c \<and> c < d)"
proof -
  obtain pos st r where p: "ngx_http_parse_request_line (request_line ''GET'' (bytes ''a'') 49 49) 0
      sw_start request_init = (NGX_OK, pos, st, r)"
    by (simp add: request_line_def ngx_http_parse_request_line_def rl_loop.simps rl_step_def rl_state_defs
        Let_def is_usual_iff is_method_char_def method_of_def str_cmp_simps request_init_def rl_done_def)
  from parse_request_line_positions [OF p] p show ?thesis by auto
qed

text \<open>
  (C21) Reading back a printed request line: for each of the 15 methods nginx knows, a path of
  ordinary characters and a one-digit version, the parser returns \<^verbatim>\<open>NGX_OK\<close>, consumes the
  line, and reports that method, the extent of that URI and that version.
\<close>

theorem parse_request_line_roundtrip:
  assumes "(name, k) \<in> set known_methods" and "list_all is_usual tail"
    and "49 \<le> major" "major \<le> 57" and "48 \<le> minor" "minor \<le> 57"
  shows "\<exists>r. ngx_http_parse_request_line (request_line name tail major minor @ zs) 0 sw_start request_init =
      (NGX_OK, length (request_line name tail major minor), sw_start, r) \<and>
    r_method r = k \<and> request_start r = Some 0 \<and> method_end r = Some (length name - 1) \<and>
    uri_start r = Some (length name + 1) \<and> uri_end r = Some (length name + 2 + length tail) \<and>
    args_start r = None \<and> \<not> complex_uri r \<and> \<not> quoted_uri r \<and>
    http_version r = unat (major - 48) * 1000 + unat (minor - 48)"
proof -
  let ?proto = "bytes '' HTTP/'' @ [major, C CHR ''.'', minor, CR, LF] @ zs"
  let ?pre = "bytes name @ [32, 47] @ tail"
  let ?buf = "?pre @ ?proto"
  let ?r0 = "request_init\<lparr>request_start := Some 0, method_end := Some (length name - 1), r_method := k\<rparr>"
  let ?r1 = "?r0\<lparr>uri_start := Some (Suc (length name))\<rparr>"
  have buf: "request_line name tail major minor @ zs = ?buf" by (simp add: request_line_def)
  have one: "rl_loop ?buf 0 sw_start request_init = rl_loop ?buf (Suc (length name)) sw_spaces_before_uri ?r0"
    using rl_read_method [OF assms(1), of "47 # tail @ ?proto"] by simp
  have two: "rl_loop ?buf (Suc (length name)) sw_spaces_before_uri ?r0 =
      rl_loop ?buf (Suc (Suc (length name))) sw_after_slash_in_uri ?r1"
  proof (rule rl_loop_next)
    have "byte_at ?buf (Suc (length name)) = 47" using byte_at_skip(2) [of "bytes name"] by simp
    then show "rl_step ?buf (Suc (length name)) sw_spaces_before_uri ?r0 = Next sw_after_slash_in_uri ?r1"
      by (simp add: rl_step_def rl_spaces_before_uri_def)
  qed simp
  have "\<exists>st \<in> {sw_after_slash_in_uri, sw_check_uri}.
      rl_loop ?buf (Suc (Suc (length name))) sw_after_slash_in_uri ?r1 = rl_loop ?buf (length ?pre) st ?r1"
  proof (cases tail)
    case (Cons u us)
    have "rl_loop ?buf (Suc (Suc (length name))) sw_after_slash_in_uri ?r1 =
        rl_loop ?buf (Suc (Suc (Suc (length name)))) sw_check_uri ?r1"
    proof (rule rl_loop_next)
      have "byte_at ?buf (length name + 2) = u" using byte_at_skip(5) [of "bytes name" _ 2] Cons by simp
      then show "rl_step ?buf (Suc (Suc (length name))) sw_after_slash_in_uri ?r1 = Next sw_check_uri ?r1"
        using assms(2) Cons by (simp add: rl_step_def rl_after_slash_in_uri_def)
    qed simp
    also have "\<dots> = rl_loop ?buf (length ?pre) sw_check_uri ?r1"
      using rl_usual_segment [of us "bytes name @ [32, 47, u]" ?proto ?r1] assms(2) Cons by simp
    finally show ?thesis by blast
  qed auto
  then obtain st where st: "st \<in> {sw_after_slash_in_uri, sw_check_uri}"
    and three: "rl_loop ?buf (Suc (Suc (length name))) sw_after_slash_in_uri ?r1 = rl_loop ?buf (length ?pre) st ?r1" ..
  note run = trans [OF one trans [OF two three]]
  have d: "unat (ucast x - 48 :: 16 word) = unat (x - 48)"
    if "48 \<le> x" for x :: u8
  proof -
    have "48 \<le> unat x" "unat (ucast x :: 16 word) = unat x"
      using that unsigned_less [of x, where 'a = nat]
      by (simp_all add: word_le_nat_alt unsigned_ucast_eq take_bit_nat_eq_self)
    moreover have "unat (x - 48) = unat x - 48" using that by (simp add: unat_sub)
    ultimately show ?thesis by (simp add: unat_sub word_le_nat_alt)
  qed
  have m: "48 \<le> major" using assms(3) by (rule order_trans [rotated]) simp
  have "unat (major - 48) \<noteq> 0"
    using assms(3) m by (simp add: unat_sub word_le_nat_alt)
  then show ?thesis
    using run rl_read_protocol [OF st assms(3-6), of ?pre zs ?r1] d [OF m] d [OF assms(5)]
    unfolding buf by (simp add: ngx_http_parse_request_line_def rl_done_def request_line_def request_init_def)
qed

theorem parse_request_line_roundtrip_witness:
  "\<exists>r. ngx_http_parse_request_line (request_line ''DELETE'' (bytes ''x-y'') 49 48 @ [65]) 0 sw_start request_init =
      (NGX_OK, length (request_line ''DELETE'' (bytes ''x-y'') 49 48), sw_start, r) \<and> r_method r = 0x0020"
  using parse_request_line_roundtrip [where name = "''DELETE''" and k = 32 and
    tail = "bytes ''x-y''" and major = 49 and minor = 48 and zs = "[65]"]
  by (auto simp: known_methods_def is_usual_iff)

end
