(* ===== verification/Ngx_Http_Header_Line.thy ===== *)
theory Ngx_Http_Header_Line
  imports Ngx_Http_Request
begin

text \<open>
  \<^verbatim>\<open>ngx_http_parse_header_line\<close>: the states of the \<^verbatim>\<open>switch\<close>, the loop, and the three ways out
  (\<^verbatim>\<open>NGX_AGAIN\<close>, \<^verbatim>\<open>done\<close>, \<^verbatim>\<open>header_done\<close>). The locals \<^verbatim>\<open>hash\<close> and \<^verbatim>\<open>i\<close> are carried beside the
  request and written back to it as the code does.
\<close>

datatype hl_state = sw_start | sw_name | sw_space_before_value | sw_value | sw_space_after_value
  | sw_ignore_line | sw_almost_done | sw_header_almost_done

datatype hl_exit = Hl_done | Hl_header_done | Hl_return rc

record hl_ctx =
  hl_r :: ngx_http_request
  hl_hash :: u64
  hl_i :: nat

type_synonym hl_act = "(hl_state, hl_ctx, hl_exit) act"
type_synonym hl_outcome = "(hl_state, hl_ctx, hl_exit) outcome"

definition lowcase :: "u8 list" where
  "lowcase = replicate 45 0 @ bytes ''-'' @ replicate 2 0 @ bytes ''0123456789'' @ replicate 6 0 @
     0 # bytes ''abcdefghijklmnopqrstuvwxyz'' @ replicate 5 0 @
     0 # bytes ''abcdefghijklmnopqrstuvwxyz'' @ replicate 5 0 @ replicate 128 0"

definition ngx_hash :: "u64 \<Rightarrow> u8 \<Rightarrow> u64" where
  "ngx_hash key c = key * 31 + ucast c"

abbreviation (input) NGX_HTTP_LC_HEADER_LEN :: nat where "NGX_HTTP_LC_HEADER_LEN \<equiv> 32"

abbreviation (input) invalid_hl :: "hl_state \<Rightarrow> hl_ctx \<Rightarrow> hl_act" where
  "invalid_hl s x \<equiv> Leave s x (Hl_return NGX_HTTP_PARSE_INVALID_HEADER)"

text \<open>The first byte of a name starts a new hash and a new lower-case name.\<close>

definition hl_first :: "u8 \<Rightarrow> hl_ctx \<Rightarrow> hl_ctx" where
  "hl_first c x = x\<lparr>hl_hash := ngx_hash 0 c, hl_i := 1,
     hl_r := (hl_r x)\<lparr>lowcase_header := (lowcase_header (hl_r x))[0 := c]\<rparr>\<rparr>"

text \<open>A further byte: \<^verbatim>\<open>r->lowcase_header[i++] = c; i &= (NGX_HTTP_LC_HEADER_LEN - 1);\<close>.\<close>

definition hl_push :: "u8 \<Rightarrow> hl_ctx \<Rightarrow> hl_ctx" where
  "hl_push c x = x\<lparr>hl_hash := ngx_hash (hl_hash x) c,
     hl_i := (hl_i x + 1) AND (NGX_HTTP_LC_HEADER_LEN - 1),
     hl_r := (hl_r x)\<lparr>lowcase_header := (lowcase_header (hl_r x))[hl_i x := c]\<rparr>\<rparr>"

definition hl_set :: "(ngx_http_request \<Rightarrow> ngx_http_request) \<Rightarrow> hl_ctx \<Rightarrow> hl_ctx" where
  "hl_set f x = x\<lparr>hl_r := f (hl_r x)\<rparr>"

definition hl_start :: "bool \<Rightarrow> nat \<Rightarrow> u8 \<Rightarrow> hl_ctx \<Rightarrow> hl_act" where
  "hl_start allow_underscores p ch x0 =
     (let x = hl_set (\<lambda>r. r\<lparr>header_name_start := Some p, invalid_header := False\<rparr>) x0 in
      if ch = CR then Next sw_header_almost_done (hl_set (\<lambda>r. r\<lparr>header_end := Some p\<rparr>) x)
      else if ch = LF then Leave sw_start (hl_set (\<lambda>r. r\<lparr>header_end := Some p\<rparr>) x) Hl_header_done
      else
        let c = lowcase ! unat ch in
        if c \<noteq> 0 then Next sw_name (hl_first c x)
        else if ch = C CHR ''_'' then
          (if allow_underscores then Next sw_name (hl_first ch x)
           else Next sw_name (hl_set (\<lambda>r. r\<lparr>invalid_header := True\<rparr>) x))
        else if ch = 0 then invalid_hl sw_name x
        else Next sw_name (hl_set (\<lambda>r. r\<lparr>invalid_header := True\<rparr>) x))"

definition hl_name :: "bool \<Rightarrow> u8 list \<Rightarrow> nat \<Rightarrow> u8 \<Rightarrow> hl_ctx \<Rightarrow> hl_act" where
  "hl_name allow_underscores buf p ch x =
     (let c = lowcase ! unat ch in
      if c \<noteq> 0 then Next sw_name (hl_push c x)
      else if ch = C CHR ''_'' then
        (if allow_underscores then Next sw_name (hl_push ch x)
         else Next sw_name (hl_set (\<lambda>r. r\<lparr>invalid_header := True\<rparr>) x))
      else if ch = C CHR '':'' then
        Next sw_space_before_value (hl_set (\<lambda>r. r\<lparr>header_name_end := Some p\<rparr>) x)
      else if ch = CR then
        Next sw_almost_done
          (hl_set (\<lambda>r. r\<lparr>header_name_end := Some p, header_start := Some p, header_end := Some p\<rparr>) x)
      else if ch = LF then
        Leave sw_name
          (hl_set (\<lambda>r. r\<lparr>header_name_end := Some p, header_start := Some p, header_end := Some p\<rparr>) x) Hl_done
      else if ch = C CHR ''/'' \<and> upstream (hl_r x) \<and>
          (case header_name_start (hl_r x) of
             None \<Rightarrow> False
           | Some m \<Rightarrow> p = m + 4 \<and> byte_at buf m = C CHR ''H'' \<and> byte_at buf (m + 1) = C CHR ''T'' \<and>
               byte_at buf (m + 2) = C CHR ''T'' \<and> byte_at buf (m + 3) = C CHR ''P'')
      then Next sw_ignore_line x
      else if ch = 0 then invalid_hl sw_name x
      else Next sw_name (hl_set (\<lambda>r. r\<lparr>invalid_header := True\<rparr>) x))"

definition hl_space_before_value :: "nat \<Rightarrow> u8 \<Rightarrow> hl_ctx \<Rightarrow> hl_act" where
  "hl_space_before_value p ch x =
     (if ch = C CHR '' '' then Next sw_space_before_value x
      else if ch = CR then
        Next sw_almost_done (hl_set (\<lambda>r. r\<lparr>header_start := Some p, header_end := Some p\<rparr>) x)
      else if ch = LF then
        Leave sw_space_before_value (hl_set (\<lambda>r. r\<lparr>header_start := Some p, header_end := Some p\<rparr>) x) Hl_done
      else if ch = 0 then invalid_hl sw_space_before_value x
      else Next sw_value (hl_set (\<lambda>r. r\<lparr>header_start := Some p\<rparr>) x))"

definition hl_value :: "nat \<Rightarrow> u8 \<Rightarrow> hl_ctx \<Rightarrow> hl_act" where
  "hl_value p ch x =
     (if ch = C CHR '' '' then Next sw_space_after_value (hl_set (\<lambda>r. r\<lparr>header_end := Some p\<rparr>) x)
      else if ch = CR then Next sw_almost_done (hl_set (\<lambda>r. r\<lparr>header_end := Some p\<rparr>) x)
      else if ch = LF then Leave sw_value (hl_set (\<lambda>r. r\<lparr>header_end := Some p\<rparr>) x) Hl_done
      else if ch = 0 then invalid_hl sw_value x
      else Next sw_value x)"

definition hl_space_after_value :: "u8 \<Rightarrow> hl_ctx \<Rightarrow> hl_act" where
  "hl_space_after_value ch x =
     (if ch = C CHR '' '' then Next sw_space_after_value x
      else if ch = CR then Next sw_almost_done x
      else if ch = LF then Leave sw_space_after_value x Hl_done
      else if ch = 0 then invalid_hl sw_space_after_value x
      else Next sw_value x)"

definition hl_ignore_line :: "u8 \<Rightarrow> hl_ctx \<Rightarrow> hl_act" where
  "hl_ignore_line ch x = (if ch = LF then Next sw_start x else Next sw_ignore_line x)"

definition hl_almost_done :: "u8 \<Rightarrow> hl_ctx \<Rightarrow> hl_act" where
  "hl_almost_done ch x =
     (if ch = LF then Leave sw_almost_done x Hl_done
      else if ch = CR then Next sw_almost_done x
      else invalid_hl sw_almost_done x)"

definition hl_header_almost_done :: "u8 \<Rightarrow> hl_ctx \<Rightarrow> hl_act" where
  "hl_header_almost_done ch x =
     (if ch = LF then Leave sw_header_almost_done x Hl_header_done
      else invalid_hl sw_header_almost_done x)"

definition hl_step :: "bool \<Rightarrow> u8 list \<Rightarrow> nat \<Rightarrow> hl_state \<Rightarrow> hl_ctx \<Rightarrow> hl_act" where
  "hl_step allow_underscores buf p st x =
     (let ch = byte_at buf p in
      case st of
        sw_start \<Rightarrow> hl_start allow_underscores p ch x
      | sw_name \<Rightarrow> hl_name allow_underscores buf p ch x
      | sw_space_before_value \<Rightarrow> hl_space_before_value p ch x
      | sw_value \<Rightarrow> hl_value p ch x
      | sw_space_after_value \<Rightarrow> hl_space_after_value ch x
      | sw_ignore_line \<Rightarrow> hl_ignore_line ch x
      | sw_almost_done \<Rightarrow> hl_almost_done ch x
      | sw_header_almost_done \<Rightarrow> hl_header_almost_done ch x)"

lemmas hl_state_defs = hl_start_def hl_name_def hl_space_before_value_def hl_value_def
  hl_space_after_value_def hl_ignore_line_def hl_almost_done_def hl_header_almost_done_def

lemma hl_no_stay: "hl_step u buf p st x \<noteq> Stay st' x'"
  by (cases st) (auto simp: hl_step_def hl_state_defs Let_def)

function hl_loop :: "bool \<Rightarrow> u8 list \<Rightarrow> nat \<Rightarrow> hl_state \<Rightarrow> hl_ctx \<Rightarrow> hl_outcome" where
  "hl_loop u buf p st x =
     (if p < length buf
      then (case hl_step u buf p st x of
              Next st' x' \<Rightarrow> hl_loop u buf (p + 1) st' x'
            | Stay st' x' \<Rightarrow> hl_loop u buf p st' x'
            | Leave st' x' e \<Rightarrow> Stop p st' x' e)
      else More p st x)"
  by pat_completeness auto
termination
  by (relation "measure (\<lambda>(u, buf, p, st, x). length buf - p)") (auto simp: hl_no_stay)

declare hl_loop.simps [simp del]

definition ngx_http_parse_header_line ::
  "u8 list \<Rightarrow> nat \<Rightarrow> hl_state \<Rightarrow> ngx_http_request \<Rightarrow> bool \<Rightarrow> rc \<times> nat \<times> hl_state \<times> ngx_http_request"
where
  "ngx_http_parse_header_line buf pos st r allow_underscores =
     (case hl_loop allow_underscores buf pos st
             \<lparr>hl_r = r, hl_hash = header_hash r, hl_i = lowcase_index r\<rparr> of
        More p st' x \<Rightarrow>
          (NGX_AGAIN, p, st', (hl_r x)\<lparr>header_hash := hl_hash x, lowcase_index := hl_i x\<rparr>)
      | Stop p st' x Hl_done \<Rightarrow>
          (NGX_OK, p + 1, sw_start, (hl_r x)\<lparr>header_hash := hl_hash x, lowcase_index := hl_i x\<rparr>)
      | Stop p st' x Hl_header_done \<Rightarrow> (NGX_HTTP_PARSE_HEADER_DONE, p + 1, sw_start, hl_r x)
      | Stop p st' x (Hl_return rc) \<Rightarrow> (rc, pos, st, hl_r x))"

section \<open>The parser is incremental\<close>

lemma hl_step_prefix:
  assumes "p < length xs"
  shows "hl_step u (xs @ ys) p st x = hl_step u xs p st x"
proof -
  have "hl_name u (xs @ ys) p ch x = hl_name u xs p ch x" for ch
    using assms by (auto simp: hl_name_def byte_at_append Let_def split: option.splits)
  then show ?thesis using assms by (simp add: hl_step_def byte_at_append cong: hl_state.case_cong)
qed

interpretation hl: byte_parser "hl_step u" "hl_loop u" "\<lambda>_. 0" for u
proof
  show "hl_loop u buf p s r = parse_round (hl_step u) (hl_loop u) buf p s r" for buf p s r
    by (subst hl_loop.simps) (simp add: parse_round_def)
qed (auto simp: hl_step_prefix hl_no_stay)

lemma hl_stop_exit:
  assumes "hl_loop u buf p st x = Stop p' st' x' e"
  shows "e \<in> {Hl_done, Hl_header_done, Hl_return NGX_HTTP_PARSE_INVALID_HEADER}"
proof -
  have "e \<in> {Hl_done, Hl_header_done, Hl_return NGX_HTTP_PARSE_INVALID_HEADER}"
    if "hl_step u buf p st x = Leave st' x' e" for p st x st' x' e
    using that by (cases st) (auto simp: hl_step_def Let_def hl_state_defs split: if_splits option.splits)
  then have "case hl_loop u buf p st x of More p' s' r' \<Rightarrow> True
    | Stop p' s' r' e \<Rightarrow> e \<in> {Hl_done, Hl_header_done, Hl_return NGX_HTTP_PARSE_INVALID_HEADER}"
    by (intro hl.loop_invariant [where I = "\<lambda>_ _ _. True"]) (auto split: act.splits)
  with assms show ?thesis by simp
qed

end
