(* ===== verification/Ngx_Http_Header_Line_Props.thy ===== *)
theory Ngx_Http_Header_Line_Props
  imports Ngx_Http_Header_Line
begin

text \<open>
  Properties of the header line parser: it can be fed in pieces, the name and the value it
  reports are inside the line and free of control bytes, the write into the fixed array
  \<^verbatim>\<open>lowcase_header\<close> stays in bounds, and a printed header line is read back.
\<close>

section \<open>The saved hash and index\<close>

text \<open>
  The parser reads \<^verbatim>\<open>r->header_hash\<close> and \<^verbatim>\<open>r->lowcase_index\<close> only on entry, so a run does not
  depend on what these two fields hold meanwhile.
\<close>

definition hl_over :: "u64 \<Rightarrow> nat \<Rightarrow> hl_ctx \<Rightarrow> hl_ctx" where
  "hl_over h i = hl_set (\<lambda>r. r\<lparr>header_hash := h, lowcase_index := i\<rparr>)"

definition hl_erase :: "ngx_http_request \<Rightarrow> ngx_http_request" where
  "hl_erase r = r\<lparr>header_hash := 0, lowcase_index := 0\<rparr>"

lemma hl_over_prims:
  "hl_first c (hl_over h i x) = hl_over h i (hl_first c x)"
  "hl_push c (hl_over h i x) = hl_over h i (hl_push c x)"
  "(\<And>r. f (r\<lparr>header_hash := h, lowcase_index := i\<rparr>) = (f r)\<lparr>header_hash := h, lowcase_index := i\<rparr>) \<Longrightarrow>
   hl_set f (hl_over h i x) = hl_over h i (hl_set f x)"
  "upstream (hl_r (hl_over h i x)) = upstream (hl_r x)"
  "header_name_start (hl_r (hl_over h i x)) = header_name_start (hl_r x)"
  by (simp_all add: hl_over_def hl_set_def hl_first_def hl_push_def)

lemma hl_step_over:
  "hl_step u buf p st (hl_over h i x) = map_act id (hl_over h i) id (hl_step u buf p st x)"
  by (cases st)
    (simp_all add: hl_step_def hl_state_defs hl_over_prims Let_def if_distrib [of "map_act id (hl_over h i) id"]
      cong: if_cong)

lemma hl_loop_over:
  "hl_loop u buf p st (hl_over h i x) = map_outcome id (hl_over h i) id (hl_loop u buf p st x)"
proof (induction u buf p st x rule: hl_loop.induct)
  case (1 u buf p st x)
  show ?case
    by (subst (1 2) hl_loop.simps)
      (use 1 in \<open>auto simp: hl_step_over id_def split: act.splits\<close>)
qed

definition hl_save :: "hl_ctx \<Rightarrow> ngx_http_request" where
  "hl_save x = (hl_r x)\<lparr>header_hash := hl_hash x, lowcase_index := hl_i x\<rparr>"

lemma hl_save_load: "\<lparr>hl_r = hl_save x, hl_hash = header_hash (hl_save x), hl_i = lowcase_index (hl_save x)\<rparr> =
    hl_over (hl_hash x) (hl_i x) x"
  by (simp add: hl_save_def hl_over_def hl_set_def)

lemma hl_save_over [simp]: "hl_save (hl_over h i x) = hl_save x"
  by (simp add: hl_save_def hl_over_def hl_set_def)

lemma hl_erase_over [simp]: "hl_erase (hl_r (hl_over h i x)) = hl_erase (hl_r x)"
  by (simp add: hl_erase_def hl_over_def hl_set_def)

section \<open>Positions\<close>

definition name_at :: "u8 list \<Rightarrow> ngx_http_request \<Rightarrow> nat \<Rightarrow> bool" where
  "name_at buf r q \<longleftrightarrow> (\<exists>a b. header_name_start r = Some a \<and> header_name_end r = Some b \<and> a < b \<and> b \<le> q \<and>
     no_ctl buf a b)"

definition value_at :: "u8 list \<Rightarrow> ngx_http_request \<Rightarrow> nat \<Rightarrow> bool" where
  "value_at buf r q \<longleftrightarrow> (\<exists>c d. header_start r = Some c \<and> header_end r = Some d \<and> c \<le> d \<and> d \<le> q \<and>
     name_at buf r c \<and> no_ctl buf c d \<and> (c < d \<longrightarrow> byte_at buf (d - 1) \<noteq> C CHR '' ''))"

definition hl_pos :: "u8 list \<Rightarrow> nat \<Rightarrow> hl_state \<Rightarrow> ngx_http_request \<Rightarrow> bool" where
  "hl_pos buf p st r \<longleftrightarrow>
    (case st of
       sw_name \<Rightarrow> (\<exists>a. header_name_start r = Some a \<and> a < p \<and> no_ctl buf a p)
     | sw_space_before_value \<Rightarrow> name_at buf r p
     | sw_value \<Rightarrow> (\<exists>c. header_start r = Some c \<and> c < p \<and> name_at buf r c \<and> no_ctl buf c p \<and>
         byte_at buf (p - 1) \<noteq> C CHR '' '')
     | sw_space_after_value \<Rightarrow> (\<exists>c. header_start r = Some c \<and> c < p \<and> name_at buf r c \<and> no_ctl buf c p) \<and>
         value_at buf r p
     | sw_almost_done \<Rightarrow> value_at buf r p
     | _ \<Rightarrow> True)"

text \<open>The array of lower-case name bytes and the index into it.\<close>

definition lc_ok :: "hl_ctx \<Rightarrow> bool" where
  "lc_ok x \<longleftrightarrow> length (lowcase_header (hl_r x)) = 32 \<and> hl_i x < 32"

definition hl_inv :: "u8 list \<Rightarrow> nat \<Rightarrow> hl_state \<Rightarrow> hl_ctx \<Rightarrow> bool" where
  "hl_inv buf p st x \<longleftrightarrow> hl_pos buf p st (hl_r x) \<and> lc_ok x"

lemma and_31: "n AND 31 = n mod (32 :: nat)"
proof -
  have "n AND 31 = take_bit 5 n" by (simp add: take_bit_eq_mask mask_eq_exp_minus_1)
  then show ?thesis by (simp add: take_bit_eq_mod)
qed

lemma lc_ok_simps [simp]:
  "lc_ok x \<Longrightarrow> lc_ok (hl_first c x)" "lc_ok x \<Longrightarrow> lc_ok (hl_push c x)"
  by (simp_all add: lc_ok_def hl_first_def hl_push_def and_31)

lemma hl_r_simps [simp]:
  "header_name_start (hl_r (hl_first c x)) = header_name_start (hl_r x)"
  "header_name_start (hl_r (hl_push c x)) = header_name_start (hl_r x)"
  "hl_r (hl_set f x) = f (hl_r x)" "hl_i (hl_set f x) = hl_i x"
  by (simp_all add: hl_first_def hl_push_def hl_set_def)

lemma lc_ok_set: "(\<And>r. lowcase_header (f r) = lowcase_header r) \<Longrightarrow> lc_ok (hl_set f x) = lc_ok x"
  by (simp add: lc_ok_def)

lemma lowcase_ctl: "lowcase ! unat ch \<noteq> 0 \<Longrightarrow> ch \<notin> {0, CR, LF}"
  by (auto simp: lowcase_def nth_append)

abbreviation hl_keeps :: "u8 list \<Rightarrow> nat \<Rightarrow> hl_act \<Rightarrow> bool" where
  "hl_keeps buf p a \<equiv> (case a of Next s' x' \<Rightarrow> hl_inv buf (p + 1) s' x' | Stay s' x' \<Rightarrow> hl_inv buf p s' x'
     | Leave s' x' e \<Rightarrow> lc_ok x' \<and> (e = Hl_done \<longrightarrow> byte_at buf p = LF \<and> value_at buf (hl_r x') p))"

lemma name_at_mono: "name_at buf r q \<Longrightarrow> header_name_start r' = header_name_start r \<Longrightarrow>
    header_name_end r' = header_name_end r \<Longrightarrow> q \<le> q' \<Longrightarrow> name_at buf r' q'"
  unfolding name_at_def by fastforce

lemma value_at_Suc: "value_at buf r p \<Longrightarrow> value_at buf r (Suc p)"
  unfolding value_at_def by fastforce

lemma hl_keeps_name:
  assumes inv: "hl_inv buf p sw_name x"
  shows "hl_keeps buf p (hl_step u buf p sw_name x)"
proof -
  from inv obtain a where a: "header_name_start (hl_r x) = Some a" "a < p" "no_ctl buf a p" and lc: "lc_ok x"
    by (auto simp: hl_inv_def hl_pos_def)
  have more: "no_ctl buf a (Suc p)" if "byte_at buf p \<notin> {0, CR, LF}" using no_ctl_Suc [OF a(3) that] .
  have n1: "no_ctl buf a (Suc p)" if "lowcase ! unat (byte_at buf p) \<noteq> 0" using more lowcase_ctl [OF that] by blast
  have nm: "name_at buf (r\<lparr>header_name_end := Some p\<rparr>) p" "name_at buf (r\<lparr>header_name_end := Some p, header_start := s, header_end := e\<rparr>) p"
    "name_at buf (r\<lparr>header_name_end := Some p\<rparr>) (Suc p)"
    if "header_name_start r = Some a" for r :: ngx_http_request and s e
    using a that by (auto simp: name_at_def)
  have empty: "no_ctl buf p p" unfolding no_ctl_def by auto
  show ?thesis using a lc
    by (auto simp: hl_step_def hl_name_def Let_def hl_inv_def hl_pos_def lc_ok_set n1 nm value_at_def empty
        intro: more)
qed

lemma hl_keeps_start: "hl_inv buf p sw_start x \<Longrightarrow> hl_keeps buf p (hl_step u buf p sw_start x)"
  using lowcase_ctl [of "byte_at buf p"]
  by (auto simp: hl_step_def hl_start_def Let_def hl_inv_def hl_pos_def lc_ok_set no_ctl_def less_Suc_eq)

lemma hl_keeps_value:
  assumes inv: "hl_inv buf p st x" and st: "st \<in> {sw_space_before_value, sw_value, sw_space_after_value}"
  shows "hl_keeps buf p (hl_step u buf p st x)"
proof -
  have empty: "no_ctl buf p p" unfolding no_ctl_def by auto
  have one: "no_ctl buf p (Suc p)" if "byte_at buf p \<notin> {0, CR, LF}" using no_ctl_Suc [OF empty that] .
  have nm: "name_at buf r' q'" if "name_at buf (hl_r x) q" "header_name_start r' = header_name_start (hl_r x)"
    "header_name_end r' = header_name_end (hl_r x)" "q \<le> q'" for r' q q' using name_at_mono [OF that] .
  have more: "no_ctl buf c (Suc p)" if "no_ctl buf c p" "byte_at buf p \<notin> {0, CR, LF}" for c
    using no_ctl_Suc [OF that] .
  show ?thesis using inv st
    by (auto simp: hl_step_def hl_space_before_value_def hl_value_def hl_space_after_value_def hl_inv_def hl_pos_def
        Let_def lc_ok_set value_at_def empty one nm more value_at_Suc)
qed

lemma hl_keeps_rest:
  "hl_inv buf p st x \<Longrightarrow> st \<in> {sw_ignore_line, sw_almost_done, sw_header_almost_done} \<Longrightarrow>
   hl_keeps buf p (hl_step u buf p st x)"
  by (auto simp: hl_step_def hl_ignore_line_def hl_almost_done_def hl_header_almost_done_def hl_inv_def hl_pos_def
      Let_def value_at_Suc)

lemma hl_keeps_all: "hl_inv buf p st x \<Longrightarrow> hl_keeps buf p (hl_step u buf p st x)"
  by (cases st) (simp_all only: hl_keeps_start hl_keeps_name hl_keeps_value hl_keeps_rest insert_iff simp_thms)

lemma hl_step_index:
  "case hl_step u buf p s x of Next s' x' \<Rightarrow> lowcase_index (hl_r x') = lowcase_index (hl_r x)
     | Stay s' x' \<Rightarrow> lowcase_index (hl_r x') = lowcase_index (hl_r x)
     | Leave s' x' e \<Rightarrow> lowcase_index (hl_r x') = lowcase_index (hl_r x)"
  by (cases s) (simp_all add: hl_step_def hl_state_defs Let_def hl_first_def hl_push_def)

section \<open>Reading back a printed header\<close>

definition header_line :: "u8 list \<Rightarrow> u8 list \<Rightarrow> u8 list" where
  "header_line name val = name @ bytes '': '' @ val @ [CR, LF]"

definition lower :: "u8 \<Rightarrow> u8" where
  "lower c = lowcase ! unat c"

lemma hl_loop_next:
  assumes "p < length buf" and "hl_step u buf p st r = Next st' r'"
  shows "hl_loop u buf p st r = hl_loop u buf (Suc p) st' r'"
  using assms by (subst hl_loop.simps) simp

lemma hl_name_segment:
  "list_all (\<lambda>c. lower c \<noteq> 0) us \<Longrightarrow>
   hl_loop u (xs @ us @ zs) (length xs) sw_name x =
   hl_loop u (xs @ us @ zs) (length xs + length us) sw_name (fold (\<lambda>c. hl_push (lower c)) us x)"
proof (induction us arbitrary: xs x)
  case (Cons c us)
  have "hl_loop u (xs @ (c # us) @ zs) (length xs) sw_name x =
      hl_loop u (xs @ (c # us) @ zs) (Suc (length xs)) sw_name (hl_push (lower c) x)"
    using Cons.prems by (intro hl_loop_next) (simp_all add: hl_step_def hl_name_def Let_def lower_def)
  also have "\<dots> = hl_loop u ((xs @ [c]) @ us @ zs) (length (xs @ [c])) sw_name (hl_push (lower c) x)" by simp
  also have "\<dots> = hl_loop u ((xs @ [c]) @ us @ zs) (length (xs @ [c]) + length us) sw_name
      (fold (\<lambda>c. hl_push (lower c)) us (hl_push (lower c) x))"
    using Cons by (intro Cons.IH) simp
  finally show ?case by simp
qed simp

lemma hl_value_segment:
  assumes "list_all (\<lambda>c. c \<notin> {0, CR, LF, C CHR '' ''}) us"
  shows "hl_loop u (xs @ us @ zs) (length xs) sw_value x = hl_loop u (xs @ us @ zs) (length xs + length us) sw_value x"
proof (rule hl.loop_skip)
  fix i assume "length xs \<le> i" "i < length xs + length us"
  then obtain k where k: "i = length xs + k" "k < length us" by (metis add_less_cancel_left le_Suc_ex)
  then have "byte_at (xs @ us @ zs) i \<notin> {0, CR, LF, C CHR '' ''}"
    using assms by (auto simp: byte_at_in list_all_length)
  then show "hl_step u (xs @ us @ zs) i sw_value x = Next sw_value x"
    by (simp add: hl_step_def hl_value_def)
qed simp_all

text \<open>What the pushes leave: the hash of the name and its lower-case copy.\<close>

lemma hl_pushes:
  assumes "hl_i x + length us < 32" and "length (lowcase_header (hl_r x)) = 32"
  shows "fold (\<lambda>c. hl_push (lower c)) us x =
    x\<lparr>hl_hash := foldl ngx_hash (hl_hash x) (map lower us), hl_i := hl_i x + length us,
      hl_r := (hl_r x)\<lparr>lowcase_header := take (hl_i x) (lowcase_header (hl_r x)) @ map lower us @
        drop (hl_i x + length us) (lowcase_header (hl_r x))\<rparr>\<rparr>"
  using assms
proof (induction us arbitrary: x)
  case (Cons c us)
  have i: "hl_i (hl_push (lower c) x) = Suc (hl_i x)"
    using Cons.prems(1) by (simp add: hl_push_def and_31)
  have l: "length (lowcase_header (hl_r (hl_push (lower c) x))) = 32" using Cons.prems(2) by (simp add: hl_push_def)
  have "take (Suc (hl_i x)) ((lowcase_header (hl_r x))[hl_i x := lower c]) = take (hl_i x) (lowcase_header (hl_r x)) @ [lower c]"
    using Cons.prems by (simp add: take_Suc_conv_app_nth)
  moreover have "drop (Suc (hl_i x + length us)) ((lowcase_header (hl_r x))[hl_i x := lower c]) =
      drop (Suc (hl_i x + length us)) (lowcase_header (hl_r x))" by simp
  ultimately show ?case using Cons.IH [of "hl_push (lower c) x"] i l Cons.prems(1)
    by (simp add: hl_push_def and_31)
qed simp

section \<open>Properties\<close>

text \<open>
  (C22) The header line parser may be given the input in pieces: after \<^verbatim>\<open>NGX_AGAIN\<close> on \<open>xs\<close>,
  going on with the saved state on \<open>xs @ ys\<close> gives the return code and the header that one
  call on \<open>xs @ ys\<close> gives (the saved hash and index differ only when no header was found),
  and any other result on \<open>xs\<close> is final.
\<close>

theorem parse_header_line_incremental:
  "case ngx_http_parse_header_line xs pos st r u of (rc, p1, st1, r1) \<Rightarrow>
     if rc = NGX_AGAIN then
       (case (ngx_http_parse_header_line (xs @ ys) pos st r u, ngx_http_parse_header_line (xs @ ys) p1 st1 r1 u) of
          ((rc, p, s, r), (rc', p', s', r')) \<Rightarrow> rc = rc' \<and> hl_erase r = hl_erase r' \<and>
            (rc \<in> {NGX_OK, NGX_AGAIN} \<longrightarrow> r = r') \<and>
            (rc \<in> {NGX_OK, NGX_AGAIN, NGX_HTTP_PARSE_HEADER_DONE} \<longrightarrow> p = p' \<and> s = s'))
     else ngx_http_parse_header_line (xs @ ys) pos st r u = (rc, p1, st1, r1)"
proof (cases "hl_loop u xs pos st \<lparr>hl_r = r, hl_hash = header_hash r, hl_i = lowcase_index r\<rparr>")
  case (More p1 st1 x)
  let ?x0 = "\<lparr>hl_r = r, hl_hash = header_hash r, hl_i = lowcase_index r\<rparr>"
  have l: "hl_loop u (xs @ ys) pos st ?x0 = hl_loop u (xs @ ys) p1 st1 x" using hl.loop_resume [OF More] .
  have a: "ngx_http_parse_header_line xs pos st r u = (NGX_AGAIN, p1, st1, hl_save x)"
    using More by (simp add: ngx_http_parse_header_line_def hl_save_def)
  have o: "hl_loop u (xs @ ys) p1 st1
      \<lparr>hl_r = hl_save x, hl_hash = header_hash (hl_save x), hl_i = lowcase_index (hl_save x)\<rparr> =
      map_outcome id (hl_over (hl_hash x) (hl_i x)) id (hl_loop u (xs @ ys) p1 st1 x)"
    unfolding hl_save_load by (rule hl_loop_over)
  have two: "ngx_http_parse_header_line (xs @ ys) p1 st1 (hl_save x) u =
      (case hl_loop u (xs @ ys) p1 st1 x of
        More p st' y \<Rightarrow> (NGX_AGAIN, p, st', hl_save y)
      | Stop p st' y Hl_done \<Rightarrow> (NGX_OK, p + 1, sw_start, hl_save y)
      | Stop p st' y Hl_header_done \<Rightarrow>
          (NGX_HTTP_PARSE_HEADER_DONE, p + 1, sw_start, hl_r (hl_over (hl_hash x) (hl_i x) y))
      | Stop p st' y (Hl_return rc) \<Rightarrow> (rc, p1, st1, hl_r (hl_over (hl_hash x) (hl_i x) y)))"
    unfolding ngx_http_parse_header_line_def o hl_save_def [symmetric]
    by (simp split: outcome.splits hl_exit.splits)
  show ?thesis
  proof (cases "hl_loop u (xs @ ys) p1 st1 x")
    case (More p s y)
    then show ?thesis using a l two by (simp add: ngx_http_parse_header_line_def hl_save_def)
  next
    case (Stop p s y e)
    then show ?thesis using a l two hl_stop_exit [OF Stop]
      by (auto simp: ngx_http_parse_header_line_def hl_save_def)
  qed
next
  case (Stop p1 st1 x e)
  have "ngx_http_parse_header_line (xs @ ys) pos st r u = ngx_http_parse_header_line xs pos st r u"
    using hl.loop_stopped [OF Stop] Stop by (simp add: ngx_http_parse_header_line_def)
  moreover have "fst (ngx_http_parse_header_line xs pos st r u) \<noteq> NGX_AGAIN"
    using Stop hl_stop_exit [OF Stop] by (auto simp: ngx_http_parse_header_line_def)
  ultimately show ?thesis by (cases "ngx_http_parse_header_line xs pos st r u") auto
qed

theorem parse_header_line_incremental_witness:
  "case ngx_http_parse_header_line (bytes ''A'') 0 sw_start request_init False of (rc, p1, st1, r1) \<Rightarrow>
     rc = NGX_AGAIN \<and> p1 = 1 \<and>
     ngx_http_parse_header_line (bytes ''A'' @ bytes ''b'') p1 st1 r1 False =
     ngx_http_parse_header_line (bytes ''A'' @ bytes ''b'') 0 sw_start request_init False"
proof -
  note eval = ngx_http_parse_header_line_def hl_loop.simps hl_step_def hl_state_defs Let_def lowcase_def nth_append
  obtain r1 where one: "ngx_http_parse_header_line (bytes ''A'') 0 sw_start request_init False =
      (NGX_AGAIN, 1, sw_name, r1)" by (simp add: eval)
  obtain r2 where two: "ngx_http_parse_header_line (bytes ''A'' @ bytes ''b'') 0 sw_start request_init False =
      (NGX_AGAIN, 2, sw_name, r2)" by (simp add: eval)
  from parse_header_line_incremental [where xs = "bytes ''A''" and pos = 0 and st = sw_start and r = request_init and
      u = False and ys = "bytes ''b''"]
  show ?thesis unfolding one two by (auto split: prod.splits)
qed

text \<open>
  (C23) When a header line is accepted, its name and its value are stretches of the line in
  this order, free of NUL, CR and LF, the value does not end with a space, and the position
  after the line feed is the next one to read. Whatever the result, the index into the
  32-byte array \<^verbatim>\<open>lowcase_header\<close> stays below 32 and the array keeps its length, so that no
  write leaves it.
\<close>

theorem parse_header_line_positions:
  assumes "ngx_http_parse_header_line buf pos sw_start r u = (rc, pos', st, r')"
    and "length (lowcase_header r) = 32" and "lowcase_index r < 32"
  shows "length (lowcase_header r') = 32 \<and> lowcase_index r' < 32 \<and>
    (rc = NGX_OK \<longrightarrow> (\<exists>a b c d. header_name_start r' = Some a \<and> header_name_end r' = Some b \<and>
       header_start r' = Some c \<and> header_end r' = Some d \<and>
       a < b \<and> b \<le> c \<and> c \<le> d \<and> d < pos' \<and> pos' \<le> length buf \<and> buf ! (pos' - 1) = LF \<and>
       (\<forall>i. a \<le> i \<and> i < b \<longrightarrow> buf ! i \<notin> {0, CR, LF}) \<and> (\<forall>i. c \<le> i \<and> i < d \<longrightarrow> buf ! i \<notin> {0, CR, LF}) \<and>
       (c < d \<longrightarrow> buf ! (d - 1) \<noteq> C CHR '' '')))"
proof -
  let ?x0 = "\<lparr>hl_r = r, hl_hash = header_hash r, hl_i = lowcase_index r\<rparr>"
  let ?I = "\<lambda>p s x. hl_inv buf p s x \<and> lowcase_index (hl_r x) < 32"
  let ?Q = "\<lambda>p s x e. p < length buf \<and> lc_ok x \<and> lowcase_index (hl_r x) < 32 \<and>
    (e = Hl_done \<longrightarrow> byte_at buf p = LF \<and> value_at buf (hl_r x) p)"
  have "case hl_loop u buf pos sw_start ?x0 of More p s x \<Rightarrow> ?I p s x | Stop p s x e \<Rightarrow> ?Q p s x e"
  proof (rule hl.loop_invariant)
    fix p s x assume "p < length buf" and i: "?I p s x"
    then show "case hl_step u buf p s x of Next s' x' \<Rightarrow> ?I (p + 1) s' x' | Stay s' x' \<Rightarrow> ?I p s' x' | Leave s' x' e \<Rightarrow> ?Q p s' x' e"
      using hl_keeps_all [of buf p s x u] hl_step_index [of x u buf p s] by (auto split: act.splits)
  qed (use assms(2,3) in \<open>simp add: hl_inv_def hl_pos_def lc_ok_def\<close>)
  then show ?thesis
  proof (cases "hl_loop u buf pos sw_start ?x0")
    case (More p s x)
    with \<open>case hl_loop u buf pos sw_start ?x0 of More p s x \<Rightarrow> ?I p s x | Stop p s x e \<Rightarrow> ?Q p s x e\<close>
    show ?thesis using assms(1) by (auto simp: ngx_http_parse_header_line_def hl_inv_def lc_ok_def)
  next
    case (Stop p s x e)
    with \<open>case hl_loop u buf pos sw_start ?x0 of More p s x \<Rightarrow> ?I p s x | Stop p s x e \<Rightarrow> ?Q p s x e\<close>
    have q: "?Q p s x e" by simp
    have base: "length (lowcase_header r') = 32 \<and> lowcase_index r' < 32"
      using q Stop assms(1) hl_stop_exit [OF Stop] by (auto simp: ngx_http_parse_header_line_def lc_ok_def)
    show ?thesis
    proof (cases "rc = NGX_OK")
      case True
      then have d: "e = Hl_done" "pos' = Suc p" "r' = hl_save x"
        using Stop assms(1) hl_stop_exit [OF Stop] by (auto simp: ngx_http_parse_header_line_def hl_save_def)
      with q have v: "value_at buf (hl_r x) p" "byte_at buf p = LF" "p < length buf" by auto
      have at: "byte_at buf i = buf ! i" if "i \<le> p" for i using v(3) that by (simp add: byte_at_def)
      from v(1) obtain a b c d where n: "header_name_start r' = Some a" "header_name_end r' = Some b"
        "header_start r' = Some c" "header_end r' = Some d" "a < b" "b \<le> c" "c \<le> d" "d \<le> p"
        "no_ctl buf a b" "no_ctl buf c d" "c < d \<longrightarrow> byte_at buf (d - 1) \<noteq> 32"
        using d(3) by (auto simp: value_at_def name_at_def hl_save_def)
      have nc: "\<forall>i. k \<le> i \<and> i < l \<longrightarrow> buf ! i \<notin> {0, CR, LF}" if "no_ctl buf k l" "l \<le> p" for k l
        using that at unfolding no_ctl_def by (metis le_trans less_imp_le_nat)
      show ?thesis using base n nc [OF n(9)] nc [OF n(10)] at [of "d - 1"] at [of p] v d by auto
    qed (use base in simp)
  qed
qed

theorem parse_header_line_positions_witness:
  "\<exists>pos' st r'. ngx_http_parse_header_line (header_line (bytes ''A'') (bytes ''b'')) 0 sw_start request_init False =
     (NGX_OK, pos', st, r') \<and> pos' = 6 \<and> length (lowcase_header r') = 32 \<and> lowcase_index r' < 32"
proof -
  obtain pos' st r' where p: "ngx_http_parse_header_line (header_line (bytes ''A'') (bytes ''b'')) 0 sw_start request_init False =
     (NGX_OK, pos', st, r')" "pos' = 6"
    by (simp add: header_line_def ngx_http_parse_header_line_def hl_loop.simps hl_step_def hl_state_defs Let_def
        lowcase_def nth_append)
  have i: "length (lowcase_header request_init) = 32" "lowcase_index request_init < 32"
    by (simp_all add: request_init_def)
  from parse_header_line_positions [OF p(1) i] p show ?thesis by auto
qed

lemma parse_header_line_printed:
  assumes "name \<noteq> []" and "list_all (\<lambda>c. lower c \<noteq> 0) name" and "length name < 32"
    and "val \<noteq> []" and "list_all (\<lambda>c. c \<notin> {0, CR, LF, C CHR '' ''}) val"
    and "length (lowcase_header r) = 32"
  shows "\<exists>r'. ngx_http_parse_header_line (header_line name val @ zs) 0 sw_start r u =
      (NGX_OK, length (header_line name val), sw_start, r') \<and>
    header_name_start r' = Some 0 \<and> header_name_end r' = Some (length name) \<and>
    header_start r' = Some (length name + 2) \<and> header_end r' = Some (length name + 2 + length val) \<and>
    header_hash r' = foldl ngx_hash 0 (map lower name) \<and> lowcase_index r' = length name \<and>
    take (length name) (lowcase_header r') = map lower name \<and> \<not> invalid_header r'"
proof -
  obtain c us where n: "name = c # us" using assms(1) by (cases name) auto
  obtain v vs where w: "val = v # vs" using assms(4) by (cases val) auto
  let ?buf = "name @ 58 # 32 # val @ CR # LF # zs"
  let ?x0 = "\<lparr>hl_r = r, hl_hash = header_hash r, hl_i = lowcase_index r\<rparr>"
  let ?x1 = "hl_first (lower c) (hl_set (\<lambda>r. r\<lparr>header_name_start := Some 0, invalid_header := False\<rparr>) ?x0)"
  let ?x2 = "fold (\<lambda>c. hl_push (lower c)) us ?x1"
  let ?x3 = "hl_set (\<lambda>r. r\<lparr>header_name_end := Some (length name)\<rparr>) ?x2"
  let ?x4 = "hl_set (\<lambda>r. r\<lparr>header_start := Some (length name + 2)\<rparr>) ?x3"
  let ?x5 = "hl_set (\<lambda>r. r\<lparr>header_end := Some (length name + 2 + length val)\<rparr>) ?x4"
  have buf: "header_line name val @ zs = ?buf" by (simp add: header_line_def)
  have lc: "lower c \<noteq> 0" "list_all (\<lambda>c. lower c \<noteq> 0) us" using assms(2) n by simp_all
  have "hl_loop u ?buf 0 sw_start ?x0 = hl_loop u ?buf (Suc 0) sw_name ?x1"
    using lc(1) lowcase_ctl [of c] n
    by (intro hl_loop_next) (auto simp: hl_step_def hl_start_def Let_def lower_def)
  also have "\<dots> = hl_loop u ?buf (length name) sw_name ?x2"
    using hl_name_segment [OF lc(2), of u "[c]" "58 # 32 # val @ CR # LF # zs" ?x1] n by simp
  also have "\<dots> = hl_loop u ?buf (Suc (length name)) sw_space_before_value ?x3"
    by (intro hl_loop_next) (simp_all add: hl_step_def hl_name_def lowcase_def nth_append)
  also have "\<dots> = hl_loop u ?buf (length name + 2) sw_space_before_value ?x3"
    using hl_loop_next [of "Suc (length name)" ?buf u sw_space_before_value ?x3 sw_space_before_value ?x3]
    by (simp add: hl_step_def hl_space_before_value_def)
  also have "\<dots> = hl_loop u ?buf (length name + 3) sw_value ?x4"
    using hl_loop_next [of "length name + 2" ?buf u sw_space_before_value ?x3 sw_value ?x4] assms(5) w
    by (simp add: hl_step_def hl_space_before_value_def Let_def numeral_2_eq_2 numeral_3_eq_3)
  also have "\<dots> = hl_loop u ?buf (length name + 2 + length val) sw_value ?x4"
    using hl_value_segment [of vs u "name @ [58, 32, v]" "CR # LF # zs" ?x4] assms(5) w
    by (simp add: numeral_2_eq_2 numeral_3_eq_3)
  also have "\<dots> = hl_loop u ?buf (Suc (length name + 2 + length val)) sw_almost_done ?x5"
  proof (rule hl_loop_next)
    have "byte_at ?buf (length name + 2 + length val) = CR"
      using byte_at_here [of "name @ 58 # 32 # val" CR "LF # zs"] by simp
    then show "hl_step u ?buf (length name + 2 + length val) sw_value ?x4 = Next sw_almost_done ?x5"
      by (simp add: hl_step_def hl_value_def)
  qed simp
  also have "\<dots> = Stop (Suc (length name + 2 + length val)) sw_almost_done ?x5 Hl_done"
  proof -
    have "byte_at ?buf (Suc (length name + 2 + length val)) = LF"
      using byte_at_here [of "name @ 58 # 32 # val @ [CR]" LF zs] by simp
    then have "hl_step u ?buf (Suc (length name + 2 + length val)) sw_almost_done ?x5 = Leave sw_almost_done ?x5 Hl_done"
      by (simp add: hl_step_def hl_almost_done_def)
    then show ?thesis by (subst hl_loop.simps) simp
  qed
  finally have run: "hl_loop u ?buf 0 sw_start ?x0 =
      Stop (Suc (length name + 2 + length val)) sw_almost_done ?x5 Hl_done" .
  have p: "?x2 = ?x1\<lparr>hl_hash := foldl ngx_hash (hl_hash ?x1) (map lower us), hl_i := hl_i ?x1 + length us,
      hl_r := (hl_r ?x1)\<lparr>lowcase_header := take (hl_i ?x1) (lowcase_header (hl_r ?x1)) @ map lower us @
        drop (hl_i ?x1 + length us) (lowcase_header (hl_r ?x1))\<rparr>\<rparr>"
    using assms(3,6) n by (intro hl_pushes) (simp_all add: hl_first_def hl_set_def)
  have t: "take (Suc 0) ((lowcase_header r)[0 := lower c]) = [lower c]"
    using assms(6) by (cases "lowcase_header r") auto
  show ?thesis unfolding buf ngx_http_parse_header_line_def run
    using n t assms(6) by (simp add: p header_line_def) (simp add: hl_first_def hl_set_def)
qed

text \<open>
  The reference for names: letters, digits and the hyphen, upper case folded by adding 32 to the
  code of the letter. The table of the code gives this for every byte, and zero for the others.
\<close>

definition name_char :: "u8 \<Rightarrow> bool" where
  "name_char c \<longleftrightarrow> c = C CHR ''-'' \<or> C CHR ''0'' \<le> c \<and> c \<le> C CHR ''9'' \<or>
     C CHR ''A'' \<le> c \<and> c \<le> C CHR ''Z'' \<or> C CHR ''a'' \<le> c \<and> c \<le> C CHR ''z''"

definition to_lower :: "u8 \<Rightarrow> u8" where
  "to_lower c = (if C CHR ''A'' \<le> c \<and> c \<le> C CHR ''Z'' then c + 32 else c)"

lemma lower_fold: "lower c = (if name_char c then to_lower c else 0)"
proof -
  have "all_bytes (\<lambda>c. lower c = (if name_char c then to_lower c else 0))"
    by (simp add: all_bytes_def lower_def lowcase_def name_char_def to_lower_def upt_rec nth_append) (simp add: word_le_nat_alt)
  then show ?thesis by (rule all_bytesD)
qed

lemma to_lower_nonzero: "name_char c \<Longrightarrow> to_lower c \<noteq> 0"
proof -
  have "all_bytes (\<lambda>c. name_char c \<longrightarrow> to_lower c \<noteq> 0)"
    by (simp add: all_bytes_def name_char_def to_lower_def upt_rec)
  then show "name_char c \<Longrightarrow> to_lower c \<noteq> 0" using all_bytesD by blast
qed

lemma hash_digits: "foldl ngx_hash (of_nat k) (map to_lower us) =
    of_nat (foldl (\<lambda>k c. 31 * k + unat (to_lower c)) k us)"
proof (induction us arbitrary: k)
  case (Cons c us)
  have "ngx_hash (of_nat k) (to_lower c) = of_nat (31 * k + unat (to_lower c))"
    by (simp add: ngx_hash_def mult.commute)
  then show ?case using Cons.IH [of "31 * k + unat (to_lower c)"] by simp
qed simp

lemma map_lower: "list_all name_char us \<Longrightarrow> map lower us = map to_lower us"
  by (induction us) (simp_all add: lower_fold)

text \<open>
  (C24) Reading back a printed header: for a name of 1 to 31 letters, digits and hyphens and a
  non-empty value without NUL, CR, LF and spaces, the parser consumes exactly the line
  \<^verbatim>\<open>name: value\<close> CR LF, reports the extents of the name and the value, leaves a copy of the name with
  the letters \<^verbatim>\<open>A\<close> to \<^verbatim>\<open>Z\<close> in lower case, and as the hash the value of that copy as digits to the
  base 31, modulo \<open>2 ^ 64\<close>. Letter folding and hash are stated by arithmetic, not by the
  table and the macro of the code.
\<close>

theorem parse_header_line_roundtrip:
  assumes "name \<noteq> []" and "list_all name_char name" and "length name < 32"
    and "val \<noteq> []" and "list_all (\<lambda>c. c \<notin> {0, CR, LF, C CHR '' ''}) val"
    and "length (lowcase_header r) = 32"
  shows "\<exists>r'. ngx_http_parse_header_line (header_line name val @ zs) 0 sw_start r u =
      (NGX_OK, length (header_line name val), sw_start, r') \<and>
    header_name_start r' = Some 0 \<and> header_name_end r' = Some (length name) \<and>
    header_start r' = Some (length name + 2) \<and> header_end r' = Some (length name + 2 + length val) \<and>
    header_hash r' = of_nat (foldl (\<lambda>k c. 31 * k + unat (to_lower c)) 0 name) \<and> lowcase_index r' = length name \<and>
    take (length name) (lowcase_header r') = map to_lower name \<and> \<not> invalid_header r'"
proof -
  have "list_all (\<lambda>c. lower c \<noteq> 0) name"
    using assms(2) to_lower_nonzero by (simp add: list_all_iff lower_fold)
  moreover have "foldl ngx_hash (of_nat k) (map to_lower name) =
      of_nat (foldl (\<lambda>k c. 31 * k + unat (to_lower c)) k name)" for k
    by (rule hash_digits)
  from this [of 0] have "foldl ngx_hash 0 (map lower name) =
      of_nat (foldl (\<lambda>k c. 31 * k + unat (to_lower c)) 0 name)"
    by (simp add: map_lower [OF assms(2)])
  ultimately show ?thesis
    using parse_header_line_printed [OF assms(1) _ assms(3-6), of zs u] by (simp add: map_lower [OF assms(2)])
qed

theorem parse_header_line_roundtrip_witness:
  "\<exists>r'. ngx_http_parse_header_line (header_line (bytes ''Host'') (bytes ''a.b'')) 0 sw_start request_init False =
      (NGX_OK, 11, sw_start, r') \<and> header_name_end r' = Some 4 \<and> header_start r' = Some 6 \<and> header_end r' = Some 9 \<and>
    take 4 (lowcase_header r') = bytes ''host'' \<and> header_hash r' = 3208616"
  using parse_header_line_roundtrip [where name = "bytes ''Host''" and val = "bytes ''a.b''" and zs = "[]" and
    r = request_init and u = False]
  by (simp add: name_char_def to_lower_def request_init_def header_line_def)
    (auto simp: header_line_def numeral_eq_Suc)

end
