(* ===== verification/Ngx_Http_Chunked.thy ===== *)
theory Ngx_Http_Chunked
  imports Ngx_Http_Request
begin

text \<open>
  \<^verbatim>\<open>ngx_http_parse_chunked\<close>: the parser of the chunked transfer coding. Its context keeps the
  state, the size of the current chunk and a lower bound for the bytes still to come. The
  sizes are of type \<^verbatim>\<open>off_t\<close>, signed 64-bit, modelled as integers; that they stay in range is
  a property below. The caller consumes the data of a chunk and lowers \<^verbatim>\<open>ctx->size\<close>.
\<close>

datatype ck_state = sw_chunk_start | sw_chunk_size | sw_chunk_extension
  | sw_chunk_extension_almost_done | sw_chunk_data | sw_after_data | sw_after_data_almost_done
  | sw_last_chunk_extension | sw_last_chunk_extension_almost_done | sw_trailer
  | sw_trailer_almost_done | sw_trailer_header | sw_trailer_header_almost_done

datatype ck_exit = Ck_data | Ck_done | Ck_invalid

record ngx_http_chunked =
  ck_size :: int
  ck_length :: int

type_synonym ck_act = "(ck_state, ngx_http_chunked, ck_exit) act"
type_synonym ck_outcome = "(ck_state, ngx_http_chunked, ck_exit) outcome"

abbreviation (input) NGX_MAX_OFF_T_VALUE :: int where "NGX_MAX_OFF_T_VALUE \<equiv> 9223372036854775807"

text \<open>The digit value both size states compute: \<^verbatim>\<open>ch - '0'\<close> or \<^verbatim>\<open>c - 'a' + 10\<close> with \<^verbatim>\<open>c = ch | 0x20\<close>.\<close>

definition hex_digit :: "u8 \<Rightarrow> int option" where
  "hex_digit ch =
     (if C CHR ''0'' \<le> ch \<and> ch \<le> C CHR ''9'' then Some (uint ch - 48)
      else let c = ch OR 0x20 in
        if C CHR ''a'' \<le> c \<and> c \<le> C CHR ''f'' then Some (uint c - 97 + 10) else None)"

definition ck_chunk_start :: "u8 \<Rightarrow> ngx_http_chunked \<Rightarrow> ck_act" where
  "ck_chunk_start ch ctx =
     (case hex_digit ch of
        Some d \<Rightarrow> Next sw_chunk_size (ctx\<lparr>ck_size := d\<rparr>)
      | None \<Rightarrow> Leave sw_chunk_start ctx Ck_invalid)"

definition ck_chunk_size :: "u8 \<Rightarrow> ngx_http_chunked \<Rightarrow> ck_act" where
  "ck_chunk_size ch ctx =
     (if ck_size ctx > NGX_MAX_OFF_T_VALUE div 16 then Leave sw_chunk_size ctx Ck_invalid
      else case hex_digit ch of
        Some d \<Rightarrow> Next sw_chunk_size (ctx\<lparr>ck_size := ck_size ctx * 16 + d\<rparr>)
      | None \<Rightarrow>
          if ck_size ctx = 0 then
            (if ch = CR then Next sw_last_chunk_extension_almost_done ctx
             else if ch = LF then Next sw_trailer ctx
             else if ch = C CHR '';'' \<or> ch = C CHR '' '' \<or> ch = 9 then Next sw_last_chunk_extension ctx
             else Leave sw_chunk_size ctx Ck_invalid)
          else
            (if ch = CR then Next sw_chunk_extension_almost_done ctx
             else if ch = LF then Next sw_chunk_data ctx
             else if ch = C CHR '';'' \<or> ch = C CHR '' '' \<or> ch = 9 then Next sw_chunk_extension ctx
             else Leave sw_chunk_size ctx Ck_invalid))"

text \<open>The states that skip to the end of a line.\<close>

definition ck_chunk_extension :: "u8 \<Rightarrow> ngx_http_chunked \<Rightarrow> ck_act" where
  "ck_chunk_extension ch ctx =
     (if ch = CR then Next sw_chunk_extension_almost_done ctx
      else if ch = LF then Next sw_chunk_data ctx
      else Next sw_chunk_extension ctx)"

definition ck_expect_lf :: "ck_state \<Rightarrow> ck_state \<Rightarrow> u8 \<Rightarrow> ngx_http_chunked \<Rightarrow> ck_act" where
  "ck_expect_lf st st' ch ctx = (if ch = LF then Next st' ctx else Leave st ctx Ck_invalid)"

definition ck_after_data :: "u8 \<Rightarrow> ngx_http_chunked \<Rightarrow> ck_act" where
  "ck_after_data ch ctx =
     (if ch = CR then Next sw_after_data_almost_done ctx
      else if ch = LF then Next sw_chunk_start ctx
      else Next sw_after_data ctx)"

definition ck_last_chunk_extension :: "u8 \<Rightarrow> ngx_http_chunked \<Rightarrow> ck_act" where
  "ck_last_chunk_extension ch ctx =
     (if ch = CR then Next sw_last_chunk_extension_almost_done ctx
      else if ch = LF then Next sw_trailer ctx
      else Next sw_last_chunk_extension ctx)"

definition ck_trailer :: "u8 \<Rightarrow> ngx_http_chunked \<Rightarrow> ck_act" where
  "ck_trailer ch ctx =
     (if ch = CR then Next sw_trailer_almost_done ctx
      else if ch = LF then Leave sw_trailer ctx Ck_done
      else Next sw_trailer_header ctx)"

definition ck_trailer_almost_done :: "u8 \<Rightarrow> ngx_http_chunked \<Rightarrow> ck_act" where
  "ck_trailer_almost_done ch ctx =
     (if ch = LF then Leave sw_trailer_almost_done ctx Ck_done
      else Leave sw_trailer_almost_done ctx Ck_invalid)"

definition ck_trailer_header :: "u8 \<Rightarrow> ngx_http_chunked \<Rightarrow> ck_act" where
  "ck_trailer_header ch ctx =
     (if ch = CR then Next sw_trailer_header_almost_done ctx
      else if ch = LF then Next sw_trailer ctx
      else Next sw_trailer_header ctx)"

definition ck_step :: "u8 list \<Rightarrow> nat \<Rightarrow> ck_state \<Rightarrow> ngx_http_chunked \<Rightarrow> ck_act" where
  "ck_step buf pos st ctx =
     (let ch = byte_at buf pos in
      case st of
        sw_chunk_start \<Rightarrow> ck_chunk_start ch ctx
      | sw_chunk_size \<Rightarrow> ck_chunk_size ch ctx
      | sw_chunk_extension \<Rightarrow> ck_chunk_extension ch ctx
      | sw_chunk_extension_almost_done \<Rightarrow> ck_expect_lf st sw_chunk_data ch ctx
      | sw_chunk_data \<Rightarrow> Leave sw_chunk_data ctx Ck_data
      | sw_after_data \<Rightarrow> ck_after_data ch ctx
      | sw_after_data_almost_done \<Rightarrow> ck_expect_lf st sw_chunk_start ch ctx
      | sw_last_chunk_extension \<Rightarrow> ck_last_chunk_extension ch ctx
      | sw_last_chunk_extension_almost_done \<Rightarrow> ck_expect_lf st sw_trailer ch ctx
      | sw_trailer \<Rightarrow> ck_trailer ch ctx
      | sw_trailer_almost_done \<Rightarrow> ck_trailer_almost_done ch ctx
      | sw_trailer_header \<Rightarrow> ck_trailer_header ch ctx
      | sw_trailer_header_almost_done \<Rightarrow> ck_expect_lf st sw_trailer ch ctx)"

lemmas ck_state_defs = ck_chunk_start_def ck_chunk_size_def ck_chunk_extension_def ck_expect_lf_def
  ck_after_data_def ck_last_chunk_extension_def ck_trailer_def ck_trailer_almost_done_def ck_trailer_header_def

lemma ck_no_stay: "ck_step buf p st x \<noteq> Stay st' x'"
  by (cases st) (auto simp: ck_step_def ck_state_defs Let_def split: option.splits)

function ck_loop :: "u8 list \<Rightarrow> nat \<Rightarrow> ck_state \<Rightarrow> ngx_http_chunked \<Rightarrow> ck_outcome" where
  "ck_loop buf p st ctx =
     (if p < length buf
      then (case ck_step buf p st ctx of
              Next st' ctx' \<Rightarrow> ck_loop buf (p + 1) st' ctx'
            | Stay st' ctx' \<Rightarrow> ck_loop buf p st' ctx'
            | Leave st' ctx' e \<Rightarrow> Stop p st' ctx' e)
      else More p st ctx)"
  by pat_completeness auto
termination
  by (relation "measure (\<lambda>(buf, p, st, x). length buf - p)") (auto simp: ck_no_stay)

declare ck_loop.simps [simp del]

text \<open>The \<^verbatim>\<open>switch (state)\<close> after the label \<^verbatim>\<open>data\<close>: the bytes a message needs at least.\<close>

definition ck_needed :: "ck_state \<Rightarrow> int \<Rightarrow> int" where
  "ck_needed st sz =
     (case st of
        sw_chunk_start \<Rightarrow> 3
      | sw_chunk_size \<Rightarrow> 1 + (if sz \<noteq> 0 then sz + 4 else 1)
      | sw_chunk_extension \<Rightarrow> 1 + sz + 4
      | sw_chunk_extension_almost_done \<Rightarrow> 1 + sz + 4
      | sw_chunk_data \<Rightarrow> sz + 4
      | sw_after_data \<Rightarrow> 4
      | sw_after_data_almost_done \<Rightarrow> 4
      | sw_last_chunk_extension \<Rightarrow> 2
      | sw_last_chunk_extension_almost_done \<Rightarrow> 2
      | sw_trailer \<Rightarrow> 1
      | sw_trailer_almost_done \<Rightarrow> 1
      | sw_trailer_header \<Rightarrow> 2
      | sw_trailer_header_almost_done \<Rightarrow> 2)"

text \<open>The label \<^verbatim>\<open>data\<close>. The result is the return code, \<^verbatim>\<open>b->pos\<close>, \<^verbatim>\<open>ctx->state\<close> and the context.\<close>

definition ck_data :: "rc \<Rightarrow> nat \<Rightarrow> ck_state \<Rightarrow> ngx_http_chunked \<Rightarrow> rc \<times> nat \<times> ck_state \<times> ngx_http_chunked" where
  "ck_data rc p st ctx =
     (if ck_size ctx > NGX_MAX_OFF_T_VALUE - 5 then (NGX_ERROR, p, st, ctx)
      else (rc, p, st, ctx\<lparr>ck_length := ck_needed st (ck_size ctx)\<rparr>))"

text \<open>The state the loop starts in: a chunk whose data has been consumed is over.\<close>

definition ck_entry :: "ck_state \<Rightarrow> ngx_http_chunked \<Rightarrow> ck_state" where
  "ck_entry st ctx = (if st = sw_chunk_data \<and> ck_size ctx = 0 then sw_after_data else st)"

definition ngx_http_parse_chunked ::
  "u8 list \<Rightarrow> nat \<Rightarrow> ck_state \<Rightarrow> ngx_http_chunked \<Rightarrow> rc \<times> nat \<times> ck_state \<times> ngx_http_chunked"
where
  "ngx_http_parse_chunked buf pos st ctx =
     (case ck_loop buf pos (ck_entry st ctx) ctx of
        More p st' ctx' \<Rightarrow> ck_data NGX_AGAIN p st' ctx'
      | Stop p st' ctx' Ck_data \<Rightarrow> ck_data NGX_OK p st' ctx'
      | Stop p st' ctx' Ck_done \<Rightarrow> (NGX_DONE, p + 1, sw_chunk_start, ctx')
      | Stop p st' ctx' Ck_invalid \<Rightarrow> (NGX_ERROR, pos, st, ctx'))"

section \<open>The parser is incremental\<close>

lemma ck_step_prefix: "p < length xs \<Longrightarrow> ck_step (xs @ ys) p st x = ck_step xs p st x"
  by (simp add: ck_step_def byte_at_append)

interpretation ck: byte_parser ck_step ck_loop "\<lambda>_. 0"
proof
  show "ck_loop buf p s r = parse_round ck_step ck_loop buf p s r" for buf p s r
    by (subst ck_loop.simps) (simp add: parse_round_def)
qed (auto simp: ck_step_prefix ck_no_stay)

text \<open>The value of a digit.\<close>

lemma hex_digit_range: "hex_digit ch = Some d \<Longrightarrow> 0 \<le> d \<and> d \<le> 15"
  by (auto simp: hex_digit_def Let_def word_le_def split: if_splits)

lemma hex_digit_delim: "hex_digit CR = None" "hex_digit LF = None" "hex_digit (C CHR '';'') = None"
  "hex_digit (C CHR '' '') = None"
  by (simp_all add: hex_digit_def)

section \<open>Sizes stay in range\<close>

definition ck_range :: "ngx_http_chunked \<Rightarrow> bool" where
  "ck_range ctx \<longleftrightarrow> 0 \<le> ck_size ctx \<and> ck_size ctx \<le> NGX_MAX_OFF_T_VALUE"

definition act_ctx :: "ck_act \<Rightarrow> ngx_http_chunked" where
  "act_ctx a = (case a of Next _ x \<Rightarrow> x | Stay _ x \<Rightarrow> x | Leave _ x _ \<Rightarrow> x)"

lemma act_ctx_simps [simp]: "act_ctx (Next s x) = x" "act_ctx (Stay s x) = x" "act_ctx (Leave s x e) = x"
  by (simp_all add: act_ctx_def)

lemma ck_size_range:
  assumes "ck_range ctx"
  shows "ck_range (act_ctx (ck_chunk_size ch ctx))" and "ck_range (act_ctx (ck_chunk_start ch ctx))"
proof -
  show "ck_range (act_ctx (ck_chunk_size ch ctx))"
  proof (cases "hex_digit ch")
    case None
    then show ?thesis using assms by (simp add: ck_chunk_size_def)
  next
    case (Some d)
    then show ?thesis using assms hex_digit_range [OF Some] by (simp add: ck_chunk_size_def ck_range_def)
  qed
  show "ck_range (act_ctx (ck_chunk_start ch ctx))"
    using assms hex_digit_range [of ch] by (cases "hex_digit ch") (simp_all add: ck_chunk_start_def ck_range_def)
qed

lemma ck_keeps_range:
  assumes "ck_range ctx"
  shows "ck_range (act_ctx (ck_step buf p st ctx))"
  using assms ck_size_range [OF assms]
  by (cases st)
    (simp_all add: ck_step_def ck_chunk_extension_def ck_expect_lf_def ck_after_data_def
      ck_last_chunk_extension_def ck_trailer_def ck_trailer_almost_done_def ck_trailer_header_def Let_def)

lemma ck_loop_range:
  assumes "ck_range ctx"
  shows "case ck_loop buf p st ctx of More p' st' ctx' \<Rightarrow> ck_range ctx' | Stop p' st' ctx' e \<Rightarrow> ck_range ctx'"
proof (rule ck.loop_invariant [where I = "\<lambda>_ _. ck_range" and Q = "\<lambda>_ _ ctx _. ck_range ctx"])
  fix p s r assume "ck_range r"
  then show "case ck_step buf p s r of Next s' r' \<Rightarrow> ck_range r' | Stay s' r' \<Rightarrow> ck_range r'
    | Leave s' r' e \<Rightarrow> ck_range r'" using ck_keeps_range [of r buf p s] by (cases "ck_step buf p s r") auto
qed (rule assms)

section \<open>The bytes still needed\<close>

text \<open>A byte lowers the number of needed bytes by one at most.\<close>

definition ck_steady :: "ck_state \<Rightarrow> ngx_http_chunked \<Rightarrow> ck_act \<Rightarrow> bool" where
  "ck_steady st ctx a \<longleftrightarrow> (case a of
      Next st' ctx' \<Rightarrow> ck_needed st (ck_size ctx) \<le> ck_needed st' (ck_size ctx') + 1
    | Stay st' ctx' \<Rightarrow> True
    | Leave st' ctx' e \<Rightarrow> (e = Ck_data \<longrightarrow> st' = sw_chunk_data \<and> st = st' \<and> ctx' = ctx) \<and>
        (e = Ck_done \<longrightarrow> ck_needed st (ck_size ctx) \<le> 1))"

lemma ck_steady_simps [simp]:
  "ck_steady st ctx (Next st' ctx') \<longleftrightarrow> ck_needed st (ck_size ctx) \<le> ck_needed st' (ck_size ctx') + 1"
  "ck_steady st ctx (Leave st' ctx' Ck_invalid)"
  "ck_steady st ctx (Leave st' ctx' Ck_done) \<longleftrightarrow> ck_needed st (ck_size ctx) \<le> 1"
  "ck_steady st ctx (Leave st' ctx' Ck_data) \<longleftrightarrow> st' = sw_chunk_data \<and> st = st' \<and> ctx' = ctx"
  by (auto simp: ck_steady_def)

lemma ck_steady_size: "ck_range ctx \<Longrightarrow> ck_steady sw_chunk_size ctx (ck_chunk_size ch ctx)"
proof (cases "hex_digit ch")
  case (Some d)
  assume "ck_range ctx"
  then show ?thesis using Some hex_digit_range [OF Some]
    by (simp add: ck_chunk_size_def ck_needed_def ck_range_def)
next
  case None
  assume "ck_range ctx"
  then show ?thesis using None by (simp add: ck_chunk_size_def ck_needed_def ck_range_def)
qed

lemma ck_steady_start: "ck_steady sw_chunk_start ctx (ck_chunk_start ch ctx)"
  using hex_digit_range [of ch] by (auto simp: ck_chunk_start_def ck_needed_def split: option.splits)

lemma ck_needed_step:
  assumes "ck_range ctx"
  shows "ck_steady st ctx (ck_step buf p st ctx)"
  using assms ck_steady_size [OF assms] ck_steady_start
  by (cases st)
    (simp_all add: ck_step_def ck_chunk_extension_def ck_expect_lf_def ck_after_data_def
      ck_last_chunk_extension_def ck_trailer_def ck_trailer_almost_done_def ck_trailer_header_def
      ck_needed_def Let_def)

lemma ck_needed_loop:
  assumes "ck_range ctx"
  shows "case ck_loop buf p st ctx of
      More p' st' ctx' \<Rightarrow> p \<le> p' \<and> ck_needed st (ck_size ctx) \<le> ck_needed st' (ck_size ctx') + int (p' - p)
    | Stop p' st' ctx' e \<Rightarrow> p \<le> p' \<and>
        (e = Ck_data \<longrightarrow> st' = sw_chunk_data \<and> ck_needed st (ck_size ctx) \<le> ck_size ctx' + 4 + int (p' - p)) \<and>
        (e = Ck_done \<longrightarrow> ck_needed st (ck_size ctx) \<le> int (p' + 1 - p))"
proof -
  let ?n = "ck_needed st (ck_size ctx)"
  let ?I = "\<lambda>p' st' ctx'. ck_range ctx' \<and> p \<le> p' \<and> ?n \<le> ck_needed st' (ck_size ctx') + int (p' - p)"
  let ?Q = "\<lambda>p' st' ctx' e. p \<le> p' \<and> (e = Ck_data \<longrightarrow> st' = sw_chunk_data \<and> ?n \<le> ck_size ctx' + 4 + int (p' - p)) \<and>
        (e = Ck_done \<longrightarrow> ?n \<le> int (p' + 1 - p))"
  have "case ck_loop buf p st ctx of More p' st' ctx' \<Rightarrow> ?I p' st' ctx' | Stop p' st' ctx' e \<Rightarrow> ?Q p' st' ctx' e"
  proof (rule ck.loop_invariant)
    fix p' s r assume "p' < length buf" and i: "?I p' s r"
    from i ck_keeps_range [where ctx = r and buf = buf and p = p' and st = s]
      ck_needed_step [where ctx = r and buf = buf and p = p' and st = s]
    show "case ck_step buf p' s r of Next s' r' \<Rightarrow> ?I (p' + 1) s' r' | Stay s' r' \<Rightarrow> ?I p' s' r'
      | Leave s' r' e \<Rightarrow> ?Q p' s' r' e"
      by (cases "ck_step buf p' s r") (auto simp: ck_no_stay ck_steady_def ck_needed_def [of sw_chunk_data] Suc_diff_le)
  qed (use assms in simp)
  then show ?thesis by (auto split: outcome.splits)
qed

section \<open>Reading a size\<close>

definition hex_char :: "nat \<Rightarrow> u8" where
  "hex_char d = (if d < 10 then 48 + of_nat d else 87 + of_nat d)"

text \<open>A size in hexadecimal digits, most significant first.\<close>

fun chunk_hex :: "nat \<Rightarrow> u8 list" where
  "chunk_hex n = (if n < 16 then [hex_char n] else chunk_hex (n div 16) @ [hex_char (n mod 16)])"

declare chunk_hex.simps [simp del]

lemma hex_digit_char: "d < 16 \<Longrightarrow> hex_digit (hex_char d) = Some (int d)"
proof -
  have "list_all (\<lambda>d. hex_digit (hex_char d) = Some (int d)) [0, 1, 2, 3, 4, 5, 6, 7, 8, 9, 10, 11, 12, 13, 14, 15]"
    by (simp add: hex_digit_def hex_char_def)
  moreover assume "d < 16"
  then have "d \<in> set [0, 1, 2, 3, 4, 5, 6, 7, 8, 9, 10, 11, 12, 13, 14, 15]" by (auto simp: less_Suc_eq numeral_eq_Suc)
  ultimately show ?thesis unfolding list_all_iff by blast
qed

lemma ck_loop_next:
  assumes "p < length buf" and "ck_step buf p st x = Next st' x'"
  shows "ck_loop buf p st x = ck_loop buf (Suc p) st' x'"
  using assms by (subst ck_loop.simps) simp

lemma ck_loop_hex:
  assumes "int n \<le> NGX_MAX_OFF_T_VALUE div 16"
  shows "ck_loop (chunk_hex n @ zs) 0 sw_chunk_start ctx =
    ck_loop (chunk_hex n @ zs) (length (chunk_hex n)) sw_chunk_size (ctx\<lparr>ck_size := int n\<rparr>)"
  using assms
proof (induction n arbitrary: zs rule: chunk_hex.induct)
  case (1 n)
  show ?case
  proof (cases "n < 16")
    case True
    then have h: "chunk_hex n = [hex_char n]" by (subst chunk_hex.simps) simp
    show ?thesis unfolding h using hex_digit_char [OF True]
      by (subst ck_loop_next [where st' = sw_chunk_size and x' = "ctx\<lparr>ck_size := int n\<rparr>"])
        (simp_all add: ck_step_def ck_chunk_start_def)
  next
    case False
    then have h: "chunk_hex n = chunk_hex (n div 16) @ [hex_char (n mod 16)]" by (subst chunk_hex.simps) simp
    let ?buf = "chunk_hex (n div 16) @ hex_char (n mod 16) # zs" and ?k = "length (chunk_hex (n div 16))"
    have le: "int (n div 16) \<le> NGX_MAX_OFF_T_VALUE div 16" using "1.prems" by (simp add: zdiv_int)
    have "ck_loop ?buf 0 sw_chunk_start ctx = ck_loop ?buf ?k sw_chunk_size (ctx\<lparr>ck_size := int (n div 16)\<rparr>)"
      using "1.IH" [OF False le, of "hex_char (n mod 16) # zs"] by simp
    also have "\<dots> = ck_loop ?buf (Suc ?k) sw_chunk_size (ctx\<lparr>ck_size := int n\<rparr>)"
    proof (rule ck_loop_next)
      have "int (n div 16) * 16 + int (n mod 16) = int n"
        by (metis div_mult_mod_eq of_nat_add of_nat_mult of_nat_numeral)
      then show "ck_step ?buf ?k sw_chunk_size (ctx\<lparr>ck_size := int (n div 16)\<rparr>) =
          Next sw_chunk_size (ctx\<lparr>ck_size := int n\<rparr>)"
        using le hex_digit_char [of "n mod 16"] by (simp add: ck_step_def ck_chunk_size_def)
    qed simp
    finally show ?thesis unfolding h by simp
  qed
qed

section \<open>Properties\<close>

text \<open>
  (C25) The sizes of the chunked parser never leave the range of \<^verbatim>\<open>off_t\<close>: starting from a
  context in range, the size stays between 0 and the largest \<^verbatim>\<open>off_t\<close>, and the number of
  missing bytes it computes is positive and in range as well.
\<close>

theorem parse_chunked_no_overflow:
  assumes "ngx_http_parse_chunked buf pos st ctx = (rc, pos', st', ctx')"
    and "0 \<le> ck_size ctx" and "ck_size ctx \<le> 2 ^ 63 - 1"
  shows "0 \<le> ck_size ctx' \<and> ck_size ctx' \<le> 2 ^ 63 - 1 \<and>
    (rc \<in> {NGX_OK, NGX_AGAIN} \<longrightarrow> 1 \<le> ck_length ctx' \<and> ck_length ctx' \<le> 2 ^ 63 - 1)"
proof -
  have r: "ck_range ctx" using assms(2,3) by (simp add: ck_range_def)
  have n: "1 \<le> ck_needed s k \<and> ck_needed s k \<le> k + 5" if "0 \<le> k" for s k
    using that by (cases s) (simp_all add: ck_needed_def)
  show ?thesis using assms(1) ck_loop_range [OF r, where buf = buf and p = pos and st = "ck_entry st ctx"]
      n [of "ck_size ctx'" st']
    by (auto simp: ngx_http_parse_chunked_def ck_data_def ck_range_def split: outcome.splits ck_exit.splits if_splits)
qed

theorem parse_chunked_no_overflow_witness:
  "ngx_http_parse_chunked (bytes ''1'') 0 sw_chunk_start \<lparr>ck_size = 0, ck_length = 0\<rparr> =
     (NGX_AGAIN, 1, sw_chunk_size, \<lparr>ck_size = 1, ck_length = 6\<rparr>) \<and> (0 :: int) \<le> 1 \<and> 1 \<le> (6 :: int)"
proof -
  have e: "ngx_http_parse_chunked (bytes ''1'') 0 sw_chunk_start \<lparr>ck_size = 0, ck_length = 0\<rparr> =
     (NGX_AGAIN, 1, sw_chunk_size, \<lparr>ck_size = 1, ck_length = 6\<rparr>)"
    by (simp add: ngx_http_parse_chunked_def ck_entry_def ck_loop.simps ck_step_def ck_chunk_start_def hex_digit_def
        ck_data_def ck_needed_def)
  from parse_chunked_no_overflow [OF e] e show ?thesis by simp
qed

text \<open>
  \<^verbatim>\<open>ctx->length\<close> is what it is meant to be, a lower bound on the bytes a message still
  needs: from a state where \<open>ck_needed\<close> bytes are missing, the parser reaches the end of the
  message only after reading at least that many bytes, and it reaches the data of a chunk only
  when the bytes read plus the bytes missing then are at least that many.
\<close>

theorem parse_chunked_length_bound:
  assumes "ngx_http_parse_chunked buf pos st ctx = (rc, pos', st', ctx')"
    and "0 \<le> ck_size ctx" and "ck_size ctx \<le> 2 ^ 63 - 1"
  shows "(rc = NGX_DONE \<longrightarrow> ck_needed (ck_entry st ctx) (ck_size ctx) \<le> int (pos' - pos)) \<and>
    (rc \<in> {NGX_OK, NGX_AGAIN} \<longrightarrow>
       ck_needed (ck_entry st ctx) (ck_size ctx) \<le> int (pos' - pos) + ck_length ctx')"
proof -
  have r: "ck_range ctx" using assms(2,3) by (simp add: ck_range_def)
  show ?thesis
  proof (cases "ck_loop buf pos (ck_entry st ctx) ctx")
    case (More p s x)
    then show ?thesis using assms(1) ck_needed_loop [OF r, where buf = buf and p = pos and st = "ck_entry st ctx"]
      by (auto simp: ngx_http_parse_chunked_def ck_data_def split: if_splits)
  next
    case (Stop p s x e)
    then show ?thesis using assms(1) ck_needed_loop [OF r, where buf = buf and p = pos and st = "ck_entry st ctx"]
      by (cases e) (auto simp: ngx_http_parse_chunked_def ck_data_def ck_needed_def [of sw_chunk_data]
          split: if_splits)
  qed
qed

theorem parse_chunked_length_bound_witness:
  "ngx_http_parse_chunked (bytes ''0'' @ [LF, LF]) 0 sw_chunk_start \<lparr>ck_size = 0, ck_length = 0\<rparr> =
     (NGX_DONE, 3, sw_chunk_start, \<lparr>ck_size = 0, ck_length = 0\<rparr>) \<and> ck_needed sw_chunk_start 0 \<le> 3"
proof -
  have e: "ngx_http_parse_chunked (bytes ''0'' @ [LF, LF]) 0 sw_chunk_start \<lparr>ck_size = 0, ck_length = 0\<rparr> =
     (NGX_DONE, 3, sw_chunk_start, \<lparr>ck_size = 0, ck_length = 0\<rparr>)"
    by (simp add: ngx_http_parse_chunked_def ck_entry_def ck_loop.simps ck_step_def ck_state_defs hex_digit_def)
  from parse_chunked_length_bound [OF e] e show ?thesis by (simp add: ck_entry_def)
qed

text \<open>
  Reading back a chunk header: the hexadecimal digits of a size between 1 and
  \<open>2 ^ 59 - 1\<close>, a CR, an LF and a byte of data are read as that size, with the position at the
  first byte of the data.
\<close>

theorem parse_chunked_size_roundtrip:
  assumes "0 < n" and "int n \<le> NGX_MAX_OFF_T_VALUE div 16"
  shows "ngx_http_parse_chunked (chunk_hex n @ [CR, LF, x] @ zs) 0 sw_chunk_start ctx =
    (NGX_OK, length (chunk_hex n) + 2, sw_chunk_data, \<lparr>ck_size = int n, ck_length = int n + 4\<rparr>)"
proof -
  let ?buf = "chunk_hex n @ CR # LF # x # zs" and ?k = "length (chunk_hex n)" and ?x = "ctx\<lparr>ck_size := int n\<rparr>"
  have "ck_loop ?buf 0 sw_chunk_start ctx = ck_loop ?buf ?k sw_chunk_size ?x" using ck_loop_hex [OF assms(2)] .
  also have "\<dots> = ck_loop ?buf (Suc ?k) sw_chunk_extension_almost_done ?x"
    using assms hex_digit_delim by (intro ck_loop_next) (simp_all add: ck_step_def ck_chunk_size_def)
  also have "\<dots> = ck_loop ?buf (Suc (Suc ?k)) sw_chunk_data ?x"
    by (intro ck_loop_next) (simp_all add: ck_step_def ck_expect_lf_def)
  also have "\<dots> = Stop (Suc (Suc ?k)) sw_chunk_data ?x Ck_data"
    by (subst ck_loop.simps) (simp add: ck_step_def)
  finally have run: "ck_loop ?buf 0 sw_chunk_start ctx = Stop (Suc (Suc ?k)) sw_chunk_data ?x Ck_data" .
  have "int n \<le> NGX_MAX_OFF_T_VALUE - 5" using assms(2) by simp
  then show ?thesis using run assms(2)
    by (simp add: ngx_http_parse_chunked_def ck_entry_def ck_data_def ck_needed_def)
qed

theorem parse_chunked_size_roundtrip_witness:
  "ngx_http_parse_chunked (chunk_hex 26 @ [CR, LF, 65] @ []) 0 sw_chunk_start \<lparr>ck_size = 0, ck_length = 0\<rparr> =
    (NGX_OK, length (chunk_hex 26) + 2, sw_chunk_data, \<lparr>ck_size = 26, ck_length = 30\<rparr>)"
  using parse_chunked_size_roundtrip [of 26 65 "[]"] by simp

end
