(* ===== verification/Ngx_Http_Status_Line.thy ===== *)
theory Ngx_Http_Status_Line
  imports Ngx_Http_Request
begin

text \<open>
  \<^verbatim>\<open>ngx_http_parse_status_line\<close>, the parser of the first line of an upstream's response. It sets
  the version fields of the request and the fields of \<^verbatim>\<open>ngx_http_status_t\<close>.
\<close>

datatype sl_state = sw_start | sw_H | sw_HT | sw_HTT | sw_HTTP | sw_first_major_digit | sw_major_digit
  | sw_first_minor_digit | sw_minor_digit | sw_status | sw_space_after_status | sw_status_text
  | sw_almost_done

record ngx_http_status =
  st_http_version :: nat
  st_code :: u64
  st_count :: nat
  st_start :: "nat option"
  st_end :: "nat option"

type_synonym sl_ctx = "ngx_http_request \<times> ngx_http_status"
type_synonym sl_act = "(sl_state, sl_ctx, exit) act"
type_synonym sl_outcome = "(sl_state, sl_ctx, exit) outcome"

abbreviation (input) sl_error :: "sl_state \<Rightarrow> sl_ctx \<Rightarrow> sl_act" where
  "sl_error s x \<equiv> Leave s x (Return NGX_ERROR)"

text \<open>The five states that match \<^verbatim>\<open>HTTP/\<close>.\<close>

definition sl_expect :: "sl_state \<Rightarrow> char \<Rightarrow> sl_state \<Rightarrow> u8 \<Rightarrow> sl_ctx \<Rightarrow> sl_act" where
  "sl_expect st c st' ch x = (if ch = C c then Next st' x else sl_error st x)"

definition sl_first_major_digit :: "u8 \<Rightarrow> sl_ctx \<Rightarrow> sl_act" where
  "sl_first_major_digit ch x =
     (if ch < C CHR ''1'' \<or> C CHR ''9'' < ch then sl_error sw_first_major_digit x
      else Next sw_major_digit ((fst x)\<lparr>http_major := ucast ch - 48\<rparr>, snd x))"

definition sl_major_digit :: "u8 \<Rightarrow> sl_ctx \<Rightarrow> sl_act" where
  "sl_major_digit ch x =
     (if ch = C CHR ''.'' then Next sw_first_minor_digit x
      else if ch < C CHR ''0'' \<or> C CHR ''9'' < ch then sl_error sw_major_digit x
      else if 99 < http_major (fst x) then sl_error sw_major_digit x
      else Next sw_major_digit ((fst x)\<lparr>http_major := http_major (fst x) * 10 + ucast ch - 48\<rparr>, snd x))"

definition sl_first_minor_digit :: "u8 \<Rightarrow> sl_ctx \<Rightarrow> sl_act" where
  "sl_first_minor_digit ch x =
     (if ch < C CHR ''0'' \<or> C CHR ''9'' < ch then sl_error sw_first_minor_digit x
      else Next sw_minor_digit ((fst x)\<lparr>http_minor := ucast ch - 48\<rparr>, snd x))"

definition sl_minor_digit :: "u8 \<Rightarrow> sl_ctx \<Rightarrow> sl_act" where
  "sl_minor_digit ch x =
     (if ch = C CHR '' '' then Next sw_status x
      else if ch < C CHR ''0'' \<or> C CHR ''9'' < ch then sl_error sw_minor_digit x
      else if 99 < http_minor (fst x) then sl_error sw_minor_digit x
      else Next sw_minor_digit ((fst x)\<lparr>http_minor := http_minor (fst x) * 10 + ucast ch - 48\<rparr>, snd x))"

definition sl_status :: "nat \<Rightarrow> u8 \<Rightarrow> sl_ctx \<Rightarrow> sl_act" where
  "sl_status p ch x =
     (if ch = C CHR '' '' then Next sw_status x
      else if ch < C CHR ''0'' \<or> C CHR ''9'' < ch then sl_error sw_status x
      else
        let s = (snd x)\<lparr>st_code := st_code (snd x) * 10 + ucast ch - 48, st_count := st_count (snd x) + 1\<rparr>
        in if st_count s = 3 then Next sw_space_after_status (fst x, s\<lparr>st_start := Some (p - 2)\<rparr>)
           else Next sw_status (fst x, s))"

definition sl_space_after_status :: "u8 \<Rightarrow> sl_ctx \<Rightarrow> sl_act" where
  "sl_space_after_status ch x =
     (if ch = C CHR '' '' then Next sw_status_text x
      else if ch = C CHR ''.'' then Next sw_status_text x
      else if ch = CR then Next sw_almost_done x
      else if ch = LF then Leave sw_space_after_status x Goto_done
      else sl_error sw_space_after_status x)"

definition sl_status_text :: "u8 \<Rightarrow> sl_ctx \<Rightarrow> sl_act" where
  "sl_status_text ch x =
     (if ch = CR then Next sw_almost_done x
      else if ch = LF then Leave sw_status_text x Goto_done
      else Next sw_status_text x)"

definition sl_almost_done :: "nat \<Rightarrow> u8 \<Rightarrow> sl_ctx \<Rightarrow> sl_act" where
  "sl_almost_done p ch x0 =
     (let x = (fst x0, (snd x0)\<lparr>st_end := Some (p - 1)\<rparr>) in
      if ch = LF then Leave sw_almost_done x Goto_done else sl_error sw_almost_done x)"

definition sl_step :: "u8 list \<Rightarrow> nat \<Rightarrow> sl_state \<Rightarrow> sl_ctx \<Rightarrow> sl_act" where
  "sl_step buf p st x =
     (let ch = byte_at buf p in
      case st of
        sw_start \<Rightarrow> sl_expect sw_start CHR ''H'' sw_H ch x
      | sw_H \<Rightarrow> sl_expect sw_H CHR ''T'' sw_HT ch x
      | sw_HT \<Rightarrow> sl_expect sw_HT CHR ''T'' sw_HTT ch x
      | sw_HTT \<Rightarrow> sl_expect sw_HTT CHR ''P'' sw_HTTP ch x
      | sw_HTTP \<Rightarrow> sl_expect sw_HTTP CHR ''/'' sw_first_major_digit ch x
      | sw_first_major_digit \<Rightarrow> sl_first_major_digit ch x
      | sw_major_digit \<Rightarrow> sl_major_digit ch x
      | sw_first_minor_digit \<Rightarrow> sl_first_minor_digit ch x
      | sw_minor_digit \<Rightarrow> sl_minor_digit ch x
      | sw_status \<Rightarrow> sl_status p ch x
      | sw_space_after_status \<Rightarrow> sl_space_after_status ch x
      | sw_status_text \<Rightarrow> sl_status_text ch x
      | sw_almost_done \<Rightarrow> sl_almost_done p ch x)"

lemmas sl_state_defs = sl_expect_def sl_first_major_digit_def sl_major_digit_def sl_first_minor_digit_def
  sl_minor_digit_def sl_status_def sl_space_after_status_def sl_status_text_def sl_almost_done_def

lemma sl_no_stay: "sl_step buf p st x \<noteq> Stay st' x'"
  by (cases st) (simp_all add: sl_step_def sl_state_defs Let_def)

function sl_loop :: "u8 list \<Rightarrow> nat \<Rightarrow> sl_state \<Rightarrow> sl_ctx \<Rightarrow> sl_outcome" where
  "sl_loop buf p st x =
     (if p < length buf
      then (case sl_step buf p st x of
              Next st' x' \<Rightarrow> sl_loop buf (p + 1) st' x'
            | Stay st' x' \<Rightarrow> sl_loop buf p st' x'
            | Leave st' x' e \<Rightarrow> Stop p st' x' e)
      else More p st x)"
  by pat_completeness auto
termination
  by (relation "measure (\<lambda>(buf, p, st, x). length buf - p)") (auto simp: sl_no_stay)

declare sl_loop.simps [simp del]

definition sl_done :: "nat \<Rightarrow> sl_ctx \<Rightarrow> rc \<times> nat \<times> sl_state \<times> sl_ctx" where
  "sl_done p x =
     (let s = (if st_end (snd x) = None then (snd x)\<lparr>st_end := Some p\<rparr> else snd x)
      in (NGX_OK, p + 1, sw_start,
          (fst x, s\<lparr>st_http_version := unat (http_major (fst x)) * 1000 + unat (http_minor (fst x))\<rparr>)))"

definition ngx_http_parse_status_line ::
  "u8 list \<Rightarrow> nat \<Rightarrow> sl_state \<Rightarrow> ngx_http_request \<Rightarrow> ngx_http_status \<Rightarrow> rc \<times> nat \<times> sl_state \<times> sl_ctx"
where
  "ngx_http_parse_status_line buf pos st r status =
     (case sl_loop buf pos st (r, status) of
        More p st' x \<Rightarrow> (NGX_AGAIN, p, st', x)
      | Stop p st' x Goto_done \<Rightarrow> sl_done p x
      | Stop p st' x (Return rc) \<Rightarrow> (rc, pos, st, x))"

definition status_init :: ngx_http_status where
  "status_init = \<lparr>st_http_version = 0, st_code = 0, st_count = 0, st_start = None, st_end = None\<rparr>"

lemma sl_step_prefix: "p < length xs \<Longrightarrow> sl_step (xs @ ys) p st x = sl_step xs p st x"
  by (simp add: sl_step_def byte_at_append)

interpretation sl: byte_parser sl_step sl_loop "\<lambda>_. 0"
proof
  show "sl_loop buf p s r = parse_round sl_step sl_loop buf p s r" for buf p s r
    by (subst sl_loop.simps) (simp add: parse_round_def)
qed (auto simp: sl_step_prefix sl_no_stay)

lemma sl_stop_exit:
  assumes "sl_loop buf p st x = Stop p' st' x' e"
  shows "e \<in> {Goto_done, Return NGX_ERROR}"
proof -
  have "e \<in> {Goto_done, Return NGX_ERROR}" if "sl_step buf p st x = Leave st' x' e" for p st x st' x' e
    using that by (cases st) (auto simp: sl_step_def Let_def sl_state_defs split: if_splits)
  then have "case sl_loop buf p st x of More p' s' r' \<Rightarrow> True
    | Stop p' s' r' e \<Rightarrow> e \<in> {Goto_done, Return NGX_ERROR}"
    by (intro sl.loop_invariant [where I = "\<lambda>_ _ _. True"]) (auto split: act.splits)
  with assms show ?thesis by simp
qed

section \<open>The status code\<close>

text \<open>As many digits as were counted; three when the code is complete.\<close>

definition sl_inv :: "sl_state \<Rightarrow> sl_ctx \<Rightarrow> bool" where
  "sl_inv st x \<longleftrightarrow> unat (st_code (snd x)) < 10 ^ st_count (snd x) \<and>
    http_major (fst x) \<le> 999 \<and> http_minor (fst x) \<le> 999 \<and>
    (if st \<in> {sw_space_after_status, sw_status_text, sw_almost_done} then st_count (snd x) = 3
     else st_count (snd x) < 3)"

lemma code_digit:
  fixes w :: u64 and ch :: u8
  assumes "unat w < 10 ^ k" and "k < 3" and "48 \<le> ch" and "ch \<le> 57"
  shows "unat (w * 10 + ucast ch - 48) < 10 ^ Suc k"
proof -
  have c: "48 \<le> unat ch" "unat ch \<le> 57" using assms(3,4) by (simp_all add: word_le_nat_alt)
  have u: "unat (ucast ch :: u64) = unat ch" using c by (simp add: unsigned_ucast_eq take_bit_nat_eq_self)
  have "(10 :: nat) ^ k \<le> 10 ^ 2" using assms(2) by (intro power_increasing) auto
  then have w: "unat w < 100" using assms(1) by simp
  have s: "unat (w * 10 + ucast ch) = unat w * 10 + unat ch" using w c by (simp add: unat_word_ariths u)
  then have "unat (w * 10 + ucast ch - 48) = unat w * 10 + unat ch - 48"
    using c by (simp add: unat_sub word_le_nat_alt)
  then show ?thesis using assms(1) c by simp
qed

lemma sl_keeps:
  assumes "sl_inv st x"
  shows "case sl_step buf p st x of Next s' x' \<Rightarrow> sl_inv s' x' | Stay s' x' \<Rightarrow> sl_inv s' x'
    | Leave s' x' e \<Rightarrow> e = Goto_done \<longrightarrow> sl_inv sw_almost_done x'"
proof -
  have d: "w * 10 + ucast ch - 48 \<le> 999" if "\<not> 99 < w" "\<not> ch < 48" "\<not> 57 < ch" for w :: "16 word" and ch :: u8
    using digit_bound16(1) [of w ch] that by (simp add: not_less)
  have e: "ucast ch - 48 \<le> (999 :: 16 word)" if "\<not> ch < 48" "\<not> 57 < ch" for ch :: u8
    using order_trans [OF digit_bound16(2) [of 0 ch], of 999] that by (simp add: not_less)
  have e1: "ucast ch - 48 \<le> (999 :: 16 word)" if "\<not> ch < 49" "\<not> 57 < ch" for ch :: u8
  proof (rule e)
    have "48 \<le> (49 :: u8)" by simp
    then show "\<not> ch < 48" using that(1) by (meson not_less order_trans)
  qed (rule that)
  have k: "unat (st_code (snd x) * 10 + ucast ch - 48) < 10 * 10 ^ st_count (snd x)"
    if "st_count (snd x) < 3" "\<not> ch < 48" "\<not> 57 < ch" for ch :: u8
    using code_digit [of "st_code (snd x)" "st_count (snd x)" ch] assms that by (simp add: sl_inv_def not_less)
  have k2: "unat (st_code (snd x) * 10 + ucast ch - 48) < 1000"
    if "st_count (snd x) = 2" "\<not> ch < 48" "\<not> 57 < ch" for ch :: u8
    using k [of ch] that by simp
  show ?thesis using assms
    by (cases st) (auto simp: sl_step_def sl_state_defs sl_inv_def Let_def d e e1 k k2)
qed

section \<open>Properties\<close>

text \<open>
  The status line parser may be given the input in pieces, like the request line parser.
\<close>

theorem parse_status_line_incremental:
  "case ngx_http_parse_status_line xs pos st r s of (rc, p1, st1, (r1, s1)) \<Rightarrow>
     if rc = NGX_AGAIN then
       (case (ngx_http_parse_status_line (xs @ ys) pos st r s, ngx_http_parse_status_line (xs @ ys) p1 st1 r1 s1) of
          ((rc, p, st, x), (rc', p', st', x')) \<Rightarrow> rc = rc' \<and> x = x' \<and>
            (rc \<in> {NGX_OK, NGX_AGAIN} \<longrightarrow> p = p' \<and> st = st'))
     else ngx_http_parse_status_line (xs @ ys) pos st r s = (rc, p1, st1, (r1, s1))"
proof (cases "sl_loop xs pos st (r, s)")
  case (More p1 st1 x)
  have l: "sl_loop (xs @ ys) pos st (r, s) = sl_loop (xs @ ys) p1 st1 x" using sl.loop_resume [OF More] .
  have a: "ngx_http_parse_status_line xs pos st r s = (NGX_AGAIN, p1, st1, (fst x, snd x))"
    using More by (simp add: ngx_http_parse_status_line_def)
  show ?thesis
  proof (cases "sl_loop (xs @ ys) p1 st1 x")
    case (Stop p q y e)
    then show ?thesis using a l sl_stop_exit [OF Stop]
      by (auto simp: ngx_http_parse_status_line_def split: prod.splits)
  qed (use a l in \<open>simp add: ngx_http_parse_status_line_def\<close>)
next
  case (Stop p1 st1 x e)
  have "ngx_http_parse_status_line (xs @ ys) pos st r s = ngx_http_parse_status_line xs pos st r s"
    using sl.loop_stopped [OF Stop] Stop by (simp add: ngx_http_parse_status_line_def)
  moreover have "fst (ngx_http_parse_status_line xs pos st r s) \<noteq> NGX_AGAIN"
    using Stop sl_stop_exit [OF Stop] by (auto simp: ngx_http_parse_status_line_def sl_done_def)
  ultimately show ?thesis by (cases "ngx_http_parse_status_line xs pos st r s") auto
qed

theorem parse_status_line_incremental_witness:
  "case ngx_http_parse_status_line (bytes ''HT'') 0 sw_start request_init status_init of (rc, p1, st1, (r1, s1)) \<Rightarrow>
     rc = NGX_AGAIN \<and> p1 = 2 \<and>
     ngx_http_parse_status_line (bytes ''HT'' @ bytes ''T'') p1 st1 r1 s1 =
     ngx_http_parse_status_line (bytes ''HT'' @ bytes ''T'') 0 sw_start request_init status_init"
proof -
  note eval = ngx_http_parse_status_line_def sl_loop.simps sl_step_def sl_expect_def
  have one: "ngx_http_parse_status_line (bytes ''HT'') 0 sw_start request_init status_init =
      (NGX_AGAIN, 2, sw_HT, (request_init, status_init))" by (simp add: eval)
  have two: "ngx_http_parse_status_line (bytes ''HT'' @ bytes ''T'') 0 sw_start request_init status_init =
      (NGX_AGAIN, 3, sw_HTT, (request_init, status_init))" by (simp add: eval)
  from parse_status_line_incremental [where xs = "bytes ''HT''" and pos = 0 and st = sw_start and r = request_init and
      s = status_init and ys = "bytes ''T''"]
  show ?thesis unfolding one two by (auto split: prod.splits)
qed

text \<open>
  A status line is accepted only with a code of exactly three digits, so the code is
  below 1000; the version numbers have at most three digits each and the version reported is
  made of them.
\<close>

theorem parse_status_line_code:
  assumes "ngx_http_parse_status_line buf 0 sw_start request_init status_init = (NGX_OK, pos, st, (r, s))"
  shows "st_count s = 3 \<and> unat (st_code s) < 1000 \<and> unat (http_major r) \<le> 999 \<and> unat (http_minor r) \<le> 999 \<and>
    st_http_version s = unat (http_major r) * 1000 + unat (http_minor r) \<and> st_end s \<noteq> None \<and>
    pos \<le> length buf"
proof -
  let ?Q = "\<lambda>p s x e. p < length buf \<and> (e = Goto_done \<longrightarrow> sl_inv sw_almost_done x)"
  have inv: "case sl_loop buf 0 sw_start (request_init, status_init) of More p s x \<Rightarrow> sl_inv s x
      | Stop p s x e \<Rightarrow> ?Q p s x e"
  proof (rule sl.loop_invariant)
    fix p s x assume "p < length buf" "sl_inv s x"
    then show "case sl_step buf p s x of Next s' x' \<Rightarrow> sl_inv s' x' | Stay s' x' \<Rightarrow> sl_inv s' x'
      | Leave s' x' e \<Rightarrow> ?Q p s' x' e"
      using sl_keeps [where st = s and x = x and buf = buf and p = p] by (auto split: act.splits)
  qed (simp add: sl_inv_def request_init_def status_init_def)
  from assms sl_stop_exit [of buf 0 sw_start "(request_init, status_init)"] obtain p q x where
    q: "sl_loop buf 0 sw_start (request_init, status_init) = Stop p q x Goto_done"
    and d: "sl_done p x = (NGX_OK, pos, st, (r, s))"
    unfolding ngx_http_parse_status_line_def by (auto split: outcome.splits exit.splits)
  from inv q have p: "p < length buf" "sl_inv sw_almost_done x" by auto
  from d have f: "pos = p + 1" "r = fst x" "st_count s = st_count (snd x)" "st_code s = st_code (snd x)"
    "st_http_version s = unat (http_major r) * 1000 + unat (http_minor r)" "st_end s \<noteq> None"
    by (auto simp: sl_done_def Let_def split: if_splits)
  have "st_count (snd x) = 3" "unat (st_code (snd x)) < 10 ^ st_count (snd x)" "http_major (fst x) \<le> 999"
    "http_minor (fst x) \<le> 999" using p(2) by (auto simp: sl_inv_def)
  then show ?thesis using f p(1) by (simp add: word_le_nat_alt)
qed

theorem parse_status_line_code_witness:
  "\<exists>pos st r s. ngx_http_parse_status_line (bytes ''HTTP/1.1 404 N'' @ [LF]) 0 sw_start request_init status_init =
      (NGX_OK, pos, st, (r, s)) \<and> st_code s = 404 \<and> st_count s = 3 \<and> unat (http_major r) \<le> 999"
proof -
  obtain pos st r s where p: "ngx_http_parse_status_line (bytes ''HTTP/1.1 404 N'' @ [LF]) 0 sw_start request_init status_init =
      (NGX_OK, pos, st, (r, s))" "st_code s = 404"
    by (simp add: ngx_http_parse_status_line_def sl_loop.simps sl_step_def sl_state_defs Let_def request_init_def
        status_init_def sl_done_def)
  from parse_status_line_code [OF p(1)] p show ?thesis by auto
qed

end
