(* ===== verification/Ngx_Http_Complex_Uri.thy ===== *)
theory Ngx_Http_Complex_Uri
  imports Ngx_Http_Request "HOL-Library.Sublist"
begin

text \<open>
  \<^verbatim>\<open>ngx_http_parse_complex_uri\<close>, which decodes \<^verbatim>\<open>%XX\<close>, merges slashes and resolves \<^verbatim>\<open>/./\<close> and
  \<^verbatim>\<open>/../\<close>, and \<^verbatim>\<open>ngx_http_parse_uri\<close>, which only classifies a URI.

  The input is the list of bytes from \<^verbatim>\<open>r->uri_start\<close> on, \<open>n\<close> the index of \<^verbatim>\<open>r->uri_end\<close> in it.
  The output buffer \<^verbatim>\<open>r->uri.data\<close> is the list of the bytes below \<^verbatim>\<open>u\<close>: writing at \<^verbatim>\<open>u\<close> appends,
  moving \<^verbatim>\<open>u\<close> back drops bytes at the end. \<^verbatim>\<open>quoted_state\<close> only ever holds one of the four
  states that are not part of an escape sequence.
\<close>

section \<open>Decoding and normalising\<close>

datatype cu_base = sw_usual | sw_slash | sw_dot | sw_dot_dot

datatype cu_state = Base cu_base | sw_quoted | sw_quoted_second

datatype cu_exit = Cu_done | Cu_args | Cu_return rc

record cu_ctx =
  cu_ch :: u8
  cu_out :: "u8 list"
  cu_ext :: "nat option"
  cu_args_start :: "nat option"
  cu_plus :: bool
  cu_quoted :: bool
  cu_decoded :: u8
  cu_quoted_state :: cu_base

type_synonym cu_act = "(cu_state, cu_ctx, cu_exit) act"

definition cu_put :: "cu_ctx \<Rightarrow> cu_ctx" where
  "cu_put x = x\<lparr>cu_out := cu_out x @ [cu_ch x]\<rparr>"

definition cu_do_usual :: "nat \<Rightarrow> cu_ctx \<Rightarrow> cu_act" where
  "cu_do_usual p x =
     (let ch = cu_ch x in
      if is_usual ch then Next (Base sw_usual) (cu_put x)
      else if ch = C CHR ''/'' then Next (Base sw_slash) (cu_put (x\<lparr>cu_ext := None\<rparr>))
      else if ch = C CHR ''%'' then Next sw_quoted (x\<lparr>cu_quoted_state := sw_usual\<rparr>)
      else if ch = C CHR ''?'' then Leave (Base sw_usual) (x\<lparr>cu_args_start := Some p\<rparr>) Cu_args
      else if ch = C CHR ''#'' then Leave (Base sw_usual) x Cu_done
      else if ch = C CHR ''.'' then Next (Base sw_usual) (cu_put (x\<lparr>cu_ext := Some (length (cu_out x) + 1)\<rparr>))
      else if ch = C CHR ''+'' then Next (Base sw_usual) (cu_put (x\<lparr>cu_plus := True\<rparr>))
      else Next (Base sw_usual) (cu_put x))"

definition cu_do_slash :: "bool \<Rightarrow> nat \<Rightarrow> cu_ctx \<Rightarrow> cu_act" where
  "cu_do_slash merge_slashes p x =
     (let ch = cu_ch x in
      if is_usual ch then Next (Base sw_usual) (cu_put x)
      else if ch = C CHR ''/'' then Next (Base sw_slash) (if \<not> merge_slashes then cu_put x else x)
      else if ch = C CHR ''.'' then Next (Base sw_dot) (cu_put x)
      else if ch = C CHR ''%'' then Next sw_quoted (x\<lparr>cu_quoted_state := sw_slash\<rparr>)
      else if ch = C CHR ''?'' then Leave (Base sw_slash) (x\<lparr>cu_args_start := Some p\<rparr>) Cu_args
      else if ch = C CHR ''#'' then Leave (Base sw_slash) x Cu_done
      else if ch = C CHR ''+'' then Next (Base sw_usual) (cu_put (x\<lparr>cu_plus := True\<rparr>))
      else Next (Base sw_usual) (cu_put x))"

definition cu_do_dot :: "nat \<Rightarrow> cu_ctx \<Rightarrow> cu_act" where
  "cu_do_dot p x =
     (let ch = cu_ch x in
      if is_usual ch then Next (Base sw_usual) (cu_put x)
      else if ch = C CHR ''/'' then Next (Base sw_slash) (x\<lparr>cu_out := butlast (cu_out x)\<rparr>)
      else if ch = C CHR ''.'' then Next (Base sw_dot_dot) (cu_put x)
      else if ch = C CHR ''%'' then Next sw_quoted (x\<lparr>cu_quoted_state := sw_dot\<rparr>)
      else if ch = C CHR ''?'' then Leave (Base sw_dot) (x\<lparr>cu_args_start := Some p\<rparr>) Cu_args
      else if ch = C CHR ''#'' then Leave (Base sw_dot) x Cu_done
      else if ch = C CHR ''+'' then Next (Base sw_usual) (cu_put (x\<lparr>cu_plus := True\<rparr>))
      else Next (Base sw_usual) (cu_put x))"

text \<open>
  The backward search for a slash: from the index \<open>i\<close> down; \<open>None\<close> when \<^verbatim>\<open>u\<close> passes the start
  of the buffer.
\<close>

fun find_back :: "u8 list \<Rightarrow> nat \<Rightarrow> nat option" where
  "find_back out i =
     (if out ! i = C CHR ''/'' then Some (i + 1) else if i = 0 then None else find_back out (i - 1))"

declare find_back.simps [simp del]

definition cu_back :: "u8 list \<Rightarrow> nat option" where
  "cu_back out = (if length out < 5 then None else find_back out (length out - 5))"

definition cu_do_dot_dot :: "nat \<Rightarrow> cu_ctx \<Rightarrow> cu_act" where
  "cu_do_dot_dot p x =
     (let ch = cu_ch x in
      if is_usual ch then Next (Base sw_usual) (cu_put x)
      else if ch = C CHR ''/'' then
        (case cu_back (cu_out x) of
           None \<Rightarrow> Leave (Base sw_slash) x (Cu_return NGX_HTTP_PARSE_INVALID_REQUEST)
         | Some u \<Rightarrow> Next (Base sw_slash) (x\<lparr>cu_out := take u (cu_out x)\<rparr>))
      else if ch = C CHR ''%'' then Next sw_quoted (x\<lparr>cu_quoted_state := sw_dot_dot\<rparr>)
      else if ch = C CHR ''?'' then Leave (Base sw_dot_dot) (x\<lparr>cu_args_start := Some p\<rparr>) Cu_args
      else if ch = C CHR ''#'' then Leave (Base sw_dot_dot) x Cu_done
      else if ch = C CHR ''+'' then Next (Base sw_usual) (cu_put (x\<lparr>cu_plus := True\<rparr>))
      else Next (Base sw_usual) (cu_put x))"

definition cu_do_quoted :: "cu_ctx \<Rightarrow> cu_act" where
  "cu_do_quoted x0 =
     (let x = x0\<lparr>cu_quoted := True\<rparr>; ch = cu_ch x; c = ch OR 0x20 in
      if C CHR ''0'' \<le> ch \<and> ch \<le> C CHR ''9''
      then Next sw_quoted_second (x\<lparr>cu_decoded := ch - C CHR ''0''\<rparr>)
      else if C CHR ''a'' \<le> c \<and> c \<le> C CHR ''f''
      then Next sw_quoted_second (x\<lparr>cu_decoded := c - C CHR ''a'' + 10\<rparr>)
      else Leave sw_quoted x (Cu_return NGX_HTTP_PARSE_INVALID_REQUEST))"

definition cu_do_quoted_second :: "cu_ctx \<Rightarrow> cu_act" where
  "cu_do_quoted_second x =
     (let ch = cu_ch x; c = ch OR 0x20 in
      if C CHR ''0'' \<le> ch \<and> ch \<le> C CHR ''9'' then
        (let y = x\<lparr>cu_ch := push_bit 4 (cu_decoded x) + ch - C CHR ''0''\<rparr> in
         if cu_ch y = C CHR ''%'' \<or> cu_ch y = C CHR ''#'' then Next (Base sw_usual) (cu_put y)
         else if cu_ch y = 0 then Leave sw_quoted_second y (Cu_return NGX_HTTP_PARSE_INVALID_REQUEST)
         else Stay (Base (cu_quoted_state y)) y)
      else if C CHR ''a'' \<le> c \<and> c \<le> C CHR ''f'' then
        (let y = x\<lparr>cu_ch := push_bit 4 (cu_decoded x) + c - C CHR ''a'' + 10\<rparr> in
         if cu_ch y = C CHR ''?'' then Next (Base sw_usual) (cu_put y)
         else if cu_ch y = C CHR ''+'' then Stay (Base (cu_quoted_state y)) (y\<lparr>cu_plus := True\<rparr>)
         else Stay (Base (cu_quoted_state y)) y)
      else Leave sw_quoted_second x (Cu_return NGX_HTTP_PARSE_INVALID_REQUEST))"

definition cu_step :: "bool \<Rightarrow> nat \<Rightarrow> cu_state \<Rightarrow> cu_ctx \<Rightarrow> cu_act" where
  "cu_step merge_slashes p st x =
     (case st of
        Base sw_usual \<Rightarrow> cu_do_usual p x
      | Base sw_slash \<Rightarrow> cu_do_slash merge_slashes p x
      | Base sw_dot \<Rightarrow> cu_do_dot p x
      | Base sw_dot_dot \<Rightarrow> cu_do_dot_dot p x
      | sw_quoted \<Rightarrow> cu_do_quoted x
      | sw_quoted_second \<Rightarrow> cu_do_quoted_second x)"

lemmas cu_defs = cu_do_usual_def cu_do_slash_def cu_do_dot_def cu_do_dot_dot_def cu_do_quoted_def
  cu_do_quoted_second_def

fun cu_weight :: "cu_state \<Rightarrow> nat" where
  "cu_weight sw_quoted_second = 1"
| "cu_weight _ = 0"

lemma cu_stay: "cu_step m p st x = Stay st' x' \<Longrightarrow> st = sw_quoted_second \<and> st' = Base (cu_quoted_state x)"
  by (cases st rule: cu_weight.cases)
    (auto simp: cu_step_def cu_defs Let_def split: if_splits option.splits cu_base.splits)

text \<open>
  The loop \<^verbatim>\<open>while (p <= r->uri_end)\<close>. \<open>Next\<close> stands for the read \<^verbatim>\<open>ch = *p++\<close> before \<^verbatim>\<open>break\<close>;
  the byte at \<^verbatim>\<open>r->uri_end\<close>, read last, is never examined.
\<close>

function cu_loop :: "bool \<Rightarrow> u8 list \<Rightarrow> nat \<Rightarrow> nat \<Rightarrow> cu_state \<Rightarrow> cu_ctx \<Rightarrow> (cu_state, cu_ctx, cu_exit) outcome" where
  "cu_loop m s n p st x =
     (if p \<le> n
      then (case cu_step m p st x of
              Next st' x' \<Rightarrow> cu_loop m s n (p + 1) st' (x'\<lparr>cu_ch := byte_at s p\<rparr>)
            | Stay st' x' \<Rightarrow> cu_loop m s n p st' x'
            | Leave st' x' e \<Rightarrow> Stop p st' x' e)
      else More p st x)"
  by pat_completeness auto
termination
  by (relation "measures [\<lambda>(m, s, n, p, st, x). Suc n - p, \<lambda>(m, s, n, p, st, x). cu_weight st]")
    (auto dest: cu_stay)

declare cu_loop.simps [simp del]

text \<open>
  The result: the normalised URI, the extension (its start in the URI and its length), and
  the arguments: \<^verbatim>\<open>args_start\<close>, or the extent of \<^verbatim>\<open>r->args\<close> when a fragment was cut off.
\<close>

record complex_uri_result =
  res_uri :: "u8 list"
  res_exten :: "(nat \<times> nat) option"
  res_args_start :: "nat option"
  res_args :: "(nat \<times> nat) option"
  res_plus :: bool
  res_quoted :: bool

definition cu_finish :: "cu_ctx \<Rightarrow> complex_uri_result" where
  "cu_finish x = \<lparr>res_uri = cu_out x, res_exten = map_option (\<lambda>e. (e, length (cu_out x) - e)) (cu_ext x),
     res_args_start = cu_args_start x, res_args = None, res_plus = cu_plus x, res_quoted = cu_quoted x\<rparr>"

text \<open>The loop after \<^verbatim>\<open>args\<close>: the position after the first \<^verbatim>\<open>#\<close> between \<^verbatim>\<open>p\<close> and \<^verbatim>\<open>r->uri_end\<close>.\<close>

function args_hash :: "u8 list \<Rightarrow> nat \<Rightarrow> nat \<Rightarrow> nat option" where
  "args_hash s n p =
     (if p < n then (if byte_at s p \<noteq> C CHR ''#'' then args_hash s n (p + 1) else Some (p + 1)) else None)"
  by pat_completeness auto
termination
  by (relation "measure (\<lambda>(s, n, p). n - p)") auto

declare args_hash.simps [simp del]

definition cu_args :: "u8 list \<Rightarrow> nat \<Rightarrow> nat \<Rightarrow> cu_ctx \<Rightarrow> complex_uri_result" where
  "cu_args s n p x =
     (case args_hash s n p of
        None \<Rightarrow> cu_finish x
      | Some q \<Rightarrow> (cu_finish x)\<lparr>res_args := map_option (\<lambda>a. (a, q - 1 - a)) (cu_args_start x),
                                res_args_start := None\<rparr>)"

definition ngx_http_parse_complex_uri :: "u8 list \<Rightarrow> nat \<Rightarrow> bool \<Rightarrow> bool \<Rightarrow> bool \<Rightarrow> rc \<times> complex_uri_result" where
  "ngx_http_parse_complex_uri s n merge_slashes plus0 quoted0 =
     (let x = \<lparr>cu_ch = byte_at s 0, cu_out = [], cu_ext = None, cu_args_start = None, cu_plus = plus0,
               cu_quoted = quoted0, cu_decoded = 0, cu_quoted_state = sw_usual\<rparr>
      in case cu_loop merge_slashes s n 1 (Base sw_usual) x of
           More p st y \<Rightarrow> (NGX_OK, cu_finish y)
         | Stop p st y Cu_done \<Rightarrow> (NGX_OK, cu_finish y)
         | Stop p st y Cu_args \<Rightarrow> (NGX_OK, cu_args s n p y)
         | Stop p st y (Cu_return rc) \<Rightarrow> (rc, cu_finish y))"

section \<open>Classifying\<close>

datatype pu_state = pu_start | pu_after_slash | pu_check | pu_uri

definition pu_after_slash_in_uri :: "nat \<Rightarrow> u8 \<Rightarrow> ngx_http_request \<Rightarrow> pu_state \<times> ngx_http_request" where
  "pu_after_slash_in_uri p ch r =
     (if is_usual ch then (pu_check, r)
      else if ch = C CHR '' '' then (pu_check, r\<lparr>space_in_uri := True\<rparr>)
      else if ch = C CHR ''.'' then (pu_uri, r\<lparr>complex_uri := True\<rparr>)
      else if ch = C CHR ''%'' then (pu_uri, r\<lparr>quoted_uri := True\<rparr>)
      else if ch = C CHR ''/'' then (pu_uri, r\<lparr>complex_uri := True\<rparr>)
      else if ch = C CHR ''?'' then (pu_uri, r\<lparr>args_start := Some (p + 1)\<rparr>)
      else if ch = C CHR ''#'' then (pu_uri, r\<lparr>complex_uri := True\<rparr>)
      else if ch = C CHR ''+'' then (pu_after_slash, r\<lparr>plus_in_uri := True\<rparr>)
      else (pu_check, r))"

definition pu_check_uri :: "nat \<Rightarrow> u8 \<Rightarrow> ngx_http_request \<Rightarrow> pu_state \<times> ngx_http_request" where
  "pu_check_uri p ch r =
     (if is_usual ch then (pu_check, r)
      else if ch = C CHR ''/'' then (pu_after_slash, r\<lparr>uri_ext := None\<rparr>)
      else if ch = C CHR ''.'' then (pu_check, r\<lparr>uri_ext := Some (p + 1)\<rparr>)
      else if ch = C CHR '' '' then (pu_check, r\<lparr>space_in_uri := True\<rparr>)
      else if ch = C CHR ''%'' then (pu_uri, r\<lparr>quoted_uri := True\<rparr>)
      else if ch = C CHR ''?'' then (pu_uri, r\<lparr>args_start := Some (p + 1)\<rparr>)
      else if ch = C CHR ''#'' then (pu_uri, r\<lparr>complex_uri := True\<rparr>)
      else if ch = C CHR ''+'' then (pu_check, r\<lparr>plus_in_uri := True\<rparr>)
      else (pu_check, r))"

definition pu_in_uri :: "u8 \<Rightarrow> ngx_http_request \<Rightarrow> pu_state \<times> ngx_http_request" where
  "pu_in_uri ch r =
     (if is_usual ch then (pu_uri, r)
      else if ch = C CHR '' '' then (pu_uri, r\<lparr>space_in_uri := True\<rparr>)
      else if ch = C CHR ''#'' then (pu_uri, r\<lparr>complex_uri := True\<rparr>)
      else (pu_uri, r))"

text \<open>The loop over the bytes from \<^verbatim>\<open>r->uri_start\<close> to \<^verbatim>\<open>r->uri_end\<close>; \<open>p\<close> is the index of the first one.\<close>

fun pu_loop :: "nat \<Rightarrow> pu_state \<Rightarrow> u8 list \<Rightarrow> ngx_http_request \<Rightarrow> rc \<times> ngx_http_request" where
  "pu_loop p st [] r = (NGX_OK, r)"
| "pu_loop p pu_start (ch # s) r =
     (if ch \<noteq> C CHR ''/'' then (NGX_ERROR, r) else pu_loop (p + 1) pu_after_slash s r)"
| "pu_loop p pu_after_slash (ch # s) r =
     (let (st, r') = pu_after_slash_in_uri p ch r in pu_loop (p + 1) st s r')"
| "pu_loop p pu_check (ch # s) r = (let (st, r') = pu_check_uri p ch r in pu_loop (p + 1) st s r')"
| "pu_loop p pu_uri (ch # s) r = (let (st, r') = pu_in_uri ch r in pu_loop (p + 1) st s r')"

definition ngx_http_parse_uri :: "u8 list \<Rightarrow> ngx_http_request \<Rightarrow> rc \<times> ngx_http_request" where
  "ngx_http_parse_uri s r = pu_loop 0 pu_start s r"

end
