(* ===== verification/Ngx_Http_Complex_Uri_Props.thy ===== *)
theory Ngx_Http_Complex_Uri_Props
  imports Ngx_Http_Complex_Uri
begin

text \<open>
  Properties of URI normalisation: the output is never longer than the input, so it fits the
  buffer the caller provides; it keeps the leading slash and contains no \<^verbatim>\<open>/./\<close> and no
  \<^verbatim>\<open>/../\<close>; and a URI the classifier finds simple is left unchanged.
\<close>

section \<open>Dot segments\<close>

definition dot_free :: "u8 list \<Rightarrow> bool" where
  "dot_free out \<longleftrightarrow> \<not> sublist (bytes ''/./'') out \<and> \<not> sublist (bytes ''/../'') out"

text \<open>The output ends with a segment that is a single or a double dot.\<close>

definition ends :: "u8 list \<Rightarrow> u8 list \<Rightarrow> bool" where
  "ends seg out \<longleftrightarrow> suffix (C CHR ''/'' # seg) out"

lemma dot_free_snoc:
  "dot_free (out @ [c]) \<longleftrightarrow> dot_free out \<and>
     (c = C CHR ''/'' \<longrightarrow> \<not> ends (bytes ''.'') out \<and> \<not> ends (bytes ''..'') out)"
proof -
  have "suffix (bytes ''/./'') (out @ [c]) \<longleftrightarrow> c = 47 \<and> ends (bytes ''.'') out"
    using suffix_snoc [of "bytes ''/./''" out c] by (auto simp: ends_def suffix_def)
  moreover have "suffix (bytes ''/../'') (out @ [c]) \<longleftrightarrow> c = 47 \<and> ends (bytes ''..'') out"
    by (auto simp: ends_def suffix_def)
  ultimately show ?thesis by (auto simp: dot_free_def sublist_snoc)
qed

lemma dot_free_take: "dot_free out \<Longrightarrow> dot_free (take k out)"
proof -
  have "sublist xs (take k ys) \<Longrightarrow> sublist xs ys" for xs ys :: "u8 list"
  proof -
    assume "sublist xs (take k ys)"
    then obtain ps ss where "take k ys = ps @ xs @ ss" by (auto simp: sublist_def)
    then have "ys = ps @ xs @ (ss @ drop k ys)" by (metis append.assoc append_take_drop_id)
    then show "sublist xs ys" unfolding sublist_def by blast
  qed
  then show "dot_free out \<Longrightarrow> dot_free (take k out)" unfolding dot_free_def by blast
qed

lemma dot_free_butlast: "dot_free out \<Longrightarrow> dot_free (butlast out)"
  by (simp add: butlast_conv_take dot_free_take)

text \<open>The same facts on the byte values: 47 is a slash, 46 a dot.\<close>

lemma ends_snoc [simp]:
  "ends [] (out @ [c]) \<longleftrightarrow> c = 47"
  "ends [46] (out @ [c]) \<longleftrightarrow> c = 46 \<and> ends [] out"
  "ends [46, 46] (out @ [c]) \<longleftrightarrow> c = 46 \<and> ends [46] out"
  by (auto simp: ends_def suffix_def)

lemma ends_nonempty: "ends seg out \<Longrightarrow> out \<noteq> []"
  by (auto simp: ends_def)

text \<open>What is known of the last segment in each of the four plain states.\<close>

definition cu_seg :: "cu_base \<Rightarrow> u8 list \<Rightarrow> bool" where
  "cu_seg b out \<longleftrightarrow> (case b of
      sw_usual \<Rightarrow> \<not> ends [] out \<and> \<not> ends (bytes ''.'') out \<and> \<not> ends (bytes ''..'') out
    | sw_slash \<Rightarrow> ends [] out
    | sw_dot \<Rightarrow> ends (bytes ''.'') out
    | sw_dot_dot \<Rightarrow> ends (bytes ''..'') out)"

lemma ends_exclusive:
  "ends [] out \<Longrightarrow> \<not> ends [46] out \<and> \<not> ends [46, 46] out"
  "ends [46] out \<Longrightarrow> \<not> ends [] out \<and> \<not> ends [46, 46] out"
  "ends [46, 46] out \<Longrightarrow> \<not> ends [] out \<and> \<not> ends [46] out"
proof -
  have e: "\<not> ends seg []" for seg by (simp add: ends_def)
  have a: "ends [] ys \<Longrightarrow> \<not> ends [46] ys" for ys by (cases ys rule: rev_cases) (auto simp: e)
  show "ends [] out \<Longrightarrow> \<not> ends [46] out \<and> \<not> ends [46, 46] out"
    "ends [46] out \<Longrightarrow> \<not> ends [] out \<and> \<not> ends [46, 46] out"
    "ends [46, 46] out \<Longrightarrow> \<not> ends [] out \<and> \<not> ends [46] out"
    using a by (cases out rule: rev_cases; auto simp: e)+
qed

lemma cu_seg_simps [simp]:
  "cu_seg sw_usual out \<longleftrightarrow> \<not> ends [] out \<and> \<not> ends [46] out \<and> \<not> ends [46, 46] out"
  "cu_seg sw_slash out \<longleftrightarrow> ends [] out" "cu_seg sw_dot out \<longleftrightarrow> ends [46] out"
  "cu_seg sw_dot_dot out \<longleftrightarrow> ends [46, 46] out"
  by (simp_all add: cu_seg_def)

lemma dot_free_push:
  "dot_free (out @ [c]) \<longleftrightarrow> dot_free out \<and> (c = 47 \<longrightarrow> \<not> ends [46] out \<and> \<not> ends [46, 46] out)"
  using dot_free_snoc [of out c] by simp

section \<open>The backward search\<close>

lemma find_back_Some: "find_back out i = Some u \<Longrightarrow> 0 < u \<and> u \<le> i + 1 \<and> out ! (u - 1) = 47"
proof (induction out i rule: find_back.induct)
  case (1 out i)
  then show ?case by (subst (asm) (2) find_back.simps) (auto split: if_splits)
qed

lemma cu_back_Some:
  assumes "cu_back out = Some u"
  shows "0 < u" and "u < length out" and "ends [] (take u out)"
proof -
  from assms have l: "5 \<le> length out" "find_back out (length out - 5) = Some u"
    by (auto simp: cu_back_def split: if_splits)
  from find_back_Some [OF l(2)] have u: "0 < u" "u \<le> length out - 4" "out ! (u - 1) = 47" using l(1) by auto
  then have "take u out = take (u - 1) out @ [47]"
    using l(1) take_Suc_conv_app_nth [of "u - 1" out] by simp
  then show "ends [] (take u out)" by simp
  show "0 < u" "u < length out" using u l(1) by auto
qed

section \<open>The invariant\<close>

definition cu_inv :: "nat \<Rightarrow> cu_state \<Rightarrow> cu_ctx \<Rightarrow> bool" where
  "cu_inv p st x \<longleftrightarrow> dot_free (cu_out x) \<and> cu_out x \<noteq> [] \<and> hd (cu_out x) = 47 \<and>
    (case st of
       Base b \<Rightarrow> cu_seg b (cu_out x) \<and> length (cu_out x) + 1 \<le> p
     | sw_quoted \<Rightarrow> cu_seg (cu_quoted_state x) (cu_out x) \<and> length (cu_out x) + 2 \<le> p
     | sw_quoted_second \<Rightarrow> cu_seg (cu_quoted_state x) (cu_out x) \<and> length (cu_out x) + 3 \<le> p)"

definition cu_good :: "nat \<Rightarrow> cu_ctx \<Rightarrow> bool" where
  "cu_good p x \<longleftrightarrow> dot_free (cu_out x) \<and> cu_out x \<noteq> [] \<and> hd (cu_out x) = 47 \<and> length (cu_out x) + 1 \<le> p"

lemma cu_inv_good: "cu_inv p st x \<Longrightarrow> cu_good p x"
  by (cases st) (auto simp: cu_inv_def cu_good_def)

definition cu_kept :: "nat \<Rightarrow> cu_act \<Rightarrow> bool" where
  "cu_kept p a \<longleftrightarrow> (case a of Next s' x' \<Rightarrow> cu_inv (p + 1) s' x' | Stay s' x' \<Rightarrow> cu_inv p s' x'
     | Leave s' x' e \<Rightarrow> cu_good p x')"

lemma cu_kept_simps [simp]:
  "cu_kept p (Next s x) \<longleftrightarrow> cu_inv (Suc p) s x" "cu_kept p (Stay s x) \<longleftrightarrow> cu_inv p s x"
  "cu_kept p (Leave s x e) \<longleftrightarrow> cu_good p x"
  by (simp_all add: cu_kept_def)

lemma cu_keeps_usual: "cu_inv p (Base sw_usual) x \<Longrightarrow> cu_kept p (cu_do_usual p x)"
  by (auto simp: cu_do_usual_def Let_def cu_inv_def cu_good_def cu_put_def dot_free_push is_usual_iff)

lemma cu_keeps_slash: "cu_inv p (Base sw_slash) x \<Longrightarrow> cu_kept p (cu_do_slash m p x)"
  using ends_exclusive(1) [of "cu_out x"]
  by (auto simp: cu_do_slash_def Let_def cu_inv_def cu_good_def cu_put_def dot_free_push is_usual_iff)

lemma ends_butlast:
  assumes "ends [46] out"
  shows "ends [] (butlast out)" and "butlast out \<noteq> []" and "hd (butlast out) = hd out"
proof -
  from assms obtain ys where "out = ys @ [47, 46]" by (auto simp: ends_def suffix_def)
  then have b: "butlast out = ys @ [47]" and o: "out = (ys @ [47]) @ [46]" by (simp_all add: butlast_append)
  show "ends [] (butlast out)" "butlast out \<noteq> []" using b by simp_all
  show "hd (butlast out) = hd out" unfolding b by (subst o) (simp add: hd_append)
qed

lemma cu_keeps_dot: "cu_inv p (Base sw_dot) x \<Longrightarrow> cu_kept p (cu_do_dot p x)"
  using ends_exclusive(2) [of "cu_out x"] ends_butlast [of "cu_out x"]
  by (auto simp: cu_do_dot_def Let_def cu_inv_def cu_good_def cu_put_def dot_free_push is_usual_iff dot_free_butlast)

lemma cu_keeps_dot_dot: "cu_inv p (Base sw_dot_dot) x \<Longrightarrow> cu_kept p (cu_do_dot_dot p x)"
  using ends_exclusive(3) [of "cu_out x"] cu_back_Some [of "cu_out x"]
  by (auto simp: cu_do_dot_dot_def Let_def cu_inv_def cu_good_def cu_put_def dot_free_push is_usual_iff dot_free_take
      split: option.splits)

lemma cu_inv_cong:
  "cu_out y = cu_out x \<Longrightarrow> cu_quoted_state y = cu_quoted_state x \<Longrightarrow> cu_inv p st y = cu_inv p st x"
  by (cases st) (simp_all add: cu_inv_def)

lemma cu_keeps_quoted: "cu_inv p sw_quoted x \<Longrightarrow> cu_kept p (cu_do_quoted x)"
  using cu_inv_good [of p sw_quoted x]
  by (auto simp: cu_do_quoted_def Let_def cu_inv_def cu_good_def)

lemma cu_keeps_quoted_second:
  assumes "cu_inv p sw_quoted_second x"
  shows "cu_kept p (cu_do_quoted_second x)"
proof -
  from assms have o: "dot_free (cu_out x)" "cu_out x \<noteq> []" "hd (cu_out x) = 47"
    "cu_seg (cu_quoted_state x) (cu_out x)" "length (cu_out x) + 3 \<le> p" by (auto simp: cu_inv_def)
  have seg: "\<not> (c = 46 \<or> c = 47) \<Longrightarrow> cu_seg sw_usual (cu_out x @ [c])" for c by simp
  have g: "cu_good p (x\<lparr>cu_ch := c\<rparr>)" "cu_good p x" for c using o by (auto simp: cu_good_def)
  have b: "cu_inv p (Base (cu_quoted_state x)) (x\<lparr>cu_ch := c\<rparr>)"
    "cu_inv p (Base (cu_quoted_state x)) (x\<lparr>cu_ch := c, cu_plus := q\<rparr>)" for c q
    using o by (auto simp: cu_inv_def)
  have u: "cu_inv (Suc p) (Base sw_usual) (cu_put (x\<lparr>cu_ch := c\<rparr>))" if "c = 37 \<or> c = 35 \<or> c = 63" for c
    using o that by (auto simp: cu_inv_def cu_put_def dot_free_push)
  show ?thesis by (simp add: cu_do_quoted_second_def Let_def g b u)
qed

lemma cu_keeps: "cu_inv p st x \<Longrightarrow> cu_kept p (cu_step m p st x)"
proof (cases st)
  case (Base b)
  then show "cu_inv p st x \<Longrightarrow> cu_kept p (cu_step m p st x)"
    by (cases b) (simp_all add: cu_step_def cu_keeps_usual cu_keeps_slash cu_keeps_dot cu_keeps_dot_dot)
qed (simp_all add: cu_step_def cu_keeps_quoted cu_keeps_quoted_second)

lemma cu_loop_good:
  assumes "cu_inv p st x" and "p \<le> n + 1"
  shows "case cu_loop m s n p st x of More p' st' y \<Rightarrow> cu_good (n + 1) y | Stop p' st' y e \<Rightarrow> cu_good (n + 1) y"
  using assms
proof (induction m s n p st x rule: cu_loop.induct)
  case (1 m s n p st x)
  show ?case
  proof (cases "p \<le> n")
    case True
    note keep = cu_keeps [OF "1.prems"(1), of m]
    show ?thesis
    proof (cases "cu_step m p st x")
      case (Next st' x')
      then have "cu_inv (p + 1) st' (x'\<lparr>cu_ch := byte_at s p\<rparr>)"
        using keep cu_inv_cong [of "x'\<lparr>cu_ch := byte_at s p\<rparr>" x'] by simp
      then show ?thesis using "1.IH"(1) [OF True Next] True Next by (subst cu_loop.simps) simp
    next
      case (Stay st' x')
      then show ?thesis using "1.IH"(2) [OF True Stay] True keep "1.prems"(2) by (subst cu_loop.simps) simp
    next
      case (Leave st' x' e)
      then have "cu_good (n + 1) x'" using keep True by (auto simp: cu_good_def)
      then show ?thesis using Leave True by (subst cu_loop.simps) simp
    qed
  next
    case False
    then have "cu_good (n + 1) x" using cu_inv_good [OF "1.prems"(1)] "1.prems"(2) by (simp add: cu_good_def)
    then show ?thesis using False by (subst cu_loop.simps) simp
  qed
qed

section \<open>Simple URIs\<close>

text \<open>The two flags that send a URI through normalisation are never cleared.\<close>

definition pu_marked :: "ngx_http_request \<Rightarrow> bool" where
  "pu_marked r \<longleftrightarrow> complex_uri r \<or> quoted_uri r"

lemma pu_keeps_mark:
  "pu_marked r \<Longrightarrow> pu_marked (snd (pu_after_slash_in_uri p ch r))"
  "pu_marked r \<Longrightarrow> pu_marked (snd (pu_check_uri p ch r))"
  "pu_marked r \<Longrightarrow> pu_marked (snd (pu_in_uri ch r))"
  by (simp_all add: pu_marked_def pu_after_slash_in_uri_def pu_check_uri_def pu_in_uri_def)

lemma pu_loop_keeps_mark: "pu_marked r \<Longrightarrow> pu_marked (snd (pu_loop p st t r))"
proof (induction p st t r rule: pu_loop.induct)
  case (3 p ch s r)
  then show ?case using pu_keeps_mark(1) [OF "3.prems", of p ch]
    by (cases "pu_after_slash_in_uri p ch r") simp
next
  case (4 p ch s r)
  then show ?case using pu_keeps_mark(2) [OF "4.prems", of p ch]
    by (cases "pu_check_uri p ch r") simp
next
  case (5 p ch s r)
  then show ?case using pu_keeps_mark(3) [OF "5.prems", of ch]
    by (cases "pu_in_uri ch r") simp
qed simp_all

text \<open>After the question mark only a fragment marks the URI, and nothing is recorded any more.\<close>

definition pu_view :: "ngx_http_request \<Rightarrow> nat option \<times> nat option \<times> bool" where
  "pu_view r = (uri_ext r, args_start r, plus_in_uri r)"

lemma pu_loop_args:
  assumes "\<not> pu_marked (snd (pu_loop p pu_uri t r))"
  shows "35 \<notin> set t \<and> fst (pu_loop p pu_uri t r) = NGX_OK \<and> pu_view (snd (pu_loop p pu_uri t r)) = pu_view r"
  using assms
proof (induction t arbitrary: p r)
  case (Cons ch t)
  define r1 where "r1 = snd (pu_in_uri ch r)"
  have r1: "pu_in_uri ch r = (pu_uri, r1)" and view: "pu_view r1 = pu_view r"
    and hash: "ch = 35 \<Longrightarrow> pu_marked r1"
    by (auto simp: r1_def pu_in_uri_def pu_view_def pu_marked_def is_usual_iff)
  have "\<not> pu_marked r1" using Cons.prems pu_loop_keeps_mark r1 by auto
  then show ?case using Cons.IH [of "p + 1" r1] Cons.prems r1 view hash by auto
qed simp

lemma args_hash_None:
  assumes "\<And>i. p \<le> i \<Longrightarrow> i < n \<Longrightarrow> byte_at s i \<noteq> 35"
  shows "args_hash s n p = None"
  using assms by (induction s n p rule: args_hash.induct) (subst args_hash.simps, simp)

text \<open>What the classifier and the normaliser do with the same byte.\<close>

definition pu_rel :: "pu_state \<Rightarrow> cu_base \<Rightarrow> bool" where
  "pu_rel st b \<longleftrightarrow> st = pu_check \<and> b = sw_usual \<or> st = pu_after_slash \<and> (b = sw_slash \<or> b = sw_usual)"

definition cu_view :: "cu_ctx \<Rightarrow> nat option \<times> nat option \<times> bool" where
  "cu_view x = (cu_ext x, cu_args_start x, cu_plus x)"

definition pu_step :: "nat \<Rightarrow> pu_state \<Rightarrow> u8 \<Rightarrow> ngx_http_request \<Rightarrow> pu_state \<times> ngx_http_request" where
  "pu_step p st ch r = (if st = pu_check then pu_check_uri p ch r else pu_after_slash_in_uri p ch r)"

lemma pu_loop_step:
  "pu_rel st b \<Longrightarrow> pu_loop p st (ch # t) r = (case pu_step p st ch r of (st', r1) \<Rightarrow> pu_loop (p + 1) st' t r1)"
  by (auto simp: pu_rel_def pu_step_def Let_def)

lemma simple_step:
  assumes "pu_rel st b" and "pu_step p st (cu_ch x) r = (st', r1)" and "\<not> pu_marked r1"
    and "cu_ch x \<noteq> 63" and "length (cu_out x) = p" and "cu_view x = pu_view r"
  obtains b' x' where "cu_step m (p + 1) (Base b) x = Next (Base b') x'" and "pu_rel st' b'"
    and "cu_out x' = cu_out x @ [cu_ch x]" and "cu_view x' = pu_view r1" and "cu_quoted x' = cu_quoted x"
proof -
  have "\<exists>b' x'. cu_step m (p + 1) (Base b) x = Next (Base b') x' \<and> pu_rel st' b' \<and>
      cu_out x' = cu_out x @ [cu_ch x] \<and> cu_view x' = pu_view r1 \<and> cu_quoted x' = cu_quoted x"
  proof (cases "st = pu_check")
    case True
    then have b: "b = sw_usual" using assms(1) by (simp add: pu_rel_def)
    from True assms show ?thesis unfolding b
      by (auto simp: pu_step_def pu_check_uri_def cu_step_def cu_do_usual_def Let_def pu_marked_def cu_put_def
          cu_view_def pu_view_def pu_rel_def split: if_splits)
  next
    case False
    then have "b = sw_slash \<or> b = sw_usual" using assms(1) by (simp add: pu_rel_def)
    then show ?thesis
    proof
      assume b: "b = sw_slash"
      from False assms show ?thesis unfolding b
        by (auto simp: pu_step_def pu_after_slash_in_uri_def cu_step_def cu_do_slash_def Let_def pu_marked_def
            cu_put_def cu_view_def pu_view_def pu_rel_def split: if_splits)
    next
      assume b: "b = sw_usual"
      from False assms show ?thesis unfolding b
        by (auto simp: pu_step_def pu_after_slash_in_uri_def cu_step_def cu_do_usual_def Let_def pu_marked_def
            cu_put_def cu_view_def pu_view_def pu_rel_def split: if_splits)
    qed
  qed
  then show thesis using that by blast
qed

text \<open>The result of the normaliser, as a function of how its loop ended.\<close>

fun cu_result :: "u8 list \<Rightarrow> nat \<Rightarrow> (cu_state, cu_ctx, cu_exit) outcome \<Rightarrow> rc \<times> complex_uri_result" where
  "cu_result s n (More p st y) = (NGX_OK, cu_finish y)"
| "cu_result s n (Stop p st y Cu_done) = (NGX_OK, cu_finish y)"
| "cu_result s n (Stop p st y Cu_args) = (NGX_OK, cu_args s n p y)"
| "cu_result s n (Stop p st y (Cu_return rc)) = (rc, cu_finish y)"

definition cu_start :: "u8 list \<Rightarrow> bool \<Rightarrow> bool \<Rightarrow> cu_ctx" where
  "cu_start s plus0 quoted0 = \<lparr>cu_ch = byte_at s 0, cu_out = [], cu_ext = None, cu_args_start = None,
     cu_plus = plus0, cu_quoted = quoted0, cu_decoded = 0, cu_quoted_state = sw_usual\<rparr>"

lemma complex_uri_result:
  "ngx_http_parse_complex_uri s n m plus0 quoted0 =
     cu_result s n (cu_loop m s n 1 (Base sw_usual) (cu_start s plus0 quoted0))"
  by (auto simp: ngx_http_parse_complex_uri_def cu_start_def Let_def split: outcome.split cu_exit.split)

definition simple_result :: "u8 list \<Rightarrow> ngx_http_request \<Rightarrow> bool \<Rightarrow> complex_uri_result" where
  "simple_result out r q = \<lparr>res_uri = out, res_exten = map_option (\<lambda>e. (e, length out - e)) (uri_ext r),
     res_args_start = args_start r, res_args = None, res_plus = plus_in_uri r, res_quoted = q\<rparr>"

lemma cu_finish_view:
  "cu_view x = pu_view r \<Longrightarrow> cu_finish x = simple_result (cu_out x) r (cu_quoted x)"
  by (simp add: cu_finish_def simple_result_def cu_view_def pu_view_def)

lemma simple_result_view: "pu_view r = pu_view r' \<Longrightarrow> simple_result out r q = simple_result out r' q"
  by (simp add: simple_result_def pu_view_def)

lemma simple_args:
  assumes rel: "pu_rel st b" and ch: "cu_ch x = 63" and view: "cu_view x = pu_view r"
    and s: "s = us @ 63 # t @ [z]" and um: "\<not> pu_marked (snd (pu_loop (length us) st (63 # t) r))"
  shows "fst (pu_loop (length us) st (63 # t) r) = NGX_OK"
    and "cu_result s (length us + Suc (length t)) (cu_loop m s (length us + Suc (length t)) (length us + 1) (Base b) x)
      = (NGX_OK, simple_result (cu_out x) (snd (pu_loop (length us) st (63 # t) r)) (cu_quoted x))"
proof -
  let ?r1 = "r\<lparr>args_start := Some (Suc (length us))\<rparr>" and ?n = "length us + Suc (length t)"
  have loop: "pu_loop (length us) st (63 # t) r = pu_loop (length us + 1) pu_uri t ?r1"
    using rel by (auto simp: pu_rel_def pu_check_uri_def pu_after_slash_in_uri_def is_usual_iff)
  note a = pu_loop_args [of "length us + 1" t ?r1, folded loop, OF um]
  show "fst (pu_loop (length us) st (63 # t) r) = NGX_OK" using a by simp
  have "byte_at s i \<noteq> 35" if i: "length us + 1 \<le> i" "i < ?n" for i
  proof -
    have "i - Suc (length us) < length t" using i by auto
    then have "byte_at s i = t ! (i - Suc (length us))" and "t ! (i - Suc (length us)) \<in> set t"
      using i s by (simp_all add: byte_at_def nth_append nth_Cons')
    then show ?thesis using a by metis
  qed
  then have hash: "args_hash s ?n (length us + 1) = None" by (rule args_hash_None)
  let ?y = "x\<lparr>cu_args_start := Some (Suc (length us))\<rparr>"
  have "cu_loop m s ?n (length us + 1) (Base b) x = Stop (length us + 1) (Base b) ?y Cu_args"
    using rel ch by (subst cu_loop.simps)
      (auto simp: pu_rel_def cu_step_def cu_do_usual_def cu_do_slash_def is_usual_iff)
  moreover have "cu_view ?y = pu_view ?r1" using view by (simp add: cu_view_def pu_view_def)
  then have "cu_finish ?y = simple_result (cu_out x) (snd (pu_loop (length us) st (63 # t) r)) (cu_quoted x)"
    using cu_finish_view [of ?y ?r1] simple_result_view [of ?r1 "snd (pu_loop (length us) st (63 # t) r)"] a
    by simp
  ultimately show "cu_result s ?n (cu_loop m s ?n (length us + 1) (Base b) x)
      = (NGX_OK, simple_result (cu_out x) (snd (pu_loop (length us) st (63 # t) r)) (cu_quoted x))"
    using hash by (simp add: cu_args_def)
qed

lemma simple_loop:
  assumes "pu_rel st b" and "cu_view x = pu_view r" and "cu_out x = us" and "cu_ch x = byte_at s (length us)"
    and "s = us @ t @ [z]" and "\<not> pu_marked (snd (pu_loop (length us) st t r))" and "n = length us + length t"
  shows "fst (pu_loop (length us) st t r) = NGX_OK \<and>
    cu_result s n (cu_loop m s n (length us + 1) (Base b) x) =
      (NGX_OK, simple_result (us @ takeWhile (\<lambda>c. c \<noteq> 63) t) (snd (pu_loop (length us) st t r)) (cu_quoted x))"
  using assms
proof (induction t arbitrary: us st b x r)
  case Nil
  then show ?case by (subst cu_loop.simps) (simp add: cu_finish_view)
next
  case (Cons ch t)
  have ch: "cu_ch x = ch" using Cons.prems(4,5) by (simp add: byte_at_here)
  show ?case
  proof (cases "ch = 63")
    case True
    with ch Cons.prems simple_args [OF Cons.prems(1) _ Cons.prems(2), of s us t z] show ?thesis by simp
  next
    case False
    obtain st' r1 where st: "pu_step (length us) st (cu_ch x) r = (st', r1)" by fastforce
    have loop: "pu_loop (length us) st (ch # t) r = pu_loop (length us + 1) st' t r1"
      using pu_loop_step [OF Cons.prems(1)] st ch by simp
    have "\<not> pu_marked r1" using Cons.prems(6) pu_loop_keeps_mark loop by metis
    from simple_step [OF Cons.prems(1) st this _ _ Cons.prems(2)] False ch Cons.prems(3)
    obtain b' x' where b': "cu_step m (length us + 1) (Base b) x = Next (Base b') x'" "pu_rel st' b'"
      "cu_out x' = us @ [ch]" "cu_view x' = pu_view r1" "cu_quoted x' = cu_quoted x" by metis
    let ?x = "x'\<lparr>cu_ch := byte_at s (length us + 1)\<rparr>"
    have step: "cu_loop m s n (length us + 1) (Base b) x = cu_loop m s n (length (us @ [ch]) + 1) (Base b') ?x"
      using b'(1) Cons.prems(7) by (subst cu_loop.simps) simp
    have "cu_view ?x = pu_view r1" using b'(4) by (simp add: cu_view_def)
    from Cons.IH [OF b'(2) this, of "us @ [ch]"] b' Cons.prems(5-7) loop
    show ?thesis unfolding step loop using False by simp
  qed
qed

section \<open>The properties\<close>

text \<open>
  (C26) Normalisation resolves dot segments and does not outgrow its buffer. When
  \<^verbatim>\<open>ngx_http_parse_complex_uri\<close> accepts a URI that starts with a slash, the result starts with
  a slash, contains neither \<^verbatim>\<open>/./\<close> nor \<^verbatim>\<open>/../\<close> (however the dots were escaped), and is not longer
  than the input, so it fits the buffer of \<^verbatim>\<open>r->uri_end - r->uri_start + 1\<close> bytes.
\<close>

theorem complex_uri_dot_free:
  assumes "ngx_http_parse_complex_uri s n m plus0 quoted0 = (NGX_OK, res)"
    and "1 \<le> n" and "byte_at s 0 = C CHR ''/''"
  shows "dot_free (res_uri res) \<and> res_uri res \<noteq> [] \<and> hd (res_uri res) = C CHR ''/'' \<and> length (res_uri res) \<le> n"
proof -
  let ?x = "(cu_put (cu_start s plus0 quoted0))\<lparr>cu_ch := byte_at s 1\<rparr>"
  have "cu_loop m s n 1 (Base sw_usual) (cu_start s plus0 quoted0) = cu_loop m s n 2 (Base sw_slash) ?x"
    using assms(2,3) by (subst cu_loop.simps)
      (simp add: cu_step_def cu_do_usual_def cu_start_def is_usual_iff cu_put_def numeral_2_eq_2)
  moreover have "cu_inv 2 (Base sw_slash) ?x"
    using assms(3) dot_free_push [of "[]" 47] ends_snoc(1) [of "[]" 47] ends_nonempty [of _ "[]"]
    by (simp add: cu_inv_def cu_put_def cu_start_def dot_free_def) blast
  note g = cu_loop_good [OF this, of n m s]
  ultimately have "cu_good (n + 1) y" if "res_uri res = cu_out y"
      "cu_loop m s n 1 (Base sw_usual) (cu_start s plus0 quoted0) = More p st y \<or>
       cu_loop m s n 1 (Base sw_usual) (cu_start s plus0 quoted0) = Stop p st y e" for y p st e
    using that g assms(2) by auto
  moreover have "\<exists>y p st e. res_uri res = cu_out y \<and>
      (cu_loop m s n 1 (Base sw_usual) (cu_start s plus0 quoted0) = More p st y \<or>
       cu_loop m s n 1 (Base sw_usual) (cu_start s plus0 quoted0) = Stop p st y e)"
    using assms(1) unfolding complex_uri_result
    by (cases "(s, n, cu_loop m s n 1 (Base sw_usual) (cu_start s plus0 quoted0))" rule: cu_result.cases)
      (auto simp: cu_finish_def cu_args_def split: option.splits)
  ultimately obtain y where y: "res_uri res = cu_out y" "cu_good (n + 1) y" by blast
  then show ?thesis by (auto simp: cu_good_def)
qed

lemmas cu_eval = complex_uri_result cu_loop.simps cu_step_def cu_defs cu_put_def cu_start_def cu_finish_def
  is_usual_iff cu_back_def find_back.simps byte_at_def

theorem complex_uri_dot_free_witness:
  "\<exists>res. ngx_http_parse_complex_uri (bytes ''/a/%2e./b '') 9 True False False = (NGX_OK, res) \<and>
     res_uri res = bytes ''/b'' \<and> dot_free (res_uri res)"
proof -
  obtain res where e: "ngx_http_parse_complex_uri (bytes ''/a/%2e./b '') 9 True False False = (NGX_OK, res)"
    and u: "res_uri res = bytes ''/b''"
    by (simp add: cu_eval)
  from complex_uri_dot_free [OF e] e u show ?thesis by (simp add: byte_at_def)
qed

text \<open>
  A dot segment at the very end of the path is not resolved, because it is only recognised by
  the slash that follows it, and an escape sequence cut off by the end is dropped silently.
\<close>

theorem complex_uri_trailing_dots:
  "ngx_http_parse_complex_uri (bytes ''/a/.. '') 5 True False False =
     (NGX_OK, \<lparr>res_uri = bytes ''/a/..'', res_exten = None, res_args_start = None, res_args = None,
               res_plus = False, res_quoted = False\<rparr>) \<and>
   res_uri (snd (ngx_http_parse_complex_uri (bytes ''/a%4 '') 4 True False False)) = bytes ''/a''"
  by (simp add: cu_eval)

text \<open>
  (C27) The classifier is right about simple URIs. When \<^verbatim>\<open>ngx_http_parse_uri\<close> sets neither
  \<^verbatim>\<open>complex_uri\<close> nor \<^verbatim>\<open>quoted_uri\<close>, the server skips normalisation; running it anyway would give
  the same result: the URI is the input up to the question mark, and the extension, the
  arguments and the plus flag agree with what the classifier recorded.
\<close>

theorem parse_uri_simple_unchanged:
  assumes "ngx_http_parse_uri s r = (NGX_OK, r')" and "\<not> complex_uri r'" and "\<not> quoted_uri r'"
    and "uri_ext r = None" and "args_start r = None" and "s \<noteq> []"
  shows "ngx_http_parse_complex_uri (s @ [z]) (length s) m (plus_in_uri r) q =
     (NGX_OK,
      \<lparr>res_uri = takeWhile (\<lambda>c. c \<noteq> C CHR ''?'') s,
       res_exten = map_option (\<lambda>e. (e, length (takeWhile (\<lambda>c. c \<noteq> C CHR ''?'') s) - e)) (uri_ext r'),
       res_args_start = args_start r', res_args = None, res_plus = plus_in_uri r', res_quoted = q\<rparr>)"
proof -
  obtain t where s: "s = 47 # t" and pu: "pu_loop 1 pu_after_slash t r = (NGX_OK, r')"
    using assms(1,6) by (cases s) (auto simp: ngx_http_parse_uri_def split: if_splits)
  let ?x = "(cu_put (cu_start (s @ [z]) (plus_in_uri r) q))\<lparr>cu_ch := byte_at (s @ [z]) 1\<rparr>"
  have "cu_loop m (s @ [z]) (length s) 1 (Base sw_usual) (cu_start (s @ [z]) (plus_in_uri r) q) =
      cu_loop m (s @ [z]) (length s) (length [47 :: u8] + 1) (Base sw_slash) ?x"
    using s by (subst cu_loop.simps) (simp add: cu_step_def cu_do_usual_def cu_start_def is_usual_iff cu_put_def)
  moreover have "cu_view ?x = pu_view r" using assms(4,5) by (simp add: cu_view_def pu_view_def cu_put_def cu_start_def)
  moreover have "\<not> pu_marked r'" using assms(2,3) by (simp add: pu_marked_def)
  ultimately show ?thesis
    using simple_loop [of pu_after_slash sw_slash ?x r "[47]" "s @ [z]" t z "length s" m] s pu
    by (simp add: complex_uri_result simple_result_def pu_rel_def cu_put_def cu_start_def)
qed

theorem parse_uri_simple_unchanged_witness:
  "\<exists>r'. ngx_http_parse_uri (bytes ''/a.b?c'') request_init = (NGX_OK, r') \<and>
     ngx_http_parse_complex_uri (bytes ''/a.b?c'' @ [32]) (length (bytes ''/a.b?c'')) True False False =
       (NGX_OK, \<lparr>res_uri = bytes ''/a.b'', res_exten = Some (3, 1), res_args_start = Some 5, res_args = None,
                 res_plus = False, res_quoted = False\<rparr>)"
proof -
  let ?r = "request_init\<lparr>uri_ext := Some 3, args_start := Some 5\<rparr>"
  have e: "ngx_http_parse_uri (bytes ''/a.b?c'') request_init = (NGX_OK, ?r)"
    by (simp add: ngx_http_parse_uri_def pu_after_slash_in_uri_def pu_check_uri_def pu_in_uri_def is_usual_iff)
  show ?thesis
    using parse_uri_simple_unchanged [OF e, of 32 True False] e by (simp add: request_init_def)
qed

end
