(* ===== verification/Ngx_Number.thy ===== *)
theory Ngx_Number
  imports Byte_Parser
begin

text \<open>
  Numbers and text: the \<^verbatim>\<open>ngx_atoi\<close> family, \<^verbatim>\<open>ngx_hextoi\<close>, \<^verbatim>\<open>ngx_hex_dump\<close> and
  \<^verbatim>\<open>ngx_sprintf_num\<close> of \<^verbatim>\<open>core/ngx_string.c\<close>, and the size, offset and time parsers of
  \<^verbatim>\<open>core/ngx_parse.c\<close>.

  A counted string (\<^verbatim>\<open>u_char *line, size_t n\<close>) is the list of its \<open>n\<close> bytes. The variables
  \<^verbatim>\<open>value\<close>, \<^verbatim>\<open>cutoff\<close> and \<^verbatim>\<open>cutlim\<close> of the signed 64-bit types are integers; the theorems show
  that they never leave the 64-bit range, so that the signed arithmetic of the code is defined.
\<close>

section \<open>Decimal numbers\<close>

abbreviation (input) NGX_ERR :: int where "NGX_ERR \<equiv> -1"
abbreviation (input) NGX_MAX_INT_T_VALUE :: int where "NGX_MAX_INT_T_VALUE \<equiv> 9223372036854775807"
abbreviation (input) NGX_MAX_SIZE_T_VALUE :: int where "NGX_MAX_SIZE_T_VALUE \<equiv> 9223372036854775807"
abbreviation (input) NGX_MAX_TIME_T_VALUE :: int where "NGX_MAX_TIME_T_VALUE \<equiv> 9223372036854775807"
abbreviation (input) NGX_MAX_OFF_T_VALUE :: int where "NGX_MAX_OFF_T_VALUE \<equiv> 9223372036854775807"

text \<open>The difference \<^verbatim>\<open>*line - '0'\<close>, computed in \<^verbatim>\<open>int\<close>.\<close>

definition digit_of :: "u8 \<Rightarrow> int" where
  "digit_of ch = uint ch - 48"

text \<open>The test \<^verbatim>\<open>value >= cutoff && (value > cutoff || *line - '0' > cutlim)\<close>.\<close>

definition too_big :: "int \<Rightarrow> int \<Rightarrow> u8 \<Rightarrow> bool" where
  "too_big m v ch \<longleftrightarrow> m div 10 \<le> v \<and> (m div 10 < v \<or> m mod 10 < digit_of ch)"

fun ato_loop :: "int \<Rightarrow> int \<Rightarrow> u8 list \<Rightarrow> int" where
  "ato_loop m v [] = v"
| "ato_loop m v (ch # s) =
     (if ch < C CHR ''0'' \<or> C CHR ''9'' < ch then NGX_ERR
      else if too_big m v ch then NGX_ERR
      else ato_loop m (v * 10 + digit_of ch) s)"

definition ngx_atoi :: "u8 list \<Rightarrow> int" where
  "ngx_atoi line = (if line = [] then NGX_ERR else ato_loop NGX_MAX_INT_T_VALUE 0 line)"

definition ngx_atosz :: "u8 list \<Rightarrow> int" where
  "ngx_atosz line = (if line = [] then NGX_ERR else ato_loop NGX_MAX_SIZE_T_VALUE 0 line)"

definition ngx_atoof :: "u8 list \<Rightarrow> int" where
  "ngx_atoof line = (if line = [] then NGX_ERR else ato_loop NGX_MAX_OFF_T_VALUE 0 line)"

definition ngx_atotm :: "u8 list \<Rightarrow> int" where
  "ngx_atotm line = (if line = [] then NGX_ERR else ato_loop NGX_MAX_TIME_T_VALUE 0 line)"

text \<open>Fixed point numbers: the loop over the characters, then the padding with zeros.\<close>

fun atofp_pad :: "int \<Rightarrow> nat \<Rightarrow> int" where
  "atofp_pad v 0 = v"
| "atofp_pad v (Suc point) =
     (if NGX_MAX_INT_T_VALUE div 10 < v then NGX_ERR else atofp_pad (v * 10) point)"

fun atofp_loop :: "int \<Rightarrow> nat \<Rightarrow> bool \<Rightarrow> u8 list \<Rightarrow> int" where
  "atofp_loop v point dot [] = atofp_pad v point"
| "atofp_loop v point dot (ch # s) =
     (if point = 0 then NGX_ERR
      else if ch = C CHR ''.'' then (if dot then NGX_ERR else atofp_loop v point True s)
      else if ch < C CHR ''0'' \<or> C CHR ''9'' < ch then NGX_ERR
      else if too_big NGX_MAX_INT_T_VALUE v ch then NGX_ERR
      else atofp_loop (v * 10 + digit_of ch) (if dot then point - 1 else point) dot s)"

definition ngx_atofp :: "u8 list \<Rightarrow> nat \<Rightarrow> int" where
  "ngx_atofp line point = (if line = [] then NGX_ERR else atofp_loop 0 point False line)"

section \<open>Hexadecimal numbers\<close>

fun hextoi_loop :: "int \<Rightarrow> u8 list \<Rightarrow> int" where
  "hextoi_loop v [] = v"
| "hextoi_loop v (ch # s) =
     (if NGX_MAX_INT_T_VALUE div 16 < v then NGX_ERR
      else if C CHR ''0'' \<le> ch \<and> ch \<le> C CHR ''9'' then hextoi_loop (v * 16 + (uint ch - 48)) s
      else let c = ch OR 0x20 in
        if C CHR ''a'' \<le> c \<and> c \<le> C CHR ''f'' then hextoi_loop (v * 16 + (uint c - 97 + 10)) s
        else NGX_ERR)"

definition ngx_hextoi :: "u8 list \<Rightarrow> int" where
  "ngx_hextoi line = (if line = [] then NGX_ERR else hextoi_loop 0 line)"

definition hex_lower :: "u8 list" where
  "hex_lower = bytes ''0123456789abcdef''"

definition hex_upper :: "u8 list" where
  "hex_upper = bytes ''0123456789ABCDEF''"

text \<open>The bytes \<^verbatim>\<open>ngx_hex_dump\<close> writes at \<^verbatim>\<open>dst\<close>.\<close>

fun ngx_hex_dump :: "u8 list \<Rightarrow> u8 list" where
  "ngx_hex_dump [] = []"
| "ngx_hex_dump (c # src) =
     hex_lower ! unat (drop_bit 4 c) # hex_lower ! unat (c AND 0xf) # ngx_hex_dump src"

section \<open>Printing numbers\<close>

text \<open>
  The loops \<^verbatim>\<open>do { *--p = ...; } while (ui64 /= 10)\<close> and \<^verbatim>\<open>while (ui64 >>= 4)\<close>: \<open>p\<close> is the part
  of \<^verbatim>\<open>temp\<close> already filled. The first one runs on a 32-bit or on a 64-bit variable.
\<close>

lemma unat_quotient: "unat (of_nat (unat (n :: 'a::len word) div d) :: 'a word) = unat n div d"
proof -
  have "unat n div d < 2 ^ LENGTH('a)"
    using unsigned_less [of n, where 'a = nat] div_le_dividend [of "unat n" d] by linarith
  then show ?thesis by (simp add: unat_of_nat)
qed

function dec_loop :: "'a::len word \<Rightarrow> u8 list \<Rightarrow> u8 list" where
  "dec_loop n p =
     (let p' = (of_nat (unat n mod 10) + C CHR ''0'') # p; n' = of_nat (unat n div 10) :: 'a word
      in if n' \<noteq> 0 then dec_loop n' p' else p')"
  by pat_completeness auto
termination
proof (relation "measure (\<lambda>(n :: 'a word, p). unat n)")
  fix n :: "'a word" and p x y
  assume y: "y = (of_nat (unat n div 10) :: 'a word)" "y \<noteq> 0"
  from y(1) have "unat n div 10 = unat y" by (simp add: unat_quotient)
  moreover from y(2) have "unat y \<noteq> 0" by (simp only: unat_eq_0 not_False_eq_True)
  ultimately show "((y, x), (n, p)) \<in> measure (\<lambda>(n :: 'a word, p). unat n)" by simp
qed simp

declare dec_loop.simps [simp del]

function hex_loop :: "u8 list \<Rightarrow> u64 \<Rightarrow> u8 list \<Rightarrow> u8 list" where
  "hex_loop hex n p =
     (let p' = hex ! unat (n AND 0xf) # p; n' = drop_bit 4 n
      in if n' \<noteq> 0 then hex_loop hex n' p' else p')"
  by pat_completeness auto
termination
proof (relation "measure (\<lambda>(hex, n, p). unat n)")
  fix hex x :: "u8 list" and n y :: u64 and p
  assume y: "y = drop_bit 4 n" "y \<noteq> 0"
  from y(1) have "unat y = unat n div 16" by (simp add: unat_drop_bit_eq drop_bit_nat_def)
  moreover from y(2) have "unat y \<noteq> 0" by (simp only: unat_eq_0 not_False_eq_True)
  ultimately show "((hex, y, x), (hex, n, p)) \<in> measure (\<lambda>(hex, n, p). unat n)" by simp
qed simp

declare hex_loop.simps [simp del]

definition num_text :: "u64 \<Rightarrow> nat \<Rightarrow> u8 list" where
  "num_text ui64 hexadecimal =
     (if hexadecimal = 0 then
        (if ui64 \<le> 0xffffffff then dec_loop (ucast ui64 :: u32) [] else dec_loop ui64 [])
      else if hexadecimal = 1 then hex_loop hex_lower ui64 []
      else hex_loop hex_upper ui64 [])"

text \<open>
  \<^verbatim>\<open>ngx_sprintf_num\<close>: \<open>out\<close> are the bytes before \<^verbatim>\<open>buf\<close>, \<open>cap\<close> is the offset of \<^verbatim>\<open>last\<close> from the start
  of the buffer.
\<close>

definition ngx_sprintf_num :: "u8 list \<Rightarrow> nat \<Rightarrow> u64 \<Rightarrow> u8 \<Rightarrow> nat \<Rightarrow> nat \<Rightarrow> u8 list" where
  "ngx_sprintf_num out cap ui64 zero hexadecimal width =
     (let t = num_text ui64 hexadecimal;
          buf = out @ replicate (min (width - length t) (cap - length out)) zero;
          len = (if cap < length buf + length t then cap - length buf else length t)
      in buf @ take len t)"

end
