(* ===== verification/Ngx_Number_Props.thy ===== *)
theory Ngx_Number_Props
  imports Ngx_Number
begin

text \<open>
  Properties of the number routines: each parser returns exactly the value of its digits, or
  the error code when there is none or it does not fit; what \<^verbatim>\<open>ngx_sprintf_num\<close> prints is read
  back; nothing is written past the end of a buffer.
\<close>

section \<open>The value of a string of digits\<close>

definition dec_value :: "int \<Rightarrow> u8 list \<Rightarrow> int" where
  "dec_value = foldl (\<lambda>v ch. v * 10 + digit_of ch)"

lemma dec_value_simps [simp]:
  "dec_value v [] = v" "dec_value v (ch # s) = dec_value (v * 10 + digit_of ch) s"
  "dec_value v (s @ t) = dec_value (dec_value v s) t"
  by (simp_all add: dec_value_def)

lemma not_digit: "ch < 48 \<or> 57 < ch \<longleftrightarrow> \<not> is_digit ch"
  by (auto simp: is_digit_def)

lemma digit_of_range: "is_digit ch \<Longrightarrow> 0 \<le> digit_of ch \<and> digit_of ch \<le> 9"
  by (simp add: is_digit_def digit_of_def word_le_def)

lemma dec_value_mono: "list_all is_digit s \<Longrightarrow> 0 \<le> v \<Longrightarrow> v \<le> dec_value v s"
proof (induction s arbitrary: v)
  case (Cons ch s)
  have "0 \<le> digit_of ch" using Cons.prems digit_of_range by simp
  then have "v * 10 + digit_of ch \<le> dec_value (v * 10 + digit_of ch) s" using Cons by simp
  then show ?case using \<open>0 \<le> digit_of ch\<close> Cons.prems(2) by simp
qed simp

lemma too_big_iff: "is_digit ch \<Longrightarrow> too_big m v ch \<longleftrightarrow> m < v * 10 + digit_of ch"
  using digit_of_range [of ch] by (auto simp: too_big_def) presburger+

lemma ato_loop_exact:
  assumes "0 \<le> v" and "v \<le> m"
  shows "ato_loop m v s = (if list_all is_digit s \<and> dec_value v s \<le> m then dec_value v s else NGX_ERR)"
  using assms
proof (induction s arbitrary: v)
  case (Cons ch s)
  show ?case
  proof (cases "is_digit ch")
    case True
    note d = digit_of_range [OF True] and big = too_big_iff [OF True, of m v]
    show ?thesis
    proof (cases "m < v * 10 + digit_of ch")
      case True
      then have "list_all is_digit s \<Longrightarrow> m < dec_value (v * 10 + digit_of ch) s"
        using dec_value_mono [of s "v * 10 + digit_of ch"] d Cons.prems by simp
      then show ?thesis using True big by auto
    next
      case False
      then have "ato_loop m (v * 10 + digit_of ch) s =
          (if list_all is_digit s \<and> dec_value (v * 10 + digit_of ch) s \<le> m
           then dec_value (v * 10 + digit_of ch) s else NGX_ERR)"
        using Cons d by simp
      then show ?thesis using False big \<open>is_digit ch\<close> by (simp add: not_digit)
    qed
  next
    case False
    then show ?thesis by (simp add: not_digit)
  qed
qed simp

section \<open>The value of a string of hexadecimal digits\<close>

definition hex_val :: "u8 \<Rightarrow> int option" where
  "hex_val ch = (if is_digit ch then Some (uint ch - 48)
     else if C CHR ''a'' \<le> ch OR 0x20 \<and> ch OR 0x20 \<le> C CHR ''f'' then Some (uint (ch OR 0x20) - 87) else None)"

definition hex_value :: "int \<Rightarrow> u8 list \<Rightarrow> int" where
  "hex_value = foldl (\<lambda>v ch. v * 16 + the (hex_val ch))"

lemma hex_value_simps [simp]:
  "hex_value v [] = v" "hex_value v (ch # s) = hex_value (v * 16 + the (hex_val ch)) s"
  "hex_value v (s @ t) = hex_value (hex_value v s) t"
  by (simp_all add: hex_value_def)

lemma hex_val_range: "hex_val ch = Some d \<Longrightarrow> 0 \<le> d \<and> d \<le> 15"
  by (auto simp: hex_val_def is_digit_def word_le_def split: if_splits)

lemma hextoi_loop_step:
  "hextoi_loop v (ch # s) =
     (if NGX_MAX_INT_T_VALUE div 16 < v then NGX_ERR
      else case hex_val ch of None \<Rightarrow> NGX_ERR | Some d \<Rightarrow> hextoi_loop (v * 16 + d) s)"
  by (simp add: hex_val_def is_digit_def Let_def algebra_simps)

lemma hex_value_mono: "list_all (\<lambda>c. hex_val c \<noteq> None) s \<Longrightarrow> 0 \<le> v \<Longrightarrow> v \<le> hex_value v s"
proof (induction s arbitrary: v)
  case (Cons ch s)
  then obtain d where d: "hex_val ch = Some d" "0 \<le> d" using hex_val_range by fastforce
  have "v * 16 + d \<le> hex_value (v * 16 + d) s" using Cons d by simp
  then show ?case using d Cons.prems(2) by simp
qed simp

lemma hextoi_loop_exact:
  assumes "0 \<le> v" and "v \<le> NGX_MAX_INT_T_VALUE"
  shows "hextoi_loop v s =
    (if list_all (\<lambda>c. hex_val c \<noteq> None) s \<and> hex_value v s \<le> NGX_MAX_INT_T_VALUE then hex_value v s else NGX_ERR)"
  using assms
proof (induction s arbitrary: v)
  case (Cons ch s)
  show ?case
  proof (cases "hex_val ch")
    case None
    then show ?thesis unfolding hextoi_loop_step by simp
  next
    case (Some d)
    note r = hex_val_range [OF Some]
    show ?thesis
    proof (cases "NGX_MAX_INT_T_VALUE div 16 < v")
      case True
      then have "list_all (\<lambda>c. hex_val c \<noteq> None) s \<Longrightarrow> NGX_MAX_INT_T_VALUE < hex_value (v * 16 + d) s"
        using hex_value_mono [of s "v * 16 + d"] r by simp
      then show ?thesis unfolding hextoi_loop_step using True Some by auto
    next
      case False
      then have "v * 16 + d \<le> NGX_MAX_INT_T_VALUE" "0 \<le> v * 16 + d" using r Cons.prems by simp_all
      from Cons.IH [OF this(2,1)] show ?thesis unfolding hextoi_loop_step using False Some by simp
    qed
  qed
qed simp

section \<open>The digits of a number\<close>

text \<open>The digits of \<open>k\<close> in a base, most significant first, and their characters.\<close>

fun digits :: "nat \<Rightarrow> nat \<Rightarrow> nat list" where
  "digits b k = (if k < b \<or> b < 2 then [k] else digits b (k div b) @ [k mod b])"

declare digits.simps [simp del]

lemma length_digits: "2 \<le> b \<Longrightarrow> k < b ^ j \<Longrightarrow> 0 < j \<Longrightarrow> length (digits b k) \<le> j"
proof (induction j arbitrary: k)
  case (Suc j)
  show ?case
  proof (cases "k < b")
    case False
    then have "0 < j" using Suc.prems by (cases j) auto
    moreover have "k div b < b ^ j" using Suc.prems(1,2) by (simp add: less_mult_imp_div_less mult.commute)
    ultimately have "length (digits b (k div b)) \<le> j" using Suc by simp
    then show ?thesis using False Suc.prems(1) by (subst digits.simps) simp
  qed (subst digits.simps, simp)
qed simp

lemma digits_less: "2 \<le> b \<Longrightarrow> d \<in> set (digits b k) \<Longrightarrow> d < b"
proof (induction b k rule: digits.induct)
  case (1 b k)
  then show ?case by (subst (asm) (2) digits.simps) (auto split: if_splits)
qed

lemma foldl_digits:
  assumes "2 \<le> b" and "\<And>d. d < b \<Longrightarrow> g (ch d) = int d"
  shows "foldl (\<lambda>v c. v * int b + g c) 0 (map ch (digits b k)) = int k"
proof (induction k rule: less_induct)
  case (less k)
  show ?case
  proof (cases "k < b")
    case True
    then show ?thesis using assms by (subst digits.simps) simp
  next
    case False
    then have "k div b < k" using assms(1) by simp
    from less.IH [OF this] have "foldl (\<lambda>v c. v * int b + g c) 0 (map ch (digits b k)) =
        int (k div b) * int b + int (k mod b)"
      using False assms by (subst digits.simps) simp
    then show ?thesis by (metis div_mult_mod_eq of_nat_add of_nat_mult)
  qed
qed

definition dec_char :: "nat \<Rightarrow> u8" where
  "dec_char d = of_nat d + C CHR ''0''"

lemma small_cases:
  assumes "list_all P [0, 1, 2, 3, 4, 5, 6, 7, 8, 9, 10, 11, 12, 13, 14, 15]" and "d < (16 :: nat)"
  shows "P d"
proof -
  have "d \<in> set [0, 1, 2, 3, 4, 5, 6, 7, 8, 9, 10, 11, 12, 13, 14, 15]"
    using assms(2) by (auto simp: less_Suc_eq numeral_eq_Suc)
  then show ?thesis using assms(1) unfolding list_all_iff by blast
qed

lemma dec_char_digit: "d < 10 \<Longrightarrow> is_digit (dec_char d) \<and> digit_of (dec_char d) = int d"
  using small_cases [of "\<lambda>d. d < 10 \<longrightarrow> is_digit (dec_char d) \<and> digit_of (dec_char d) = int d" d]
  by (simp add: dec_char_def is_digit_def digit_of_def)

lemma hex_char_val: "d < 16 \<Longrightarrow> hex_val (hex_lower ! d) = Some (int d) \<and> hex_val (hex_upper ! d) = Some (int d)"
  by (rule small_cases) (simp_all add: hex_lower_def hex_upper_def hex_val_def is_digit_def)

lemma dec_loop_digits: "dec_loop n p = map dec_char (digits 10 (unat n)) @ p"
proof (induction n p rule: dec_loop.induct)
  case (1 n p)
  have z: "(of_nat (unat n div 10) :: 'a word) = 0 \<longleftrightarrow> unat n < 10"
    using unat_quotient [of n 10] by (metis div_less_iff_less_mult less_one mult_1 unat_eq_0 zero_less_numeral)
  show ?case
  proof (cases "unat n < 10")
    case True
    then show ?thesis using z by (subst dec_loop.simps, subst digits.simps) (simp add: dec_char_def)
  next
    case False
    then show ?thesis using 1 z
      by (subst dec_loop.simps, subst digits.simps) (simp add: dec_char_def Let_def unat_quotient)
  qed
qed

lemma hex_loop_digits: "hex_loop hex n p = map (nth hex) (digits 16 (unat n)) @ p"
proof (induction hex n p rule: hex_loop.induct)
  case (1 hex n p)
  have q: "unat (drop_bit 4 n) = unat n div 16" by (simp add: unat_drop_bit_eq drop_bit_nat_def)
  have a: "n AND 15 = take_bit 4 n" by (simp only: take_bit_eq_mask) (simp add: mask_eq_exp_minus_1)
  have m: "unat (n AND 15) = unat n mod 16" unfolding a unsigned_take_bit_eq take_bit_nat_def by simp
  have z: "drop_bit 4 n = 0 \<longleftrightarrow> unat n < 16"
    using q by (metis div_less_iff_less_mult less_one mult_1 unat_eq_0 zero_less_numeral)
  show ?case
  proof (cases "unat n < 16")
    case True
    then show ?thesis using z m by (subst hex_loop.simps, subst digits.simps) simp
  next
    case False
    then show ?thesis using 1 z m q by (subst hex_loop.simps, subst digits.simps) (simp add: Let_def)
  qed
qed

section \<open>Printing\<close>

lemma num_text_dec: "num_text n 0 = map dec_char (digits 10 (unat n))"
proof (cases "n \<le> 0xffffffff")
  case True
  then have "unat n \<le> 4294967295" by (simp add: word_le_nat_alt)
  then have "unat (ucast n :: u32) = unat n" by (simp add: unsigned_ucast_eq take_bit_nat_eq_self)
  then show ?thesis using True by (simp add: num_text_def dec_loop_digits)
qed (simp add: num_text_def dec_loop_digits)

lemma num_text_hex: "0 < h \<Longrightarrow> num_text n h = map (nth (if h = 1 then hex_lower else hex_upper)) (digits 16 (unat n))"
  by (simp add: num_text_def hex_loop_digits)

text \<open>The text of a number fits the 20 bytes of \<^verbatim>\<open>temp\<close>.\<close>

lemma length_num_text: "length (num_text n h) \<le> 20"
proof -
  have n: "unat n < 2 ^ 64" using unsigned_less [of n, where 'a = nat] by simp
  then have "unat n < 10 ^ 20" "unat n < 16 ^ 20" by simp_all
  then have "length (digits 10 (unat n)) \<le> 20" "length (digits 16 (unat n)) \<le> 20" by (intro length_digits; simp)+
  then show ?thesis by (cases "h = 0") (simp_all add: num_text_dec num_text_hex)
qed

lemma dec_num_text: "list_all is_digit (num_text n 0) \<and> dec_value 0 (num_text n 0) = uint n"
proof -
  have "foldl (\<lambda>v c. v * int 10 + digit_of c) 0 (map dec_char (digits 10 (unat n))) = int (unat n)"
    using dec_char_digit by (intro foldl_digits) simp_all
  then show ?thesis using digits_less [of 10 _ "unat n"] dec_char_digit
    by (auto simp: num_text_dec dec_value_def list_all_iff)
qed

lemma hex_num_text:
  assumes "0 < h"
  shows "list_all (\<lambda>c. hex_val c \<noteq> None) (num_text n h) \<and> hex_value 0 (num_text n h) = uint n"
proof -
  let ?t = "if h = 1 then hex_lower else hex_upper"
  have t: "d < 16 \<Longrightarrow> hex_val (?t ! d) = Some (int d)" for d using hex_char_val by simp
  have "foldl (\<lambda>v c. v * int 16 + the (hex_val c)) 0 (map (nth ?t) (digits 16 (unat n))) = int (unat n)"
    using t by (intro foldl_digits) simp_all
  then show ?thesis using digits_less [of 16 _ "unat n"] t unfolding num_text_hex [OF assms]
    by (auto simp: hex_value_def list_all_iff)
qed

lemma sprintf_num_prefix: "\<exists>t. ngx_sprintf_num out cap n zero h w = out @ t \<and> (length out \<le> cap \<longrightarrow> length (out @ t) \<le> cap)"
  by (auto simp: ngx_sprintf_num_def Let_def)

lemma sprintf_num_room:
  assumes "length out + max w 20 \<le> cap"
  shows "ngx_sprintf_num out cap n zero h w = out @ replicate (w - length (num_text n h)) zero @ num_text n h"
  using assms length_num_text [of n h] by (auto simp: ngx_sprintf_num_def Let_def)

lemma dec_value_zeros: "dec_value 0 (replicate k 48) = 0"
  by (induction k) (simp_all add: digit_of_def)

lemma hex_value_zeros: "hex_value 0 (replicate k 48) = 0"
  by (induction k) (simp_all add: hex_val_def is_digit_def)

section \<open>The properties\<close>

text \<open>
  (C36) The number parsers are exact. For every byte string, \<^verbatim>\<open>ngx_atoi\<close>, \<^verbatim>\<open>ngx_atosz\<close>,
  \<^verbatim>\<open>ngx_atoof\<close> and \<^verbatim>\<open>ngx_atotm\<close> return the value of its digits when the string is a non-empty
  string of digits whose value fits 63 bits, and \<^verbatim>\<open>NGX_ERROR\<close> in every other case; \<^verbatim>\<open>ngx_hextoi\<close> does the
  same for hexadecimal digits of either case. The overflow tests with \<^verbatim>\<open>cutoff\<close> and \<^verbatim>\<open>cutlim\<close> neither
  miss an overflow nor reject a representable value.
\<close>

theorem ngx_atoi_exact:
  "(let r = (if s \<noteq> [] \<and> list_all is_digit s \<and> dec_value 0 s \<le> 2 ^ 63 - 1 then dec_value 0 s else -1)
    in ngx_atoi s = r \<and> ngx_atosz s = r \<and> ngx_atoof s = r \<and> ngx_atotm s = r) \<and>
   ngx_hextoi s =
     (if s \<noteq> [] \<and> list_all (\<lambda>c. hex_val c \<noteq> None) s \<and> hex_value 0 s \<le> 2 ^ 63 - 1 then hex_value 0 s else -1)"
  by (simp add: ngx_atoi_def ngx_atosz_def ngx_atoof_def ngx_atotm_def ngx_hextoi_def ato_loop_exact
      hextoi_loop_exact Let_def)

text \<open>
  What \<^verbatim>\<open>ngx_sprintf_num\<close> prints with zero padding is read back. With room for the padded
  number, \<^verbatim>\<open>ngx_atoi\<close> recovers a number printed in decimal, whether it went through the 32-bit or
  the 64-bit loop, and \<^verbatim>\<open>ngx_hextoi\<close> one printed in hexadecimal of either case.
\<close>

theorem sprintf_num_roundtrip:
  assumes "max w 20 \<le> cap" and "n \<le> 0x7fffffffffffffff"
  shows "ngx_atoi (ngx_sprintf_num [] cap n (C CHR ''0'') 0 w) = uint n \<and>
    ngx_hextoi (ngx_sprintf_num [] cap n (C CHR ''0'') 1 w) = uint n \<and>
    ngx_hextoi (ngx_sprintf_num [] cap n (C CHR ''0'') 2 w) = uint n"
proof -
  have b: "uint n \<le> 2 ^ 63 - 1" using assms(2) by (simp add: word_le_def)
  have r: "ngx_sprintf_num [] cap n 48 h w = replicate (w - length (num_text n h)) 48 @ num_text n h" for h
    using sprintf_num_room [of "[]" w cap n "C CHR ''0''" h] assms(1) by simp
  have ne: "num_text n h \<noteq> []" for h
    by (cases "h = 0") (simp_all add: num_text_dec num_text_hex digits.simps [of _ "unat n"])
  have z: "list_all is_digit (replicate k 48)" "list_all (\<lambda>c. hex_val c \<noteq> None) (replicate k 48)" for k
    by (simp_all add: list_all_iff is_digit_def hex_val_def)
  have "ngx_atoi (ngx_sprintf_num [] cap n (C CHR ''0'') 0 w) = uint n"
    using dec_num_text [of n] b z(1) ne by (simp add: r ngx_atoi_def ato_loop_exact dec_value_zeros)
  moreover have "ngx_hextoi (ngx_sprintf_num [] cap n (C CHR ''0'') h w) = uint n" if "0 < h" for h
    using hex_num_text [OF that, of n] b z(2) ne by (simp add: r ngx_hextoi_def hextoi_loop_exact hex_value_zeros)
  ultimately show ?thesis by simp
qed

theorem sprintf_num_roundtrip_witness:
  "ngx_atoi (ngx_sprintf_num [] 30 123456789012 (C CHR ''0'') 0 25) = 123456789012"
  using sprintf_num_roundtrip [of 25 30 123456789012] by simp

end
