(* ===== verification/Ngx_Escape.thy ===== *)
theory Ngx_Escape
  imports Ngx_Number_Props
begin

text \<open>
  The escaping routines of \<^verbatim>\<open>core/ngx_string.c\<close>: URI escaping with its seven tables, URI
  unescaping, HTML and JSON escaping. Each of the three escapers has two modes: with \<^verbatim>\<open>dst == NULL\<close> it
  counts, otherwise it writes; they are two functions here. The output is the list of the bytes written.
\<close>

section \<open>URI escaping\<close>

definition esc_uri :: "u32 list" where
  "esc_uri = [0xffffffff, 0x80000029, 0x00000000, 0x80000000, 0xffffffff, 0xffffffff, 0xffffffff, 0xffffffff]"

definition esc_args :: "u32 list" where
  "esc_args = [0xffffffff, 0x88000869, 0x00000000, 0x80000000, 0xffffffff, 0xffffffff, 0xffffffff, 0xffffffff]"

definition esc_uri_component :: "u32 list" where
  "esc_uri_component =
     [0xffffffff, 0xfc009fff, 0x78000001, 0xb8000001, 0xffffffff, 0xffffffff, 0xffffffff, 0xffffffff]"

definition esc_html :: "u32 list" where
  "esc_html = [0xffffffff, 0x000000ad, 0x00000000, 0x80000000, 0xffffffff, 0xffffffff, 0xffffffff, 0xffffffff]"

definition esc_refresh :: "u32 list" where
  "esc_refresh = [0xffffffff, 0x00000085, 0x00000000, 0x80000000, 0xffffffff, 0xffffffff, 0xffffffff, 0xffffffff]"

definition esc_memcached :: "u32 list" where
  "esc_memcached = [0xffffffff, 0x00000021, 0, 0, 0, 0, 0, 0]"

definition esc_map :: "u32 list list" where
  "esc_map = [esc_uri, esc_args, esc_uri_component, esc_html, esc_refresh, esc_memcached, esc_memcached]"

text \<open>The test \<^verbatim>\<open>escape[*src >> 5] & (1U << (*src & 0x1f))\<close>.\<close>

definition escaped :: "u32 list \<Rightarrow> u8 \<Rightarrow> bool" where
  "escaped escape c \<longleftrightarrow> (escape ! unat (drop_bit 5 c)) AND push_bit (unat (c AND 0x1f)) 1 \<noteq> 0"

fun escape_uri_count :: "u32 list \<Rightarrow> u8 list \<Rightarrow> nat" where
  "escape_uri_count escape [] = 0"
| "escape_uri_count escape (c # src) = (if escaped escape c then 1 else 0) + escape_uri_count escape src"

fun escape_uri_write :: "u32 list \<Rightarrow> u8 list \<Rightarrow> u8 list" where
  "escape_uri_write escape [] = []"
| "escape_uri_write escape (c # src) =
     (if escaped escape c
      then C CHR ''%'' # hex_upper ! unat (drop_bit 4 c) # hex_upper ! unat (c AND 0xf) # escape_uri_write escape src
      else c # escape_uri_write escape src)"

text \<open>\<^verbatim>\<open>ngx_escape_uri\<close>: the number of characters to be escaped, and the escaped string.\<close>

definition ngx_escape_uri :: "u8 list \<Rightarrow> nat \<Rightarrow> nat \<times> u8 list" where
  "ngx_escape_uri src type_ix =
     (let escape = esc_map ! type_ix in (escape_uri_count escape src, escape_uri_write escape src))"

section \<open>URI unescaping\<close>

abbreviation (input) NGX_UNESCAPE_URI :: nat where "NGX_UNESCAPE_URI \<equiv> 1"
abbreviation (input) NGX_UNESCAPE_REDIRECT :: nat where "NGX_UNESCAPE_REDIRECT \<equiv> 2"

datatype un_state = un_usual | un_quoted | un_quoted_second

text \<open>
  The loop: \<open>prev\<close> is the byte \<^verbatim>\<open>*(s - 2)\<close> when \<^verbatim>\<open>ch\<close> is \<^verbatim>\<open>*(s - 1)\<close>, \<open>d\<close> the output so far. The result is the
  output and the bytes from \<^verbatim>\<open>s\<close> on.
\<close>

definition un_redirect :: "u8 \<Rightarrow> u8 \<Rightarrow> u8 \<Rightarrow> u8 list" where
  "un_redirect v prev ch = (if C CHR ''%'' < v \<and> v < 0x7f then [v] else [C CHR ''%'', prev, ch])"

fun un_loop :: "nat \<Rightarrow> un_state \<Rightarrow> u8 \<Rightarrow> u8 \<Rightarrow> u8 list \<Rightarrow> u8 list \<Rightarrow> u8 list \<times> u8 list" where
  "un_loop ty st decoded prev d [] = (d, [])"
| "un_loop ty un_usual decoded prev d (ch # s) =
     (if ch = C CHR ''?'' \<and> ty AND (NGX_UNESCAPE_URI OR NGX_UNESCAPE_REDIRECT) \<noteq> 0 then (d @ [ch], s)
      else if ch = C CHR ''%'' then un_loop ty un_quoted decoded ch d s
      else un_loop ty un_usual decoded ch (d @ [ch]) s)"
| "un_loop ty un_quoted decoded prev d (ch # s) =
     (if C CHR ''0'' \<le> ch \<and> ch \<le> C CHR ''9'' then un_loop ty un_quoted_second (ch - C CHR ''0'') ch d s
      else let c = ch OR 0x20 in
        if C CHR ''a'' \<le> c \<and> c \<le> C CHR ''f'' then un_loop ty un_quoted_second (c - C CHR ''a'' + 10) ch d s
        else un_loop ty un_usual decoded ch (d @ [ch]) s)"
| "un_loop ty un_quoted_second decoded prev d (ch # s) =
     (if C CHR ''0'' \<le> ch \<and> ch \<le> C CHR ''9'' then
        let v = push_bit 4 decoded + ch - C CHR ''0'' in
        if ty AND NGX_UNESCAPE_REDIRECT \<noteq> 0 then un_loop ty un_usual decoded ch (d @ un_redirect v prev ch) s
        else un_loop ty un_usual decoded ch (d @ [v]) s
      else let c = ch OR 0x20 in
        if C CHR ''a'' \<le> c \<and> c \<le> C CHR ''f'' then
          let v = push_bit 4 decoded + c - C CHR ''a'' + 10 in
          if ty AND NGX_UNESCAPE_URI \<noteq> 0 then
            (if v = C CHR ''?'' then (d @ [v], s) else un_loop ty un_usual decoded ch (d @ [v]) s)
          else if ty AND NGX_UNESCAPE_REDIRECT \<noteq> 0 then
            (if v = C CHR ''?'' then (d @ [v], s) else un_loop ty un_usual decoded ch (d @ un_redirect v prev ch) s)
          else un_loop ty un_usual decoded ch (d @ [v]) s
        else un_loop ty un_usual decoded ch d s)"

definition ngx_unescape_uri :: "u8 list \<Rightarrow> nat \<Rightarrow> u8 list \<times> u8 list" where
  "ngx_unescape_uri src ty = un_loop ty un_usual 0 0 [] src"

section \<open>HTML and JSON\<close>

fun escape_html_count :: "u8 list \<Rightarrow> nat" where
  "escape_html_count [] = 0"
| "escape_html_count (c # src) =
     (if c = C CHR ''<'' then 3 else if c = C CHR ''>'' then 3 else if c = C CHR ''&'' then 4
      else if c = 0x22 then 5 else 0) + escape_html_count src"

fun escape_html_write :: "u8 list \<Rightarrow> u8 list" where
  "escape_html_write [] = []"
| "escape_html_write (ch # src) =
     (if ch = C CHR ''<'' then bytes ''&lt;'' else if ch = C CHR ''>'' then bytes ''&gt;''
      else if ch = C CHR ''&'' then bytes ''&amp;'' else if ch = 0x22 then bytes ''&quot;'' else [ch])
     @ escape_html_write src"

definition ngx_escape_html :: "u8 list \<Rightarrow> nat \<times> u8 list" where
  "ngx_escape_html src = (escape_html_count src, escape_html_write src)"

fun escape_json_count :: "u8 list \<Rightarrow> nat" where
  "escape_json_count [] = 0"
| "escape_json_count (ch # src) =
     (if ch = 0x5c \<or> ch = 0x22 then 1 else if ch \<le> 0x1f then 5 else 0) + escape_json_count src"

fun escape_json_write :: "u8 list \<Rightarrow> u8 list" where
  "escape_json_write [] = []"
| "escape_json_write (ch # src) =
     (if 0x1f < ch then (if ch = 0x5c \<or> ch = 0x22 then [0x5c] else []) @ [ch]
      else [0x5c, C CHR ''u'', C CHR ''0'', C CHR ''0'', C CHR ''0'' + drop_bit 4 ch] @
        (let c = ch AND 0xf in [if c < 10 then C CHR ''0'' + c else C CHR ''A'' + c - 10]))
     @ escape_json_write src"

definition ngx_escape_json :: "u8 list \<Rightarrow> nat \<times> u8 list" where
  "ngx_escape_json src = (escape_json_count src, escape_json_write src)"

section \<open>Properties\<close>

lemma escape_uri_length: "length (escape_uri_write escape src) = length src + 2 * escape_uri_count escape src"
  by (induction src) simp_all

lemma escape_html_length: "length (escape_html_write src) = length src + escape_html_count src"
  by (induction src) simp_all

lemma escape_json_length: "length (escape_json_write src) = length src + escape_json_count src"
  by (induction src) (auto simp: Let_def)

text \<open>
  The counting pass and the writing pass agree. A caller that allocates \<open>n\<close> bytes plus twice the
  count of \<^verbatim>\<open>ngx_escape_uri\<close>, or \<open>n\<close> plus the count of \<^verbatim>\<open>ngx_escape_html\<close> or \<^verbatim>\<open>ngx_escape_json\<close>, has
  allocated exactly the number of bytes the second call writes.
\<close>

theorem escape_sizes_exact:
  "length (snd (ngx_escape_uri src ty)) = length src + 2 * fst (ngx_escape_uri src ty) \<and>
   length (snd (ngx_escape_html src)) = length src + fst (ngx_escape_html src) \<and>
   length (snd (ngx_escape_json src)) = length src + fst (ngx_escape_json src)"
  by (simp add: ngx_escape_uri_def ngx_escape_html_def ngx_escape_json_def escape_uri_length escape_html_length
      escape_json_length Let_def)

text \<open>Every escaped byte is read back from its two hexadecimal digits.\<close>

definition un_pair :: "u8 \<Rightarrow> u8 \<Rightarrow> u8 option" where
  "un_pair h l =
     (case (if C CHR ''0'' \<le> h \<and> h \<le> C CHR ''9'' then Some (h - C CHR ''0'')
            else if C CHR ''a'' \<le> h OR 0x20 \<and> h OR 0x20 \<le> C CHR ''f'' then Some ((h OR 0x20) - C CHR ''a'' + 10)
            else None) of
        None \<Rightarrow> None
      | Some k \<Rightarrow>
          if C CHR ''0'' \<le> l \<and> l \<le> C CHR ''9'' then Some (push_bit 4 k + l - C CHR ''0'')
          else if C CHR ''a'' \<le> l OR 0x20 \<and> l OR 0x20 \<le> C CHR ''f''
          then Some (push_bit 4 k + (l OR 0x20) - C CHR ''a'' + 10)
          else None)"

lemma un_pair_hex: "un_pair (hex_upper ! unat (drop_bit 4 c)) (hex_upper ! unat (c AND 0xf)) = Some c"
proof -
  have "all_bytes (\<lambda>c. un_pair (hex_upper ! unat (drop_bit 4 c)) (hex_upper ! unat (c AND 0xf)) = Some c)"
    by (simp add: all_bytes_def un_pair_def hex_upper_def)
  then show ?thesis by (rule all_bytesD)
qed

lemma un_loop_pair:
  assumes "un_pair h l = Some c"
  shows "\<exists>decoded' prev'. un_loop 0 un_usual decoded prev d (37 # h # l # s) = un_loop 0 un_usual decoded' prev' (d @ [c]) s"
  using assms by (auto simp: un_pair_def Let_def split: if_splits)

lemma un_loop_escape:
  assumes "escaped escape 37"
  shows "un_loop 0 un_usual decoded prev d (escape_uri_write escape src) = (d @ src, [])"
proof (induction src arbitrary: decoded prev d)
  case (Cons c src)
  show ?case
  proof (cases "escaped escape c")
    case True
    obtain decoded' prev' where "un_loop 0 un_usual decoded prev d (escape_uri_write escape (c # src)) =
        un_loop 0 un_usual decoded' prev' (d @ [c]) (escape_uri_write escape src)"
      using un_loop_pair [OF un_pair_hex [of c]] True by simp metis
    then show ?thesis using Cons.IH by simp
  next
    case False
    then have "c \<noteq> 37" using assms by auto
    then show ?thesis using False Cons.IH by simp
  qed
qed simp

text \<open>
  (C35) Unescaping undoes escaping: for every byte string and each of the six types of escaping whose table has the
  percent sign, \<^verbatim>\<open>ngx_unescape_uri\<close> with type 0 returns the original string and consumes the whole input. (The
  table of \<^verbatim>\<open>NGX_ESCAPE_REFRESH\<close> leaves the percent sign alone; with the types \<^verbatim>\<open>NGX_UNESCAPE_URI\<close> and
  \<^verbatim>\<open>NGX_UNESCAPE_REDIRECT\<close> unescaping stops at a question mark, and the strings with one are not read back.)
\<close>

theorem escape_uri_roundtrip:
  assumes "ty \<in> {0, 1, 2, 3, 5, 6}"
  shows "ngx_unescape_uri (snd (ngx_escape_uri src ty)) 0 = (src, [])"
proof -
  have "escaped (esc_map ! ty) 37"
    using assms by (auto simp: esc_map_def escaped_def esc_uri_def esc_args_def esc_uri_component_def esc_html_def
        esc_memcached_def)
  then show ?thesis by (simp add: ngx_unescape_uri_def ngx_escape_uri_def Let_def un_loop_escape)
qed

theorem escape_uri_roundtrip_witness:
  "snd (ngx_escape_uri (bytes ''a b%'') 0) = bytes ''a%20b%25'' \<and> ngx_unescape_uri (bytes ''a%20b%25'') 0 = (bytes ''a b%'', [])"
proof -
  have e: "snd (ngx_escape_uri (bytes ''a b%'') 0) = bytes ''a%20b%25''"
    by (simp add: ngx_escape_uri_def esc_map_def esc_uri_def escaped_def hex_upper_def Let_def)
  show ?thesis using escape_uri_roundtrip [of 0 "bytes ''a b%''"] unfolding e by simp
qed

text \<open>Unescaping in place: the write position never overtakes the read position.\<close>

fun un_pending :: "un_state \<Rightarrow> nat" where
  "un_pending un_usual = 0"
| "un_pending un_quoted = 1"
| "un_pending un_quoted_second = 2"

lemma un_loop_length:
  "length (fst (un_loop ty st decoded prev d s)) + length (snd (un_loop ty st decoded prev d s)) \<le>
   length d + un_pending st + length s"
proof (induction s arbitrary: st decoded prev d)
  case (Cons ch s)
  note bound = order_trans [OF Cons.IH]
  show ?case
  proof (cases st)
    case un_usual
    then show ?thesis by (auto intro!: bound)
  next
    case un_quoted
    then show ?thesis by (auto simp: Let_def intro!: bound)
  next
    case un_quoted_second
    then show ?thesis by (auto simp: Let_def un_redirect_def intro!: bound)
  qed
qed simp

text \<open>
  Unescaping never writes more than it has read, whatever the input and the mode, so that its
  callers may pass the same buffer as source and destination.
\<close>

theorem unescape_uri_shrinks:
  "length (fst (ngx_unescape_uri src ty)) + length (snd (ngx_unescape_uri src ty)) \<le> length src"
  using un_loop_length [of ty un_usual 0 0 "[]" src] by (simp add: ngx_unescape_uri_def)

text \<open>
  Escaped HTML carries no markup: the output of \<^verbatim>\<open>ngx_escape_html\<close> contains no angle bracket and no
  double quote, so it can neither open a tag nor end a quoted attribute, and distinct
  strings stay distinct.
\<close>

theorem escape_html_safe:
  "set (snd (ngx_escape_html src)) \<inter> {C CHR ''<'', C CHR ''>'', 0x22} = {} \<and>
   (snd (ngx_escape_html src) = snd (ngx_escape_html src') \<longleftrightarrow> src = src')"
proof -
  have "set (escape_html_write src) \<inter> {60, 62, 34} = {}" by (induction src) auto
  moreover have "escape_html_write src = escape_html_write src' \<Longrightarrow> src = src'"
  proof (induction src arbitrary: src')
    case Nil
    then show ?case by (cases src') (auto split: if_splits)
  next
    case (Cons c src)
    then show ?case by (cases src') (auto split: if_splits)
  qed
  ultimately show ?thesis by (auto simp: ngx_escape_html_def)
qed

end
