(* ===== verification/Ngx_Http_Args.thy ===== *)
theory Ngx_Http_Args
  imports Ngx_Http_Request Ngx_Escape Ngx_String_Props "HOL-Library.Sublist"
begin

text \<open>
  The remaining functions of \<^verbatim>\<open>http/ngx_http_parse.c\<close>: the check of a URI that comes from outside the
  request line, the scan of header values for a parameter or a cookie, the lookup of a query argument and
  the split of a URI at the question mark. Strings are the lists of their bytes; the byte behind a header
  value is zero, as the request parser leaves it.
\<close>

section \<open>URIs from headers and redirects\<close>

text \<open>
  The test for \<^verbatim>\<open>..\<close> at the start of the URI, and for \<^verbatim>\<open>/../\<close> and \<^verbatim>\<open>/..\<close> at a slash, where \<open>s\<close> are the bytes
  behind the slash.
\<close>

definition us_dots :: "u8 list \<Rightarrow> bool" where
  "us_dots s \<longleftrightarrow> 1 < length s \<and> s ! 0 = C CHR ''.'' \<and> s ! 1 = C CHR ''.'' \<and> (length s = 2 \<or> s ! 2 = C CHR ''/'')"

text \<open>
  The first loop: \<open>None\<close> is \<^verbatim>\<open>goto unsafe\<close>; otherwise \<^verbatim>\<open>quoted\<close> and the offset of the question mark.
\<close>

fun us_scan :: "bool \<Rightarrow> nat \<Rightarrow> u8 list \<Rightarrow> (bool \<times> nat option) option" where
  "us_scan quoted k [] = Some (quoted, None)"
| "us_scan quoted k (ch # s) =
     (if ch = C CHR ''%'' then us_scan True (k + 1) s
      else if is_usual ch then us_scan quoted (k + 1) s
      else if ch = C CHR ''?'' then Some (quoted, Some k)
      else if ch = 0 then None
      else if ch = C CHR ''/'' \<and> us_dots s then None
      else us_scan quoted (k + 1) s)"

text \<open>The second loop, over the unescaped URI.\<close>

fun us_check :: "u8 list \<Rightarrow> bool" where
  "us_check [] = True"
| "us_check (ch # s) =
     (if ch = 0 then False else if ch = C CHR ''/'' \<and> us_dots s then False else us_check s)"

text \<open>
  The result is the URI and the arguments, when there are any; \<open>None\<close> is \<^verbatim>\<open>NGX_ERROR\<close>. \<open>alloc_ok\<close> says
  whether \<^verbatim>\<open>ngx_pnalloc\<close> succeeds.
\<close>

definition ngx_http_parse_unsafe_uri :: "bool \<Rightarrow> u8 list \<Rightarrow> (u8 list \<times> u8 list option) option" where
  "ngx_http_parse_unsafe_uri alloc_ok uri =
     (if uri = [] \<or> hd uri = C CHR ''?'' then None
      else if us_dots uri then None
      else
        (case us_scan False 0 uri of
           None \<Rightarrow> None
         | Some (quoted, q) \<Rightarrow>
             let args = map_option (\<lambda>k. drop (k + 1) uri) q;
                 path_part = (case q of None \<Rightarrow> uri | Some k \<Rightarrow> take k uri)
             in if \<not> quoted then Some (path_part, args)
                else if \<not> alloc_ok then None
                else let d = fst (ngx_unescape_uri path_part 0) in
                  if us_dots d \<or> \<not> us_check d then None else Some (d, args)))"

section \<open>Parameters in header values\<close>

definition skip_spaces :: "u8 list \<Rightarrow> u8 list" where
  "skip_spaces s = dropWhile (\<lambda>c. c = C CHR '' '') s"

text \<open>The code at the label \<^verbatim>\<open>skip\<close>.\<close>

definition mh_skip :: "u8 list \<Rightarrow> u8 list" where
  "mh_skip s = skip_spaces (tl (dropWhile (\<lambda>c. c \<noteq> C CHR '';'' \<and> c \<noteq> C CHR '','') s))"

lemma length_mh_skip: "length (mh_skip s) \<le> length s - 1"
  unfolding mh_skip_def skip_spaces_def
  by (rule order_trans [OF length_dropWhile_le]) (simp add: diff_le_mono length_dropWhile_le)

lemma length_skip_spaces: "length (skip_spaces s) \<le> length s"
  by (simp add: skip_spaces_def length_dropWhile_le)

text \<open>
  The loop \<^verbatim>\<open>while (start < end)\<close> on one header value: the value found (empty when none is asked for).
\<close>

function mh_loop :: "u8 list \<Rightarrow> bool \<Rightarrow> u8 list \<Rightarrow> u8 list option" where
  "mh_loop name want start =
     (if start = [] then None
      else if ngx_strncasecmp start name (length name) \<noteq> 0 then mh_loop name want (mh_skip start)
      else let t = skip_spaces (drop (length name) start) in
        if \<not> want then
          (if t = [] \<or> hd t = C CHR '','' then Some [] else mh_loop name want (mh_skip t))
        else if t = [] then mh_loop name want (mh_skip t)
        else if hd t \<noteq> C CHR ''='' then mh_loop name want (mh_skip (tl t))
        else Some (takeWhile (\<lambda>c. c \<noteq> C CHR '';'') (skip_spaces (tl t))))"
  by pat_completeness auto
termination
proof (relation "measure (\<lambda>(name, want, start). length start)")
  fix name want and start t :: "u8 list"
  assume s: "start \<noteq> []" and t: "t = skip_spaces (drop (length name) start)"
  have l: "length t \<le> length start" unfolding t by (rule order_trans [OF length_skip_spaces]) simp
  have "length (mh_skip u) < length start" if "length u \<le> length start" for u
    using length_mh_skip [of u] that s by (cases "length start") auto
  then show "((name, want, mh_skip t), (name, want, start)) \<in> measure (\<lambda>(name, want, start). length start)"
    "((name, want, mh_skip t), (name, want, start)) \<in> measure (\<lambda>(name, want, start). length start)"
    "((name, want, mh_skip (tl t)), (name, want, start)) \<in> measure (\<lambda>(name, want, start). length start)"
    using l by (simp_all add: le_diff_conv)
next
  fix name want and start :: "u8 list"
  assume "start \<noteq> []"
  then show "((name, want, mh_skip start), (name, want, start)) \<in> measure (\<lambda>(name, want, start). length start)"
    using length_mh_skip [of start] by (cases start) auto
qed simp

declare mh_loop.simps [simp del]

text \<open>The loop over the headers: the index and the value; \<open>None\<close> is \<^verbatim>\<open>NGX_DECLINED\<close>.\<close>

fun mh_headers :: "nat \<Rightarrow> u8 list list \<Rightarrow> u8 list \<Rightarrow> bool \<Rightarrow> (nat \<times> u8 list) option" where
  "mh_headers i [] name want = None"
| "mh_headers i (v # hs) name want =
     (if length v < length name then mh_headers (i + 1) hs name want
      else case mh_loop name want v of
             Some x \<Rightarrow> Some (i, x)
           | None \<Rightarrow> mh_headers (i + 1) hs name want)"

definition ngx_http_parse_multi_header_lines :: "u8 list list \<Rightarrow> u8 list \<Rightarrow> bool \<Rightarrow> (nat \<times> u8 list) option" where
  "ngx_http_parse_multi_header_lines headers name want = mh_headers 0 headers name want"

fun sc_headers :: "nat \<Rightarrow> u8 list list \<Rightarrow> u8 list \<Rightarrow> (nat \<times> u8 list) option" where
  "sc_headers i [] name = None"
| "sc_headers i (v # hs) name =
     (if length v \<le> length name then sc_headers (i + 1) hs name
      else if ngx_strncasecmp v name (length name) \<noteq> 0 then sc_headers (i + 1) hs name
      else let t = skip_spaces (drop (length name) v) in
        if t = [] \<or> hd t \<noteq> C CHR ''='' then sc_headers (i + 1) hs name
        else Some (i, takeWhile (\<lambda>c. c \<noteq> C CHR '';'') (skip_spaces (tl t))))"

definition ngx_http_parse_set_cookie_lines :: "u8 list list \<Rightarrow> u8 list \<Rightarrow> (nat \<times> u8 list) option" where
  "ngx_http_parse_set_cookie_lines headers name = sc_headers 0 headers name"

section \<open>Query arguments\<close>

text \<open>The result is the offset and the length of the value; \<open>None\<close> is \<^verbatim>\<open>NGX_DECLINED\<close>.\<close>

function arg_loop :: "u8 list \<Rightarrow> u8 list \<Rightarrow> nat \<Rightarrow> (nat \<times> nat) option" where
  "arg_loop args name p =
     (if p < length args then
        (case ngx_strlcasestrn (drop p (butlast args)) name (length name - 1) of
           None \<Rightarrow> None
         | Some k \<Rightarrow>
             let q = p + k; len = length name in
             if (q = 0 \<or> byte_at args (q - 1) = C CHR ''&'') \<and> byte_at args (q + len) = C CHR ''='' then
               let e = (case ngx_strlchr (drop q args) (C CHR ''&'') of None \<Rightarrow> length args | Some j \<Rightarrow> q + j)
               in Some (q + len + 1, size_t_of (int e - int (q + len + 1)))
             else arg_loop args name (q + 1))
      else None)"
  by pat_completeness auto
termination
  by (relation "measure (\<lambda>(args, name, p). length args - p)") auto

declare arg_loop.simps [simp del]

definition ngx_http_arg :: "u8 list \<Rightarrow> u8 list \<Rightarrow> (nat \<times> nat) option" where
  "ngx_http_arg args name = (if args = [] then None else arg_loop args name 0)"

definition ngx_http_split_args :: "u8 list \<Rightarrow> u8 list \<times> u8 list" where
  "ngx_http_split_args uri =
     (case ngx_strlchr uri (C CHR ''?'') of None \<Rightarrow> (uri, []) | Some k \<Rightarrow> (take k uri, drop (k + 1) uri))"

end
