(* ===== verification/Ngx_Http_Args_Props.thy ===== *)
theory Ngx_Http_Args_Props
  imports Ngx_Http_Args
begin

text \<open>
  Properties of the functions in \<^verbatim>\<open>Ngx_Http_Args\<close>: an accepted URI does not climb out of its directory,
  and a query argument is found exactly where its name and an equals sign begin an argument.
\<close>

section \<open>Unsafe URIs\<close>

lemma us_dots_iff: "us_dots s \<longleftrightarrow> s = [46, 46] \<or> prefix [46, 46, 47] s"
proof (cases s)
  case (Cons a t)
  show ?thesis
  proof (cases t)
    case (Cons b u)
    then show ?thesis using \<open>s = a # t\<close> by (cases u) (auto simp: us_dots_def)
  qed (use Cons in \<open>auto simp: us_dots_def\<close>)
qed (simp add: us_dots_def)

text \<open>No byte is zero and no segment climbs.\<close>

definition no_climb :: "u8 list \<Rightarrow> bool" where
  "no_climb s \<longleftrightarrow> 0 \<notin> set s \<and> \<not> sublist (bytes ''/../'') s"

lemma no_climb_Cons: "no_climb (c # s) \<longleftrightarrow> c \<noteq> 0 \<and> \<not> (c = 47 \<and> prefix [46, 46, 47] s) \<and> no_climb s"
  by (auto simp: no_climb_def sublist_Cons_right)

lemma suffix_dots_Cons: "suffix [47, 46, 46] (c # s) \<longleftrightarrow> c = 47 \<and> s = [46, 46] \<or> suffix [47, 46, 46] s"
  by (auto simp: suffix_Cons)

lemma no_climb_Nil [simp]: "no_climb []"
  by (simp add: no_climb_def)

lemma us_check_safe: "us_check s \<Longrightarrow> no_climb s \<and> \<not> suffix [47, 46, 46] s"
  by (induction s) (auto simp: no_climb_Cons suffix_dots_Cons us_dots_iff split: if_splits)

lemma us_scan_all: "us_scan q k s = Some (q', None) \<Longrightarrow> no_climb s \<and> \<not> suffix [47, 46, 46] s"
proof (induction q k s rule: us_scan.induct)
  case (2 q k ch s)
  then show ?case
    by (auto simp: no_climb_Cons suffix_dots_Cons us_dots_iff is_usual_iff split: if_splits)
qed simp

lemma us_scan_args:
  "us_scan q k s = Some (q', Some j) \<Longrightarrow> k \<le> j \<and> j - k < length s \<and> s ! (j - k) = 63 \<and> no_climb (take (j - k) s)"
proof (induction q k s rule: us_scan.induct)
  case (2 q k ch s)
  show ?case
  proof (cases "\<not> is_usual ch \<and> ch = 63")
    case True
    then show ?thesis using "2.prems" by (simp add: is_usual_iff)
  next
    case False
    obtain q0 where rec: "us_scan q0 (k + 1) s = Some (q', Some j)" and ok: "ch \<noteq> 0" "\<not> (ch = 47 \<and> us_dots s)"
      and IH: "k + 1 \<le> j \<and> j - (k + 1) < length s \<and> s ! (j - (k + 1)) = 63 \<and> no_climb (take (j - (k + 1)) s)"
      using 2 False by (auto simp: is_usual_iff split: if_splits)
    have j: "j - k = Suc (j - (k + 1))" using IH by linarith
    have "\<not> prefix [46, 46, 47] s \<Longrightarrow> \<not> prefix [46, 46, 47] (take (j - (k + 1)) s)"
      by (meson prefix_order.trans take_is_prefix)
    then have "no_climb (take (j - k) (ch # s))" unfolding j using IH ok by (simp add: no_climb_Cons us_dots_iff)
    then show ?thesis using IH j by simp
  qed
qed simp

text \<open>
  (C28) A URI accepted by \<^verbatim>\<open>ngx_http_parse_unsafe_uri\<close> (from a \<^verbatim>\<open>Destination\<close> or \<^verbatim>\<open>X-Accel-Redirect\<close> header, say),
  after unescaping, contains no zero byte and no \<^verbatim>\<open>/../\<close>, and does not start with \<^verbatim>\<open>../\<close>. When it came without
  arguments, it is not \<^verbatim>\<open>..\<close> and does not end with \<^verbatim>\<open>/..\<close> either.
\<close>

theorem unsafe_uri_no_climb:
  assumes "ngx_http_parse_unsafe_uri alloc_ok s = Some (uri, args)"
  shows "0 \<notin> set uri \<and> \<not> sublist (bytes ''/../'') uri \<and> \<not> prefix (bytes ''../'') uri \<and>
    (args = None \<longrightarrow> uri \<noteq> bytes ''..'' \<and> \<not> suffix (bytes ''/..'') uri)"
proof -
  obtain quoted q where scan: "us_scan False 0 s = Some (quoted, q)" and start: "\<not> us_dots s"
    using assms by (auto simp: ngx_http_parse_unsafe_uri_def split: if_splits option.splits)
  have args: "args = map_option (\<lambda>k. drop (k + 1) s) q"
    using assms scan start by (auto simp: ngx_http_parse_unsafe_uri_def Let_def split: if_splits)
  have "no_climb uri \<and> \<not> prefix [46, 46, 47] uri \<and> (q = None \<longrightarrow> uri \<noteq> [46, 46] \<and> \<not> suffix [47, 46, 46] uri)"
  proof (cases quoted)
    case True
    then have "\<not> us_dots uri" "us_check uri"
      using assms scan start by (auto simp: ngx_http_parse_unsafe_uri_def Let_def split: if_splits)
    then show ?thesis using us_check_safe by (auto simp: us_dots_iff)
  next
    case False
    then have u: "uri = (case q of None \<Rightarrow> s | Some k \<Rightarrow> take k s)"
      using assms scan start by (auto simp: ngx_http_parse_unsafe_uri_def Let_def split: if_splits)
    show ?thesis
    proof (cases q)
      case None
      then show ?thesis using u us_scan_all [of False 0 s quoted] scan start by (auto simp: us_dots_iff)
    next
      case (Some k)
      then have "no_climb uri" using us_scan_args [of False 0 s quoted k] scan u by simp
      moreover have "prefix uri s" using u Some by (simp add: take_is_prefix)
      then have "\<not> prefix [46, 46, 47] uri" using start prefix_order.trans [of "[46, 46, 47]" uri s]
        by (auto simp: us_dots_iff)
      ultimately show ?thesis using Some by simp
    qed
  qed
  then show ?thesis using args by (auto simp: no_climb_def)
qed

theorem unsafe_uri_no_climb_witness:
  "ngx_http_parse_unsafe_uri True (bytes ''/a%2fb?c'') = Some (bytes ''/a/b'', Some (bytes ''c'')) \<and>
   \<not> sublist (bytes ''/../'') (bytes ''/a/b'')"
proof -
  have e: "ngx_http_parse_unsafe_uri True (bytes ''/a%2fb?c'') = Some (bytes ''/a/b'', Some (bytes ''c''))"
    by (simp add: ngx_http_parse_unsafe_uri_def is_usual_iff us_dots_def ngx_unescape_uri_def)
  from unsafe_uri_no_climb [OF e] e show ?thesis by blast
qed

text \<open>A climbing segment directly before the question mark is not detected.\<close>

theorem unsafe_uri_before_args:
  "ngx_http_parse_unsafe_uri True (bytes ''/..?x'') = Some (bytes ''/..'', Some (bytes ''x''))"
  by (simp add: ngx_http_parse_unsafe_uri_def is_usual_iff us_dots_def)

section \<open>Query arguments\<close>

text \<open>An argument of the given name begins at the offset \<open>q\<close>.\<close>

definition arg_at :: "u8 list \<Rightarrow> u8 list \<Rightarrow> nat \<Rightarrow> bool" where
  "arg_at args name q \<longleftrightarrow> (q = 0 \<or> args ! (q - 1) = C CHR ''&'') \<and> q + length name < length args \<and>
     matches_at args name q \<and> args ! (q + length name) = C CHR ''=''"

text \<open>The extent of its value: from behind the equals sign to the next ampersand or the end.\<close>

definition arg_value :: "u8 list \<Rightarrow> u8 list \<Rightarrow> nat \<Rightarrow> nat \<times> nat" where
  "arg_value args name q =
     (let v = drop (q + length name + 1) args in (q + length name + 1, length (takeWhile (\<lambda>c. c \<noteq> C CHR ''&'') v)))"

lemma matches_at_shift:
  assumes "i + k + length name \<le> length args - 1"
  shows "matches_at (drop i (butlast args)) name k \<longleftrightarrow> matches_at args name (i + k)"
proof -
  have "min (length name) (length args - 1 - i - k) = length name" using assms by linarith
  then have "take (length name) (drop k (drop i (butlast args))) = take (length name) (drop (i + k) args)"
    by (simp only: butlast_conv_take drop_drop drop_take take_take add.commute [of i k])
  then show ?thesis by (simp only: matches_at_def)
qed

lemma strlchr_spec:
  "ngx_strlchr s c = (if c \<in> set s then Some (length (takeWhile (\<lambda>x. x \<noteq> c) s)) else None)"
  by (induction s) auto

text \<open>A search from \<open>i\<close> on, with one byte kept for the equals sign.\<close>

lemma arg_search:
  assumes "0 \<notin> set name" and "name \<noteq> []" and "i < length args"
  shows "case ngx_strlcasestrn (drop i (butlast args)) name (length name - 1) of
      None \<Rightarrow> (\<forall>q \<ge> i. \<not> arg_at args name q)
    | Some k \<Rightarrow> i + k + length name < length args \<and> matches_at args name (i + k) \<and>
        (\<forall>q. i \<le> q \<and> q < i + k \<longrightarrow> \<not> arg_at args name q)"
proof -
  obtain p pat where n: "name = p # pat" using assms(2) by (cases name) auto
  let ?d = "drop i (butlast args)"
  have at: "matches_at ?d name (q - i) \<and> q - i + length name \<le> length ?d" if "arg_at args name q" "i \<le> q" for q
    using that matches_at_shift [of i "q - i" name args] by (auto simp: arg_at_def)
  show ?thesis
  proof (cases "ngx_strlcasestrn ?d name (length name - 1)")
    case None
    then have none: "\<not> (k + length name \<le> length ?d \<and> matches_at ?d name k)" for k
      using strlcasestrn_spec [of p pat ?d] assms(1) n by simp
    have "\<not> arg_at args name q" if "i \<le> q" for q using at [OF _ that] none [of "q - i"] by blast
    then show ?thesis using None by simp
  next
    case (Some k)
    then have k: "k + length name \<le> length ?d" "matches_at ?d name k" "\<And>j. j < k \<Longrightarrow> \<not> matches_at ?d name j"
      using strlcasestrn_spec [of p pat ?d] assms(1) n by auto
    have "i + k + length name \<le> length args - 1" using k(1) assms(3) n by auto
    moreover have "\<not> arg_at args name q" if "i \<le> q" "q < i + k" for q
      using at [of q] k(3) [of "q - i"] that by auto
    ultimately show ?thesis using Some k(2) matches_at_shift [of i k name args] assms(3) by auto
  qed
qed

lemma takeWhile_past:
  "c \<notin> set xs \<Longrightarrow> d \<noteq> c \<Longrightarrow> takeWhile (\<lambda>x. x \<noteq> c) (xs @ d # v) = xs @ d # takeWhile (\<lambda>x. x \<noteq> c) v"
  by (induction xs) auto

lemma arg_value_strlchr:
  assumes "arg_at args name q" and "C CHR ''&'' \<notin> set (map ngx_tolower name)" and "length args < 2 ^ 64"
  shows "(let e = (case ngx_strlchr (drop q args) (C CHR ''&'') of None \<Rightarrow> length args | Some j \<Rightarrow> q + j)
     in (q + length name + 1, size_t_of (int e - int (q + length name + 1)))) = arg_value args name q"
proof -
  let ?n = "length name"
  have len: "q + ?n < length args" and m: "map ngx_tolower (take ?n (drop q args)) = map ngx_tolower name"
    and eq: "args ! (q + ?n) = 61" using assms(1) by (auto simp: arg_at_def matches_at_def)
  define v where "v = drop (q + ?n + 1) args"
  define xs where "xs = take ?n (drop q args)"
  have A: "drop q args = xs @ 61 # v"
    using len eq id_take_nth_drop [of ?n "drop q args"] by (simp add: v_def xs_def add.commute)
  have tl38: "ngx_tolower 38 = 38" by (simp add: ngx_tolower_def)
  have "38 \<notin> set xs"
  proof
    assume "38 \<in> set xs"
    then have "38 \<in> set (map ngx_tolower xs)" using tl38 by force
    then show False using assms(2) m by (simp add: xs_def)
  qed
  have "length xs = ?n" using len by (simp add: xs_def)
  have e: "(case ngx_strlchr (drop q args) 38 of None \<Rightarrow> length args | Some j \<Rightarrow> q + j) =
      q + ?n + 1 + length (takeWhile (\<lambda>c. c \<noteq> 38) v)"
  proof (cases "38 \<in> set v")
    case False
    then have tw: "takeWhile (\<lambda>c. c \<noteq> 38) v = v" by (auto simp: takeWhile_eq_all_conv)
    show ?thesis unfolding tw using False \<open>38 \<notin> set xs\<close> len by (simp add: A strlchr_spec v_def)
  qed (use \<open>38 \<notin> set xs\<close> \<open>length xs = ?n\<close> in \<open>simp add: A strlchr_spec takeWhile_past\<close>)
  have "length (takeWhile (\<lambda>c. c \<noteq> 38) v) \<le> length args" using length_takeWhile_le [of "\<lambda>c. c \<noteq> 38" v] by (simp add: v_def)
  then have "size_t_of (int (length (takeWhile (\<lambda>c. c \<noteq> 38) v))) = length (takeWhile (\<lambda>c. c \<noteq> 38) v)"
    using assms(3) size_t_of_nonneg by simp
  then show ?thesis using e by (simp add: arg_value_def v_def Let_def)
qed

lemma arg_loop_spec:
  assumes "0 \<notin> set name" and "name \<noteq> []" and "C CHR ''&'' \<notin> set (map ngx_tolower name)" and "length args < 2 ^ 64"
  shows "case arg_loop args name i of
      None \<Rightarrow> (\<forall>q \<ge> i. \<not> arg_at args name q)
    | Some v \<Rightarrow> \<exists>q \<ge> i. arg_at args name q \<and> v = arg_value args name q \<and> (\<forall>q'. i \<le> q' \<and> q' < q \<longrightarrow> \<not> arg_at args name q')"
  using assms
proof (induction args name i rule: arg_loop.induct)
  case (1 args name i)
  show ?case
  proof (cases "i < length args")
    case False
    then show ?thesis by (subst arg_loop.simps) (auto simp: arg_at_def)
  next
    case True
    note search = arg_search [OF "1.prems"(1,2) True]
    show ?thesis
    proof (cases "ngx_strlcasestrn (drop i (butlast args)) name (length name - 1)")
      case None
      then show ?thesis using True search by (subst arg_loop.simps) simp
    next
      case (Some k)
      let ?q = "i + k" and ?T = "(i + k = 0 \<or> byte_at args (i + k - 1) = C CHR ''&'') \<and>
        byte_at args (i + k + length name) = C CHR ''=''"
      from search Some have s: "?q + length name < length args" "matches_at args name ?q"
        "\<And>q. i \<le> q \<Longrightarrow> q < ?q \<Longrightarrow> \<not> arg_at args name q" by auto
      have at: "arg_at args name ?q \<longleftrightarrow> ?T" using s(1,2) by (auto simp: arg_at_def byte_at_def)
      show ?thesis
      proof (cases "arg_at args name ?q")
        case hit: True
        then have "arg_loop args name i = Some (arg_value args name ?q)"
          using True Some at arg_value_strlchr [OF hit "1.prems"(3,4)]
          by (subst arg_loop.simps) (simp add: Let_def)
        then show ?thesis using hit s(3) by (auto intro!: exI [of _ ?q])
      next
        case miss: False
        then have step: "arg_loop args name i = arg_loop args name (?q + 1)"
          using True Some at by (subst arg_loop.simps) (auto simp: Let_def)
        have none: "\<not> arg_at args name q" if "i \<le> q" "q < ?q + 1" for q
          using s(3) [of q] miss that by (cases "q = ?q") auto
        have IH: "case arg_loop args name (?q + 1) of
            None \<Rightarrow> (\<forall>q \<ge> ?q + 1. \<not> arg_at args name q)
          | Some v \<Rightarrow> \<exists>q \<ge> ?q + 1. arg_at args name q \<and> v = arg_value args name q \<and>
              (\<forall>q'. ?q + 1 \<le> q' \<and> q' < q \<longrightarrow> \<not> arg_at args name q')"
          using "1.IH" [OF True Some refl refl] miss at "1.prems" by blast
        show ?thesis
        proof (cases "arg_loop args name (?q + 1)")
          case None
          then show ?thesis unfolding step using IH none by (auto simp: not_less_eq_eq) (metis Suc_eq_plus1 not_less)
        next
          case (Some v)
          then obtain q where q: "?q + 1 \<le> q" "arg_at args name q" "v = arg_value args name q"
            "\<And>q'. ?q + 1 \<le> q' \<Longrightarrow> q' < q \<Longrightarrow> \<not> arg_at args name q'" using IH by auto
          have "\<not> arg_at args name q'" if "i \<le> q'" "q' < q" for q'
            using none [of q'] q(4) [of q'] that by (cases "q' < ?q + 1") auto
          then show ?thesis unfolding step Some using q(1,2,3) by (auto intro!: exI [of _ q])
        qed
      qed
    qed
  qed
qed

text \<open>
  (C29) \<^verbatim>\<open>ngx_http_arg\<close> returns the value of the first argument of the given name. It succeeds exactly when
  some argument (at the start or behind an ampersand) has the name, ignoring case, directly followed by an
  equals sign; the value returned is that of the first such argument and extends to the next ampersand or
  the end of the query string.
\<close>

theorem http_arg_first:
  assumes "0 \<notin> set name" and "name \<noteq> []" and "C CHR ''&'' \<notin> set (map ngx_tolower name)" and "length args < 2 ^ 64"
  shows "case ngx_http_arg args name of
      None \<Rightarrow> (\<forall>q. \<not> arg_at args name q)
    | Some v \<Rightarrow> \<exists>q. arg_at args name q \<and> v = arg_value args name q \<and> (\<forall>q' < q. \<not> arg_at args name q')"
proof (cases "args = []")
  case True
  then show ?thesis by (simp add: ngx_http_arg_def arg_at_def)
next
  case False
  then show ?thesis using arg_loop_spec [OF assms, of 0] by (auto simp: ngx_http_arg_def split: option.splits)
qed

theorem http_arg_first_witness:
  "ngx_http_arg (bytes ''xa=1&A=23&b'') (bytes ''a'') = Some (7, 2) \<and>
   (\<exists>q. arg_at (bytes ''xa=1&A=23&b'') (bytes ''a'') q \<and> (7, 2) = arg_value (bytes ''xa=1&A=23&b'') (bytes ''a'') q)"
proof -
  have e: "ngx_http_arg (bytes ''xa=1&A=23&b'') (bytes ''a'') = Some (7, 2)"
    by (simp add: ngx_http_arg_def arg_loop.simps ngx_strlcasestrn_def strlcasestrn_loop.simps ngx_tolower_def
        byte_at_def size_t_of_def)
  show ?thesis using http_arg_first [of "bytes ''a''" "bytes ''xa=1&A=23&b''"] e by (auto simp: ngx_tolower_def)
qed

end
