(* ===== verification/Ngx_Sprintf.thy ===== *)
theory Ngx_Sprintf
  imports Complex_Main Ngx_Number_Props
begin

text \<open>
  \<^verbatim>\<open>ngx_vslprintf\<close> of \<^verbatim>\<open>core/ngx_string.c\<close> and the three functions that call it. The format is
  the list of its bytes before the terminator. The variable arguments are a list of tagged
  values: an argument of another kind than the directive asks for, a read behind a string or behind the
  terminator of the format, and a double that does not fit \<^verbatim>\<open>int64_t\<close> are faults, the result \<open>None\<close>.
  A \<^verbatim>\<open>double\<close> is a rational number and the arithmetic on it is exact.

  The output buffer is the list of the bytes written so far; \<open>cap\<close> is the distance of \<^verbatim>\<open>last\<close> from its start.
\<close>

section \<open>Directives\<close>

datatype va =
  VA_int int          \<comment> \<open>a signed integer, \<^verbatim>\<open>off_t\<close>, \<^verbatim>\<open>time_t\<close>, \<^verbatim>\<open>ngx_int_t\<close>, \<^verbatim>\<open>int\<close> and so on, as an \<^verbatim>\<open>int64_t\<close>\<close>
| VA_uint u64         \<comment> \<open>an unsigned integer or a pointer, as a \<^verbatim>\<open>uint64_t\<close>\<close>
| VA_str "u8 list"    \<comment> \<open>an \<^verbatim>\<open>ngx_str_t *\<close>\<close>
| VA_vv "u8 list"     \<comment> \<open>an \<^verbatim>\<open>ngx_variable_value_t *\<close>\<close>
| VA_ptr "u8 list"    \<comment> \<open>a \<^verbatim>\<open>u_char *\<close>: the bytes that can be read from it, without the terminator\<close>
| VA_size nat
| VA_double rat

record fmt_spec =
  fs_zero :: u8
  fs_width :: nat
  fs_sign :: bool
  fs_hex :: nat
  fs_max_width :: bool
  fs_frac_width :: nat
  fs_slen :: "nat option"

abbreviation (input) NGX_INT_T_LEN :: nat where "NGX_INT_T_LEN \<equiv> 20"
abbreviation (input) NGX_ATOMIC_T_LEN :: nat where "NGX_ATOMIC_T_LEN \<equiv> 20"

text \<open>The loop \<^verbatim>\<open>while (*fmt >= '0' && *fmt <= '9') { width = width * 10 + *fmt++ - '0'; }\<close>.\<close>

function fmt_width :: "u8 list \<Rightarrow> nat \<Rightarrow> nat \<Rightarrow> nat \<times> nat" where
  "fmt_width fmt p w =
     (if C CHR ''0'' \<le> byte_at fmt p \<and> byte_at fmt p \<le> C CHR ''9''
      then fmt_width fmt (p + 1) ((w * 10 + unat (byte_at fmt p) - 48) mod 2 ^ 64)
      else (p, w))"
  by pat_completeness auto
termination
  by (relation "measure (\<lambda>(fmt, p, w). length fmt - p)") (auto simp: byte_at_def split: if_splits)

declare fmt_width.simps [simp del]

text \<open>The loop \<^verbatim>\<open>for ( ;; ) { switch (*fmt) ... }\<close> over the flags.\<close>

function fmt_flags :: "u8 list \<Rightarrow> nat \<Rightarrow> fmt_spec \<Rightarrow> va list \<Rightarrow> (nat \<times> fmt_spec \<times> va list) option" where
  "fmt_flags fmt p sp args =
     (let ch = byte_at fmt p in
      if ch = C CHR ''u'' then fmt_flags fmt (p + 1) (sp\<lparr>fs_sign := False\<rparr>) args
      else if ch = C CHR ''m'' then fmt_flags fmt (p + 1) (sp\<lparr>fs_max_width := True\<rparr>) args
      else if ch = C CHR ''X'' then fmt_flags fmt (p + 1) (sp\<lparr>fs_hex := 2, fs_sign := False\<rparr>) args
      else if ch = C CHR ''x'' then fmt_flags fmt (p + 1) (sp\<lparr>fs_hex := 1, fs_sign := False\<rparr>) args
      else if ch = C CHR ''.'' then
        (let (p', w) = fmt_width fmt (p + 1) (fs_frac_width sp) in Some (p', sp\<lparr>fs_frac_width := w\<rparr>, args))
      else if ch = C CHR ''*'' then
        (case args of
           VA_size n # rest \<Rightarrow>
             fmt_flags fmt (p + 1) (sp\<lparr>fs_slen := (if n = 2 ^ 64 - 1 then None else Some n)\<rparr>) rest
         | _ \<Rightarrow> None)
      else Some (p, sp, args))"
  by pat_completeness auto
termination
  by (relation "measure (\<lambda>(fmt, p, sp, args). length fmt - p)") (auto simp: byte_at_def split: if_splits)

declare fmt_flags.simps [simp del]

text \<open>
  The switch on the conversion character. It has written text and \<^verbatim>\<open>continue\<close>s, or it has left a number
  to be printed: \<^verbatim>\<open>sign\<close>, \<^verbatim>\<open>i64\<close>, \<^verbatim>\<open>ui64\<close> and the specification.
\<close>

datatype conv =
  Text "u8 list" "va list"
| Num bool int u64 fmt_spec "va list"
| Fault

definition vs_signed :: "fmt_spec \<Rightarrow> va list \<Rightarrow> conv" where
  "vs_signed sp args = (case args of VA_int i # rest \<Rightarrow> Num True i 0 sp rest | _ \<Rightarrow> Fault)"

definition vs_either :: "fmt_spec \<Rightarrow> va list \<Rightarrow> conv" where
  "vs_either sp args =
     (if fs_sign sp then (case args of VA_int i # rest \<Rightarrow> Num True i 0 sp rest | _ \<Rightarrow> Fault)
      else (case args of VA_uint u # rest \<Rightarrow> Num False 0 u sp rest | _ \<Rightarrow> Fault))"

text \<open>\<^verbatim>\<open>buf = ngx_cpymem(buf, p, ngx_min(last - buf, len))\<close>; a read behind \<open>s\<close> is a fault.\<close>

definition vs_copy :: "nat \<Rightarrow> u8 list \<Rightarrow> u8 list \<Rightarrow> nat \<Rightarrow> va list \<Rightarrow> conv" where
  "vs_copy cap out s len rest =
     (let k = min (cap - length out) len in if length s < k then Fault else Text (out @ take k s) rest)"

definition vs_string :: "nat \<Rightarrow> u8 list \<Rightarrow> fmt_spec \<Rightarrow> va list \<Rightarrow> conv" where
  "vs_string cap out sp args =
     (case args of
        VA_ptr s # rest \<Rightarrow>
          (case fs_slen sp of
             None \<Rightarrow> Text (out @ take (cap - length out) (takeWhile (\<lambda>c. c \<noteq> 0) s)) rest
           | Some slen \<Rightarrow> vs_copy cap out s slen rest)
      | _ \<Rightarrow> Fault)"

text \<open>The directive \<^verbatim>\<open>%f\<close>: \<open>scale\<close> is an \<^verbatim>\<open>ngx_uint_t\<close>.\<close>

definition vs_double :: "nat \<Rightarrow> u8 list \<Rightarrow> fmt_spec \<Rightarrow> va list \<Rightarrow> conv" where
  "vs_double cap out sp args =
     (case args of
        VA_double f0 # rest \<Rightarrow>
          (let out1 = (if f0 < 0 then out @ [C CHR ''-''] else out);
               f = (if f0 < 0 then - f0 else f0);
               i = \<lfloor>f\<rfloor>
           in if 2 ^ 63 \<le> i then Fault
              else
                let scale = (10 :: u64) ^ fs_frac_width sp;
                    frac0 = (if fs_frac_width sp = 0 then 0 else \<lfloor>(f - of_int i) * of_int (uint scale) + 1 / 2\<rfloor>);
                    carry = fs_frac_width sp \<noteq> 0 \<and> frac0 = uint scale;
                    ui64 = (if carry then of_int i + 1 else of_int i) :: u64;
                    frac = (if carry then 0 else of_int frac0) :: u64;
                    out2 = ngx_sprintf_num out1 cap ui64 (fs_zero sp) 0 (fs_width sp)
                in if fs_frac_width sp = 0 then Text out2 rest
                   else
                     let out3 = (if length out2 < cap then out2 @ [C CHR ''.''] else out2)
                     in Text (ngx_sprintf_num out3 cap frac (C CHR ''0'') 0 (fs_frac_width sp)) rest)
      | _ \<Rightarrow> Fault)"

definition vs_directive :: "nat \<Rightarrow> u8 list \<Rightarrow> u8 \<Rightarrow> fmt_spec \<Rightarrow> va list \<Rightarrow> conv" where
  "vs_directive cap out ch sp args =
     (if ch = C CHR ''V'' then
        (case args of VA_str v # rest \<Rightarrow> vs_copy cap out v (length v) rest | _ \<Rightarrow> Fault)
      else if ch = C CHR ''v'' then
        (case args of VA_vv v # rest \<Rightarrow> vs_copy cap out v (length v) rest | _ \<Rightarrow> Fault)
      else if ch = C CHR ''s'' then vs_string cap out sp args
      else if ch = C CHR ''O'' \<or> ch = C CHR ''P'' \<or> ch = C CHR ''T'' \<or> ch = C CHR ''r'' then vs_signed sp args
      else if ch = C CHR ''M'' then
        (case args of
           VA_uint ms # rest \<Rightarrow> if ms = 0xffffffffffffffff then Num True (-1) 0 sp rest else Num False 0 ms sp rest
         | _ \<Rightarrow> Fault)
      else if ch = C CHR ''z'' \<or> ch = C CHR ''d'' \<or> ch = C CHR ''l'' \<or> ch = C CHR ''D'' \<or> ch = C CHR ''L'' then
        vs_either sp args
      else if ch = C CHR ''i'' then
        vs_either (if fs_max_width sp then sp\<lparr>fs_width := NGX_INT_T_LEN\<rparr> else sp) args
      else if ch = C CHR ''A'' then
        vs_either (if fs_max_width sp then sp\<lparr>fs_width := NGX_ATOMIC_T_LEN\<rparr> else sp) args
      else if ch = C CHR ''f'' then vs_double cap out sp args
      else if ch = C CHR ''p'' then
        (case args of
           VA_uint u # rest \<Rightarrow> Num False 0 u (sp\<lparr>fs_hex := 2, fs_sign := False, fs_zero := C CHR ''0'', fs_width := 16\<rparr>) rest
         | _ \<Rightarrow> Fault)
      else if ch = C CHR ''c'' then
        (case args of VA_int d # rest \<Rightarrow> Text (out @ [of_int d]) rest | _ \<Rightarrow> Fault)
      else if ch = C CHR ''Z'' then Text (out @ [0]) args
      else if ch = C CHR ''N'' then Text (out @ [LF]) args
      else if ch = C CHR ''%'' then Text (out @ [C CHR ''%'']) args
      else Text (out @ [ch]) args)"

text \<open>The code after the switch.\<close>

definition vs_number :: "nat \<Rightarrow> u8 list \<Rightarrow> bool \<Rightarrow> int \<Rightarrow> u64 \<Rightarrow> fmt_spec \<Rightarrow> u8 list" where
  "vs_number cap out sign i64 ui64 sp =
     (if sign \<and> i64 < 0
      then ngx_sprintf_num (out @ [C CHR ''-'']) cap (of_int (- i64)) (fs_zero sp) (fs_hex sp) (fs_width sp)
      else ngx_sprintf_num out cap (if sign then of_int i64 else ui64) (fs_zero sp) (fs_hex sp) (fs_width sp))"

section \<open>The formatter\<close>

lemma fmt_width_pos: "p \<le> fst (fmt_width fmt p w)"
proof (induction fmt p w rule: fmt_width.induct)
  case (1 fmt p w)
  then show ?case by (subst fmt_width.simps) auto
qed

lemma fmt_width_le: "fmt_width fmt (Suc p) w = (p', w') \<Longrightarrow> p \<le> p'"
  using fmt_width_pos [of "Suc p" fmt w] by simp

lemma fmt_flags_pos: "fmt_flags fmt p sp args = Some (p', sp', args') \<Longrightarrow> p \<le> p'"
proof (induction fmt p sp args rule: fmt_flags.induct)
  case (1 fmt p sp args)
  have le: "p + 1 \<le> p' \<Longrightarrow> p \<le> p'" by simp
  note IH = "1.IH" [OF refl, THEN le]
  from "1.prems" show ?case
    by (subst (asm) fmt_flags.simps)
      (auto simp: Let_def split: if_splits prod.splits list.splits va.splits dest: fmt_width_le intro: IH)
qed

text \<open>
  One turn of the loop at a percent sign: the position after the directive, the output and the
  remaining arguments.
\<close>

definition vs_percent :: "nat \<Rightarrow> u8 list \<Rightarrow> nat \<Rightarrow> u8 list \<Rightarrow> va list \<Rightarrow> (nat \<times> u8 list \<times> va list) option" where
  "vs_percent cap fmt p out args =
     (let zero = (if byte_at fmt (p + 1) = C CHR ''0'' then C CHR ''0'' else C CHR '' '');
          (p1, width) = fmt_width fmt (p + 1) 0
      in case fmt_flags fmt p1 \<lparr>fs_zero = zero, fs_width = width, fs_sign = True, fs_hex = 0,
             fs_max_width = False, fs_frac_width = 0, fs_slen = None\<rparr> args of
           None \<Rightarrow> None
         | Some (p2, sp, args2) \<Rightarrow>
             (case vs_directive cap out (byte_at fmt p2) sp args2 of
                Text out' rest \<Rightarrow> Some (p2 + 1, out', rest)
              | Num sign i64 ui64 sp' rest \<Rightarrow> Some (p2 + 1, vs_number cap out sign i64 ui64 sp', rest)
              | Fault \<Rightarrow> None))"

lemma vs_percent_pos: "vs_percent cap fmt p out args = Some (p', out', rest) \<Longrightarrow> p < p'"
  using fmt_width_pos [of "p + 1" fmt 0]
  by (auto simp: vs_percent_def Let_def split: prod.splits option.splits conv.splits dest!: fmt_flags_pos)

function vs_loop :: "nat \<Rightarrow> u8 list \<Rightarrow> nat \<Rightarrow> u8 list \<Rightarrow> va list \<Rightarrow> u8 list option" where
  "vs_loop cap fmt p out args =
     (if length fmt < p then None
      else if byte_at fmt p = 0 \<or> cap \<le> length out then Some out
      else if byte_at fmt p = C CHR ''%'' then
        (case vs_percent cap fmt p out args of
           None \<Rightarrow> None
         | Some (p', out', rest) \<Rightarrow> vs_loop cap fmt p' out' rest)
      else vs_loop cap fmt (p + 1) (out @ [byte_at fmt p]) args)"
  by pat_completeness auto
termination
  by (relation "measure (\<lambda>(cap, fmt, p, out, args). Suc (length fmt) - p)") (auto dest!: vs_percent_pos)

declare vs_loop.simps [simp del]

definition ngx_vslprintf :: "nat \<Rightarrow> u8 list \<Rightarrow> va list \<Rightarrow> u8 list option" where
  "ngx_vslprintf cap fmt args = vs_loop cap fmt 0 [] args"

text \<open>\<^verbatim>\<open>ngx_sprintf\<close> passes \<^verbatim>\<open>(void *) -1\<close> as \<^verbatim>\<open>last\<close>; \<open>buf\<close> is the address of the buffer.\<close>

definition ngx_sprintf :: "ptr \<Rightarrow> u8 list \<Rightarrow> va list \<Rightarrow> u8 list option" where
  "ngx_sprintf buf fmt args = ngx_vslprintf (2 ^ 64 - 1 - buf) fmt args"

definition ngx_snprintf :: "nat \<Rightarrow> u8 list \<Rightarrow> va list \<Rightarrow> u8 list option" where
  "ngx_snprintf max_len fmt args = ngx_vslprintf max_len fmt args"

definition ngx_slprintf :: "ptr \<Rightarrow> ptr \<Rightarrow> u8 list \<Rightarrow> va list \<Rightarrow> u8 list option" where
  "ngx_slprintf buf last_ptr fmt args = ngx_vslprintf (last_ptr - buf) fmt args"

section \<open>Nothing is written past the end\<close>

lemma sprintf_num_bounded: "length out \<le> cap \<Longrightarrow> length (ngx_sprintf_num out cap n z h w) \<le> cap"
  using sprintf_num_prefix [of out cap n z h w] by auto

lemma vs_number_bounded: "length out < cap \<Longrightarrow> length (vs_number cap out sign i u sp) \<le> cap"
  by (simp add: vs_number_def sprintf_num_bounded)

lemma vs_copy_bounded: "length out \<le> cap \<Longrightarrow> vs_copy cap out s len rest = Text out' rest' \<Longrightarrow> length out' \<le> cap"
  by (auto simp: vs_copy_def Let_def split: if_splits)

lemma vs_string_bounded: "length out \<le> cap \<Longrightarrow> vs_string cap out sp args = Text out' rest \<Longrightarrow> length out' \<le> cap"
  by (auto simp: vs_string_def vs_copy_bounded split: list.splits va.splits option.splits)

lemma vs_double_bounded: "length out < cap \<Longrightarrow> vs_double cap out sp args = Text out' rest \<Longrightarrow> length out' \<le> cap"
  by (auto simp: vs_double_def Let_def sprintf_num_bounded split: list.splits va.splits if_splits)

lemma vs_directive_bounded:
  assumes "length out < cap" and "vs_directive cap out ch sp args = Text out' rest"
  shows "length out' \<le> cap"
  using assms vs_string_bounded [of out cap sp args out' rest] vs_double_bounded [OF assms(1), of sp args out' rest]
  by (auto simp: vs_directive_def vs_signed_def vs_either_def split: if_splits list.splits va.splits
      intro: vs_copy_bounded [OF less_imp_le])

lemma vs_loop_bounded: "vs_loop cap fmt p out args = Some out' \<Longrightarrow> length out \<le> cap \<Longrightarrow> length out' \<le> cap"
proof (induction cap fmt p out args rule: vs_loop.induct)
  case (1 cap fmt p out args)
  show ?case
  proof (cases "length fmt < p \<or> byte_at fmt p = 0 \<or> cap \<le> length out")
    case True
    then show ?thesis using "1.prems" by (subst (asm) vs_loop.simps) (auto split: if_splits)
  next
    case go: False
    show ?thesis
    proof (cases "byte_at fmt p = C CHR ''%''")
      case True
      then obtain p1 out1 rest where v: "vs_percent cap fmt p out args = Some (p1, out1, rest)"
        "vs_loop cap fmt p1 out1 rest = Some out'"
        using "1.prems"(1) go by (subst (asm) vs_loop.simps) (auto split: option.splits)
      have "length out1 \<le> cap"
        using v(1) go vs_directive_bounded [of out cap] vs_number_bounded [of out cap]
        by (auto simp: vs_percent_def Let_def split: prod.splits option.splits conv.splits)
      then show ?thesis using "1.IH"(1) go True v by simp
    next
      case False
      then show ?thesis using "1.IH"(2) "1.prems" go by (subst (asm) vs_loop.simps) auto
    qed
  qed
qed

text \<open>
  (C30) The formatter never writes past \<^verbatim>\<open>last\<close>: whatever the format and the arguments, the output of
  \<^verbatim>\<open>ngx_vslprintf\<close> is at most \<open>cap\<close> bytes long, for every directive, also those that write a character
  without checking.
\<close>

theorem vslprintf_bounded:
  assumes "ngx_vslprintf cap fmt args = Some out"
  shows "length out \<le> cap"
  using vs_loop_bounded [of cap fmt 0 "[]" args out] assms by (simp add: ngx_vslprintf_def)

theorem vslprintf_bounded_witness:
  "ngx_vslprintf 6 (bytes ''a%V:%uz!'') [VA_str (bytes ''bc''), VA_uint 1234] = Some (bytes ''abc:12'') \<and>
   length (bytes ''abc:12'') \<le> 6"
proof -
  have e: "ngx_vslprintf 6 (bytes ''a%V:%uz!'') [VA_str (bytes ''bc''), VA_uint 1234] = Some (bytes ''abc:12'')"
    by (simp add: ngx_vslprintf_def vs_loop.simps vs_percent_def fmt_width.simps fmt_flags.simps vs_directive_def
        vs_copy_def vs_either_def vs_number_def ngx_sprintf_num_def num_text_def dec_loop.simps byte_at_def)
  from vslprintf_bounded [OF e] e show ?thesis by simp
qed

end
