(* ===== verification/Ngx_Parse.thy ===== *)
theory Ngx_Parse
  imports Ngx_Number_Props
begin

text \<open>
  \<^verbatim>\<open>core/ngx_parse.c\<close>: sizes with a \<^verbatim>\<open>k\<close> or \<^verbatim>\<open>m\<close> suffix, offsets with a \<^verbatim>\<open>k\<close>, \<^verbatim>\<open>m\<close> or \<^verbatim>\<open>g\<close> suffix, and
  time intervals such as \<^verbatim>\<open>1h 30m\<close>. An \<^verbatim>\<open>ngx_str_t\<close> is the list of its bytes.
\<close>

section \<open>Sizes and offsets\<close>

definition ngx_parse_size :: "u8 list \<Rightarrow> int" where
  "ngx_parse_size line =
     (if line = [] then NGX_ERR
      else
        let unit = last line;
            (text, mx, scale) =
              (if unit = C CHR ''K'' \<or> unit = C CHR ''k'' then (butlast line, NGX_MAX_SIZE_T_VALUE div 1024, 1024)
               else if unit = C CHR ''M'' \<or> unit = C CHR ''m''
               then (butlast line, NGX_MAX_SIZE_T_VALUE div (1024 * 1024), 1024 * 1024)
               else (line, NGX_MAX_SIZE_T_VALUE, 1));
            sz = ngx_atosz text
        in if sz = NGX_ERR \<or> mx < sz then NGX_ERR else sz * scale)"

definition ngx_parse_offset :: "u8 list \<Rightarrow> int" where
  "ngx_parse_offset line =
     (if line = [] then NGX_ERR
      else
        let unit = last line;
            (text, mx, scale) =
              (if unit = C CHR ''K'' \<or> unit = C CHR ''k'' then (butlast line, NGX_MAX_OFF_T_VALUE div 1024, 1024)
               else if unit = C CHR ''M'' \<or> unit = C CHR ''m''
               then (butlast line, NGX_MAX_OFF_T_VALUE div (1024 * 1024), 1024 * 1024)
               else if unit = C CHR ''G'' \<or> unit = C CHR ''g''
               then (butlast line, NGX_MAX_OFF_T_VALUE div (1024 * 1024 * 1024), 1024 * 1024 * 1024)
               else (line, NGX_MAX_OFF_T_VALUE, 1));
            offset = ngx_atoof text
        in if offset = NGX_ERR \<or> mx < offset then NGX_ERR else offset * scale)"

section \<open>Time intervals\<close>

text \<open>The enumeration of the steps, from the year to the last one.\<close>

abbreviation (input) st_start :: nat where "st_start \<equiv> 0"
abbreviation (input) st_year :: nat where "st_year \<equiv> 1"
abbreviation (input) st_month :: nat where "st_month \<equiv> 2"
abbreviation (input) st_week :: nat where "st_week \<equiv> 3"
abbreviation (input) st_day :: nat where "st_day \<equiv> 4"
abbreviation (input) st_hour :: nat where "st_hour \<equiv> 5"
abbreviation (input) st_min :: nat where "st_min \<equiv> 6"
abbreviation (input) st_sec :: nat where "st_sec \<equiv> 7"
abbreviation (input) st_msec :: nat where "st_msec \<equiv> 8"
abbreviation (input) st_last :: nat where "st_last \<equiv> 9"

text \<open>
  The switch on the unit character, which has been consumed: the new step, \<^verbatim>\<open>max\<close>, \<^verbatim>\<open>scale\<close> and
  the bytes that follow; \<open>None\<close> is \<^verbatim>\<open>return NGX_ERROR\<close>.
\<close>

definition pt_unit :: "bool \<Rightarrow> nat \<Rightarrow> u8 \<Rightarrow> u8 list \<Rightarrow> (nat \<times> int \<times> int \<times> u8 list) option" where
  "pt_unit is_sec step ch s =
     (if ch = C CHR ''y'' then
        (if st_start < step then None
         else Some (st_year, NGX_MAX_INT_T_VALUE div (60 * 60 * 24 * 365), 60 * 60 * 24 * 365, s))
      else if ch = C CHR ''M'' then
        (if st_month \<le> step then None
         else Some (st_month, NGX_MAX_INT_T_VALUE div (60 * 60 * 24 * 30), 60 * 60 * 24 * 30, s))
      else if ch = C CHR ''w'' then
        (if st_week \<le> step then None
         else Some (st_week, NGX_MAX_INT_T_VALUE div (60 * 60 * 24 * 7), 60 * 60 * 24 * 7, s))
      else if ch = C CHR ''d'' then
        (if st_day \<le> step then None
         else Some (st_day, NGX_MAX_INT_T_VALUE div (60 * 60 * 24), 60 * 60 * 24, s))
      else if ch = C CHR ''h'' then
        (if st_hour \<le> step then None else Some (st_hour, NGX_MAX_INT_T_VALUE div (60 * 60), 60 * 60, s))
      else if ch = C CHR ''m'' then
        (if s \<noteq> [] \<and> hd s = C CHR ''s'' then
           (if is_sec \<or> st_msec \<le> step then None else Some (st_msec, NGX_MAX_INT_T_VALUE, 1, tl s))
         else if st_min \<le> step then None else Some (st_min, NGX_MAX_INT_T_VALUE div 60, 60, s))
      else if ch = C CHR ''s'' then
        (if st_sec \<le> step then None else Some (st_sec, NGX_MAX_INT_T_VALUE, 1, s))
      else if ch = C CHR '' '' then
        (if st_sec \<le> step then None else Some (st_last, NGX_MAX_INT_T_VALUE, 1, s))
      else None)"

text \<open>The code after the switch: the tot, or an overflow.\<close>

definition pt_add :: "bool \<Rightarrow> nat \<Rightarrow> int \<Rightarrow> int \<Rightarrow> int \<Rightarrow> int \<Rightarrow> int option" where
  "pt_add is_sec step max0 scale0 v tot =
     (let scale = (if step \<noteq> st_msec \<and> \<not> is_sec then scale0 * 1000 else scale0);
          mx = (if step \<noteq> st_msec \<and> \<not> is_sec then max0 div 1000 else max0)
      in if mx < v then None
         else if NGX_MAX_INT_T_VALUE - v * scale < tot then None
         else Some (tot + v * scale))"

definition pt_finish :: "bool \<Rightarrow> bool \<Rightarrow> int \<Rightarrow> int \<Rightarrow> int" where
  "pt_finish is_sec valid v tot =
     (if \<not> valid then NGX_ERR
      else if \<not> is_sec \<and> NGX_MAX_INT_T_VALUE div 1000 < v then NGX_ERR
      else let v' = (if \<not> is_sec then v * 1000 else v) in
        if NGX_MAX_INT_T_VALUE - v' < tot then NGX_ERR else tot + v')"

lemma pt_unit_shorter: "pt_unit is_sec step ch s = Some (step', m, k, s') \<Longrightarrow> length s' \<le> length s"
  by (auto simp: pt_unit_def split: if_splits)

function pt_loop :: "bool \<Rightarrow> bool \<Rightarrow> int \<Rightarrow> int \<Rightarrow> nat \<Rightarrow> u8 list \<Rightarrow> int" where
  "pt_loop is_sec valid v tot step [] = pt_finish is_sec valid v tot"
| "pt_loop is_sec valid v tot step (ch # s) =
     (if C CHR ''0'' \<le> ch \<and> ch \<le> C CHR ''9'' then
        (if too_big NGX_MAX_INT_T_VALUE v ch then NGX_ERR
         else pt_loop is_sec True (v * 10 + digit_of ch) tot step s)
      else
        (case pt_unit is_sec step ch s of
           None \<Rightarrow> NGX_ERR
         | Some (step', mx, scale, s') \<Rightarrow>
             (case pt_add is_sec step' mx scale v tot of
                None \<Rightarrow> NGX_ERR
              | Some tot' \<Rightarrow> pt_loop is_sec valid 0 tot' step' (dropWhile (\<lambda>c. c = C CHR '' '') s'))))"
  by pat_completeness auto
termination
  by (relation "measure (\<lambda>(is_sec, valid, v, tot, step, s). length s)")
    (auto dest!: pt_unit_shorter intro: le_less_trans [OF length_dropWhile_le])

definition ngx_parse_time :: "u8 list \<Rightarrow> bool \<Rightarrow> int" where
  "ngx_parse_time line is_sec = pt_loop is_sec False 0 0 (if is_sec then st_start else st_month) line"

section \<open>Properties\<close>

lemma ato_exact:
  "ngx_atosz s = (if s \<noteq> [] \<and> list_all is_digit s \<and> dec_value 0 s \<le> 2 ^ 63 - 1 then dec_value 0 s else NGX_ERR)"
  "ngx_atoof s = (if s \<noteq> [] \<and> list_all is_digit s \<and> dec_value 0 s \<le> 2 ^ 63 - 1 then dec_value 0 s else NGX_ERR)"
  by (simp_all add: ngx_atosz_def ngx_atoof_def ato_loop_exact)

lemma dec_value_nonneg: "list_all is_digit s \<Longrightarrow> 0 \<le> dec_value 0 s"
  using dec_value_mono [of s 0] by simp

lemma scaled_fits: "0 < k \<Longrightarrow> m div k < v \<longleftrightarrow> m < v * k" for k m v :: int
proof -
  assume k: "0 < k"
  have "v \<le> m div k \<longleftrightarrow> v * k \<le> m"
  proof
    assume "v \<le> m div k"
    then have "v * k \<le> m div k * k" using k by simp
    also have "\<dots> \<le> m" using k pos_mod_sign [of k m] div_mult_mod_eq [of m k] by linarith
    finally show "v * k \<le> m" .
  next
    assume "v * k \<le> m"
    then have "v * k div k \<le> m div k" using k by (rule zdiv_mono1)
    then show "v \<le> m div k" using k by simp
  qed
  then show ?thesis by linarith
qed

text \<open>The number part of a size and the scale its suffix stands for.\<close>

definition size_parts :: "(u8 \<times> int) list \<Rightarrow> u8 list \<Rightarrow> u8 list \<times> int" where
  "size_parts units line = (case map_of units (last line) of None \<Rightarrow> (line, 1) | Some k \<Rightarrow> (butlast line, k))"

definition km_units :: "(u8 \<times> int) list" where
  "km_units = [(C CHR ''K'', 2 ^ 10), (C CHR ''k'', 2 ^ 10), (C CHR ''M'', 2 ^ 20), (C CHR ''m'', 2 ^ 20)]"

definition kmg_units :: "(u8 \<times> int) list" where
  "kmg_units = km_units @ [(C CHR ''G'', 2 ^ 30), (C CHR ''g'', 2 ^ 30)]"

definition scaled_value :: "u8 list \<times> int \<Rightarrow> int" where
  "scaled_value q = (case q of (text, k) \<Rightarrow>
     if text \<noteq> [] \<and> list_all is_digit text \<and> dec_value 0 text * k \<le> 2 ^ 63 - 1 then dec_value 0 text * k else -1)"

lemma scaled_value_exact:
  assumes "0 < k"
  shows "(if ngx_atosz s = NGX_ERR \<or> 9223372036854775807 div k < ngx_atosz s then NGX_ERR else ngx_atosz s * k) =
    scaled_value (s, k)"
proof -
  have "v \<le> 2 ^ 63 - 1" if "0 \<le> v" "v * k \<le> 2 ^ 63 - 1" for v
    using that assms mult_left_mono [of 1 k v] by simp
  then show ?thesis
    using dec_value_nonneg [of s] by (auto simp: ato_exact scaled_value_def scaled_fits [OF assms])
qed

lemma atoof_atosz: "ngx_atoof s = ngx_atosz s"
  by (simp add: ngx_atoof_def ngx_atosz_def)

text \<open>
  (C37) Sizes and offsets are exact. \<^verbatim>\<open>ngx_parse_size\<close> returns the number times the power of 1024
  its suffix stands for when the product fits 63 bits, and \<^verbatim>\<open>NGX_ERROR\<close> otherwise (an empty string, a
  lone suffix, a stray character, an overflow of the number or of the product); the same holds of
  \<^verbatim>\<open>ngx_parse_offset\<close>, which also knows gigabytes.
\<close>

theorem ngx_parse_size_exact:
  "ngx_parse_size line = (if line = [] then -1 else scaled_value (size_parts km_units line)) \<and>
   ngx_parse_offset line = (if line = [] then -1 else scaled_value (size_parts kmg_units line))"
  using scaled_value_exact [of 1] scaled_value_exact [of 1024] scaled_value_exact [of 1048576]
    scaled_value_exact [of 1073741824]
  by (simp add: ngx_parse_size_def ngx_parse_offset_def atoof_atosz size_parts_def km_units_def kmg_units_def Let_def)

text \<open>
  The units of a time interval: the step, the characters and the number of seconds, or of
  milliseconds.
\<close>

definition time_units :: "bool \<Rightarrow> (nat \<times> u8 list \<times> int) list" where
  "time_units is_sec =
     (if is_sec then
        [(1, bytes ''y'', 31536000), (2, bytes ''M'', 2592000), (3, bytes ''w'', 604800), (4, bytes ''d'', 86400),
         (5, bytes ''h'', 3600), (6, bytes ''m'', 60), (7, bytes ''s'', 1)]
      else
        [(3, bytes ''w'', 604800000), (4, bytes ''d'', 86400000), (5, bytes ''h'', 3600000), (6, bytes ''m'', 60000),
         (7, bytes ''s'', 1000), (8, bytes ''ms'', 1)])"

text \<open>A component of an interval is a number and a unit; its text has the decimal digits.\<close>

type_synonym time_part = "u64 \<times> nat \<times> u8 list \<times> int"

definition part_step :: "time_part \<Rightarrow> nat" where "part_step q = fst (snd q)"
definition part_value :: "time_part \<Rightarrow> int" where "part_value q = uint (fst q) * snd (snd (snd q))"
definition part_text :: "time_part \<Rightarrow> u8 list" where "part_text q = num_text (fst q) 0 @ fst (snd (snd q))"

definition parts_text :: "time_part list \<Rightarrow> u8 list" where
  "parts_text qs = concat (map part_text qs)"

lemma pt_loop_digits:
  assumes "list_all is_digit ds" and "0 \<le> v" and "dec_value v ds \<le> 9223372036854775807" and "ds \<noteq> []"
  shows "pt_loop is_sec valid v tot step (ds @ s) = pt_loop is_sec True (dec_value v ds) tot step s"
  using assms
proof (induction ds arbitrary: v valid)
  case (Cons ch ds)
  have d: "is_digit ch" "0 \<le> digit_of ch" using Cons.prems digit_of_range by auto
  have "v * 10 + digit_of ch \<le> dec_value (v * 10 + digit_of ch) ds"
    using dec_value_mono [of ds] Cons.prems d by simp
  then have "\<not> too_big 9223372036854775807 v ch" using Cons.prems too_big_iff [OF d(1)] by simp
  then have "pt_loop is_sec valid v tot step ((ch # ds) @ s) = pt_loop is_sec True (v * 10 + digit_of ch) tot step (ds @ s)"
    using d(1) by (simp add: is_digit_def)
  also have "\<dots> = pt_loop is_sec True (dec_value (v * 10 + digit_of ch) ds) tot step s"
    using Cons d by (cases "ds = []") simp_all
  finally show ?case by simp
qed simp

definition starts_digit :: "u8 list \<Rightarrow> bool" where
  "starts_digit rest \<longleftrightarrow> rest = [] \<or> is_digit (hd rest)"

lemma starts_digit_facts:
  assumes "starts_digit rest"
  shows "dropWhile (\<lambda>c. c = 32) rest = rest" and "\<not> (rest \<noteq> [] \<and> hd rest = 115)"
  using assms by (cases rest; auto simp: starts_digit_def is_digit_def)+

lemma pt_add_fits:
  assumes "0 \<le> v" and "0 \<le> tot" and "tot + v * k \<le> 9223372036854775807" and "0 < k"
    and "k = (if st = 8 \<or> is_sec then k0 else k0 * 1000)"
  shows "pt_add is_sec st (9223372036854775807 div k0) k0 v tot = Some (tot + v * k)"
proof -
  have "9223372036854775807 div k = (if st = 8 \<or> is_sec then 9223372036854775807 div k0
      else 9223372036854775807 div k0 div 1000)"
    using assms(4,5) by (auto simp: zdiv_zmult2_eq mult.commute split: if_splits)
  moreover have "\<not> 9223372036854775807 div k < v" using assms by (simp add: scaled_fits)
  ultimately show ?thesis using assms by (auto simp: pt_add_def Let_def)
qed

lemma pt_unit_units:
  assumes "(st, tx, k) \<in> set (time_units is_sec)" and "step < st" and "starts_digit rest"
  shows "\<exists>ch t k0. tx = ch # t \<and> \<not> (48 \<le> ch \<and> ch \<le> 57) \<and> 0 < k \<and> k = (if st = 8 \<or> is_sec then k0 else k0 * 1000) \<and>
    pt_unit is_sec step ch (t @ rest) = Some (st, 9223372036854775807 div k0, k0, rest)"
proof -
  note facts = assms(2) starts_digit_facts(2) [OF assms(3)]
  show ?thesis
  proof (cases is_sec)
    case True
    from assms(1) facts show ?thesis unfolding time_units_def True
      by (simp add: True, elim disjE) (simp_all add: pt_unit_def)
  next
    case False
    from assms(1) facts show ?thesis unfolding time_units_def
      by (simp add: False, elim disjE) (simp_all add: False pt_unit_def)
  qed
qed

lemma pt_loop_unit:
  assumes "(st, tx, k) \<in> set (time_units is_sec)" and "step < st" and "0 \<le> v" and "0 \<le> tot"
    and "tot + v * k \<le> 9223372036854775807" and "starts_digit rest"
  shows "pt_loop is_sec True v tot step (tx @ rest) = pt_loop is_sec True 0 (tot + v * k) st rest"
proof -
  from pt_unit_units [OF assms(1,2,6)] obtain ch t k0 where u: "tx = ch # t" "\<not> (48 \<le> ch \<and> ch \<le> 57)" "0 < k"
    "k = (if st = 8 \<or> is_sec then k0 else k0 * 1000)"
    "pt_unit is_sec step ch (t @ rest) = Some (st, 9223372036854775807 div k0, k0, rest)" by blast
  have "pt_add is_sec st (9223372036854775807 div k0) k0 v tot = Some (tot + v * k)"
    by (rule pt_add_fits [OF assms(3,4,5) u(3,4)])
  then show ?thesis using u(1,2,5) starts_digit_facts(1) [OF assms(6)] by auto
qed

lemma num_text_nonempty [simp]: "num_text n 0 \<noteq> []"
  by (simp add: num_text_dec digits.simps [of _ "unat n"])

lemma starts_digit_parts: "starts_digit (parts_text qs)"
proof (cases qs)
  case (Cons q qs')
  have "parts_text qs \<noteq> [] \<and> hd (parts_text qs) = hd (num_text (fst q) 0)"
    using Cons by (simp add: parts_text_def part_text_def)
  then show ?thesis using dec_num_text [of "fst q"] num_text_nonempty [of "fst q"]
    by (cases "num_text (fst q) 0") (auto simp: starts_digit_def)
qed (simp add: starts_digit_def parts_text_def)

lemma pt_loop_parts:
  assumes "list_all (\<lambda>q. snd q \<in> set (time_units is_sec)) qs" and "sorted_wrt (<) (step # map part_step qs)"
    and "0 \<le> tot" and "tot + sum_list (map part_value qs) \<le> 9223372036854775807"
  shows "pt_loop is_sec True 0 tot step (parts_text qs) = tot + sum_list (map part_value qs)"
  using assms
proof (induction qs arbitrary: tot step)
  case Nil
  then show ?case by (simp add: parts_text_def pt_finish_def)
next
  case (Cons q qs)
  obtain n st tx k where q: "q = (n, st, tx, k)" by (cases q)
  have u: "(st, tx, k) \<in> set (time_units is_sec)" using Cons.prems(1) q by simp
  have k: "1 \<le> k" using u by (auto simp: time_units_def split: if_splits)
  have pos: "0 \<le> part_value q'" if "q' \<in> set (q # qs)" for q'
    using that Cons.prems(1) by (auto simp: part_value_def list_all_iff time_units_def split: if_splits)
  then have "0 \<le> sum_list (map part_value qs)" by (intro sum_list_nonneg) auto
  moreover have pv: "part_value q = uint n * k" by (simp add: q part_value_def)
  ultimately have fit: "tot + uint n * k \<le> 9223372036854775807" using Cons.prems(4) by simp
  have n: "uint n \<le> uint n * k" using mult_left_mono [OF k, of "uint n"] by simp
  have t: "parts_text (q # qs) = num_text n 0 @ tx @ parts_text qs" by (simp add: parts_text_def part_text_def q)
  have "pt_loop is_sec True 0 tot step (parts_text (q # qs)) = pt_loop is_sec True (uint n) tot step (tx @ parts_text qs)"
    unfolding t using pt_loop_digits [of "num_text n 0" 0 is_sec True tot step "tx @ parts_text qs"] dec_num_text [of n]
      fit n Cons.prems(3) by simp
  also have "\<dots> = pt_loop is_sec True 0 (tot + uint n * k) st (parts_text qs)"
    using Cons.prems(2,3) u fit starts_digit_parts by (intro pt_loop_unit) (auto simp: q part_step_def)
  also have "\<dots> = tot + uint n * k + sum_list (map part_value qs)"
    using Cons.prems k pv by (intro Cons.IH) (auto simp: q part_step_def)
  finally show ?case by (simp add: pv)
qed

text \<open>
  A time interval written as numbers with units, the units in descending order, is parsed
  to the sum of its components whenever that sum fits 63 bits: in seconds with the units from years to
  seconds, in milliseconds with the units from weeks to milliseconds. No intermediate
  product or sum overflows.
\<close>

theorem ngx_parse_time_sum:
  assumes "list_all (\<lambda>q. snd q \<in> set (time_units is_sec)) qs" and "qs \<noteq> []"
    and "sorted_wrt (<) (map part_step qs)" and "sum_list (map part_value qs) \<le> 2 ^ 63 - 1"
  shows "ngx_parse_time (parts_text qs) is_sec = sum_list (map part_value qs)"
proof -
  let ?st = "if is_sec then st_start else st_month"
  have "?st < part_step q" if "q \<in> set qs" for q
    using that assms(1) by (auto simp: list_all_iff time_units_def part_step_def split: if_splits)
  then have s: "sorted_wrt (<) (?st # map part_step qs)" using assms(3) by simp
  obtain n u qs' where qs: "qs = (n, u) # qs'" using assms(2) by (cases qs) auto
  obtain c ds where c: "num_text n 0 = c # ds"
    using num_text_nonempty [of n] by (cases "num_text n 0") simp_all
  have "ngx_parse_time (parts_text qs) is_sec = pt_loop is_sec True 0 0 ?st (parts_text qs)"
    using dec_num_text [of n] unfolding ngx_parse_time_def
    by (simp add: qs parts_text_def part_text_def c is_digit_def)
  also have "\<dots> = 0 + sum_list (map part_value qs)" by (intro pt_loop_parts assms(1) s) (use assms(4) in simp_all)
  finally show ?thesis by simp
qed

theorem ngx_parse_time_sum_witness:
  "ngx_parse_time (parts_text [(1, 5, bytes ''h'', 3600), (30, 6, bytes ''m'', 60)]) True = 5400"
  using ngx_parse_time_sum [of True "[(1, 5, bytes ''h'', 3600), (30, 6, bytes ''m'', 60)]"]
  by (simp add: time_units_def part_step_def part_value_def)

end
