(* ===== verification/Ngx_Base64.thy ===== *)
theory Ngx_Base64
  imports Byte_Parser
begin

text \<open>
  Base64 of \<^verbatim>\<open>core/ngx_string.c\<close>: one encoder and one decoder, each run with the tables of the
  standard and of the URL alphabet. The locale \<open>base64_tables\<close> states what the two pairs of tables
  have in common; the round trip is proved once in it.
\<close>

section \<open>The model\<close>

abbreviation (input) std_alphabet :: string where
  "std_alphabet \<equiv> ''ABCDEFGHIJKLMNOPQRSTUVWXYZabcdefghijklmnopqrstuvwxyz0123456789+/''"

abbreviation (input) url_alphabet :: string where
  "url_alphabet \<equiv> ''ABCDEFGHIJKLMNOPQRSTUVWXYZabcdefghijklmnopqrstuvwxyz0123456789-_''"

definition basis64 :: "u8 list" where "basis64 = bytes std_alphabet"
definition basis64url :: "u8 list" where "basis64url = bytes url_alphabet"

text \<open>The list of bytes written at \<^verbatim>\<open>d\<close>.\<close>

fun ngx_encode_base64_internal :: "u8 list \<Rightarrow> bool \<Rightarrow> u8 list \<Rightarrow> u8 list" where
  "ngx_encode_base64_internal basis padding (a # b # c # s) =
     basis ! unat (drop_bit 2 a AND 0x3f) #
     basis ! unat (push_bit 4 (a AND 3) OR drop_bit 4 b) #
     basis ! unat (push_bit 2 (b AND 0x0f) OR drop_bit 6 c) #
     basis ! unat (c AND 0x3f) #
     ngx_encode_base64_internal basis padding s"
| "ngx_encode_base64_internal basis padding [] = []"
| "ngx_encode_base64_internal basis padding [a] =
     [basis ! unat (drop_bit 2 a AND 0x3f), basis ! unat (push_bit 4 (a AND 3))] @
     (if padding then [C CHR ''='', C CHR ''=''] else [])"
| "ngx_encode_base64_internal basis padding [a, b] =
     [basis ! unat (drop_bit 2 a AND 0x3f), basis ! unat (push_bit 4 (a AND 3) OR drop_bit 4 b),
      basis ! unat (push_bit 2 (b AND 0x0f))] @ (if padding then [C CHR ''=''] else [])"

definition ngx_encode_base64 :: "u8 list \<Rightarrow> u8 list" where
  "ngx_encode_base64 src = ngx_encode_base64_internal basis64 True src"

definition ngx_encode_base64url :: "u8 list \<Rightarrow> u8 list" where
  "ngx_encode_base64url src = ngx_encode_base64_internal basis64url False src"

text \<open>The two decoding tables: 77 marks a byte that is not in the alphabet.\<close>

definition basis64_dec :: "u8 list" where
  "basis64_dec =
    [77, 77, 77, 77, 77, 77, 77, 77, 77, 77, 77, 77, 77, 77, 77, 77,
     77, 77, 77, 77, 77, 77, 77, 77, 77, 77, 77, 77, 77, 77, 77, 77,
     77, 77, 77, 77, 77, 77, 77, 77, 77, 77, 77, 62, 77, 77, 77, 63,
     52, 53, 54, 55, 56, 57, 58, 59, 60, 61, 77, 77, 77, 77, 77, 77,
     77,  0,  1,  2,  3,  4,  5,  6,  7,  8,  9, 10, 11, 12, 13, 14,
     15, 16, 17, 18, 19, 20, 21, 22, 23, 24, 25, 77, 77, 77, 77, 77,
     77, 26, 27, 28, 29, 30, 31, 32, 33, 34, 35, 36, 37, 38, 39, 40,
     41, 42, 43, 44, 45, 46, 47, 48, 49, 50, 51, 77, 77, 77, 77, 77,
     77, 77, 77, 77, 77, 77, 77, 77, 77, 77, 77, 77, 77, 77, 77, 77,
     77, 77, 77, 77, 77, 77, 77, 77, 77, 77, 77, 77, 77, 77, 77, 77,
     77, 77, 77, 77, 77, 77, 77, 77, 77, 77, 77, 77, 77, 77, 77, 77,
     77, 77, 77, 77, 77, 77, 77, 77, 77, 77, 77, 77, 77, 77, 77, 77,
     77, 77, 77, 77, 77, 77, 77, 77, 77, 77, 77, 77, 77, 77, 77, 77,
     77, 77, 77, 77, 77, 77, 77, 77, 77, 77, 77, 77, 77, 77, 77, 77,
     77, 77, 77, 77, 77, 77, 77, 77, 77, 77, 77, 77, 77, 77, 77, 77,
     77, 77, 77, 77, 77, 77, 77, 77, 77, 77, 77, 77, 77, 77, 77, 77]"

definition basis64url_dec :: "u8 list" where
  "basis64url_dec =
    [77, 77, 77, 77, 77, 77, 77, 77, 77, 77, 77, 77, 77, 77, 77, 77,
     77, 77, 77, 77, 77, 77, 77, 77, 77, 77, 77, 77, 77, 77, 77, 77,
     77, 77, 77, 77, 77, 77, 77, 77, 77, 77, 77, 77, 77, 62, 77, 77,
     52, 53, 54, 55, 56, 57, 58, 59, 60, 61, 77, 77, 77, 77, 77, 77,
     77,  0,  1,  2,  3,  4,  5,  6,  7,  8,  9, 10, 11, 12, 13, 14,
     15, 16, 17, 18, 19, 20, 21, 22, 23, 24, 25, 77, 77, 77, 77, 63,
     77, 26, 27, 28, 29, 30, 31, 32, 33, 34, 35, 36, 37, 38, 39, 40,
     41, 42, 43, 44, 45, 46, 47, 48, 49, 50, 51, 77, 77, 77, 77, 77,
     77, 77, 77, 77, 77, 77, 77, 77, 77, 77, 77, 77, 77, 77, 77, 77,
     77, 77, 77, 77, 77, 77, 77, 77, 77, 77, 77, 77, 77, 77, 77, 77,
     77, 77, 77, 77, 77, 77, 77, 77, 77, 77, 77, 77, 77, 77, 77, 77,
     77, 77, 77, 77, 77, 77, 77, 77, 77, 77, 77, 77, 77, 77, 77, 77,
     77, 77, 77, 77, 77, 77, 77, 77, 77, 77, 77, 77, 77, 77, 77, 77,
     77, 77, 77, 77, 77, 77, 77, 77, 77, 77, 77, 77, 77, 77, 77, 77,
     77, 77, 77, 77, 77, 77, 77, 77, 77, 77, 77, 77, 77, 77, 77, 77,
     77, 77, 77, 77, 77, 77, 77, 77, 77, 77, 77, 77, 77, 77, 77, 77]"

text \<open>The first loop: the number of characters before the padding; \<open>None\<close> is \<^verbatim>\<open>NGX_ERROR\<close>.\<close>

fun b64_scan :: "u8 list \<Rightarrow> u8 list \<Rightarrow> nat \<Rightarrow> nat option" where
  "b64_scan basis [] len = Some len"
| "b64_scan basis (c # s) len =
     (if c = C CHR ''='' then Some len
      else if basis ! unat c = 77 then None
      else b64_scan basis s (len + 1))"

text \<open>The second loop and the two conditionals after it, on the characters before the padding.\<close>

fun b64_decode :: "u8 list \<Rightarrow> u8 list \<Rightarrow> u8 list" where
  "b64_decode basis (a # b # c # d # s) =
     (push_bit 2 (basis ! unat a) OR drop_bit 4 (basis ! unat b)) #
     (push_bit 4 (basis ! unat b) OR drop_bit 2 (basis ! unat c)) #
     (push_bit 6 (basis ! unat c) OR basis ! unat d) #
     b64_decode basis s"
| "b64_decode basis [a, b, c] =
     [push_bit 2 (basis ! unat a) OR drop_bit 4 (basis ! unat b),
      push_bit 4 (basis ! unat b) OR drop_bit 2 (basis ! unat c)]"
| "b64_decode basis [a, b] = [push_bit 2 (basis ! unat a) OR drop_bit 4 (basis ! unat b)]"
| "b64_decode basis _ = []"

definition ngx_decode_base64_internal :: "u8 list \<Rightarrow> u8 list \<Rightarrow> u8 list option" where
  "ngx_decode_base64_internal basis src =
     (case b64_scan basis src 0 of
        None \<Rightarrow> None
      | Some len \<Rightarrow> if len mod 4 = 1 then None else Some (b64_decode basis (take len src)))"

definition ngx_decode_base64 :: "u8 list \<Rightarrow> u8 list option" where
  "ngx_decode_base64 src = ngx_decode_base64_internal basis64_dec src"

definition ngx_decode_base64url :: "u8 list \<Rightarrow> u8 list option" where
  "ngx_decode_base64url src = ngx_decode_base64_internal basis64url_dec src"

definition ngx_base64_encoded_length :: "nat \<Rightarrow> nat" where
  "ngx_base64_encoded_length len = (len + 2) div 3 * 4"

definition ngx_base64_decoded_length :: "nat \<Rightarrow> nat" where
  "ngx_base64_decoded_length len = (len + 3) div 4 * 3"

section \<open>Sextets\<close>

lemma u8_eqI:
  fixes x y :: u8
  assumes "bit x 0 = bit y 0" "bit x 1 = bit y 1" "bit x 2 = bit y 2" "bit x 3 = bit y 3"
    "bit x 4 = bit y 4" "bit x 5 = bit y 5" "bit x 6 = bit y 6" "bit x 7 = bit y 7"
  shows "x = y"
proof (rule bit_word_eqI)
  fix n assume "n < LENGTH(8)"
  then have "n = 0 \<or> n = 1 \<or> n = 2 \<or> n = 3 \<or> n = 4 \<or> n = 5 \<or> n = 6 \<or> n = 7" by auto
  then show "bit x n = bit y n" using assms by auto
qed

lemma sextet_iff: "x < 64 \<longleftrightarrow> \<not> bit x 6 \<and> \<not> bit x 7" for x :: u8
proof -
  have "all_bytes (\<lambda>x. x < 64 \<longleftrightarrow> \<not> bit x 6 \<and> \<not> bit x 7)" by (simp add: all_bytes_def)
  then show ?thesis by (rule all_bytesD)
qed

lemma bit_u8_high: "8 \<le> n \<Longrightarrow> \<not> bit x n" for x :: u8
  using bit_imp_le_length [of x n] by auto

text \<open>The four sextets of three bytes; a missing byte counts as zero.\<close>

definition sx1 :: "u8 \<Rightarrow> u8" where "sx1 a = drop_bit 2 a AND 0x3f"
definition sx2 :: "u8 \<Rightarrow> u8 \<Rightarrow> u8" where "sx2 a b = push_bit 4 (a AND 3) OR drop_bit 4 b"
definition sx3 :: "u8 \<Rightarrow> u8 \<Rightarrow> u8" where "sx3 b c = push_bit 2 (b AND 0x0f) OR drop_bit 6 c"
definition sx4 :: "u8 \<Rightarrow> u8" where "sx4 c = c AND 0x3f"

lemmas sx_defs = sx1_def sx2_def sx3_def sx4_def

lemma sextet_less [simp]: "sx1 a < 64" "sx2 a b < 64" "sx3 b c < 64" "sx4 c < 64"
  by (simp_all add: sx_defs sextet_iff bit_simps bit_u8_high)

lemma sextets_join [simp]:
  "push_bit 2 (sx1 a) OR drop_bit 4 (sx2 a b) = a"
  "push_bit 4 (sx2 a b) OR drop_bit 2 (sx3 b c) = b"
  "push_bit 6 (sx3 b c) OR sx4 c = c"
  by (rule u8_eqI; simp add: sx_defs bit_simps; fail)+

fun sextets :: "u8 list \<Rightarrow> u8 list" where
  "sextets (a # b # c # s) = [sx1 a, sx2 a b, sx3 b c, sx4 c] @ sextets s"
| "sextets [] = []"
| "sextets [a] = [sx1 a, sx2 a 0]"
| "sextets [a, b] = [sx1 a, sx2 a b, sx3 b 0]"

lemma sextets_less: "list_all (\<lambda>i. i < 64) (sextets src)"
  by (induction src rule: sextets.induct) simp_all

lemma length_sextets: "length (sextets src) mod 4 \<noteq> 1"
  by (induction src rule: sextets.induct) simp_all

text \<open>The letters before the padding are those of the sextets.\<close>

fun pad :: "bool \<Rightarrow> u8 list \<Rightarrow> u8 list" where
  "pad padding (a # b # c # s) = pad padding s"
| "pad padding [] = []"
| "pad padding [a] = (if padding then [61, 61] else [])"
| "pad padding [a, b] = (if padding then [61] else [])"

lemma encode_sextets:
  "ngx_encode_base64_internal enc padding src = map (\<lambda>i. enc ! unat i) (sextets src) @ pad padding src"
  by (induction src rule: sextets.induct) (simp_all add: sx_defs)

lemma scan_pad: "b64_scan dec (pad padding src) len = Some len"
  by (induction padding src rule: pad.induct) simp_all

section \<open>Round trip\<close>

text \<open>What the decoder relies on: its table inverts the encoder's and no letter is the padding.\<close>

locale base64_tables =
  fixes enc dec :: "u8 list"
  assumes dec_enc: "(i :: u8) < 64 \<Longrightarrow> dec ! unat (enc ! unat i) = i"
    and enc_not_pad: "(i :: u8) < 64 \<Longrightarrow> enc ! unat i \<noteq> 61"
begin

lemma enc_valid: "(i :: u8) < 64 \<Longrightarrow> dec ! unat (enc ! unat i) \<noteq> 77"
  using dec_enc [of i] by auto

lemma scan_letters:
  "list_all (\<lambda>i. i < 64) (xs :: u8 list) \<Longrightarrow>
   b64_scan dec (map (\<lambda>i. enc ! unat i) xs @ s) len = b64_scan dec s (len + length xs)"
  by (induction xs arbitrary: len) (simp_all add: enc_valid enc_not_pad)

lemma decode_sextets: "b64_decode dec (map (\<lambda>i. enc ! unat i) (sextets src)) = src"
  by (induction src rule: sextets.induct) (simp_all add: dec_enc)

lemma decode_encode:
  "ngx_decode_base64_internal dec (ngx_encode_base64_internal enc padding src) = Some src"
  using scan_letters [OF sextets_less, of src "pad padding src" 0] scan_pad [of dec padding src] length_sextets [of src]
  by (simp add: ngx_decode_base64_internal_def encode_sextets decode_sextets)

end

text \<open>Sizes: the buffers callers allocate with the two macros are large enough.\<close>

lemma encode_length:
  "length (ngx_encode_base64_internal basis padding src) \<le> ngx_base64_encoded_length (length src)"
proof (induction basis padding src rule: ngx_encode_base64_internal.induct)
  case (1 basis padding a b c s)
  have "(length s + 3 + 2) div 3 = Suc ((length s + 2) div 3)" by presburger
  with 1 show ?case by (simp add: ngx_base64_encoded_length_def)
qed (simp_all add: ngx_base64_encoded_length_def)

lemma decode_length: "length (b64_decode basis s) \<le> ngx_base64_decoded_length (length s)"
proof (induction basis s rule: b64_decode.induct)
  case (1 basis a b c d s)
  have "(length s + 4 + 3) div 4 = Suc ((length s + 3) div 4)" by presburger
  with 1 show ?case by (simp add: ngx_base64_decoded_length_def)
qed (simp_all add: ngx_base64_decoded_length_def)

text \<open>The two pairs of tables.\<close>

lemma sextet_all:
  assumes "list_all P (0 # 1 # map word_of_nat [2..<64])" and "i < (64 :: u8)"
  shows "P i"
proof -
  have "all_bytes (\<lambda>i. i < 64 \<longrightarrow> P i)"
    using assms(1) by (simp add: all_bytes_def)
  then show ?thesis using assms(2) all_bytesD by blast
qed

definition inverse_tables :: "u8 list \<Rightarrow> u8 list \<Rightarrow> u8 \<Rightarrow> bool" where
  "inverse_tables enc dec i \<longleftrightarrow> dec ! unat (enc ! unat i) = i \<and> enc ! unat i \<noteq> 61"

interpretation std: base64_tables basis64 basis64_dec
proof
  fix i :: u8 assume i: "i < 64"
  have "list_all (inverse_tables basis64 basis64_dec) (0 # 1 # map word_of_nat [2..<64])"
    by (simp add: inverse_tables_def basis64_def basis64_dec_def)
  from sextet_all [OF this i] show "basis64_dec ! unat (basis64 ! unat i) = i" "basis64 ! unat i \<noteq> 61"
    by (simp_all add: inverse_tables_def)
qed

interpretation url: base64_tables basis64url basis64url_dec
proof
  fix i :: u8 assume i: "i < 64"
  have "list_all (inverse_tables basis64url basis64url_dec) (0 # 1 # map word_of_nat [2..<64])"
    by (simp add: inverse_tables_def basis64url_def basis64url_dec_def)
  from sextet_all [OF this i] show "basis64url_dec ! unat (basis64url ! unat i) = i" "basis64url ! unat i \<noteq> 61"
    by (simp_all add: inverse_tables_def)
qed

lemma base64_decode_bounded:
  assumes "ngx_decode_base64_internal basis src = Some dst"
  shows "length dst \<le> ngx_base64_decoded_length (length src)"
proof -
  obtain len where l: "b64_scan basis src 0 = Some len" "dst = b64_decode basis (take len src)"
    using assms by (auto simp: ngx_decode_base64_internal_def split: option.splits if_splits)
  have "length dst \<le> ngx_base64_decoded_length (length (take len src))" unfolding l(2) by (rule decode_length)
  also have "\<dots> \<le> ngx_base64_decoded_length (length src)"
    unfolding ngx_base64_decoded_length_def by (intro mult_right_mono div_le_mono) auto
  finally show ?thesis .
qed

text \<open>
  (C31) Base64 round trip and sizes: for every byte string, decoding what was encoded gives the
  string back, in the standard alphabet with padding and in the URL alphabet without. The output of
  either encoder fits the \<^verbatim>\<open>ngx_base64_encoded_length\<close> bytes its callers allocate, and whatever the
  input, the output of either decoder fits the \<^verbatim>\<open>ngx_base64_decoded_length\<close> bytes.
\<close>

theorem base64_roundtrip:
  "ngx_decode_base64 (ngx_encode_base64 src) = Some src \<and>
   ngx_decode_base64url (ngx_encode_base64url src) = Some src \<and>
   length (ngx_encode_base64 src) \<le> ngx_base64_encoded_length (length src) \<and>
   length (ngx_encode_base64url src) \<le> ngx_base64_encoded_length (length src) \<and>
   (case ngx_decode_base64 src of None \<Rightarrow> True | Some dst \<Rightarrow> length dst \<le> ngx_base64_decoded_length (length src)) \<and>
   (case ngx_decode_base64url src of None \<Rightarrow> True | Some dst \<Rightarrow> length dst \<le> ngx_base64_decoded_length (length src))"
  by (simp add: ngx_decode_base64_def ngx_encode_base64_def ngx_decode_base64url_def ngx_encode_base64url_def
      std.decode_encode url.decode_encode encode_length base64_decode_bounded split: option.split)

end
