(* ===== verification/Ngx_Utf8.thy ===== *)
theory Ngx_Utf8
  imports Byte_Parser
begin

text \<open>
  UTF-8 of \<^verbatim>\<open>core/ngx_string.c\<close>. A pointer into a byte string is the list of the bytes from it on;
  reading behind the end of the list gives the terminating zero. Pointers that are advanced are
  returned as the number of bytes consumed.
\<close>

section \<open>The model\<close>

text \<open>The loop over the continuation bytes: the result and the bytes consumed.\<close>

fun utf8_loop :: "u32 \<Rightarrow> u32 \<Rightarrow> u8 list \<Rightarrow> nat \<Rightarrow> nat \<Rightarrow> u32 \<times> nat" where
  "utf8_loop u valid p k 0 = (if valid < u then u else 0xffffffff, k)"
| "utf8_loop u valid p k (Suc len) =
     (let i = ucast (byte_at p k) :: u32 in
      if i < 0x80 then (0xffffffff, k + 1)
      else utf8_loop (push_bit 6 u OR (i AND 0x3f)) valid p (k + 1) len)"

lemma utf8_loop_num [simp]:
  "utf8_loop u valid p k (numeral m) =
     (let i = ucast (byte_at p k) :: u32 in
      if i < 0x80 then (0xffffffff, k + 1)
      else utf8_loop (push_bit 6 u OR (i AND 0x3f)) valid p (k + 1) (pred_numeral m))"
  "utf8_loop u valid p k 1 =
     (let i = ucast (byte_at p k) :: u32 in
      if i < 0x80 then (0xffffffff, k + 1)
      else utf8_loop (push_bit 6 u OR (i AND 0x3f)) valid p (k + 1) 0)"
  by (simp_all add: numeral_eq_Suc)

definition ngx_utf8_decode :: "u8 list \<Rightarrow> nat \<Rightarrow> u32 \<times> nat" where
  "ngx_utf8_decode p n =
     (let u = ucast (byte_at p 0) :: u32 in
      if 0xf0 \<le> u then
        (if size_t_of (int n - 1) < 3 then (0xfffffffe, 0) else utf8_loop (u AND 0x07) 0xffff p 1 3)
      else if 0xe0 \<le> u then
        (if size_t_of (int n - 1) < 2 then (0xfffffffe, 0) else utf8_loop (u AND 0x0f) 0x7ff p 1 2)
      else if 0xc2 \<le> u then
        (if size_t_of (int n - 1) < 1 then (0xfffffffe, 0) else utf8_loop (u AND 0x1f) 0x7f p 1 1)
      else (0xffffffff, 1))"

text \<open>
  \<^verbatim>\<open>ngx_utf8_length\<close>: \<open>k\<close> is the offset of \<^verbatim>\<open>p\<close>, \<open>n\<close> that of \<^verbatim>\<open>last\<close>. A decoding that consumes nothing
  returns an invalid character, so the loop ends.
\<close>

lemma utf8_loop_pos: "k \<le> snd (utf8_loop u valid p k len)"
proof (induction len arbitrary: u k)
  case (Suc len)
  then show ?case using Suc.IH [of "k + 1"] by (auto simp: Let_def intro: Suc_leD)
qed simp

lemma utf8_decode_pos: "fst (ngx_utf8_decode p n) \<le> 0x10ffff \<Longrightarrow> 0 < snd (ngx_utf8_decode p n)"
  using utf8_loop_pos [of 1] by (auto simp: ngx_utf8_decode_def Let_def Suc_le_eq split: if_splits)

function utf8_length_loop :: "u8 list \<Rightarrow> nat \<Rightarrow> nat \<Rightarrow> nat \<Rightarrow> nat" where
  "utf8_length_loop s n k len =
     (if k < n then
        (if byte_at s k < 0x80 then utf8_length_loop s n (k + 1) (len + 1)
         else let (u, c) = ngx_utf8_decode (drop k s) n in
           if 0x10ffff < u then n else utf8_length_loop s n (k + c) (len + 1))
      else len)"
  by pat_completeness auto
termination
proof (relation "measure (\<lambda>(s, n, k, len). n - k)")
  fix s n k len x u c
  assume "k < n" and "x = ngx_utf8_decode (drop k s) n" and "(u, c) = x" and "\<not> 0x10ffff < u"
  then have "0 < c" using utf8_decode_pos [of "drop k s" n] by (metis fst_conv snd_conv not_less)
  with \<open>k < n\<close> show "((s, n, k + c, len + 1), (s, n, k, len)) \<in> measure (\<lambda>(s, n, k, len). n - k)" by simp
qed auto

declare utf8_length_loop.simps [simp del]

definition ngx_utf8_length :: "u8 list \<Rightarrow> nat \<Rightarrow> nat" where
  "ngx_utf8_length p n = utf8_length_loop p n 0 0"

text \<open>
  \<^verbatim>\<open>ngx_utf8_cpystrn\<close>: \<open>n\<close> is the value after \<^verbatim>\<open>--n\<close>, \<open>len\<close> the remaining length as a \<^verbatim>\<open>size_t\<close>. The result is
  what was copied before the terminating zero.
\<close>

fun utf8_copy_loop :: "nat \<Rightarrow> u8 list \<Rightarrow> nat \<Rightarrow> u8 list" where
  "utf8_copy_loop 0 src len = []"
| "utf8_copy_loop (Suc n) src len =
     (let c = byte_at src 0 in
      if c < 0x80 then
        (if c \<noteq> 0 then c # utf8_copy_loop n (drop 1 src) (size_t_of (int len - 1)) else [])
      else
        let (u, k) = ngx_utf8_decode src len in
        if 0x10ffff < u then []
        else map (byte_at src) [0..<k] @ utf8_copy_loop n (drop k src) (size_t_of (int len - int k)))"

definition ngx_utf8_cpystrn :: "u8 list \<Rightarrow> nat \<Rightarrow> nat \<Rightarrow> u8 list option" where
  "ngx_utf8_cpystrn src n len = (if n = 0 then None else Some (utf8_copy_loop (n - 1) src len @ [0]))"

section \<open>Encoding\<close>

text \<open>The UTF-8 encoding of a code point, as RFC 3629 defines it.\<close>

definition utf8_encode :: "u32 \<Rightarrow> u8 list" where
  "utf8_encode c =
     (if c < 0x80 then [ucast c]
      else if c < 0x800 then [ucast (0xc0 OR drop_bit 6 c), ucast (0x80 OR (c AND 0x3f))]
      else if c < 0x10000
      then [ucast (0xe0 OR drop_bit 12 c), ucast (0x80 OR (drop_bit 6 c AND 0x3f)), ucast (0x80 OR (c AND 0x3f))]
      else [ucast (0xf0 OR drop_bit 18 c), ucast (0x80 OR (drop_bit 12 c AND 0x3f)),
            ucast (0x80 OR (drop_bit 6 c AND 0x3f)), ucast (0x80 OR (c AND 0x3f))])"

text \<open>Lead bytes and continuation bytes, decoded.\<close>

lemma and_3f: "(x :: u32) AND 0x3f = take_bit 6 x"
  by (simp only: take_bit_eq_mask) (simp add: mask_eq_exp_minus_1)

lemma and_3f_less: "(x :: u32) AND 0x3f < 64"
  using unsigned_less [of "take_bit 6 x", where 'a = nat]
  by (simp add: and_3f word_less_nat_alt unsigned_take_bit_eq take_bit_nat_less_exp [of 6, simplified])

definition cont_ok :: "u32 \<Rightarrow> bool" where
  "cont_ok d \<longleftrightarrow> ucast (ucast (0x80 OR d) :: u8) = 0x80 OR d \<and> \<not> 0x80 OR d < 0x80 \<and> (0x80 OR d) AND 0x3f = d"

lemma cont_byte [simp]:
  fixes x :: u32
  shows "ucast (ucast (0x80 OR (x AND 0x3f)) :: u8) = 0x80 OR (x AND 0x3f)"
    and "\<not> 0x80 OR (x AND 0x3f) < 0x80" and "(0x80 OR (x AND 0x3f)) AND 0x3f = x AND 0x3f"
proof -
  have "list_all cont_ok (0 # 1 # map word_of_nat [2..<64])" by (simp add: cont_ok_def)
  moreover have "unat (x AND 0x3f) < 64" using and_3f_less [of x] by (simp only: word_less_nat_alt) simp
  ultimately have "cont_ok (x AND 0x3f)" by (rule small_words)
  then show "ucast (ucast (0x80 OR (x AND 0x3f)) :: u8) = 0x80 OR (x AND 0x3f)"
    and "\<not> 0x80 OR (x AND 0x3f) < 0x80" and "(0x80 OR (x AND 0x3f)) AND 0x3f = x AND 0x3f"
    by (simp_all add: cont_ok_def)
qed

definition lead2_ok :: "u32 \<Rightarrow> bool" where
  "lead2_ok d \<longleftrightarrow> ucast (ucast (0xc0 OR d) :: u8) = 0xc0 OR d \<and> (0xc0 OR d) AND 0x1f = d \<and> 0xc0 OR d < 0xe0 \<and>
     (1 < d \<longrightarrow> 0xc2 \<le> 0xc0 OR d)"

definition lead3_ok :: "u32 \<Rightarrow> bool" where
  "lead3_ok d \<longleftrightarrow> ucast (ucast (0xe0 OR d) :: u8) = 0xe0 OR d \<and> (0xe0 OR d) AND 0x0f = d \<and> 0xe0 \<le> 0xe0 OR d \<and> 0xe0 OR d < 0xf0"

definition lead4_ok :: "u32 \<Rightarrow> bool" where
  "lead4_ok d \<longleftrightarrow> ucast (ucast (0xf0 OR d) :: u8) = 0xf0 OR d \<and> (0xf0 OR d) AND 0x07 = d \<and> 0xf0 \<le> 0xf0 OR d"

lemma lead_byte: "unat d < 32 \<Longrightarrow> lead2_ok d" "unat d < 16 \<Longrightarrow> lead3_ok d" "unat d < 8 \<Longrightarrow> lead4_ok d"
proof -
  have "list_all lead2_ok (0 # 1 # map word_of_nat [2..<32])" by (simp add: lead2_ok_def)
  then show "unat d < 32 \<Longrightarrow> lead2_ok d" by (rule small_words)
  have "list_all lead3_ok (0 # 1 # map word_of_nat [2..<16])" by (simp add: lead3_ok_def)
  then show "unat d < 16 \<Longrightarrow> lead3_ok d" by (rule small_words)
  have "list_all lead4_ok (0 # 1 # map word_of_nat [2..<8])" by (simp add: lead4_ok_def)
  then show "unat d < 8 \<Longrightarrow> lead4_ok d" by (rule small_words)
qed

lemma join6 [simp]: "push_bit 6 (drop_bit 6 c) OR (c AND 0x3f) = c" for c :: u32
  unfolding and_3f by (rule bit_word_eqI) (auto simp: bit_simps)

lemma unat_drop [simp]: "unat (drop_bit k c) = unat c div 2 ^ k" for c :: u32
  by (simp add: unat_drop_bit_eq drop_bit_nat_def)

lemma size_t_pred: "0 < n \<Longrightarrow> n < 2 ^ 64 \<Longrightarrow> size_t_of (int n - 1) = n - 1"
  using size_t_of_diff [of 1 n] by simp

lemma decode_two:
  assumes "0x7f < c" and "c < 0x800" and "2 \<le> n" and "n < 2 ^ 64"
  shows "ngx_utf8_decode (utf8_encode c @ s) n = (c, 2)"
proof -
  let ?d = "drop_bit 6 c"
  have "1 < ?d" "unat ?d < 32" using assms(1,2) by (simp_all add: word_less_nat_alt)
  with lead_byte(1) [of ?d] have L: "ucast (ucast (0xc0 OR ?d) :: u8) = 0xc0 OR ?d" "(0xc0 OR ?d) AND 0x1f = ?d"
    "0xc0 OR ?d < 0xe0" "0xc2 \<le> 0xc0 OR ?d" by (simp_all add: lead2_ok_def)
  then have "\<not> 0xf0 \<le> 0xc0 OR ?d" "\<not> 0xe0 \<le> 0xc0 OR ?d" by (simp_all add: word_le_nat_alt word_less_nat_alt)
  moreover have "\<not> c < 0x80" using assms(1) by (simp add: word_less_nat_alt)
  ultimately show ?thesis using L assms
    by (simp add: ngx_utf8_decode_def utf8_encode_def size_t_pred Let_def)
qed

lemma decode_three:
  assumes "0x7ff < c" and "c < 0x10000" and "3 \<le> n" and "n < 2 ^ 64"
  shows "ngx_utf8_decode (utf8_encode c @ s) n = (c, 3)"
proof -
  let ?d = "drop_bit 12 c"
  have "unat ?d < 16" using assms(2) by (simp add: word_less_nat_alt)
  with lead_byte(2) [of ?d] have L: "ucast (ucast (0xe0 OR ?d) :: u8) = 0xe0 OR ?d" "(0xe0 OR ?d) AND 0x0f = ?d"
    "0xe0 OR ?d < 0xf0" "0xe0 \<le> 0xe0 OR ?d" by (simp_all add: lead3_ok_def)
  then have "\<not> 0xf0 \<le> 0xe0 OR ?d" by simp
  moreover have "\<not> c < 0x80" "\<not> c < 0x800" using assms(1) by (simp_all add: word_less_nat_alt)
  moreover have "push_bit 6 ?d OR (drop_bit 6 c AND 0x3f) = drop_bit 6 c" using join6 [of "drop_bit 6 c"] by simp
  ultimately show ?thesis using L assms
    by (simp add: ngx_utf8_decode_def utf8_encode_def size_t_pred Let_def)
qed

lemma decode_four:
  assumes "0xffff < c" and "c \<le> 0x10ffff" and "4 \<le> n" and "n < 2 ^ 64"
  shows "ngx_utf8_decode (utf8_encode c @ s) n = (c, 4)"
proof -
  let ?d = "drop_bit 18 c"
  have "unat ?d < 8" using assms(2) by (simp add: word_le_nat_alt)
  with lead_byte(3) [of ?d] have L: "ucast (ucast (0xf0 OR ?d) :: u8) = 0xf0 OR ?d" "(0xf0 OR ?d) AND 0x07 = ?d"
    "0xf0 \<le> 0xf0 OR ?d" by (simp_all add: lead4_ok_def)
  moreover have "\<not> c < 0x80" "\<not> c < 0x800" "\<not> c < 0x10000" using assms(1) by (simp_all add: word_less_nat_alt)
  moreover have "push_bit 6 ?d OR (drop_bit 12 c AND 0x3f) = drop_bit 12 c" using join6 [of "drop_bit 12 c"] by simp
  moreover have "push_bit 6 (drop_bit 12 c) OR (drop_bit 6 c AND 0x3f) = drop_bit 6 c" using join6 [of "drop_bit 6 c"] by simp
  ultimately show ?thesis using assms
    by (simp add: ngx_utf8_decode_def utf8_encode_def size_t_pred Let_def)
qed

lemma utf8_decode_encode:
  assumes "0x7f < c" and "c \<le> 0x10ffff" and "length (utf8_encode c) \<le> n" and "n < 2 ^ 64"
  shows "ngx_utf8_decode (utf8_encode c @ s) n = (c, length (utf8_encode c))"
proof -
  have n: "\<not> c < 0x80" using assms(1) by (simp add: word_less_nat_alt)
  consider "c < 0x800" | "0x7ff < c" "c < 0x10000" | "0xffff < c" using assms(1)
    by (fastforce simp: word_less_nat_alt)
  then show ?thesis
  proof cases
    case 1
    then show ?thesis using assms n decode_two [of c n s] by (simp add: utf8_encode_def)
  next
    case 2
    then have "\<not> c < 0x800" by (simp add: word_less_nat_alt)
    then show ?thesis using 2 assms n decode_three [of c n s] by (simp add: utf8_encode_def)
  next
    case 3
    then have "\<not> c < 0x800" "\<not> c < 0x10000" by (simp_all add: word_less_nat_alt)
    then show ?thesis using 3 assms n decode_four [of c n s] by (simp add: utf8_encode_def)
  qed
qed

lemma lead_not_ascii:
  assumes "0x7f < c" and "c \<le> 0x10ffff"
  shows "\<not> byte_at (utf8_encode c @ s) 0 < 0x80"
proof
  assume a: "byte_at (utf8_encode c @ s) 0 < 0x80"
  then have "(ucast (byte_at (utf8_encode c @ s) 0) :: u32) < 0x80"
    by (simp add: word_less_nat_alt unsigned_ucast_eq take_bit_nat_eq_self)
  then have "fst (ngx_utf8_decode (utf8_encode c @ s) 4) = 0xffffffff"
    by (auto simp: ngx_utf8_decode_def Let_def word_less_nat_alt word_le_nat_alt)
  moreover have "length (utf8_encode c) \<le> 4" by (simp add: utf8_encode_def)
  ultimately show False using utf8_decode_encode [OF assms, of 4 s] assms(2) by simp
qed

section \<open>Properties\<close>

definition utf8_text :: "u32 list \<Rightarrow> u8 list" where
  "utf8_text cs = concat (map utf8_encode cs)"

lemma utf8_length_loop_text:
  assumes "list_all (\<lambda>c. c \<le> 0x10ffff) cs" and "n = length (us @ utf8_text cs)" and "n < 2 ^ 64"
  shows "utf8_length_loop (us @ utf8_text cs) n (length us) len = len + length cs"
  using assms
proof (induction cs arbitrary: us len)
  case Nil
  then show ?case by (subst utf8_length_loop.simps) (simp add: utf8_text_def)
next
  case (Cons c cs)
  let ?e = "utf8_encode c" and ?s = "us @ utf8_text (c # cs)"
  have t: "?s = (us @ ?e) @ utf8_text cs" "drop (length us) ?s = ?e @ utf8_text cs" by (simp_all add: utf8_text_def)
  have e: "0 < length ?e" by (simp add: utf8_encode_def)
  have k: "length us < n" using Cons.prems(2) e by (simp add: utf8_text_def)
  have b: "byte_at ?s (length us) = byte_at (?e @ utf8_text cs) 0" using byte_at_skip(1) t by (simp add: utf8_text_def)
  have IH: "utf8_length_loop ?s n (length (us @ ?e)) (len + 1) = len + 1 + length cs"
    unfolding t(1) using Cons.prems by (intro Cons.IH) (simp_all add: utf8_text_def)
  show ?case
  proof (cases "0x7f < c")
    case True
    then have "ngx_utf8_decode (?e @ utf8_text cs) n = (c, length ?e)"
      using Cons.prems by (intro utf8_decode_encode) (simp_all add: utf8_text_def)
    moreover have "\<not> 0x10ffff < c" using Cons.prems(1) by (simp add: not_less)
    ultimately show ?thesis using IH k lead_not_ascii [OF True, of "utf8_text cs"] Cons.prems(1) b t(2)
      by (subst utf8_length_loop.simps) simp
  next
    case False
    then have c: "c < 0x80" "unat c < 128" by (simp_all add: word_less_nat_alt)
    then have "(ucast c :: u8) < 0x80" by (simp add: word_less_nat_alt unsigned_ucast_eq take_bit_nat_eq_self)
    then show ?thesis using IH k b c(1) by (subst utf8_length_loop.simps) (simp add: utf8_encode_def)
  qed
qed

text \<open>
  The decoder accepts every encoded character: for each code point from \<^verbatim>\<open>U+0080\<close> to \<^verbatim>\<open>U+10FFFF\<close>,
  decoding its UTF-8 encoding yields the code point and consumes exactly the encoding, whatever
  follows it.
\<close>

theorem utf8_decode_roundtrip:
  assumes "0x80 \<le> c" and "c \<le> 0x10ffff" and "length (utf8_encode c) \<le> n" and "n < 2 ^ 64"
  shows "ngx_utf8_decode (utf8_encode c @ s) n = (c, length (utf8_encode c))"
  using assms utf8_decode_encode [of c n s] by (simp add: word_less_nat_alt word_le_nat_alt)

theorem utf8_decode_roundtrip_witness: "ngx_utf8_decode (utf8_encode 0x20ac @ bytes ''x'') 3 = (0x20ac, 3)"
  using utf8_decode_roundtrip [where c = "0x20ac" and n = 3 and s = "bytes ''x''"] by (simp add: utf8_encode_def)

text \<open>
  \<^verbatim>\<open>ngx_utf8_length\<close> counts characters: on the UTF-8 encoding of a string of code points it
  returns their number.
\<close>

theorem utf8_length_counts:
  assumes "list_all (\<lambda>c. c \<le> 0x10ffff) cs" and "length (utf8_text cs) < 2 ^ 64"
  shows "ngx_utf8_length (utf8_text cs) (length (utf8_text cs)) = length cs"
  using utf8_length_loop_text [of cs "length (utf8_text cs)" "[]" 0] assms by (simp add: ngx_utf8_length_def)

theorem utf8_length_counts_witness:
  "ngx_utf8_length (utf8_text [0x41, 0x20ac, 0x1f600]) (length (utf8_text [0x41, 0x20ac, 0x1f600])) = 3"
  using utf8_length_counts [of "[0x41, 0x20ac, 0x1f600]"] by (simp add: utf8_text_def utf8_encode_def)

text \<open>
  The decoder also accepts byte strings that are not UTF-8: a lead byte above \<^verbatim>\<open>F7\<close>, and a byte above \<^verbatim>\<open>BF\<close> as a
  continuation.
\<close>

theorem utf8_decode_malformed:
  "ngx_utf8_decode [0xf8, 0x90, 0x80, 0x80] 4 = (0x10000, 4) \<and> ngx_utf8_decode [0xc2, 0xff] 2 = (0xbf, 2)"
  by (simp add: ngx_utf8_decode_def size_t_of_def)

end
