(* ===== verification/Ngx_Rbtree.thy ===== *)
theory Ngx_Rbtree
  imports Prelude
begin

text \<open>
  The red-black tree of \<^verbatim>\<open>core/ngx_rbtree.h\<close> and \<^verbatim>\<open>core/ngx_rbtree.c\<close>, which keeps the timers and many
  other sets of nginx.

  The nodes live in a store indexed by address; a read or write of an address that holds no node
  is a fault, the value \<open>None\<close>. A tree is the address of its root and of its sentinel, the common
  black leaf. The assignments are kept in the order of the source. The loops follow pointers and
  are \<^theory_text>\<open>partial_function (option)\<close>. The field \<^verbatim>\<open>insert\<close> of the tree is an argument of
  \<^verbatim>\<open>ngx_rbtree_insert\<close>.
\<close>

section \<open>Nodes\<close>

record ngx_rbtree_node =
  rb_key :: u64
  rb_left :: ptr
  rb_right :: ptr
  rb_parent :: ptr
  rb_color :: u8
  rb_data :: u8

type_synonym rheap = "ptr \<Rightarrow> ngx_rbtree_node option"

definition fld :: "(ngx_rbtree_node \<Rightarrow> 'a) \<Rightarrow> rheap \<Rightarrow> ptr \<Rightarrow> 'a option" where
  "fld f s x = map_option f (s x)"

definition upd :: "ptr \<Rightarrow> (ngx_rbtree_node \<Rightarrow> ngx_rbtree_node) \<Rightarrow> rheap \<Rightarrow> rheap option" where
  "upd x f s = map_option (\<lambda>n. s(x \<mapsto> f n)) (s x)"

definition set_left :: "ptr \<Rightarrow> ptr \<Rightarrow> rheap \<Rightarrow> rheap option" where
  "set_left x v = upd x (\<lambda>n. n\<lparr>rb_left := v\<rparr>)"

definition set_right :: "ptr \<Rightarrow> ptr \<Rightarrow> rheap \<Rightarrow> rheap option" where
  "set_right x v = upd x (\<lambda>n. n\<lparr>rb_right := v\<rparr>)"

definition set_parent :: "ptr \<Rightarrow> ptr \<Rightarrow> rheap \<Rightarrow> rheap option" where
  "set_parent x v = upd x (\<lambda>n. n\<lparr>rb_parent := v\<rparr>)"

definition ngx_rbt_red :: "ptr \<Rightarrow> rheap \<Rightarrow> rheap option" where
  "ngx_rbt_red x = upd x (\<lambda>n. n\<lparr>rb_color := 1\<rparr>)"

definition ngx_rbt_black :: "ptr \<Rightarrow> rheap \<Rightarrow> rheap option" where
  "ngx_rbt_black x = upd x (\<lambda>n. n\<lparr>rb_color := 0\<rparr>)"

definition ngx_rbt_is_red :: "rheap \<Rightarrow> ptr \<Rightarrow> bool option" where
  "ngx_rbt_is_red s x = fld (\<lambda>n. rb_color n \<noteq> 0) s x"

definition ngx_rbt_is_black :: "rheap \<Rightarrow> ptr \<Rightarrow> bool option" where
  "ngx_rbt_is_black s x = map_option Not (ngx_rbt_is_red s x)"

definition ngx_rbt_copy_color :: "ptr \<Rightarrow> ptr \<Rightarrow> rheap \<Rightarrow> rheap option" where
  "ngx_rbt_copy_color n1 n2 s = do {
     c \<leftarrow> fld rb_color s n2;
     upd n1 (\<lambda>n. n\<lparr>rb_color := c\<rparr>) s
   }"

record ngx_rbtree =
  rt_root :: ptr
  rt_sentinel :: ptr

definition ngx_rbtree_init :: "rheap \<Rightarrow> ptr \<Rightarrow> (rheap \<times> ngx_rbtree) option" where
  "ngx_rbtree_init s sn = do {
     s \<leftarrow> ngx_rbt_black sn s;
     Some (s, \<lparr>rt_root = sn, rt_sentinel = sn\<rparr>)
   }"

partial_function (option) ngx_rbtree_min :: "rheap \<Rightarrow> ptr \<Rightarrow> ptr \<Rightarrow> ptr option" where
  "ngx_rbtree_min s node sentinel = do {
     l \<leftarrow> fld rb_left s node;
     if l \<noteq> sentinel then ngx_rbtree_min s l sentinel else Some node
   }"

section \<open>Rotations\<close>

definition ngx_rbtree_left_rotate :: "rheap \<Rightarrow> ptr \<Rightarrow> ptr \<Rightarrow> ptr \<Rightarrow> (rheap \<times> ptr) option" where
  "ngx_rbtree_left_rotate s root sentinel node = do {
     temp \<leftarrow> fld rb_right s node;
     tl \<leftarrow> fld rb_left s temp;
     s \<leftarrow> set_right node tl s;
     tl \<leftarrow> fld rb_left s temp;
     s \<leftarrow> (if tl \<noteq> sentinel then set_parent tl node s else Some s);
     np \<leftarrow> fld rb_parent s node;
     s \<leftarrow> set_parent temp np s;
     (s, root) \<leftarrow>
       (if node = root then Some (s, temp)
        else do {
          np \<leftarrow> fld rb_parent s node;
          npl \<leftarrow> fld rb_left s np;
          s \<leftarrow> (if node = npl then set_left np temp s else set_right np temp s);
          Some (s, root)
        });
     s \<leftarrow> set_left temp node s;
     s \<leftarrow> set_parent node temp s;
     Some (s, root)
   }"

definition ngx_rbtree_right_rotate :: "rheap \<Rightarrow> ptr \<Rightarrow> ptr \<Rightarrow> ptr \<Rightarrow> (rheap \<times> ptr) option" where
  "ngx_rbtree_right_rotate s root sentinel node = do {
     temp \<leftarrow> fld rb_left s node;
     tr \<leftarrow> fld rb_right s temp;
     s \<leftarrow> set_left node tr s;
     tr \<leftarrow> fld rb_right s temp;
     s \<leftarrow> (if tr \<noteq> sentinel then set_parent tr node s else Some s);
     np \<leftarrow> fld rb_parent s node;
     s \<leftarrow> set_parent temp np s;
     (s, root) \<leftarrow>
       (if node = root then Some (s, temp)
        else do {
          np \<leftarrow> fld rb_parent s node;
          npr \<leftarrow> fld rb_right s np;
          s \<leftarrow> (if node = npr then set_right np temp s else set_left np temp s);
          Some (s, root)
        });
     s \<leftarrow> set_right temp node s;
     s \<leftarrow> set_parent node temp s;
     Some (s, root)
   }"

section \<open>Insertion\<close>

text \<open>
  The loop shared by \<^verbatim>\<open>ngx_rbtree_insert_value\<close> and \<^verbatim>\<open>ngx_rbtree_insert_timer_value\<close>, which differ in the
  comparison: the node the search ends at, and whether the pointer \<^verbatim>\<open>p\<close> is to its left child.
\<close>

partial_function (option) rb_descend ::
  "(u64 \<Rightarrow> u64 \<Rightarrow> bool) \<Rightarrow> rheap \<Rightarrow> ptr \<Rightarrow> ptr \<Rightarrow> ptr \<Rightarrow> (ptr \<times> bool) option"
where
  "rb_descend lt s temp node sentinel = do {
     nk \<leftarrow> fld rb_key s node;
     tk \<leftarrow> fld rb_key s temp;
     let left = lt nk tk;
     p \<leftarrow> (if left then fld rb_left s temp else fld rb_right s temp);
     if p = sentinel then Some (temp, left) else rb_descend lt s p node sentinel
   }"

definition rb_attach :: "rheap \<Rightarrow> ptr \<Rightarrow> bool \<Rightarrow> ptr \<Rightarrow> ptr \<Rightarrow> rheap option" where
  "rb_attach s temp left node sentinel = do {
     s \<leftarrow> (if left then set_left temp node s else set_right temp node s);
     s \<leftarrow> set_parent node temp s;
     s \<leftarrow> set_left node sentinel s;
     s \<leftarrow> set_right node sentinel s;
     ngx_rbt_red node s
   }"

definition ngx_rbtree_insert_value :: "rheap \<Rightarrow> ptr \<Rightarrow> ptr \<Rightarrow> ptr \<Rightarrow> rheap option" where
  "ngx_rbtree_insert_value s temp node sentinel = do {
     (temp, left) \<leftarrow> rb_descend (<) s temp node sentinel;
     rb_attach s temp left node sentinel
   }"

text \<open>The keys of timers wrap: \<^verbatim>\<open>(ngx_rbtree_key_int_t) (node->key - temp->key) < 0\<close>.\<close>

definition timer_less :: "u64 \<Rightarrow> u64 \<Rightarrow> bool" where
  "timer_less a b \<longleftrightarrow> sint (a - b) < 0"

definition ngx_rbtree_insert_timer_value :: "rheap \<Rightarrow> ptr \<Rightarrow> ptr \<Rightarrow> ptr \<Rightarrow> rheap option" where
  "ngx_rbtree_insert_timer_value s temp node sentinel = do {
     (temp, left) \<leftarrow> rb_descend timer_less s temp node sentinel;
     rb_attach s temp left node sentinel
   }"

text \<open>
  One round of the \<^verbatim>\<open>while\<close> loop that rebalances the tree, when the parent \<open>np\<close> is the left child of the
  grandparent \<open>npp\<close>: the new heap, root and node.
\<close>

definition rb_insert_left :: "rheap \<Rightarrow> ptr \<Rightarrow> ptr \<Rightarrow> ptr \<Rightarrow> ptr \<Rightarrow> ptr \<Rightarrow> (rheap \<times> ptr \<times> ptr) option" where
  "rb_insert_left s root sentinel node np npp = do {
     temp \<leftarrow> fld rb_right s npp;
     tred \<leftarrow> ngx_rbt_is_red s temp;
     if tred then do {
       s \<leftarrow> ngx_rbt_black np s;
       s \<leftarrow> ngx_rbt_black temp s;
       s \<leftarrow> ngx_rbt_red npp s;
       Some (s, root, npp)
     }
     else do {
       r \<leftarrow> fld rb_right s np;
       (s, root, node) \<leftarrow>
         (if node = r then do {
            let node = np;
            (s, root) \<leftarrow> ngx_rbtree_left_rotate s root sentinel node;
            Some (s, root, node)
          }
          else Some (s, root, node));
       np \<leftarrow> fld rb_parent s node;
       s \<leftarrow> ngx_rbt_black np s;
       npp \<leftarrow> fld rb_parent s np;
       s \<leftarrow> ngx_rbt_red npp s;
       (s, root) \<leftarrow> ngx_rbtree_right_rotate s root sentinel npp;
       Some (s, root, node)
     }
   }"

text \<open>The mirror image, when the parent is the right child.\<close>

definition rb_insert_right :: "rheap \<Rightarrow> ptr \<Rightarrow> ptr \<Rightarrow> ptr \<Rightarrow> ptr \<Rightarrow> ptr \<Rightarrow> (rheap \<times> ptr \<times> ptr) option" where
  "rb_insert_right s root sentinel node np npp = do {
     temp \<leftarrow> fld rb_left s npp;
     tred \<leftarrow> ngx_rbt_is_red s temp;
     if tred then do {
       s \<leftarrow> ngx_rbt_black np s;
       s \<leftarrow> ngx_rbt_black temp s;
       s \<leftarrow> ngx_rbt_red npp s;
       Some (s, root, npp)
     }
     else do {
       l \<leftarrow> fld rb_left s np;
       (s, root, node) \<leftarrow>
         (if node = l then do {
            let node = np;
            (s, root) \<leftarrow> ngx_rbtree_right_rotate s root sentinel node;
            Some (s, root, node)
          }
          else Some (s, root, node));
       np \<leftarrow> fld rb_parent s node;
       s \<leftarrow> ngx_rbt_black np s;
       npp \<leftarrow> fld rb_parent s np;
       s \<leftarrow> ngx_rbt_red npp s;
       (s, root) \<leftarrow> ngx_rbtree_left_rotate s root sentinel npp;
       Some (s, root, node)
     }
   }"

partial_function (option) rb_insert_fixup :: "rheap \<Rightarrow> ptr \<Rightarrow> ptr \<Rightarrow> ptr \<Rightarrow> (rheap \<times> ptr) option" where
  "rb_insert_fixup s root sentinel node =
     (if node = root then Some (s, root)
      else do {
        np \<leftarrow> fld rb_parent s node;
        red \<leftarrow> ngx_rbt_is_red s np;
        if \<not> red then Some (s, root)
        else do {
          npp \<leftarrow> fld rb_parent s np;
          l \<leftarrow> fld rb_left s npp;
          (s, root, node) \<leftarrow>
            (if np = l then rb_insert_left s root sentinel node np npp
             else rb_insert_right s root sentinel node np npp);
          rb_insert_fixup s root sentinel node
        }
      })"

definition ngx_rbtree_insert ::
  "(rheap \<Rightarrow> ptr \<Rightarrow> ptr \<Rightarrow> ptr \<Rightarrow> rheap option) \<Rightarrow> rheap \<Rightarrow> ngx_rbtree \<Rightarrow> ptr \<Rightarrow> (rheap \<times> ngx_rbtree) option"
where
  "ngx_rbtree_insert insert_pt s tree node = (
     let root = rt_root tree; sentinel = rt_sentinel tree
     in if root = sentinel then do {
          s \<leftarrow> set_parent node 0 s;
          s \<leftarrow> set_left node sentinel s;
          s \<leftarrow> set_right node sentinel s;
          s \<leftarrow> ngx_rbt_black node s;
          Some (s, tree\<lparr>rt_root := node\<rparr>)
        }
        else do {
          s \<leftarrow> insert_pt s root node sentinel;
          (s, root) \<leftarrow> rb_insert_fixup s root sentinel node;
          s \<leftarrow> ngx_rbt_black root s;
          Some (s, tree\<lparr>rt_root := root\<rparr>)
        })"

section \<open>Deletion\<close>

text \<open>The assignments marked \<^verbatim>\<open>DEBUG stuff\<close>.\<close>

definition rb_clear :: "ptr \<Rightarrow> rheap \<Rightarrow> rheap option" where
  "rb_clear node s = do {
     s \<leftarrow> set_left node 0 s;
     s \<leftarrow> set_right node 0 s;
     s \<leftarrow> set_parent node 0 s;
     upd node (\<lambda>n. n\<lparr>rb_key := 0\<rparr>) s
   }"

text \<open>The node to unlink, and the child that takes its place.\<close>

definition rb_delete_choose :: "rheap \<Rightarrow> ptr \<Rightarrow> ptr \<Rightarrow> (ptr \<times> ptr) option" where
  "rb_delete_choose s sentinel node = do {
     l \<leftarrow> fld rb_left s node;
     r \<leftarrow> fld rb_right s node;
     if l = sentinel then Some (node, r)
     else if r = sentinel then Some (node, l)
     else do {
       subst \<leftarrow> ngx_rbtree_min s r sentinel;
       sl \<leftarrow> fld rb_left s subst;
       sr \<leftarrow> fld rb_right s subst;
       Some (subst, if sl \<noteq> sentinel then sl else sr)
     }
   }"

text \<open>\<^verbatim>\<open>subst\<close> takes the place of \<^verbatim>\<open>node\<close>.\<close>

definition rb_replace :: "rheap \<Rightarrow> ptr \<Rightarrow> ptr \<Rightarrow> ptr \<Rightarrow> ptr \<Rightarrow> ptr \<Rightarrow> (rheap \<times> ptr) option" where
  "rb_replace s root sentinel node subst temp = do {
     sp \<leftarrow> fld rb_parent s subst;
     s \<leftarrow> (if sp = node then set_parent temp subst s else set_parent temp sp s);
     l \<leftarrow> fld rb_left s node;
     s \<leftarrow> set_left subst l s;
     r \<leftarrow> fld rb_right s node;
     s \<leftarrow> set_right subst r s;
     p \<leftarrow> fld rb_parent s node;
     s \<leftarrow> set_parent subst p s;
     s \<leftarrow> ngx_rbt_copy_color subst node s;
     (s, root) \<leftarrow>
       (if node = root then Some (s, subst)
        else do {
          np \<leftarrow> fld rb_parent s node;
          npl \<leftarrow> fld rb_left s np;
          s \<leftarrow> (if node = npl then set_left np subst s else set_right np subst s);
          Some (s, root)
        });
     sl \<leftarrow> fld rb_left s subst;
     s \<leftarrow> (if sl \<noteq> sentinel then set_parent sl subst s else Some s);
     sr \<leftarrow> fld rb_right s subst;
     s \<leftarrow> (if sr \<noteq> sentinel then set_parent sr subst s else Some s);
     Some (s, root)
   }"

text \<open>The children of \<open>w\<close> and whether they are black.\<close>

definition rb_children :: "rheap \<Rightarrow> ptr \<Rightarrow> (ptr \<times> ptr \<times> bool \<times> bool) option" where
  "rb_children s w = do {
     wl \<leftarrow> fld rb_left s w;
     wr \<leftarrow> fld rb_right s w;
     bl \<leftarrow> ngx_rbt_is_black s wl;
     br \<leftarrow> ngx_rbt_is_black s wr;
     Some (wl, wr, bl, br)
   }"

text \<open>
  One round of the \<^verbatim>\<open>while\<close> loop of the fixup, when \<open>temp\<close> is the left child of its parent \<open>tp\<close>: the new heap,
  root and \<open>temp\<close>.
\<close>

definition rb_delete_left :: "rheap \<Rightarrow> ptr \<Rightarrow> ptr \<Rightarrow> ptr \<Rightarrow> ptr \<Rightarrow> (rheap \<times> ptr \<times> ptr) option" where
  "rb_delete_left s root sentinel temp tp = do {
     w \<leftarrow> fld rb_right s tp;
     wred \<leftarrow> ngx_rbt_is_red s w;
     (s, root, w) \<leftarrow>
       (if wred then do {
          s \<leftarrow> ngx_rbt_black w s;
          s \<leftarrow> ngx_rbt_red tp s;
          (s, root) \<leftarrow> ngx_rbtree_left_rotate s root sentinel tp;
          tp \<leftarrow> fld rb_parent s temp;
          w \<leftarrow> fld rb_right s tp;
          Some (s, root, w)
        }
        else Some (s, root, w));
     (wl, wr, bl, br) \<leftarrow> rb_children s w;
     if bl \<and> br then do {
       s \<leftarrow> ngx_rbt_red w s;
       tp \<leftarrow> fld rb_parent s temp;
       Some (s, root, tp)
     }
     else do {
       (s, root, w) \<leftarrow>
         (if br then do {
            s \<leftarrow> ngx_rbt_black wl s;
            s \<leftarrow> ngx_rbt_red w s;
            (s, root) \<leftarrow> ngx_rbtree_right_rotate s root sentinel w;
            tp \<leftarrow> fld rb_parent s temp;
            w \<leftarrow> fld rb_right s tp;
            Some (s, root, w)
          }
          else Some (s, root, w));
       tp \<leftarrow> fld rb_parent s temp;
       s \<leftarrow> ngx_rbt_copy_color w tp s;
       s \<leftarrow> ngx_rbt_black tp s;
       wr \<leftarrow> fld rb_right s w;
       s \<leftarrow> ngx_rbt_black wr s;
       (s, root) \<leftarrow> ngx_rbtree_left_rotate s root sentinel tp;
       Some (s, root, root)
     }
   }"

text \<open>The mirror image, when \<open>temp\<close> is the right child.\<close>

definition rb_delete_right :: "rheap \<Rightarrow> ptr \<Rightarrow> ptr \<Rightarrow> ptr \<Rightarrow> ptr \<Rightarrow> (rheap \<times> ptr \<times> ptr) option" where
  "rb_delete_right s root sentinel temp tp = do {
     w \<leftarrow> fld rb_left s tp;
     wred \<leftarrow> ngx_rbt_is_red s w;
     (s, root, w) \<leftarrow>
       (if wred then do {
          s \<leftarrow> ngx_rbt_black w s;
          s \<leftarrow> ngx_rbt_red tp s;
          (s, root) \<leftarrow> ngx_rbtree_right_rotate s root sentinel tp;
          tp \<leftarrow> fld rb_parent s temp;
          w \<leftarrow> fld rb_left s tp;
          Some (s, root, w)
        }
        else Some (s, root, w));
     (wl, wr, bl, br) \<leftarrow> rb_children s w;
     if bl \<and> br then do {
       s \<leftarrow> ngx_rbt_red w s;
       tp \<leftarrow> fld rb_parent s temp;
       Some (s, root, tp)
     }
     else do {
       (s, root, w) \<leftarrow>
         (if bl then do {
            s \<leftarrow> ngx_rbt_black wr s;
            s \<leftarrow> ngx_rbt_red w s;
            (s, root) \<leftarrow> ngx_rbtree_left_rotate s root sentinel w;
            tp \<leftarrow> fld rb_parent s temp;
            w \<leftarrow> fld rb_left s tp;
            Some (s, root, w)
          }
          else Some (s, root, w));
       tp \<leftarrow> fld rb_parent s temp;
       s \<leftarrow> ngx_rbt_copy_color w tp s;
       s \<leftarrow> ngx_rbt_black tp s;
       wl \<leftarrow> fld rb_left s w;
       s \<leftarrow> ngx_rbt_black wl s;
       (s, root) \<leftarrow> ngx_rbtree_right_rotate s root sentinel tp;
       Some (s, root, root)
     }
   }"

partial_function (option) rb_delete_fixup :: "rheap \<Rightarrow> ptr \<Rightarrow> ptr \<Rightarrow> ptr \<Rightarrow> (rheap \<times> ptr \<times> ptr) option" where
  "rb_delete_fixup s root sentinel temp =
     (if temp = root then Some (s, root, temp)
      else do {
        black \<leftarrow> ngx_rbt_is_black s temp;
        if \<not> black then Some (s, root, temp)
        else do {
          tp \<leftarrow> fld rb_parent s temp;
          tpl \<leftarrow> fld rb_left s tp;
          (s, root, temp) \<leftarrow>
            (if temp = tpl then rb_delete_left s root sentinel temp tp
             else rb_delete_right s root sentinel temp tp);
          rb_delete_fixup s root sentinel temp
        }
      })"

definition ngx_rbtree_delete :: "rheap \<Rightarrow> ngx_rbtree \<Rightarrow> ptr \<Rightarrow> (rheap \<times> ngx_rbtree) option" where
  "ngx_rbtree_delete s tree node = do {
     let root = rt_root tree; 
     let sentinel = rt_sentinel tree;
     (subst, temp) \<leftarrow> rb_delete_choose s sentinel node;
     if subst = root then do {
       let root = temp;
       s \<leftarrow> ngx_rbt_black temp s;
       s \<leftarrow> rb_clear node s;
       Some (s, tree\<lparr>rt_root := root\<rparr>)
     }
     else do {
       red \<leftarrow> ngx_rbt_is_red s subst;
       sp \<leftarrow> fld rb_parent s subst;
       spl \<leftarrow> fld rb_left s sp;
       s \<leftarrow> (if subst = spl then set_left sp temp s else set_right sp temp s);
       (s, root) \<leftarrow>
         (if subst = node then do {
            sp \<leftarrow> fld rb_parent s subst;
            s \<leftarrow> set_parent temp sp s;
            Some (s, root)
          }
          else rb_replace s root sentinel node subst temp);
       s \<leftarrow> rb_clear node s;
       if red then Some (s, tree\<lparr>rt_root := root\<rparr>)
       else do {
         (s, root, temp) \<leftarrow> rb_delete_fixup s root sentinel temp;
         s \<leftarrow> ngx_rbt_black temp s;
         Some (s, tree\<lparr>rt_root := root\<rparr>)
       }
     }
   }"

section \<open>The next node\<close>

partial_function (option) rb_next_up :: "rheap \<Rightarrow> ptr \<Rightarrow> ptr \<Rightarrow> ptr option" where
  "rb_next_up s root node = do {
     parent \<leftarrow> fld rb_parent s node;
     if node = root then Some 0
     else do {
       l \<leftarrow> fld rb_left s parent;
       if node = l then Some parent else rb_next_up s root parent
     }
   }"

definition ngx_rbtree_next :: "rheap \<Rightarrow> ngx_rbtree \<Rightarrow> ptr \<Rightarrow> ptr option" where
  "ngx_rbtree_next s tree node = do {
     r \<leftarrow> fld rb_right s node;
     if r \<noteq> rt_sentinel tree then ngx_rbtree_min s r (rt_sentinel tree)
     else rb_next_up s (rt_root tree) node
   }"

end
