(* ===== verification/Ngx_Rbtree_Rep.thy ===== *)
theory Ngx_Rbtree_Rep
  imports Ngx_Rbtree "HOL-Library.Tree"
begin

text \<open>
  The abstract trees that the heap of \<^verbatim>\<open>ngx_rbtree.c\<close> represents, seen from a node inside the tree: the
  subtree at the node and the path from there to the root (a zipper). The basic operations of the
  code, painting a node and rotating at a node, are operations on the subtree in focus; moving the
  focus changes nothing in the heap.
\<close>

section \<open>Trees in the heap\<close>

text \<open>A label is the address, the key and whether the node is red.\<close>

type_synonym lab = "ptr \<times> u64 \<times> bool"

fun adr :: "ptr \<Rightarrow> lab tree \<Rightarrow> ptr" where
  "adr nil Leaf = nil"
| "adr nil (Node _ (a, _, _) _) = a"

fun redt :: "lab tree \<Rightarrow> bool" where
  "redt Leaf = False"
| "redt (Node _ (_, _, c) _) = c"

definition cell :: "rheap \<Rightarrow> ptr \<Rightarrow> u64 \<Rightarrow> bool \<Rightarrow> ptr \<Rightarrow> ptr \<Rightarrow> ptr \<Rightarrow> bool" where
  "cell s a k c par l r \<longleftrightarrow> (\<exists>n. s a = Some n \<and> rb_key n = k \<and> (rb_color n \<noteq> 0) = c \<and> rb_parent n = par \<and>
     rb_left n = l \<and> rb_right n = r)"

fun rep :: "rheap \<Rightarrow> ptr \<Rightarrow> ptr \<Rightarrow> lab tree \<Rightarrow> bool" where
  "rep s nil par Leaf \<longleftrightarrow> True"
| "rep s nil par (Node l (a, k, c) r) \<longleftrightarrow> a \<noteq> nil \<and> cell s a k c par (adr nil l) (adr nil r) \<and>
     rep s nil a l \<and> rep s nil a r"

definition adrs :: "lab tree \<Rightarrow> ptr list" where
  "adrs t = map fst (inorder t)"

lemma adrs_simps [simp]: "adrs Leaf = []" "adrs (Node l x r) = adrs l @ fst x # adrs r"
  by (simp_all add: adrs_def)

section \<open>The path to the root\<close>

text \<open>A frame: the parent with its other subtree; the focus is the left child (\<open>FL\<close>) or the right one (\<open>FR\<close>).\<close>

datatype frame = FL lab "lab tree" | FR "lab tree" lab

fun plug1 :: "frame \<Rightarrow> lab tree \<Rightarrow> lab tree" where
  "plug1 (FL x r) t = Node t x r"
| "plug1 (FR l x) t = Node l x t"

fun plug :: "frame list \<Rightarrow> lab tree \<Rightarrow> lab tree" where
  "plug [] t = t"
| "plug (f # ctx) t = plug ctx (plug1 f t)"

fun frame_lab :: "frame \<Rightarrow> lab" where
  "frame_lab (FL x _) = x"
| "frame_lab (FR _ x) = x"

abbreviation frame_red :: "frame \<Rightarrow> bool" where
  "frame_red f \<equiv> snd (snd (frame_lab f))"

fun crep :: "rheap \<Rightarrow> ptr \<Rightarrow> ptr \<Rightarrow> ptr \<Rightarrow> ptr \<Rightarrow> frame list \<Rightarrow> bool" where
  "crep s nil root p par [] \<longleftrightarrow> root = p"
| "crep s nil root p par (FL (a, k, c) r # ctx) \<longleftrightarrow> par = a \<and> a \<noteq> nil \<and> rep s nil a r \<and>
     (\<exists>pp. cell s a k c pp p (adr nil r) \<and> crep s nil root a pp ctx)"
| "crep s nil root p par (FR l (a, k, c) # ctx) \<longleftrightarrow> par = a \<and> a \<noteq> nil \<and> rep s nil a l \<and>
     (\<exists>pp. cell s a k c pp (adr nil l) p \<and> crep s nil root a pp ctx)"

fun pre :: "frame list \<Rightarrow> lab list" where
  "pre [] = []"
| "pre (FL x r # ctx) = pre ctx"
| "pre (FR l x # ctx) = pre ctx @ inorder l @ [x]"

fun post :: "frame list \<Rightarrow> lab list" where
  "post [] = []"
| "post (FL x r # ctx) = x # inorder r @ post ctx"
| "post (FR l x # ctx) = post ctx"

lemma inorder_plug: "inorder (plug ctx t) = pre ctx @ inorder t @ post ctx"
proof (induction ctx arbitrary: t)
  case (Cons f ctx)
  then show ?case by (cases f) auto
qed simp

definition cadrs :: "frame list \<Rightarrow> ptr set" where
  "cadrs ctx = fst ` set (pre ctx) \<union> fst ` set (post ctx)"

lemma cadrs_simps [simp]:
  "cadrs [] = {}"
  "cadrs (FL x r # ctx) = insert (fst x) (set (adrs r) \<union> cadrs ctx)"
  "cadrs (FR l x # ctx) = insert (fst x) (set (adrs l) \<union> cadrs ctx)"
  by (auto simp: cadrs_def adrs_def)

lemma adrs_plug: "set (adrs (plug ctx t)) = set (adrs t) \<union> cadrs ctx"
  by (auto simp: adrs_def inorder_plug cadrs_def)

lemma distinct_plug:
  "distinct (adrs (plug ctx t)) \<Longrightarrow> distinct (adrs t) \<and> set (adrs t) \<inter> cadrs ctx = {}"
  by (auto simp: adrs_def inorder_plug cadrs_def)

lemma distinct_plug_same:
  "map fst (inorder t) = map fst (inorder t') \<Longrightarrow> distinct (adrs (plug ctx t)) \<longleftrightarrow> distinct (adrs (plug ctx t'))"
  by (simp add: adrs_def inorder_plug)

section \<open>Frames of the heap\<close>

definition same_out :: "ptr set \<Rightarrow> rheap \<Rightarrow> rheap \<Rightarrow> bool" where
  "same_out A s s' \<longleftrightarrow> (\<forall>a. a \<notin> A \<longrightarrow> s' a = s a)"

lemma same_out_refl [simp]: "same_out A s s"
  by (simp add: same_out_def)

lemma same_out_trans: "same_out A s s1 \<Longrightarrow> same_out A s1 s2 \<Longrightarrow> same_out A s s2"
  by (simp add: same_out_def)

lemma same_out_mono: "same_out A s s1 \<Longrightarrow> A \<subseteq> B \<Longrightarrow> same_out B s s1"
  by (auto simp: same_out_def)

lemma cell_cong: "s' a = s a \<Longrightarrow> cell s' a k c par l r \<longleftrightarrow> cell s a k c par l r"
  by (simp add: cell_def)

lemma rep_cong: "(\<And>a. a \<in> set (adrs t) \<Longrightarrow> s' a = s a) \<Longrightarrow> rep s' nil par t \<longleftrightarrow> rep s nil par t"
  by (induction s nil par t rule: rep.induct) (auto simp: cell_def)

lemma crep_cong:
  "(\<And>a. a \<in> cadrs ctx \<Longrightarrow> s' a = s a) \<Longrightarrow> crep s' nil root p par ctx \<longleftrightarrow> crep s nil root p par ctx"
proof (induction s nil root p par ctx rule: crep.induct)
  case (2 s nil root p par a k c r ctx)
  then have "rep s' nil a r \<longleftrightarrow> rep s nil a r" by (intro rep_cong) auto
  then show ?case using 2 by (auto simp: cell_def)
next
  case (3 s nil root p par l a k c ctx)
  then have "rep s' nil a l \<longleftrightarrow> rep s nil a l" by (intro rep_cong) auto
  then show ?case using 3 by (auto simp: cell_def)
qed simp

lemma rep_upd [simp]: "a \<notin> set (adrs t) \<Longrightarrow> rep (s(a \<mapsto> n)) nil par t \<longleftrightarrow> rep s nil par t"
  by (rule rep_cong) auto

lemma crep_upd [simp]: "a \<notin> cadrs ctx \<Longrightarrow> crep (s(a \<mapsto> n)) nil root p par ctx \<longleftrightarrow> crep s nil root p par ctx"
  by (rule crep_cong) auto

lemma rep_same_out: "same_out A s s' \<Longrightarrow> A \<inter> set (adrs t) = {} \<Longrightarrow> rep s' nil par t \<longleftrightarrow> rep s nil par t"
  by (rule rep_cong) (auto simp: same_out_def)

lemma crep_same_out: "same_out A s s' \<Longrightarrow> A \<inter> cadrs ctx = {} \<Longrightarrow> crep s' nil root p par ctx \<longleftrightarrow> crep s nil root p par ctx"
  by (rule crep_cong) (auto simp: same_out_def)

lemma adr_in: "adr nil t \<noteq> nil \<Longrightarrow> adr nil t \<in> set (adrs t)"
  by (cases t) auto

lemma rep_adr: "rep s nil par t \<Longrightarrow> adr nil t = nil \<longleftrightarrow> t = Leaf"
  by (cases t) auto

lemma rep_nil: "rep s nil par t \<Longrightarrow> nil \<notin> set (adrs t)"
  by (induction s nil par t rule: rep.induct) auto

lemma crep_nil: "crep s nil root p par ctx \<Longrightarrow> nil \<notin> cadrs ctx"
  by (induction s nil root p par ctx rule: crep.induct) (auto simp: rep_nil)

section \<open>A tree with a focus\<close>

definition focus :: "rheap \<Rightarrow> ptr \<Rightarrow> ptr \<Rightarrow> lab tree \<Rightarrow> frame list \<Rightarrow> bool" where
  "focus s nil root t ctx \<longleftrightarrow> distinct (adrs (plug ctx t)) \<and> ngx_rbt_is_red s nil = Some False \<and>
     (\<exists>par. rep s nil par t \<and> crep s nil root (adr nil t) par ctx)"

lemma focus_up_down:
  "focus s nil root l (FL x r # ctx) \<longleftrightarrow> focus s nil root (Node l x r) ctx"
  "focus s nil root r (FR l x # ctx) \<longleftrightarrow> focus s nil root (Node l x r) ctx"
  by (cases x; auto simp: focus_def)+

lemma focus_plug: "focus s nil root t ctx \<longleftrightarrow> focus s nil root (plug ctx t) []"
proof (induction ctx arbitrary: t)
  case (Cons f ctx)
  then show ?case by (cases f) (simp_all add: focus_up_down)
qed simp

text \<open>The parts of a focused tree.\<close>

lemma focusE:
  assumes "focus s nil root t ctx"
  obtains par sn where "rep s nil par t" and "crep s nil root (adr nil t) par ctx" and "distinct (adrs t)"
    and "set (adrs t) \<inter> cadrs ctx = {}" and "s nil = Some sn" and "rb_color sn = 0" and "nil \<notin> set (adrs t)"
    and "nil \<notin> cadrs ctx" and "distinct (adrs (plug ctx t))"
proof -
  from assms obtain par where p: "rep s nil par t" "crep s nil root (adr nil t) par ctx"
    "distinct (adrs (plug ctx t))" "ngx_rbt_is_red s nil = Some False" by (auto simp: focus_def)
  from p(4) obtain sn where "s nil = Some sn" "rb_color sn = 0" by (auto simp: ngx_rbt_is_red_def fld_def)
  then show ?thesis using that p distinct_plug [OF p(3)] rep_nil [OF p(1)] crep_nil [OF p(2)] by blast
qed

lemma focusI:
  assumes "rep s nil par t" and "crep s nil root (adr nil t) par ctx" and "distinct (adrs (plug ctx t))"
    and "s nil = Some sn" and "rb_color sn = 0"
  shows "focus s nil root t ctx"
  using assms by (auto simp: focus_def ngx_rbt_is_red_def fld_def)

section \<open>Painting\<close>

lemma upd_Some: "s x = Some n \<Longrightarrow> upd x f s = Some (s(x \<mapsto> f n))"
  by (simp add: upd_def)

lemmas set_defs = set_left_def set_right_def set_parent_def ngx_rbt_red_def ngx_rbt_black_def

text \<open>Replacing the record of the focused node by one with the same links.\<close>

lemma focus_recolor:
  assumes z: "focus s nil root (Node l (a, k, c) r) ctx" and n: "s a = Some n"
  shows "focus (s(a \<mapsto> n\<lparr>rb_color := col\<rparr>)) nil root (Node l (a, k, col \<noteq> 0) r) ctx"
  using z
proof (rule focusE)
  fix par sn
  let ?t = "Node l (a, k, c) r" and ?s = "s(a \<mapsto> n\<lparr>rb_color := col\<rparr>)"
  assume p: "rep s nil par ?t" "crep s nil root (adr nil ?t) par ctx" "distinct (adrs ?t)"
    "set (adrs ?t) \<inter> cadrs ctx = {}" "s nil = Some sn" "rb_color sn = 0" "nil \<notin> set (adrs ?t)"
    "nil \<notin> cadrs ctx" "distinct (adrs (plug ctx ?t))"
  have "rep ?s nil a l \<longleftrightarrow> rep s nil a l" "rep ?s nil a r \<longleftrightarrow> rep s nil a r"
    using p(3) by (auto intro!: rep_cong)
  then have "rep ?s nil par (Node l (a, k, col \<noteq> 0) r)" using p(1) n by (auto simp: cell_def)
  moreover have "crep ?s nil root a par ctx" using p(2,4) by (subst crep_cong [of ctx _ s]) auto
  moreover have "distinct (adrs (plug ctx (Node l (a, k, col \<noteq> 0) r)))"
    using p(9) distinct_plug_same [of ?t "Node l (a, k, col \<noteq> 0) r" ctx] by simp
  ultimately show ?thesis using p(5,6,7) by (intro focusI [where par = par and sn = sn]) auto
qed

lemma focus_cell: "focus s nil root (Node l (a, k, c) r) ctx \<Longrightarrow>
    \<exists>n. s a = Some n \<and> a \<noteq> nil \<and> rb_key n = k \<and> (rb_color n \<noteq> 0) = c \<and> rb_left n = adr nil l \<and> rb_right n = adr nil r"
  by (auto simp: focus_def cell_def)

lemma paint_focus:
  assumes "focus s nil root (Node l (a, k, c) r) ctx"
  shows "\<exists>s'. ngx_rbt_black a s = Some s' \<and> focus s' nil root (Node l (a, k, False) r) ctx \<and> same_out {a} s s'"
    and "\<exists>s'. ngx_rbt_red a s = Some s' \<and> focus s' nil root (Node l (a, k, True) r) ctx \<and> same_out {a} s s'"
proof -
  obtain n where n: "s a = Some n" using focus_cell [OF assms] by blast
  show "\<exists>s'. ngx_rbt_black a s = Some s' \<and> focus s' nil root (Node l (a, k, False) r) ctx \<and> same_out {a} s s'"
    using focus_recolor [OF assms n, of 0] n by (auto simp: ngx_rbt_black_def upd_Some same_out_def)
  show "\<exists>s'. ngx_rbt_red a s = Some s' \<and> focus s' nil root (Node l (a, k, True) r) ctx \<and> same_out {a} s s'"
    using focus_recolor [OF assms n, of 1] n by (auto simp: ngx_rbt_red_def upd_Some same_out_def)
qed

section \<open>Rotation\<close>

text \<open>The step of a rotation that hangs the new subtree below the parent of the old one.\<close>

definition rehang :: "rheap \<Rightarrow> ptr \<Rightarrow> ptr \<Rightarrow> ptr \<Rightarrow> (rheap \<times> ptr) option" where
  "rehang s root node temp =
     (if node = root then Some (s, temp)
      else do {
        np \<leftarrow> fld rb_parent s node;
        npl \<leftarrow> fld rb_left s np;
        s \<leftarrow> (if node = npl then set_left np temp s else set_right np temp s);
        Some (s, root)
      })"

lemma crep_root_in: "crep s nil root p par ctx \<Longrightarrow> ctx \<noteq> [] \<Longrightarrow> root \<in> cadrs ctx"
proof (induction s nil root p par ctx rule: crep.induct)
  case (2 s nil root p par a k c r ctx)
  then show ?case by (cases ctx) auto
next
  case (3 s nil root p par l a k c ctx)
  then show ?case by (cases ctx) auto
qed simp

lemma rehang_crep:
  assumes c: "crep s nil root x par ctx" and x: "s x = Some n" "rb_parent n = par" "x \<noteq> nil" "x \<notin> cadrs ctx"
    and d: "distinct (adrs (plug ctx Leaf))"
  shows "\<exists>s' root'. rehang s root x y = Some (s', root') \<and> crep s' nil root' y par ctx \<and> same_out (cadrs ctx) s s'"
proof (cases ctx)
  case Nil
  then show ?thesis using c by (simp add: rehang_def)
next
  case (Cons f ctx')
  have r: "root \<noteq> x" using crep_root_in [OF c] Cons x(4) by auto
  have dd: "distinct (adrs (plug1 f Leaf)) \<and> set (adrs (plug1 f Leaf)) \<inter> cadrs ctx' = {}"
    using distinct_plug [of ctx' "plug1 f Leaf"] d Cons by simp
  show ?thesis
  proof (cases f)
    case (FL lab t)
    obtain a k co where lab: "lab = (a, k, co)" by (cases lab) auto
    obtain pp na where a: "par = a" "a \<noteq> nil" "rep s nil a t" "s a = Some na" "rb_key na = k" "(rb_color na \<noteq> 0) = co"
      "rb_parent na = pp" "rb_left na = x" "rb_right na = adr nil t" "crep s nil root a pp ctx'"
      using c Cons FL lab by (auto simp: cell_def)
    let ?s = "s(a \<mapsto> na\<lparr>rb_left := y\<rparr>)"
    have "rehang s root x y = Some (?s, root)"
      using r x a by (simp add: rehang_def fld_def set_defs upd_Some)
    moreover have "rep ?s nil a t" using a(3) dd FL lab by (subst rep_cong [of t _ s]) auto
    moreover have "crep ?s nil root a pp ctx'" using a(10) dd FL lab by (subst crep_cong [of ctx' _ s]) auto
    ultimately show ?thesis using a Cons FL lab by (auto simp: cell_def same_out_def)
  next
    case (FR t lab)
    obtain a k co where lab: "lab = (a, k, co)" by (cases lab) auto
    obtain pp na where a: "par = a" "a \<noteq> nil" "rep s nil a t" "s a = Some na" "rb_key na = k" "(rb_color na \<noteq> 0) = co"
      "rb_parent na = pp" "rb_right na = x" "rb_left na = adr nil t" "crep s nil root a pp ctx'"
      using c Cons FR lab by (auto simp: cell_def)
    have "adr nil t \<noteq> x"
      using x(3,4) adr_in [of nil t] Cons FR by auto
    let ?s = "s(a \<mapsto> na\<lparr>rb_right := y\<rparr>)"
    have "rehang s root x y = Some (?s, root)"
      using r x a \<open>adr nil t \<noteq> x\<close> by (simp add: rehang_def fld_def set_defs upd_Some)
    moreover have "rep ?s nil a t" using a(3) dd FR lab by (subst rep_cong [of t _ s]) auto
    moreover have "crep ?s nil root a pp ctx'" using a(10) dd FR lab by (subst crep_cong [of ctx' _ s]) auto
    ultimately show ?thesis using a Cons FR lab by (auto simp: cell_def same_out_def)
  qed
qed

text \<open>Changing the parent of a subtree; the leaf is not written.\<close>

lemma reparent:
  assumes "rep s nil p t" and "distinct (adrs t)"
  shows "\<exists>s'. (if adr nil t \<noteq> nil then set_parent (adr nil t) q s else Some s) = Some s' \<and> rep s' nil q t \<and>
    same_out (set (adrs t)) s s'"
proof (cases t)
  case Leaf
  then show ?thesis by simp
next
  case (Node l x r)
  obtain a k c where x: "x = (a, k, c)" by (cases x) auto
  from assms Node x obtain n where n: "a \<noteq> nil" "s a = Some n" "rb_key n = k" "(rb_color n \<noteq> 0) = c"
    "rb_left n = adr nil l" "rb_right n = adr nil r" "rep s nil a l" "rep s nil a r" by (auto simp: cell_def)
  let ?s = "s(a \<mapsto> n\<lparr>rb_parent := q\<rparr>)"
  have "rep ?s nil a l" "rep ?s nil a r" using n(7,8) assms(2) Node x by simp_all
  then show ?thesis using n Node x by (auto simp: set_defs upd_Some cell_def same_out_def)
qed

lemma left_rotate_rehang:
  "ngx_rbtree_left_rotate s root sentinel node = do {
     temp \<leftarrow> fld rb_right s node;
     tl \<leftarrow> fld rb_left s temp;
     s \<leftarrow> set_right node tl s;
     tl \<leftarrow> fld rb_left s temp;
     s \<leftarrow> (if tl \<noteq> sentinel then set_parent tl node s else Some s);
     np \<leftarrow> fld rb_parent s node;
     s \<leftarrow> set_parent temp np s;
     (s, root) \<leftarrow> rehang s root node temp;
     s \<leftarrow> set_left temp node s;
     s \<leftarrow> set_parent node temp s;
     Some (s, root)
   }"
  by (simp only: ngx_rbtree_left_rotate_def rehang_def)

lemma left_rotate_focus:
  assumes z: "focus s nil root (Node ta (x, kx, cx) (Node tb (y, ky, cy) tc)) ctx" (is "focus s nil root ?t ctx")
  shows "\<exists>s' root'. ngx_rbtree_left_rotate s root nil x = Some (s', root') \<and>
    focus s' nil root' (Node (Node ta (x, kx, cx) tb) (y, ky, cy) tc) ctx \<and> same_out (set (adrs (plug ctx ?t))) s s'"
  using z
proof (rule focusE)
  fix par sn
  let ?t' = "Node (Node ta (x, kx, cx) tb) (y, ky, cy) tc"
  assume p: "rep s nil par ?t" "crep s nil root (adr nil ?t) par ctx" "distinct (adrs ?t)"
    "set (adrs ?t) \<inter> cadrs ctx = {}" "s nil = Some sn" "rb_color sn = 0" "nil \<notin> set (adrs ?t)"
    "nil \<notin> cadrs ctx" "distinct (adrs (plug ctx ?t))"
  obtain nx ny where nx: "s x = Some nx" "rb_key nx = kx" "(rb_color nx \<noteq> 0) = cx" "rb_parent nx = par"
      "rb_left nx = adr nil ta" "rb_right nx = y" "x \<noteq> nil"
    and ny: "s y = Some ny" "rb_key ny = ky" "(rb_color ny \<noteq> 0) = cy" "rb_parent ny = x"
      "rb_left ny = adr nil tb" "rb_right ny = adr nil tc" "y \<noteq> nil"
    and sub: "rep s nil x ta" "rep s nil y tb" "rep s nil y tc"
    using p(1) by (auto simp: cell_def)
  have ne: "x \<noteq> y" and d: "x \<notin> set (adrs ta)" "x \<notin> set (adrs tb)" "x \<notin> set (adrs tc)" "y \<notin> set (adrs ta)"
      "y \<notin> set (adrs tb)" "y \<notin> set (adrs tc)" "distinct (adrs tb)" "x \<notin> cadrs ctx" "y \<notin> cadrs ctx"
    and dd: "set (adrs ta) \<inter> set (adrs tb) = {}" "set (adrs tb) \<inter> set (adrs tc) = {}"
      "set (adrs ta) \<inter> cadrs ctx = {}" "set (adrs tb) \<inter> cadrs ctx = {}" "set (adrs tc) \<inter> cadrs ctx = {}"
    using p(3,4) by auto
  define s1 where "s1 = s(x \<mapsto> nx\<lparr>rb_right := adr nil tb\<rparr>)"
  have "rep s1 nil y tb" using sub(2) d by (simp add: s1_def)
  then obtain s2 where s2: "(if adr nil tb \<noteq> nil then set_parent (adr nil tb) x s1 else Some s1) = Some s2"
    "rep s2 nil x tb" "same_out (set (adrs tb)) s1 s2" using reparent d(7) by blast
  have s2x: "s2 x = Some (nx\<lparr>rb_right := adr nil tb\<rparr>)" "s2 y = Some ny" "s2 nil = Some sn"
    using s2(3) d ne nx ny p(5,7) by (auto simp: same_out_def s1_def)
  define s3 where "s3 = s2(y \<mapsto> ny\<lparr>rb_parent := par\<rparr>)"
  have "crep s3 nil root x par ctx"
    using p(2) d dd crep_same_out [OF s2(3), of ctx] by (simp add: s3_def s1_def)
  moreover have "s3 x = Some (nx\<lparr>rb_right := adr nil tb\<rparr>)" using s2x ne by (simp add: s3_def)
  moreover have "distinct (adrs (plug ctx Leaf))" using p(9) by (auto simp: adrs_def inorder_plug)
  ultimately obtain s4 root' where s4: "rehang s3 root x y = Some (s4, root')" "crep s4 nil root' y par ctx"
    "same_out (cadrs ctx) s3 s4" using rehang_crep [of s3 nil root x par ctx _ y] nx d by fastforce
  have s4x: "s4 x = Some (nx\<lparr>rb_right := adr nil tb\<rparr>)" "s4 y = Some (ny\<lparr>rb_parent := par\<rparr>)" "s4 nil = Some sn"
    using s4(3) d s2x ne p(7,8) nx(7) ny(7) by (auto simp: same_out_def s3_def)
  define s5 where "s5 = s4(y \<mapsto> ny\<lparr>rb_parent := par, rb_left := x\<rparr>)"
  define s6 where "s6 = s5(x \<mapsto> nx\<lparr>rb_right := adr nil tb, rb_parent := y\<rparr>)"
  have e: "fld rb_right s x = Some y" "fld rb_left s y = Some (adr nil tb)" "set_right x (adr nil tb) s = Some s1"
      "fld rb_left s1 y = Some (adr nil tb)" "fld rb_parent s2 x = Some par" "set_parent y par s2 = Some s3"
      "set_left y x s4 = Some s5" "set_parent x y s5 = Some s6"
    using nx ny ne s2x s4x by (simp_all add: fld_def set_defs upd_Some s1_def s3_def s5_def s6_def)
  have "ngx_rbtree_left_rotate s root nil x = Some (s6, root')"
    unfolding left_rotate_rehang by (simp only: e s2(1) s4(1) bind.bind_lunit prod.case)
  moreover have "rep s6 nil par ?t'"
  proof -
    have o: "s6 a = s a" if "a \<in> set (adrs ta) \<union> set (adrs tc)" for a
    proof -
      have "a \<noteq> x" "a \<noteq> y" "a \<notin> set (adrs tb)" "a \<notin> cadrs ctx" using that d dd by auto
      then show ?thesis using s2(3) s4(3) by (simp add: s6_def s5_def s3_def s1_def same_out_def)
    qed
    have "s6 a = s2 a" if "a \<in> set (adrs tb)" for a
    proof -
      have "a \<noteq> x" "a \<noteq> y" "a \<notin> cadrs ctx" using that d dd by auto
      then show ?thesis using s4(3) by (simp add: s6_def s5_def s3_def same_out_def)
    qed
    then have "rep s6 nil x tb" using s2(2) rep_cong [of tb s6 s2] by blast
    moreover have "rep s6 nil x ta" using sub(1) o rep_cong [of ta s6 s] by blast
    moreover have "rep s6 nil y tc \<longleftrightarrow> rep s nil y tc" using o by (intro rep_cong) blast
    ultimately show ?thesis using sub(3) nx ny ne by (simp add: cell_def s6_def s5_def)
  qed
  moreover have "crep s6 nil root' y par ctx" using s4(2) d by (simp add: s6_def s5_def)
  moreover have "distinct (adrs (plug ctx ?t'))" using p(9) distinct_plug_same [of ?t ?t' ctx] by simp
  moreover have "s6 nil = Some sn" using s4x nx(7) ny(7) by (simp add: s6_def s5_def)
  moreover have "same_out (set (adrs (plug ctx ?t))) s s6"
    using s2(3) s4(3) unfolding same_out_def adrs_plug by (auto simp: s6_def s5_def s3_def s1_def)
  ultimately show ?thesis using p(6) by (auto intro: focusI)
qed

end
