(* ===== verification/Ngx_Rbtree_Mirror.thy ===== *)
theory Ngx_Rbtree_Mirror
  imports Ngx_Rbtree_Rep
begin

text \<open>
  The code for the right side is the mirror image of the code for the left side: exchanging the left and
  right pointers of every node turns one into the other. What is proved of the left rotation and of
  the left branches of the fixup loops carries over.
\<close>

definition mir :: "rheap \<Rightarrow> rheap" where
  "mir s = (\<lambda>a. map_option (\<lambda>n. n\<lparr>rb_left := rb_right n, rb_right := rb_left n\<rparr>) (s a))"

lemma mir_mir [simp]: "mir (mir s) = s"
  by (auto simp: mir_def fun_eq_iff option.map_comp option.map_ident_strong)

lemma mir_fld [simp]:
  "fld rb_left (mir s) x = fld rb_right s x" "fld rb_right (mir s) x = fld rb_left s x"
  "fld rb_parent (mir s) x = fld rb_parent s x" "fld rb_key (mir s) x = fld rb_key s x"
  "fld rb_color (mir s) x = fld rb_color s x"
  by (auto simp: fld_def mir_def option.map_comp comp_def)

lemma mir_upd: "(\<And>n. g (n\<lparr>rb_left := rb_right n, rb_right := rb_left n\<rparr>) =
      (f n)\<lparr>rb_left := rb_right (f n), rb_right := rb_left (f n)\<rparr>) \<Longrightarrow> upd x g (mir s) = map_option mir (upd x f s)"
  by (cases "s x") (auto simp: upd_def mir_def fun_eq_iff)

lemma mir_set [simp]:
  "set_left x v (mir s) = map_option mir (set_right x v s)"
  "set_right x v (mir s) = map_option mir (set_left x v s)"
  "set_parent x v (mir s) = map_option mir (set_parent x v s)"
  "ngx_rbt_red x (mir s) = map_option mir (ngx_rbt_red x s)"
  "ngx_rbt_black x (mir s) = map_option mir (ngx_rbt_black x s)"
  by (auto simp: set_defs intro!: mir_upd)

lemma mir_color [simp]: "ngx_rbt_is_red (mir s) x = ngx_rbt_is_red s x" "ngx_rbt_is_black (mir s) x = ngx_rbt_is_black s x"
  "ngx_rbt_copy_color a b (mir s) = map_option mir (ngx_rbt_copy_color a b s)"
  by (auto simp: ngx_rbt_is_black_def ngx_rbt_is_red_def fld_def mir_def ngx_rbt_copy_color_def option.map_comp comp_def
      bind_map_option map_conv_bind_option intro!: option.case_cong split: option.split) (cases "s b"; cases "s a"; auto simp: upd_def)+

abbreviation mir2 :: "rheap \<times> 'a \<Rightarrow> rheap \<times> 'a" where
  "mir2 \<equiv> map_prod mir id"

lemma bind_if: "Option.bind (if b then x else y) f = (if b then Option.bind x f else Option.bind y f)"
  by simp

lemma bind_mir: "Option.bind (map_option f x) g = Option.bind x (\<lambda>y. g (f y))"
  by (cases x) auto

lemma map_bind: "map_option f (Option.bind x g) = Option.bind x (\<lambda>y. map_option f (g y))"
  by (cases x) auto

lemmas mir_simps = bind_if bind_mir map_bind bind_assoc if_distrib [of "map_option f" for f] comp_def split_beta

lemma right_rotate_mir: "ngx_rbtree_right_rotate s root nil x = map_option mir2 (ngx_rbtree_left_rotate (mir s) root nil x)"
  unfolding ngx_rbtree_right_rotate_def ngx_rbtree_left_rotate_def
  by (simp add: mir_simps cong: if_cong)

lemma left_rotate_mir: "ngx_rbtree_left_rotate (mir s) root nil x = map_option mir2 (ngx_rbtree_right_rotate s root nil x)"
  by (simp add: right_rotate_mir option.map_comp comp_def prod.map_comp map_prod.identity option.map_ident)

lemma right_rotate_mir': "ngx_rbtree_right_rotate (mir s) root nil x = map_option mir2 (ngx_rbtree_left_rotate s root nil x)"
  by (simp add: right_rotate_mir)

lemma children_mir: "rb_children (mir s) w = map_option (\<lambda>(wl, wr, bl, br). (wr, wl, br, bl)) (rb_children s w)"
  by (cases "fld rb_left s w"; cases "fld rb_right s w"; cases "ngx_rbt_is_black s (the (fld rb_left s w))";
      cases "ngx_rbt_is_black s (the (fld rb_right s w))"; simp add: rb_children_def)

lemma insert_right_mir:
  "rb_insert_right s root nil node np npp = map_option mir2 (rb_insert_left (mir s) root nil node np npp)"
  unfolding rb_insert_right_def rb_insert_left_def case_prod_unfold map_prod_def
  by (simp add: mir_simps left_rotate_mir right_rotate_mir' Let_def cong: if_cong)

lemma delete_right_mir:
  "rb_delete_right s root nil temp tp = map_option mir2 (rb_delete_left (mir s) root nil temp tp)"
  unfolding rb_delete_right_def rb_delete_left_def case_prod_unfold map_prod_def
  by (simp add: mir_simps children_mir left_rotate_mir right_rotate_mir' Let_def conj_commute cong: if_cong)

section \<open>Mirrored trees\<close>

fun mirf :: "frame \<Rightarrow> frame" where
  "mirf (FL x r) = FR (mirror r) x"
| "mirf (FR l x) = FL x (mirror l)"

lemma adr_mirror [simp]: "adr nil (mirror t) = adr nil t"
  by (cases t) auto

lemma redt_mirror [simp]: "redt (mirror t) = redt t"
  by (cases t) auto

lemma cell_mir [simp]: "cell (mir s) a k c par l r \<longleftrightarrow> cell s a k c par r l"
  by (auto simp: cell_def mir_def)

lemma rep_mir [simp]: "rep (mir s) nil par (mirror t) \<longleftrightarrow> rep s nil par t"
  by (induction s nil par t rule: rep.induct) auto

lemma crep_mir [simp]: "crep (mir s) nil root p par (map mirf ctx) \<longleftrightarrow> crep s nil root p par ctx"
  by (induction s nil root p par ctx rule: crep.induct) auto

lemma plug_mir [simp]: "plug (map mirf ctx) (mirror t) = mirror (plug ctx t)"
proof (induction ctx arbitrary: t)
  case (Cons f ctx)
  then show ?case by (cases f) (simp_all flip: mirror.simps)
qed simp

lemma adrs_mirror [simp]: "adrs (mirror t) = rev (adrs t)"
  by (simp add: adrs_def inorder_mirror rev_map)

lemma focus_mir [simp]: "focus (mir s) nil root (mirror t) (map mirf ctx) \<longleftrightarrow> focus s nil root t ctx"
  by (simp add: focus_def)

lemma same_out_mir [simp]: "same_out A (mir s) (mir s') \<longleftrightarrow> same_out A s s'"
proof -
  have "mir s' a = mir s a \<longleftrightarrow> s' a = s a" for a
    by (metis mir_def mir_mir)
  then show ?thesis by (simp add: same_out_def)
qed

lemma mirf_mirf [simp]: "mirf (mirf f) = f"
  by (cases f) auto

lemma frame_lab_mirf [simp]: "frame_lab (mirf f) = frame_lab f"
  by (cases f) auto

lemma right_rotate_focus:
  assumes z: "focus s nil root (Node (Node ta (x, kx, cx) tb) (y, ky, cy) tc) ctx" (is "focus s nil root ?t ctx")
  shows "\<exists>s' root'. ngx_rbtree_right_rotate s root nil y = Some (s', root') \<and>
    focus s' nil root' (Node ta (x, kx, cx) (Node tb (y, ky, cy) tc)) ctx \<and> same_out (set (adrs (plug ctx ?t))) s s'"
proof -
  have "focus (mir s) nil root (Node (mirror tc) (y, ky, cy) (Node (mirror tb) (x, kx, cx) (mirror ta))) (map mirf ctx)"
    using z focus_mir [of s nil root ?t ctx] by simp
  from left_rotate_focus [OF this] obtain s1 root' where s1: "ngx_rbtree_left_rotate (mir s) root nil y = Some (s1, root')"
    "focus s1 nil root' (mirror (Node ta (x, kx, cx) (Node tb (y, ky, cy) tc))) (map mirf ctx)"
    "same_out (set (adrs (plug (map mirf ctx) (mirror ?t)))) (mir s) s1" by auto
  then have "focus (mir s1) nil root' (Node ta (x, kx, cx) (Node tb (y, ky, cy) tc)) ctx"
    using focus_mir [of "mir s1" nil root' "Node ta (x, kx, cx) (Node tb (y, ky, cy) tc)" ctx] by simp
  moreover have "same_out (set (adrs (plug ctx ?t))) s (mir s1)"
    using s1(3) same_out_mir [of _ s "mir s1"] unfolding plug_mir by simp
  ultimately show ?thesis using s1(1) by (auto simp: right_rotate_mir)
qed

end
