(* ===== verification/Ngx_Rbtree_Insert.thy ===== *)
theory Ngx_Rbtree_Insert
  imports Ngx_Rbtree_Mirror
begin

text \<open>
  Insertion: the rebalancing loop terminates without a fault and restores the red-black invariant, for
  every place the new node is attached at.
\<close>

section \<open>Reading at the focus\<close>

lemma focus_red: "focus s nil root t ctx \<Longrightarrow> ngx_rbt_is_red s (adr nil t) = Some (redt t)"
  by (cases t rule: redt.cases) (auto simp: focus_def cell_def ngx_rbt_is_red_def fld_def)

lemma focus_fld:
  assumes "focus s nil root (Node l (a, k, c) r) ctx"
  shows "fld rb_left s a = Some (adr nil l)" and "fld rb_right s a = Some (adr nil r)" and "fld rb_key s a = Some k"
    and "a \<noteq> nil"
  using focus_cell [OF assms] by (auto simp: fld_def)

lemma focus_parent: "focus s nil root (Node l (a, k, c) r) (f # ctx) \<Longrightarrow> fld rb_parent s a = Some (fst (frame_lab f))"
  by (cases f) (auto simp: focus_def cell_def fld_def)

lemma focus_root: "focus s nil root t [] \<Longrightarrow> root = adr nil t"
  by (simp add: focus_def)

lemma focus_not_root:
  assumes "focus s nil root (Node l (a, k, c) r) (f # ctx)"
  shows "a \<noteq> root"
  using assms
proof (rule focusE)
  fix par
  assume "crep s nil root (adr nil (Node l (a, k, c) r)) par (f # ctx)"
    "set (adrs (Node l (a, k, c) r)) \<inter> cadrs (f # ctx) = {}"
  then show ?thesis using crep_root_in [of s nil root a par "f # ctx"] by auto
qed

lemma focus_distinct: "focus s nil root t ctx \<Longrightarrow> distinct (adrs (plug ctx t)) \<and> nil \<notin> set (adrs (plug ctx t))"
  by (auto elim!: focusE simp: adrs_plug)

text \<open>Painting the parent.\<close>

fun recol :: "bool \<Rightarrow> frame \<Rightarrow> frame" where
  "recol b (FL (a, k, c) r) = FL (a, k, b) r"
| "recol b (FR l (a, k, c)) = FR l (a, k, b)"

fun recolt :: "bool \<Rightarrow> lab tree \<Rightarrow> lab tree" where
  "recolt b Leaf = Leaf"
| "recolt b (Node l (a, k, c) r) = Node l (a, k, b) r"

lemma paint_parent:
  assumes "focus s nil root t (f # ctx)"
  shows "\<exists>s'. ngx_rbt_black (fst (frame_lab f)) s = Some s' \<and> focus s' nil root t (recol False f # ctx) \<and>
      same_out {fst (frame_lab f)} s s'"
    and "\<exists>s'. ngx_rbt_red (fst (frame_lab f)) s = Some s' \<and> focus s' nil root t (recol True f # ctx) \<and>
      same_out {fst (frame_lab f)} s s'"
proof -
  obtain a k c where "frame_lab f = (a, k, c)" by (cases "frame_lab f") auto
  then show "\<exists>s'. ngx_rbt_black (fst (frame_lab f)) s = Some s' \<and> focus s' nil root t (recol False f # ctx) \<and>
      same_out {fst (frame_lab f)} s s'"
    and "\<exists>s'. ngx_rbt_red (fst (frame_lab f)) s = Some s' \<and> focus s' nil root t (recol True f # ctx) \<and>
      same_out {fst (frame_lab f)} s s'"
    using assms paint_focus [of s nil root _ a k c _ ctx] by (cases f; auto simp: focus_up_down)+
qed

lemma paint_tree:
  assumes "focus s nil root t ctx" and "t \<noteq> Leaf"
  shows "\<exists>s'. ngx_rbt_black (adr nil t) s = Some s' \<and> focus s' nil root (recolt False t) ctx \<and> same_out {adr nil t} s s'"
    and "\<exists>s'. ngx_rbt_red (adr nil t) s = Some s' \<and> focus s' nil root (recolt True t) ctx \<and> same_out {adr nil t} s s'"
  using assms paint_focus [of s nil root _ _ _ _ _ ctx] by (cases t rule: redt.cases; auto)+

section \<open>The invariant\<close>

fun invc :: "lab tree \<Rightarrow> bool" where
  "invc Leaf \<longleftrightarrow> True"
| "invc (Node l (a, k, c) r) \<longleftrightarrow> (c \<longrightarrow> \<not> redt l \<and> \<not> redt r) \<and> invc l \<and> invc r"

fun bh :: "lab tree \<Rightarrow> nat" where
  "bh Leaf = 0"
| "bh (Node l (a, k, c) r) = bh l + (if c then 0 else 1)"

fun invh :: "lab tree \<Rightarrow> bool" where
  "invh Leaf \<longleftrightarrow> True"
| "invh (Node l x r) \<longleftrightarrow> bh l = bh r \<and> invh l \<and> invh r"

definition ents :: "lab tree \<Rightarrow> (ptr \<times> u64) list" where
  "ents t = map (\<lambda>(a, k, c). (a, k)) (inorder t)"

lemma ents_simps [simp]: "ents Leaf = []" "ents (Node l (a, k, c) r) = ents l @ (a, k) # ents r"
  by (simp_all add: ents_def)

fun sib :: "frame \<Rightarrow> lab tree" where
  "sib (FL x r) = r"
| "sib (FR l x) = l"

fun cc :: "frame list \<Rightarrow> bool \<Rightarrow> bool" where
  "cc [] red \<longleftrightarrow> True"
| "cc (f # ctx) red \<longleftrightarrow> (frame_red f \<longrightarrow> \<not> red \<and> \<not> redt (sib f)) \<and> invc (sib f) \<and> cc ctx (frame_red f)"

fun ch :: "frame list \<Rightarrow> nat \<Rightarrow> bool" where
  "ch [] h \<longleftrightarrow> True"
| "ch (f # ctx) h \<longleftrightarrow> invh (sib f) \<and> bh (sib f) = h \<and> ch ctx (h + (if frame_red f then 0 else 1))"

lemma invc_plug: "invc (plug ctx t) \<longleftrightarrow> invc t \<and> cc ctx (redt t)"
proof (induction ctx arbitrary: t)
  case (Cons f ctx)
  obtain a k c where "frame_lab f = (a, k, c)" by (cases "frame_lab f") auto
  then show ?case using Cons.IH [of "plug1 f t"] by (cases f) auto
qed simp

lemma invh_plug: "invh (plug ctx t) \<longleftrightarrow> invh t \<and> ch ctx (bh t)"
proof (induction ctx arbitrary: t)
  case (Cons f ctx)
  obtain a k c where "frame_lab f = (a, k, c)" by (cases "frame_lab f") auto
  then show ?case using Cons.IH [of "plug1 f t"] by (cases f) auto
qed simp

lemma ents_plug_cong: "ents t = ents t' \<Longrightarrow> ents (plug ctx t) = ents (plug ctx t')"
  by (simp add: ents_def inorder_plug)

lemma adrs_ents: "adrs t = map fst (ents t)"
  by (simp add: adrs_def ents_def comp_def split_beta)

lemma invc_mirror [simp]: "invc (mirror t) \<longleftrightarrow> invc t"
  by (induction t rule: invc.induct) auto

lemma invh_mirror: "invh t \<Longrightarrow> invh (mirror t) \<and> bh (mirror t) = bh t"
  by (induction t rule: invc.induct) auto

lemma ents_mirror [simp]: "ents (mirror t) = rev (ents t)"
  by (simp add: ents_def inorder_mirror rev_map)

lemma sib_mirf [simp]: "sib (mirf f) = mirror (sib f)"
  by (cases f) auto

lemma cc_mir [simp]: "cc (map mirf ctx) red \<longleftrightarrow> cc ctx red"
  by (induction ctx red rule: cc.induct) auto

lemma ch_mir: "ch ctx h \<Longrightarrow> ch (map mirf ctx) h"
  by (induction ctx h rule: ch.induct) (auto simp: invh_mirror)

section \<open>One round of the loop\<close>

text \<open>The subtree after the round: its root is the node the loop goes on with, or is black.\<close>

definition ins_ok :: "rheap \<Rightarrow> ptr \<Rightarrow> ptr \<Rightarrow> ptr \<Rightarrow> lab tree \<Rightarrow> frame list \<Rightarrow> lab tree \<Rightarrow> bool" where
  "ins_ok s nil root node X ctx Y \<longleftrightarrow> invc X \<and> invh X \<and> bh X = bh Y \<and> ents X = ents Y \<and> focus s nil root X ctx \<and>
     (node = adr nil X \<and> redt X \<or>
      (\<exists>f' t'. X = plug1 f' t' \<and> node = adr nil t' \<and> t' \<noteq> Leaf \<and> \<not> frame_red f'))"

lemma insert_red_uncle:
  assumes z: "focus s nil root t (f # FL (g, kg, False) u # ctx)" and f: "frame_red f" and t: "redt t" "invc t" "invh t"
    and c: "cc (f # FL (g, kg, False) u # ctx) False" "ch (f # FL (g, kg, False) u # ctx) (bh t)" and u: "redt u"
  shows "\<exists>s' X. rb_insert_left s root nil (adr nil t) (fst (frame_lab f)) g = Some (s', root, g) \<and>
    ins_ok s' nil root g X ctx (plug1 (FL (g, kg, False) u) (plug1 f t)) \<and>
    same_out (set (adrs (plug (f # FL (g, kg, False) u # ctx) t))) s s'"
proof -
  obtain p kp where lab: "frame_lab f = (p, kp, True)" using f by (cases "frame_lab f") auto
  obtain ul ua ku ur where ud: "u = Node ul (ua, ku, True) ur" using u by (cases u rule: redt.cases) auto
  have zg: "focus s nil root (Node (plug1 f t) (g, kg, False) u) ctx" using z by (cases f) (simp_all add: focus_up_down)
  have zu: "focus s nil root u (FR (plug1 f t) (g, kg, False) # ctx)" using zg by (simp add: focus_up_down)
  obtain s1 where s1: "ngx_rbt_black p s = Some s1" "focus s1 nil root t (recol False f # FL (g, kg, False) u # ctx)"
    "same_out {p} s s1" using paint_parent(1) [OF z] lab by auto
  have "focus s1 nil root u (FR (plug1 (recol False f) t) (g, kg, False) # ctx)"
    using s1(2) by (cases "recol False f") (simp_all add: focus_up_down)
  then obtain s2 where s2: "ngx_rbt_black (adr nil u) s1 = Some s2"
    "focus s2 nil root (recolt False u) (FR (plug1 (recol False f) t) (g, kg, False) # ctx)" "same_out {adr nil u} s1 s2"
    using paint_tree(1) [of s1 nil root u] ud by blast
  obtain s3 where s3: "ngx_rbt_red g s2 = Some s3"
    "focus s3 nil root (recolt False u) (FR (plug1 (recol False f) t) (g, kg, True) # ctx)" "same_out {g} s2 s3"
    using paint_parent(2) [OF s2(2)] by auto
  let ?X = "Node (plug1 (recol False f) t) (g, kg, True) (recolt False u)"
  have "rb_insert_left s root nil (adr nil t) p g = Some (s3, root, g)"
    unfolding rb_insert_left_def focus_fld(2) [OF zg]
    using focus_red [OF zu] u s1(1) s2(1) s3(1) by simp
  moreover have "ins_ok s3 nil root g ?X ctx (plug1 (FL (g, kg, False) u) (plug1 f t))"
    using s3(2) t c f lab ud by (cases f) (auto simp: ins_ok_def focus_up_down)
  moreover have "same_out (set (adrs (plug (f # FL (g, kg, False) u # ctx) t))) s s3"
    using s1(3) s2(3) s3(3) lab ud by (cases f) (auto simp: same_out_def adrs_plug)
  ultimately show ?thesis using lab by auto
qed

lemma insert_left_left:
  assumes z: "focus s nil root t (FL (p, kp, True) pr # FL (g, kg, False) u # ctx)" and t: "redt t" "invc t" "invh t"
    and c: "cc (FL (p, kp, True) pr # FL (g, kg, False) u # ctx) False" "ch (FL (p, kp, True) pr # FL (g, kg, False) u # ctx) (bh t)"
    and u: "\<not> redt u"
  shows "\<exists>s' root' X. rb_insert_left s root nil (adr nil t) p g = Some (s', root', adr nil t) \<and>
    ins_ok s' nil root' (adr nil t) X ctx (plug1 (FL (g, kg, False) u) (plug1 (FL (p, kp, True) pr) t)) \<and>
    same_out (set (adrs (plug (FL (p, kp, True) pr # FL (g, kg, False) u # ctx) t))) s s'"
proof -
  obtain tl n kn tr where td: "t = Node tl (n, kn, True) tr" using t(1) by (cases t rule: redt.cases) auto
  have zp: "focus s nil root (Node t (p, kp, True) pr) (FL (g, kg, False) u # ctx)" using z by (simp add: focus_up_down)
  have zg: "focus s nil root (Node (Node t (p, kp, True) pr) (g, kg, False) u) ctx" using zp by (simp add: focus_up_down)
  have zu: "focus s nil root u (FR (Node t (p, kp, True) pr) (g, kg, False) # ctx)" using zg by (simp add: focus_up_down)
  have "n \<noteq> adr nil pr"
    using focus_distinct [OF z] adr_in [of nil pr] td by (auto simp: adrs_plug dest: distinct_plug)
  obtain s1 where s1: "ngx_rbt_black p s = Some s1" "focus s1 nil root (Node t (p, kp, False) pr) (FL (g, kg, False) u # ctx)"
    "same_out {p} s s1" using paint_focus(1) [OF zp] by auto
  obtain s2 where s2: "ngx_rbt_red g s1 = Some s2" "focus s2 nil root (Node t (p, kp, False) pr) (FL (g, kg, True) u # ctx)"
    "same_out {g} s1 s2" using paint_parent(2) [OF s1(2)] by auto
  obtain s3 root' where s3: "ngx_rbtree_right_rotate s2 root nil g = Some (s3, root')"
    "focus s3 nil root' (Node t (p, kp, False) (Node pr (g, kg, True) u)) ctx"
    "same_out (set (adrs (plug ctx (Node (Node t (p, kp, False) pr) (g, kg, True) u)))) s2 s3"
    using right_rotate_focus s2(2) unfolding focus_up_down by blast
  have "rb_insert_left s root nil n p g = Some (s3, root', n)"
    unfolding rb_insert_left_def focus_fld(2) [OF zg] focus_fld(2) [OF zp]
    using focus_red [OF zu] u s1(1) s2(1) s3(1) \<open>n \<noteq> adr nil pr\<close> focus_parent [of s nil root tl n kn True tr] z td
      focus_parent [OF s1(2)] by simp
  moreover have "ins_ok s3 nil root' n (Node t (p, kp, False) (Node pr (g, kg, True) u)) ctx
      (plug1 (FL (g, kg, False) u) (plug1 (FL (p, kp, True) pr) t))"
    using s3(2) t c u td unfolding ins_ok_def
    by (auto intro!: exI [of _ "FL (p, kp, False) (Node pr (g, kg, True) u)"] exI [of _ t])
  moreover have "same_out (set (adrs (plug (FL (p, kp, True) pr # FL (g, kg, False) u # ctx) t))) s s3"
    using s1(3) s2(3) s3(3) by (auto simp: same_out_def adrs_plug)
  ultimately show ?thesis using td by auto
qed

lemma insert_left_right:
  assumes z: "focus s nil root t (FR pl (p, kp, True) # FL (g, kg, False) u # ctx)" and t: "redt t" "invc t" "invh t"
    and c: "cc (FR pl (p, kp, True) # FL (g, kg, False) u # ctx) False" "ch (FR pl (p, kp, True) # FL (g, kg, False) u # ctx) (bh t)"
    and u: "\<not> redt u"
  shows "\<exists>s' root' X. rb_insert_left s root nil (adr nil t) p g = Some (s', root', p) \<and>
    ins_ok s' nil root' p X ctx (plug1 (FL (g, kg, False) u) (plug1 (FR pl (p, kp, True)) t)) \<and>
    same_out (set (adrs (plug (FR pl (p, kp, True) # FL (g, kg, False) u # ctx) t))) s s'"
proof -
  obtain tl n kn tr where td: "t = Node tl (n, kn, True) tr" using t(1) by (cases t rule: redt.cases) auto
  have zp: "focus s nil root (Node pl (p, kp, True) t) (FL (g, kg, False) u # ctx)" using z by (simp add: focus_up_down)
  have zg: "focus s nil root (Node (Node pl (p, kp, True) t) (g, kg, False) u) ctx" using zp by (simp add: focus_up_down)
  have zu: "focus s nil root u (FR (Node pl (p, kp, True) t) (g, kg, False) # ctx)" using zg by (simp add: focus_up_down)
  obtain s0 root0 where s0: "ngx_rbtree_left_rotate s root nil p = Some (s0, root0)"
    "focus s0 nil root0 (Node (Node pl (p, kp, True) tl) (n, kn, True) tr) (FL (g, kg, False) u # ctx)"
    "same_out (set (adrs (plug (FL (g, kg, False) u # ctx) (Node pl (p, kp, True) t)))) s s0"
    using left_rotate_focus [of s nil root pl p kp True tl n kn True tr] zp td by blast
  have zp0: "focus s0 nil root0 (Node pl (p, kp, True) tl) (FL (n, kn, True) tr # FL (g, kg, False) u # ctx)"
    using s0(2) by (simp add: focus_up_down)
  obtain s1 where s1: "ngx_rbt_black n s0 = Some s1"
    "focus s1 nil root0 (Node (Node pl (p, kp, True) tl) (n, kn, False) tr) (FL (g, kg, False) u # ctx)"
    "same_out {n} s0 s1" using paint_focus(1) [OF s0(2)] by auto
  obtain s2 where s2: "ngx_rbt_red g s1 = Some s2"
    "focus s2 nil root0 (Node (Node pl (p, kp, True) tl) (n, kn, False) tr) (FL (g, kg, True) u # ctx)"
    "same_out {g} s1 s2" using paint_parent(2) [OF s1(2)] by auto
  obtain s3 root' where s3: "ngx_rbtree_right_rotate s2 root0 nil g = Some (s3, root')"
    "focus s3 nil root' (Node (Node pl (p, kp, True) tl) (n, kn, False) (Node tr (g, kg, True) u)) ctx"
    "same_out (set (adrs (plug ctx (Node (Node (Node pl (p, kp, True) tl) (n, kn, False) tr) (g, kg, True) u)))) s2 s3"
    using right_rotate_focus s2(2) unfolding focus_up_down by blast
  have "rb_insert_left s root nil n p g = Some (s3, root', p)"
    unfolding rb_insert_left_def focus_fld(2) [OF zg] focus_fld(2) [OF zp]
    using focus_red [OF zu] u s0(1) s1(1) s2(1) s3(1) td focus_parent [OF zp0] focus_parent [OF s1(2)] by simp
  moreover have "ins_ok s3 nil root' p (Node (Node pl (p, kp, True) tl) (n, kn, False) (Node tr (g, kg, True) u)) ctx
      (plug1 (FL (g, kg, False) u) (plug1 (FR pl (p, kp, True)) t))"
    using s3(2) t c u td unfolding ins_ok_def
    by (auto intro!: exI [of _ "FL (n, kn, False) (Node tr (g, kg, True) u)"] exI [of _ "Node pl (p, kp, True) tl"])
  moreover have "same_out (set (adrs (plug (FR pl (p, kp, True) # FL (g, kg, False) u # ctx) t))) s s3"
    using s0(3) s1(3) s2(3) s3(3) td by (auto simp: same_out_def adrs_plug)
  ultimately show ?thesis using td by auto
qed

lemma insert_left_step:
  assumes z: "focus s nil root t (f # FL (g, kg, False) u # ctx)" and f: "frame_red f" and t: "redt t" "invc t" "invh t"
    and c: "cc (f # FL (g, kg, False) u # ctx) False" "ch (f # FL (g, kg, False) u # ctx) (bh t)"
  shows "\<exists>s' root' node' X. rb_insert_left s root nil (adr nil t) (fst (frame_lab f)) g = Some (s', root', node') \<and>
    ins_ok s' nil root' node' X ctx (plug1 (FL (g, kg, False) u) (plug1 f t)) \<and>
    same_out (set (adrs (plug (f # FL (g, kg, False) u # ctx) t))) s s'"
proof (cases "redt u")
  case True
  then show ?thesis using insert_red_uncle [OF assms] by blast
next
  case False
  obtain p kp where lab: "frame_lab f = (p, kp, True)" using f by (cases "frame_lab f") auto
  show ?thesis
  proof (cases f)
    case (FL x r)
    then show ?thesis using insert_left_left [of s nil root t p kp r g kg u ctx] assms lab False by fastforce
  next
    case (FR l x)
    then show ?thesis using insert_left_right [of s nil root t l p kp g kg u ctx] assms lab False by fastforce
  qed
qed

lemma plug1_mirf: "plug1 (mirf f) (mirror t) = mirror (plug1 f t)"
  by (cases f) auto

lemma ins_ok_mir:
  assumes "ins_ok s nil root node X (map mirf ctx) (mirror Y)" and "invh Y"
  shows "ins_ok (mir s) nil root node (mirror X) ctx Y"
proof -
  have x: "invc X" "invh X" "bh X = bh (mirror Y)" "ents X = ents (mirror Y)" "focus s nil root X (map mirf ctx)"
    and d: "node = adr nil X \<and> redt X \<or> (\<exists>f' t'. X = plug1 f' t' \<and> node = adr nil t' \<and> t' \<noteq> Leaf \<and> \<not> frame_red f')"
    using assms(1) by (auto simp: ins_ok_def)
  have "focus (mir s) nil root (mirror X) ctx" using x(5) focus_mir [of "mir s" nil root "mirror X" ctx] by simp
  moreover have "ents (mirror X) = ents Y" using x(4) by simp
  moreover have "\<exists>f'' t''. mirror (plug1 f' t') = plug1 f'' t'' \<and> adr nil t' = adr nil t'' \<and> t'' \<noteq> Leaf \<and> \<not> frame_red f''"
    if "t' \<noteq> Leaf" "\<not> frame_red f'" for f' t'
    using that by (intro exI [of _ "mirf f'"] exI [of _ "mirror t'"]) (simp add: plug1_mirf)
  ultimately show ?thesis using x(1-3) d invh_mirror [OF x(2)] invh_mirror [OF assms(2)]
    unfolding ins_ok_def by auto
qed

lemma insert_right_step:
  assumes z: "focus s nil root t (f # FR u (g, kg, False) # ctx)" and f: "frame_red f" and t: "redt t" "invc t" "invh t"
    and c: "cc (f # FR u (g, kg, False) # ctx) False" "ch (f # FR u (g, kg, False) # ctx) (bh t)"
  shows "\<exists>s' root' node' X. rb_insert_right s root nil (adr nil t) (fst (frame_lab f)) g = Some (s', root', node') \<and>
    ins_ok s' nil root' node' X ctx (plug1 (FR u (g, kg, False)) (plug1 f t)) \<and>
    same_out (set (adrs (plug (f # FR u (g, kg, False) # ctx) t))) s s'"
proof -
  let ?m = "map mirf (f # FR u (g, kg, False) # ctx)" and ?Y = "plug1 (FR u (g, kg, False)) (plug1 f t)"
  have m: "?m = mirf f # FL (g, kg, False) (mirror u) # map mirf ctx" by simp
  have F: "focus (mir s) nil root (mirror t) ?m" using z by (simp only: focus_mir)
  have CC: "cc ?m False" using c(1) by (simp only: cc_mir)
  have CH: "ch ?m (bh (mirror t))" using ch_mir [OF c(2)] invh_mirror [OF t(3)] by simp
  from insert_left_step [OF F [unfolded m] _ _ _ _ CC [unfolded m] CH [unfolded m]] f t invh_mirror [OF t(3)]
  obtain s1 root' node' X where s1: "rb_insert_left (mir s) root nil (adr nil t) (fst (frame_lab f)) g = Some (s1, root', node')"
    "ins_ok s1 nil root' node' X (map mirf ctx) (plug1 (FL (g, kg, False) (mirror u)) (plug1 (mirf f) (mirror t)))"
    "same_out (set (adrs (plug ?m (mirror t)))) (mir s) s1"
    by auto
  have y: "plug1 (FL (g, kg, False) (mirror u)) (plug1 (mirf f) (mirror t)) = mirror ?Y" by (simp add: plug1_mirf)
  have "invh (plug [f, FR u (g, kg, False)] t)" using t(3) c(2) unfolding invh_plug by simp
  then have "ins_ok (mir s1) nil root' node' (mirror X) ctx ?Y" using ins_ok_mir s1(2) unfolding y by simp
  moreover have "same_out (set (adrs (plug (f # FR u (g, kg, False) # ctx) t))) s (mir s1)"
    using s1(3) same_out_mir [of _ s "mir s1"] unfolding plug_mir by simp
  ultimately show ?thesis using s1(1) by (auto simp: insert_right_mir)
qed

section \<open>The loop\<close>

lemma fixup_stops:
  assumes z: "focus s nil root t ctx" and t: "t \<noteq> Leaf" and c: "ctx = [] \<or> \<not> frame_red (hd ctx)"
  shows "rb_insert_fixup s root nil (adr nil t) = Some (s, root)"
proof (cases ctx)
  case Nil
  then show ?thesis using focus_root [of s nil root t] z by (subst rb_insert_fixup.simps) simp
next
  case (Cons f ctx')
  obtain l a k co r where td: "t = Node l (a, k, co) r" using t by (cases t rule: redt.cases) auto
  have "focus s nil root (plug1 f t) ctx'" using z Cons by (cases f) (simp_all add: focus_up_down)
  moreover obtain p kp where "frame_lab f = (p, kp, False)" using c Cons by (cases "frame_lab f") auto
  ultimately have "ngx_rbt_is_red s p = Some False" using focus_red [of s nil root "plug1 f t" ctx'] by (cases f) auto
  then show ?thesis
    using focus_parent [of s nil root l a k co r f ctx'] focus_not_root [of s nil root l a k co r f ctx'] z Cons td
      \<open>frame_lab f = (p, kp, False)\<close>
    by (subst rb_insert_fixup.simps) simp
qed

lemma last_Cons2: "last (f # g # ctx) = last (g # ctx)"
  by simp

lemma insert_fixup_focus:
  assumes "focus s nil root t ctx" and "redt t" and "invc t" and "invh t" and "cc ctx False" and "ch ctx (bh t)"
    and "ctx \<noteq> [] \<longrightarrow> \<not> frame_red (last ctx)"
  shows "\<exists>s' root' T. rb_insert_fixup s root nil (adr nil t) = Some (s', root') \<and> focus s' nil root' T [] \<and>
    ents T = ents (plug ctx t) \<and> invc T \<and> invh T \<and> same_out (set (adrs (plug ctx t))) s s'"
  using assms
proof (induction "length ctx" arbitrary: s root t ctx rule: less_induct)
  case less
  note z = less.prems(1)
  have tl: "t \<noteq> Leaf" using less.prems(2) by auto
  show ?case
  proof (cases "ctx = [] \<or> \<not> frame_red (hd ctx)")
    case True
    have "cc ctx (redt t)" using True less.prems(5) by (cases ctx) auto
    then have "invc (plug ctx t)" "invh (plug ctx t)" using less.prems by (simp_all add: invc_plug invh_plug)
    then show ?thesis using fixup_stops [OF z tl True] z focus_plug [of s nil root t ctx]
      by (intro exI [of _ s] exI [of _ root] exI [of _ "plug ctx t"]) auto
  next
    case False
    then obtain f ctx1 where c1: "ctx = f # ctx1" and f: "frame_red f" by (cases ctx) auto
    obtain g ctx2 where c2: "ctx1 = g # ctx2" using less.prems(7) c1 f by (cases ctx1) auto
    have g: "\<not> frame_red g" using less.prems(5) c1 c2 f by auto
    obtain ga kg where gl: "frame_lab g = (ga, kg, False)" using g by (cases "frame_lab g") auto
    obtain p kp where pl: "frame_lab f = (p, kp, True)" using f by (cases "frame_lab f") auto
    have zf: "focus s nil root (plug1 f t) (g # ctx2)" using z c1 c2 by (cases f) (simp_all add: focus_up_down)
    have zg: "focus s nil root (plug1 g (plug1 f t)) ctx2" using zf by (cases g) (simp_all add: focus_up_down)
    have pr: "fld rb_parent s (adr nil t) = Some p"
      using focus_parent [of s nil root _ _ _ _ _ f ctx1] z c1 tl pl by (cases t rule: redt.cases) auto
    have nr: "adr nil t \<noteq> root"
      using focus_not_root [of s nil root _ _ _ _ _ f ctx1] z c1 tl by (cases t rule: redt.cases) auto
    have fp: "adr nil (plug1 f t) = p" "redt (plug1 f t)" using pl by (cases f; simp)+
    have red: "ngx_rbt_is_red s p = Some True" using focus_red [OF zf] fp by simp
    have gp: "fld rb_parent s p = Some ga" using focus_parent [of s nil root _ p kp True _ g ctx2] zf pl gl by (cases f) auto
    have "\<exists>s1 root1 node1 X. (if p = the (fld rb_left s ga) then rb_insert_left s root nil (adr nil t) p ga
          else rb_insert_right s root nil (adr nil t) p ga) = Some (s1, root1, node1) \<and>
        fld rb_left s ga \<noteq> None \<and>
        ins_ok s1 nil root1 node1 X ctx2 (plug1 g (plug1 f t)) \<and> same_out (set (adrs (plug ctx t))) s s1"
    proof (cases g)
      case (FL x u)
      then have "fld rb_left s ga = Some p" using focus_fld(1) [of s nil root "plug1 f t" ga kg False u ctx2] zg gl fp by auto
      then show ?thesis using insert_left_step [of s nil root t f ga kg u ctx2] less.prems c1 c2 FL gl f pl by auto
    next
      case (FR u x)
      have fl: "fld rb_left s ga = Some (adr nil u)" using focus_fld(1) [of s nil root u ga kg False "plug1 f t" ctx2] zg gl FR by auto
      moreover have "p \<noteq> adr nil u"
        using focus_distinct [OF zf] adr_in [of nil u] FR pl by (cases f) (auto simp: adrs_plug dest: distinct_plug)
      ultimately show ?thesis using insert_right_step [of s nil root t f u ga kg ctx2] less.prems c1 c2 FR gl f pl by auto
    qed
    then obtain s1 root1 node1 X where st: "(if p = the (fld rb_left s ga) then rb_insert_left s root nil (adr nil t) p ga
          else rb_insert_right s root nil (adr nil t) p ga) = Some (s1, root1, node1)" "fld rb_left s ga \<noteq> None"
        "ins_ok s1 nil root1 node1 X ctx2 (plug1 g (plug1 f t))" "same_out (set (adrs (plug ctx t))) s s1" by blast
    have it: "rb_insert_fixup s root nil (adr nil t) = rb_insert_fixup s1 root1 nil node1"
      using pr nr red gp st(1,2) by (subst rb_insert_fixup.simps) auto
    have x: "invc X" "invh X" "bh X = bh (plug1 g (plug1 f t))" "ents X = ents (plug1 g (plug1 f t))" "focus s1 nil root1 X ctx2"
      using st(3) by (auto simp: ins_ok_def)
    have en: "ents (plug ctx2 X) = ents (plug ctx t)" using ents_plug_cong [OF x(4), of ctx2] c1 c2 by simp
    have inv: "cc ctx2 False" "ch ctx2 (bh X)"
      using less.prems(5,6) c1 c2 gl pl x(3) by (cases f; cases g; auto)+
    have sa: "set (adrs (plug ctx2 X)) = set (adrs (plug ctx t))" using en by (simp add: adrs_ents)
    show ?thesis
    proof (cases "node1 = adr nil X \<and> redt X")
      case True
      have "ctx2 \<noteq> [] \<longrightarrow> \<not> frame_red (last ctx2)" using less.prems(7) c1 c2 by auto
      from less.hyps [OF _ x(5) _ x(1,2) inv this] True c1 c2
      obtain s' root' T where "rb_insert_fixup s1 root1 nil node1 = Some (s', root')" "focus s' nil root' T []"
        "ents T = ents (plug ctx2 X)" "invc T" "invh T" "same_out (set (adrs (plug ctx2 X))) s1 s'" by auto
      then show ?thesis using it en sa st(4) same_out_trans by (metis (no_types, lifting))
    next
      case False
      then obtain f' t' where X: "X = plug1 f' t'" "node1 = adr nil t'" "t' \<noteq> Leaf" "\<not> frame_red f'"
        using st(3) unfolding ins_ok_def by blast
      have "focus s1 nil root1 t' (f' # ctx2)" using x(5) X(1) by (cases f') (simp_all add: focus_up_down)
      then have "rb_insert_fixup s1 root1 nil node1 = Some (s1, root1)" using fixup_stops X by simp
      moreover have "\<not> redt X" using X by (cases f'; cases "frame_lab f'"; auto)
      then have "invc (plug ctx2 X)" "invh (plug ctx2 X)" using x inv by (simp_all add: invc_plug invh_plug)
      moreover have "focus s1 nil root1 (plug ctx2 X) []" using x(5) focus_plug by blast
      ultimately show ?thesis using it en st(4) by auto
    qed
  qed
qed

end
