(* ===== verification/Ngx_Rbtree_Search.thy ===== *)
theory Ngx_Rbtree_Search
  imports Ngx_Rbtree_Insert
begin

text \<open>
  The place where \<^verbatim>\<open>ngx_rbtree_insert_value\<close> and \<^verbatim>\<open>ngx_rbtree_insert_timer_value\<close> attach the new node, and
  the whole of \<^verbatim>\<open>ngx_rbtree_insert\<close> as an insertion into a sorted list. Both comparisons of keys are
  interpretations of one locale.
\<close>

section \<open>The search for the place\<close>

fun is_left :: "frame \<Rightarrow> bool" where
  "is_left (FL _ _) = True"
| "is_left (FR _ _) = False"

fun spot :: "(u64 \<Rightarrow> u64 \<Rightarrow> bool) \<Rightarrow> u64 \<Rightarrow> lab tree \<Rightarrow> frame list \<Rightarrow> frame list" where
  "spot lt nk Leaf ctx = ctx"
| "spot lt nk (Node l (a, k, c) r) ctx =
     (if lt nk k then spot lt nk l (FL (a, k, c) r # ctx) else spot lt nk r (FR l (a, k, c) # ctx))"

lemma spot_plug [simp]: "plug (spot lt nk t ctx) Leaf = plug ctx t"
  by (induction lt nk t ctx rule: spot.induct) auto

lemma spot_focus: "focus s nil root t ctx \<Longrightarrow> focus s nil root Leaf (spot lt nk t ctx)"
  using focus_plug [of s nil root t ctx] focus_plug [of s nil root Leaf "spot lt nk t ctx"] by simp

lemma spot_nonempty: "t \<noteq> Leaf \<or> ctx \<noteq> [] \<Longrightarrow> spot lt nk t ctx \<noteq> []"
  by (induction lt nk t ctx rule: spot.induct) auto

lemma descend_spot:
  assumes "focus s nil root t ctx" and "t \<noteq> Leaf" and "fld rb_key s node = Some nk"
  shows "rb_descend lt s (adr nil t) node nil =
    Some (fst (frame_lab (hd (spot lt nk t ctx))), is_left (hd (spot lt nk t ctx)))"
  using assms
proof (induction lt nk t ctx rule: spot.induct)
  case (2 lt nk l a k c r ctx)
  note f = focus_fld [OF 2(3)] and down = 2(3) [folded focus_up_down(1)] 2(3) [folded focus_up_down(2)]
  have leaf: "adr nil l = nil \<longleftrightarrow> l = Leaf" "adr nil r = nil \<longleftrightarrow> r = Leaf"
    using 2(3) rep_adr by (auto simp: focus_def)
  show ?case
  proof (cases "lt nk k")
    case True
    then show ?thesis using 2(1) [OF _ down(1)] 2(5) f leaf by (subst rb_descend.simps) (cases "l = Leaf"; simp)
  next
    case False
    then show ?thesis using 2(2) [OF _ down(2)] 2(5) f leaf by (subst rb_descend.simps) (cases "r = Leaf"; simp)
  qed
qed simp

lemma attach_focus:
  assumes z: "focus s nil root Leaf (f # ctx)" and n: "s node = Some n" "node \<noteq> nil" "node \<notin> cadrs (f # ctx)"
  shows "\<exists>s'. rb_attach s (fst (frame_lab f)) (is_left f) node nil = Some s' \<and>
    focus s' nil root (Node Leaf (node, rb_key n, True) Leaf) (f # ctx) \<and>
    same_out {node, fst (frame_lab f)} s s'"
  using z
proof (rule focusE)
  fix par sn
  assume p: "crep s nil root (adr nil Leaf) par (f # ctx)" "s nil = Some sn" "rb_color sn = 0" "nil \<notin> cadrs (f # ctx)"
    "distinct (adrs (plug (f # ctx) Leaf))"
  obtain a k c where lab: "frame_lab f = (a, k, c)" by (cases "frame_lab f") auto
  have "distinct (adrs (plug1 f Leaf)) \<and> set (adrs (plug1 f Leaf)) \<inter> cadrs ctx = {}"
    using p(5) distinct_plug [of ctx "plug1 f Leaf"] by simp
  then have d: "a \<notin> set (adrs (sib f))" "a \<notin> cadrs ctx" using lab by (cases f; auto)+
  have ne: "a \<noteq> node" "a \<noteq> nil" "node \<notin> set (adrs (sib f))" "node \<notin> cadrs ctx" using n(3) p(4) lab by (cases f; auto)+
  obtain na where na: "s a = Some na" using p(1) lab by (cases f) (auto simp: cell_def)
  let ?na = "if is_left f then na\<lparr>rb_left := node\<rparr> else na\<lparr>rb_right := node\<rparr>"
  let ?s = "s(a \<mapsto> ?na, node \<mapsto> n\<lparr>rb_parent := a, rb_left := nil, rb_right := nil, rb_color := 1\<rparr>)"
  have "rb_attach s a (is_left f) node nil = Some ?s"
    using n na ne by (cases f) (simp_all add: rb_attach_def set_defs upd_Some)
  moreover have "crep ?s nil root node a (f # ctx)"
    using p(1) na lab ne d by (cases f) (auto simp: cell_def)
  moreover have "distinct (adrs (plug (f # ctx) (Node Leaf (node, rb_key n, True) Leaf)))"
    using p(5) n(3) by (auto simp: adrs_def inorder_plug cadrs_def simp del: plug.simps)
  moreover have "?s nil = Some sn" using p(2) n(2) ne by simp
  ultimately show ?thesis using p(3) n lab
    by (intro exI [of _ ?s] conjI focusI [where par = a and sn = sn]) (auto simp: cell_def same_out_def)
qed

section \<open>A tree as a sorted list\<close>

text \<open>The red-black tree \<open>T\<close> is in the heap.\<close>

definition rbt :: "rheap \<Rightarrow> ngx_rbtree \<Rightarrow> lab tree \<Rightarrow> bool" where
  "rbt s tree T \<longleftrightarrow> focus s (rt_sentinel tree) (rt_root tree) T [] \<and> invc T \<and> invh T \<and> \<not> redt T"

definition insert_with ::
  "(u64 \<Rightarrow> u64 \<Rightarrow> bool) \<Rightarrow> rheap \<Rightarrow> ptr \<Rightarrow> ptr \<Rightarrow> ptr \<Rightarrow> rheap option"
where
  "insert_with lt s temp node sentinel = do {
     (temp, left) \<leftarrow> rb_descend lt s temp node sentinel;
     rb_attach s temp left node sentinel
   }"

lemma insert_with_eqs:
  "ngx_rbtree_insert_value = insert_with (<)" "ngx_rbtree_insert_timer_value = insert_with timer_less"
  by (intro ext, simp add: insert_with_def ngx_rbtree_insert_value_def ngx_rbtree_insert_timer_value_def)+

lemma redt_plug: "ctx \<noteq> [] \<Longrightarrow> redt (plug ctx t) \<longleftrightarrow> frame_red (last ctx)"
proof (induction ctx arbitrary: t)
  case (Cons f ctx)
  obtain a k c where "frame_lab f = (a, k, c)" by (cases "frame_lab f") auto
  then show ?case using Cons.IH by (cases "ctx = []"; cases f) auto
qed simp

lemma recolt_simps [simp]: "adr nil (recolt b t) = adr nil t" "ents (recolt b t) = ents t" "adrs (recolt b t) = adrs t"
  by (cases t rule: redt.cases; simp)+

lemma black_inv: "invc t \<Longrightarrow> invc (recolt False t)" "invh t \<Longrightarrow> invh (recolt False t)" "\<not> redt (recolt False t)"
  by (cases t rule: redt.cases; simp)+

text \<open>The new tree, whatever the comparison: the node is added at the place that the search finds.\<close>

lemma insert_at_spot:
  assumes r: "rbt s tree T" and n: "s node = Some n" "node \<noteq> rt_sentinel tree" "node \<notin> set (adrs T)"
  shows "\<exists>s' tree' T'. ngx_rbtree_insert (insert_with lt) s tree node = Some (s', tree') \<and> rbt s' tree' T' \<and>
    rt_sentinel tree' = rt_sentinel tree \<and> same_out (insert node (set (adrs T))) s s' \<and>
    ents T' = ents (plug (spot lt (rb_key n) T []) (Node Leaf (node, rb_key n, True) Leaf))"
proof (cases "T = Leaf")
  case True
  let ?nil = "rt_sentinel tree"
  let ?s = "s(node \<mapsto> n\<lparr>rb_parent := 0, rb_left := ?nil, rb_right := ?nil, rb_color := 0\<rparr>)"
  have z: "rt_root tree = ?nil" "focus s ?nil ?nil Leaf []" using r True by (auto simp: rbt_def focus_def)
  then have "ngx_rbtree_insert (insert_with lt) s tree node = Some (?s, tree\<lparr>rt_root := node\<rparr>)"
    using n by (simp add: ngx_rbtree_insert_def set_defs upd_Some Let_def)
  moreover have "focus ?s ?nil node (Node Leaf (node, rb_key n, False) Leaf) []"
    using z(2) n by (auto simp: focus_def cell_def ngx_rbt_is_red_def fld_def)
  ultimately show ?thesis using True
    by (intro exI [of _ ?s] exI [of _ "tree\<lparr>rt_root := node\<rparr>"] exI [of _ "Node Leaf (node, rb_key n, False) Leaf"])
      (auto simp: rbt_def same_out_def)
next
  case False
  let ?nil = "rt_sentinel tree" and ?ctx = "spot lt (rb_key n) T []" and ?N = "Node Leaf (node, rb_key n, True) Leaf"
  have z: "focus s ?nil (rt_root tree) T []" and inv: "invc T" "invh T" "\<not> redt T" using r by (auto simp: rbt_def)
  have root: "rt_root tree = adr ?nil T" "rt_root tree \<noteq> ?nil"
    using focus_root [OF z] z False rep_adr by (auto simp: focus_def)
  obtain f ctx where fc: "?ctx = f # ctx" using spot_nonempty [of T "[]" lt "rb_key n"] False by (cases ?ctx) auto
  have pl: "plug (f # ctx) Leaf = T" using spot_plug [of lt "rb_key n" T "[]"] fc by simp
  then have ca: "cadrs (f # ctx) = set (adrs T)" using adrs_plug [of "f # ctx" Leaf] by simp
  have key: "fld rb_key s node = Some (rb_key n)" using n by (simp add: fld_def)
  obtain s1 where s1: "insert_with lt s (rt_root tree) node ?nil = Some s1" "focus s1 ?nil (rt_root tree) ?N (f # ctx)"
    "same_out {node, fst (frame_lab f)} s s1"
    using attach_focus [of s ?nil "rt_root tree" f ctx node n] n ca spot_focus [OF z, of lt "rb_key n"] fc
      descend_spot [OF z False key, of lt] root(1) by (auto simp: insert_with_def)
  have "cc (f # ctx) False" "ch (f # ctx) 0" using inv pl invc_plug [of "f # ctx" Leaf] invh_plug [of "f # ctx" Leaf] by simp_all
  moreover have "\<not> frame_red (last (f # ctx))" using inv(3) pl redt_plug [of "f # ctx" Leaf] by simp
  ultimately obtain s2 root2 T2 where s2: "rb_insert_fixup s1 (rt_root tree) ?nil node = Some (s2, root2)"
    "focus s2 ?nil root2 T2 []" "ents T2 = ents (plug (f # ctx) ?N)" "invc T2" "invh T2"
    "same_out (set (adrs (plug (f # ctx) ?N))) s1 s2"
    using insert_fixup_focus [OF s1(2)] by auto
  have a2: "set (adrs (plug (f # ctx) ?N)) = insert node (set (adrs T))" using ca by (simp add: adrs_plug del: plug.simps)
  then have "set (adrs T2) = insert node (set (adrs T))" using s2(3) by (simp add: adrs_ents)
  then have "T2 \<noteq> Leaf" by auto
  then obtain s3 where s3: "ngx_rbt_black root2 s2 = Some s3" "focus s3 ?nil root2 (recolt False T2) []" "same_out {root2} s2 s3"
    using paint_tree(1) [OF s2(2)] focus_root [OF s2(2)] by auto
  have "root2 \<in> insert node (set (adrs T))"
    using focus_root [OF s2(2)] \<open>T2 \<noteq> Leaf\<close> \<open>set (adrs T2) = _\<close> by (cases T2 rule: redt.cases) auto
  moreover have "fst (frame_lab f) \<in> set (adrs T)" using ca by (cases f) auto
  ultimately have "same_out (insert node (set (adrs T))) s s3"
    using s1(3) s2(6) s3(3) unfolding a2
    by (meson empty_subsetI insert_subset insertI1 insertI2 same_out_mono same_out_trans)
  moreover have "ngx_rbtree_insert (insert_with lt) s tree node = Some (s3, tree\<lparr>rt_root := root2\<rparr>)"
    using root(2) s1(1) s2(1) s3(1) by (simp add: ngx_rbtree_insert_def)
  ultimately show ?thesis using s3(2) s2(3-5) black_inv [of T2] fc
    by (intro exI [of _ s3] exI [of _ "tree\<lparr>rt_root := root2\<rparr>"] exI [of _ "recolt False T2"]) (auto simp: rbt_def)
qed

section \<open>The order of the keys\<close>

text \<open>
  A comparison that agrees with a rank on the keys in use. \<^verbatim>\<open>ngx_rbtree_insert_value\<close> compares all keys;
  the comparison of timers is an order only on keys that lie within half the range of each other.
\<close>

definition key_sorted :: "(u64 \<Rightarrow> nat) \<Rightarrow> (ptr \<times> u64) list \<Rightarrow> bool" where
  "key_sorted rank xs \<longleftrightarrow> sorted (map (rank \<circ> snd) xs)"

definition insert_after :: "(u64 \<Rightarrow> nat) \<Rightarrow> ptr \<times> u64 \<Rightarrow> (ptr \<times> u64) list \<Rightarrow> (ptr \<times> u64) list" where
  "insert_after rank x xs = takeWhile (\<lambda>y. rank (snd y) \<le> rank (snd x)) xs @ x #
     dropWhile (\<lambda>y. rank (snd y) \<le> rank (snd x)) xs"

lemma insert_after_split:
  assumes "\<forall>y \<in> set xs. rank (snd y) \<le> rank (snd x)" and "\<forall>y \<in> set ys. rank (snd x) < rank (snd y)"
  shows "insert_after rank x (xs @ ys) = xs @ x # ys"
  using assms by (cases ys) (auto simp: insert_after_def takeWhile_append2 dropWhile_append2 takeWhile_eq_all_conv)

lemma set_insert_after [simp]: "set (insert_after rank x xs) = insert x (set xs)"
proof -
  have "set (takeWhile P xs) \<union> set (dropWhile P xs) = set xs" for P
    by (metis set_append takeWhile_dropWhile_id)
  then show ?thesis by (auto simp: insert_after_def)
qed

lemma insert_after_sorted:
  assumes "key_sorted rank xs"
  shows "key_sorted rank (insert_after rank x xs)"
proof -
  let ?P = "\<lambda>y. rank (snd y) \<le> rank (snd x)"
  define as bs where ab: "as = takeWhile ?P xs" "bs = dropWhile ?P xs"
  have xs: "xs = as @ bs" by (simp add: ab)
  have "sorted (map (rank \<circ> snd) as)" and s: "sorted (map (rank \<circ> snd) bs)"
    using assms unfolding key_sorted_def xs by (simp_all add: sorted_append)
  moreover have "\<forall>y \<in> set as. ?P y" using ab(1) set_takeWhileD by metis
  moreover have "\<forall>y \<in> set bs. rank (snd x) \<le> rank (snd y)"
  proof (cases bs)
    case (Cons z zs)
    then have "\<not> ?P z" using hd_dropWhile [of ?P xs] ab(2) by simp
    then show ?thesis using s Cons by auto
  qed simp
  ultimately show ?thesis
    unfolding key_sorted_def insert_after_def ab [symmetric] by (auto simp: sorted_append intro: order.trans)
qed

lemma ents_ball: "(\<forall>x \<in> set (inorder t). P (fst (snd x))) \<longleftrightarrow> (\<forall>y \<in> set (ents t). P (snd y))"
  by (simp add: ents_def split_beta)

locale key_order =
  fixes lt :: "u64 \<Rightarrow> u64 \<Rightarrow> bool" and rank :: "u64 \<Rightarrow> nat" and ok :: "u64 \<Rightarrow> bool"
  assumes lt_rank: "ok a \<Longrightarrow> ok b \<Longrightarrow> lt a b \<longleftrightarrow> rank a < rank b"
begin

lemma spot_sides:
  assumes "key_sorted rank (ents t)" and "\<forall>y \<in> set (ents t). ok (snd y)" and "ok nk"
    and "\<forall>x \<in> set (pre ctx). rank (fst (snd x)) \<le> rank nk" and "\<forall>x \<in> set (post ctx). rank nk < rank (fst (snd x))"
  shows "(\<forall>x \<in> set (pre (spot lt nk t ctx)). rank (fst (snd x)) \<le> rank nk) \<and>
    (\<forall>x \<in> set (post (spot lt nk t ctx)). rank nk < rank (fst (snd x)))"
  using assms
proof (induction t arbitrary: ctx)
  case (Node l x r)
  obtain a k c where x: "x = (a, k, c)" by (cases x) auto
  have lr: "key_sorted rank (ents l)" "key_sorted rank (ents r)" "\<forall>y \<in> set (ents l). rank (snd y) \<le> rank k"
    "\<forall>y \<in> set (ents r). rank k \<le> rank (snd y)" "lt nk k \<longleftrightarrow> rank nk < rank k"
    "\<forall>y \<in> set (ents l). ok (snd y)" "\<forall>y \<in> set (ents r). ok (snd y)"
    using Node.prems(1-3) x lt_rank [of nk k] by (auto simp: key_sorted_def sorted_append)
  have k: "rank nk < rank (fst (snd x))" if "x \<in> set (inorder r)" "rank nk < rank k" for x
    using lr(4) ents_ball [of r "\<lambda>y. rank k \<le> rank y"] that by fastforce
  have k': "rank (fst (snd x)) \<le> rank nk" if "x \<in> set (inorder l)" "rank k \<le> rank nk" for x
    using lr(3) ents_ball [of l "\<lambda>y. rank y \<le> rank k"] that by fastforce
  show ?case
  proof (cases "lt nk k")
    case True
    have "\<forall>x \<in> set (post (FL (a, k, c) r # ctx)). rank nk < rank (fst (snd x))"
    proof
      fix x assume "x \<in> set (post (FL (a, k, c) r # ctx))"
      then consider "x = (a, k, c)" | "x \<in> set (inorder r)" | "x \<in> set (post ctx)" by auto
      then show "rank nk < rank (fst (snd x))" using k lr(5) True Node.prems(5) by cases auto
    qed
    from Node.IH(1) [OF lr(1,6) Node.prems(3) _ this] Node.prems(4) show ?thesis
      unfolding x spot.simps pre.simps if_P [OF True] by blast
  next
    case False
    have "\<forall>x \<in> set (pre (FR l (a, k, c) # ctx)). rank (fst (snd x)) \<le> rank nk"
    proof
      fix x assume "x \<in> set (pre (FR l (a, k, c) # ctx))"
      then consider "x = (a, k, c)" | "x \<in> set (inorder l)" | "x \<in> set (pre ctx)" by auto
      then show "rank (fst (snd x)) \<le> rank nk" using k' lr(5) False Node.prems(4) by cases auto
    qed
    from Node.IH(2) [OF lr(2,7) Node.prems(3) this] Node.prems(5) show ?thesis
      unfolding x spot.simps post.simps if_not_P [OF False] by blast
  qed
qed simp

lemma insert_refines:
  assumes r: "rbt s tree T" and n: "s node = Some n" "node \<noteq> rt_sentinel tree" "node \<notin> set (adrs T)"
    and k: "key_sorted rank (ents T)" "\<forall>y \<in> set (ents T). ok (snd y)" "ok (rb_key n)"
  shows "\<exists>s' tree' T'. ngx_rbtree_insert (insert_with lt) s tree node = Some (s', tree') \<and> rbt s' tree' T' \<and>
    rt_sentinel tree' = rt_sentinel tree \<and> same_out (insert node (set (adrs T))) s s' \<and>
    ents T' = insert_after rank (node, rb_key n) (ents T)"
proof -
  let ?ctx = "spot lt (rb_key n) T []"
  let ?e = "map (\<lambda>(a, k, c). (a, k :: u64))"
  have "ents T = ?e (pre ?ctx) @ ?e (post ?ctx)"
    using spot_plug [of lt "rb_key n" T "[]"] inorder_plug [of ?ctx Leaf] by (simp add: ents_def)
  moreover have "ents (plug ?ctx (Node Leaf (node, rb_key n, True) Leaf)) = ?e (pre ?ctx) @ (node, rb_key n) # ?e (post ?ctx)"
    by (simp add: ents_def inorder_plug)
  ultimately have "ents (plug ?ctx (Node Leaf (node, rb_key n, True) Leaf)) = insert_after rank (node, rb_key n) (ents T)"
    using spot_sides [OF k, of "[]"] insert_after_split [of "?e (pre ?ctx)" rank "(node, rb_key n)" "?e (post ?ctx)"]
    by (fastforce simp: split_beta)
  then show ?thesis using insert_at_spot [OF r n, of lt] by simp
qed

end

interpretation by_value: key_order "(<)" unat "\<lambda>_. True"
  by unfold_locales (simp add: word_less_nat_alt)

text \<open>
  The keys of timers, counted from a time \<open>base\<close>: the comparison by difference is right as long as they lie
  within \<open>2\<^sup>6\<^sup>3\<close> milliseconds of each other.
\<close>

definition timer_rank :: "u64 \<Rightarrow> u64 \<Rightarrow> nat" where
  "timer_rank base k = unat (k - base)"

definition timer_near :: "u64 \<Rightarrow> u64 \<Rightarrow> bool" where
  "timer_near base k \<longleftrightarrow> timer_rank base k < 2 ^ 63"

lemma sint_neg: "sint (w :: u64) < 0 \<longleftrightarrow> 2 ^ 63 \<le> uint w"
proof -
  have "sint w < 0 \<longleftrightarrow> bit (uint w) 63" by (simp add: sint_uint signed_take_bit_negative_iff)
  also have "\<dots> \<longleftrightarrow> odd (uint w div 2 ^ 63)" by (simp add: bit_iff_odd)
  also have "\<dots> \<longleftrightarrow> 2 ^ 63 \<le> uint w"
  proof -
    have "0 \<le> uint w" "uint w < 2 * 2 ^ 63" using uint_lt2p [of w] by simp_all
    then have "uint w div 2 ^ 63 = (if 2 ^ 63 \<le> uint w then 1 else 0)"
      by (cases "2 ^ 63 \<le> uint w") (auto intro!: div_pos_pos_trivial int_div_pos_eq [of _ _ _ "uint w - 2 ^ 63"])
    then show ?thesis by simp
  qed
  finally show ?thesis .
qed

lemma mod_half:
  assumes "x < 2 ^ 63" and "y < 2 ^ 63" and "0 \<le> x" and "0 \<le> (y :: int)"
  shows "(x - y) mod 2 ^ 64 = (if x < y then x - y + 2 ^ 64 else x - y)"
proof (cases "x < y")
  case True
  have "(x - y) mod 2 ^ 64 = (x - y + 2 ^ 64) mod 2 ^ 64" by (rule mod_add_self2 [symmetric])
  also have "\<dots> = x - y + 2 ^ 64" using True assms by (intro mod_pos_pos_trivial) auto
  finally show ?thesis using True by simp
next
  case False
  then show ?thesis using assms by (auto intro!: mod_pos_pos_trivial)
qed

lemma upper_half:
  assumes "x < 2 ^ 63" and "y < 2 ^ 63" and "0 \<le> x" and "0 \<le> (y :: int)"
  shows "2 ^ 63 \<le> (x - y) mod 2 ^ 64 \<longleftrightarrow> x < y"
  unfolding mod_half [OF assms] using assms by auto

lemma unat_2p63: "unat (w :: u64) < 2 ^ 63 \<longleftrightarrow> uint w < 2 ^ 63"
proof -
  have "uint w = int (unat w)" by simp
  then show ?thesis by (simp only: of_nat_less_numeral_power_cancel_iff)
qed

lemma uint_sub_64: "uint (x - y :: u64) = (uint x - uint y) mod 2 ^ 64"
  by (simp add: uint_word_ariths)

lemma timer_less_near:
  assumes "timer_near base a" and "timer_near base b"
  shows "timer_less a b \<longleftrightarrow> timer_rank base a < timer_rank base b"
proof -
  let ?x = "a - base" and ?y = "b - base"
  have b: "uint ?x < 2 ^ 63" "uint ?y < 2 ^ 63" "0 \<le> uint ?x" "0 \<le> uint ?y"
    using assms unfolding timer_near_def timer_rank_def by (simp_all only: unat_2p63 uint_ge_0)
  have "2 ^ 63 \<le> uint (?x - ?y) \<longleftrightarrow> uint ?x < uint ?y" unfolding uint_sub_64 [of ?x ?y] by (rule upper_half [OF b])
  moreover have "?x - ?y = a - b" by simp
  ultimately have "2 ^ 63 \<le> uint (a - b) \<longleftrightarrow> uint ?x < uint ?y" by metis
  then show ?thesis unfolding timer_less_def timer_rank_def sint_neg by (simp only: word_less_nat_alt [symmetric] word_less_def)
qed

interpretation by_timer: key_order timer_less "timer_rank base" "timer_near base" for base
  by unfold_locales (rule timer_less_near)

end
