(* ===== verification/Ngx_Rbtree_Delete.thy ===== *)
theory Ngx_Rbtree_Delete
  imports Ngx_Rbtree_Search
begin

text \<open>
  Deletion: the rebalancing loop terminates without a fault and restores the red-black invariant, whichever
  node was unlinked.
\<close>

section \<open>The phases of a round\<close>

definition del_far :: "rheap \<Rightarrow> ptr \<Rightarrow> ptr \<Rightarrow> ptr \<Rightarrow> ptr \<Rightarrow> (rheap \<times> ptr \<times> ptr) option" where
  "del_far s root sentinel temp w = do {
     tp \<leftarrow> fld rb_parent s temp;
     s \<leftarrow> ngx_rbt_copy_color w tp s;
     s \<leftarrow> ngx_rbt_black tp s;
     wr \<leftarrow> fld rb_right s w;
     s \<leftarrow> ngx_rbt_black wr s;
     (s, root) \<leftarrow> ngx_rbtree_left_rotate s root sentinel tp;
     Some (s, root, root)
   }"

definition del_black :: "rheap \<Rightarrow> ptr \<Rightarrow> ptr \<Rightarrow> ptr \<Rightarrow> ptr \<Rightarrow> (rheap \<times> ptr \<times> ptr) option" where
  "del_black s root sentinel temp w = do {
     (wl, wr, bl, br) \<leftarrow> rb_children s w;
     if bl \<and> br then do {
       s \<leftarrow> ngx_rbt_red w s;
       tp \<leftarrow> fld rb_parent s temp;
       Some (s, root, tp)
     }
     else do {
       (s, root, w) \<leftarrow>
         (if br then do {
            s \<leftarrow> ngx_rbt_black wl s;
            s \<leftarrow> ngx_rbt_red w s;
            (s, root) \<leftarrow> ngx_rbtree_right_rotate s root sentinel w;
            tp \<leftarrow> fld rb_parent s temp;
            w \<leftarrow> fld rb_right s tp;
            Some (s, root, w)
          }
          else Some (s, root, w));
       del_far s root sentinel temp w
     }
   }"

lemma delete_left_phases:
  "rb_delete_left s root sentinel temp tp = do {
     w \<leftarrow> fld rb_right s tp;
     wred \<leftarrow> ngx_rbt_is_red s w;
     (s, root, w) \<leftarrow>
       (if wred then do {
          s \<leftarrow> ngx_rbt_black w s;
          s \<leftarrow> ngx_rbt_red tp s;
          (s, root) \<leftarrow> ngx_rbtree_left_rotate s root sentinel tp;
          tp \<leftarrow> fld rb_parent s temp;
          w \<leftarrow> fld rb_right s tp;
          Some (s, root, w)
        }
        else Some (s, root, w));
     del_black s root sentinel temp w
   }"
  by (simp only: rb_delete_left_def del_black_def del_far_def)

section \<open>The invariant of the loop\<close>

text \<open>The subtree in focus lacks one black node; painting its root black repairs a red one.\<close>

definition lacks :: "rheap \<Rightarrow> ptr \<Rightarrow> ptr \<Rightarrow> lab tree \<Rightarrow> frame list \<Rightarrow> bool" where
  "lacks s nil root t ctx \<longleftrightarrow> focus s nil root t ctx \<and> invc (recolt False t) \<and> invh t \<and> cc ctx False \<and> ch ctx (bh t + 1) \<and>
     (ctx \<noteq> [] \<longrightarrow> \<not> frame_red (last ctx) \<and> fld rb_parent s (adr nil t) = Some (fst (frame_lab (hd ctx))))"

lemma cc_black: "cc ctx c \<Longrightarrow> cc ctx False"
  by (cases ctx) auto

lemma recolt_black: "\<not> redt t \<Longrightarrow> recolt False t = t"
  by (cases t rule: redt.cases) auto

lemma bh_pos: "bh t = h + 1 \<Longrightarrow> t \<noteq> Leaf"
  by auto

lemma parent_kept:
  assumes "focus s' nil root' t (f # ctx)" and "same_out A s s'" and "nil \<notin> A"
    and "fld rb_parent s (adr nil t) = Some (fst (frame_lab f))"
  shows "fld rb_parent s' (adr nil t) = Some (fst (frame_lab f))"
proof (cases t rule: redt.cases)
  case 1
  then show ?thesis using assms(2-4) by (simp add: same_out_def fld_def)
next
  case (2 l a k c r)
  then show ?thesis using focus_parent assms(1) by simp
qed

lemma nil_out: "focus s nil root t ctx \<Longrightarrow> nil \<notin> set (adrs (plug ctx t))"
  using focus_distinct by blast

lemma copy_color_focus:
  assumes "focus s nil root t (FL (p, kp, cp) (Node wl (w, kw, cw) wr) # ctx)"
  shows "\<exists>s'. ngx_rbt_copy_color w p s = Some s' \<and>
    focus s' nil root t (FL (p, kp, cp) (Node wl (w, kw, cp) wr) # ctx) \<and> same_out {w} s s'"
proof -
  have zp: "focus s nil root (Node t (p, kp, cp) (Node wl (w, kw, cw) wr)) ctx" using assms by (simp add: focus_up_down)
  have zw: "focus s nil root (Node wl (w, kw, cw) wr) (FR t (p, kp, cp) # ctx)" using zp by (simp add: focus_up_down)
  obtain np where np: "s p = Some np" "(rb_color np \<noteq> 0) = cp" using focus_cell [OF zp] by blast
  obtain nw where nw: "s w = Some nw" using focus_cell [OF zw] by blast
  show ?thesis using focus_recolor [OF zw nw, of "rb_color np"] np nw
    by (auto simp: ngx_rbt_copy_color_def fld_def upd_Some focus_up_down same_out_def)
qed

text \<open>The far child is red: the last round.\<close>

lemma del_far_focus:
  assumes z: "focus s nil root t (FL (p, kp, cp) (Node wl (w, kw, False) wr) # ctx)" and wr: "redt wr"
    and par: "fld rb_parent s (adr nil t) = Some p"
  shows "\<exists>s' root'. del_far s root nil (adr nil t) w = Some (s', root', root') \<and>
    focus s' nil root' (Node (Node t (p, kp, False) wl) (w, kw, cp) (recolt False wr)) ctx \<and>
    same_out (set (adrs (plug ctx (Node t (p, kp, cp) (Node wl (w, kw, False) wr))))) s s'"
proof -
  obtain s1 where s1: "ngx_rbt_copy_color w p s = Some s1"
    "focus s1 nil root t (FL (p, kp, cp) (Node wl (w, kw, cp) wr) # ctx)" "same_out {w} s s1"
    using copy_color_focus [OF z] by blast
  obtain s2 where s2: "ngx_rbt_black p s1 = Some s2" "focus s2 nil root t (FL (p, kp, False) (Node wl (w, kw, cp) wr) # ctx)"
    "same_out {p} s1 s2" using paint_parent(1) [OF s1(2)] by auto
  have zr: "focus s2 nil root wr (FR wl (w, kw, cp) # FR t (p, kp, False) # ctx)"
    and zw: "focus s2 nil root (Node wl (w, kw, cp) wr) (FR t (p, kp, False) # ctx)"
    using s2(2) by (simp_all add: focus_up_down)
  have "wr \<noteq> Leaf" using wr by auto
  then obtain s3 where s3: "ngx_rbt_black (adr nil wr) s2 = Some s3"
    "focus s3 nil root (recolt False wr) (FR wl (w, kw, cp) # FR t (p, kp, False) # ctx)" "same_out {adr nil wr} s2 s3"
    using paint_tree(1) [OF zr] by blast
  obtain s4 root' where s4: "ngx_rbtree_left_rotate s3 root nil p = Some (s4, root')"
    "focus s4 nil root' (Node (Node t (p, kp, False) wl) (w, kw, cp) (recolt False wr)) ctx"
    "same_out (set (adrs (plug ctx (Node t (p, kp, False) (Node wl (w, kw, cp) (recolt False wr)))))) s3 s4"
    using left_rotate_focus s3(2) unfolding focus_up_down by blast
  have "del_far s root nil (adr nil t) w = Some (s4, root', root')"
    unfolding del_far_def using par s1(1) s2(1) focus_fld(2) [OF zw] s3(1) s4(1) by simp
  moreover have "adr nil wr \<in> set (adrs wr)" using \<open>wr \<noteq> Leaf\<close> by (cases wr rule: redt.cases) auto
  then have "same_out (set (adrs (plug ctx (Node t (p, kp, cp) (Node wl (w, kw, False) wr))))) s s4"
    using s1(3) s2(3) s3(3) s4(3) by (auto simp: same_out_def adrs_plug)
  ultimately show ?thesis using s4(2) by blast
qed

text \<open>The near child is red and the far one black: a rotation makes the far child red.\<close>

lemma del_near_focus:
  assumes z: "focus s nil root t (FL (p, kp, cp) (Node (Node a (v, kv, True) b) (w, kw, False) wr) # ctx)"
    and par: "fld rb_parent s (adr nil t) = Some p"
  shows "\<exists>s1 s2 s' root'. ngx_rbt_black v s = Some s1 \<and> ngx_rbt_red w s1 = Some s2 \<and>
    ngx_rbtree_right_rotate s2 root nil w = Some (s', root') \<and> fld rb_parent s' (adr nil t) = Some p \<and>
    fld rb_right s' p = Some v \<and> focus s' nil root' t (FL (p, kp, cp) (Node a (v, kv, False) (Node b (w, kw, True) wr)) # ctx) \<and>
    same_out (set (adrs (plug ctx (Node t (p, kp, cp) (Node (Node a (v, kv, True) b) (w, kw, False) wr))))) s s'"
proof -
  have zv: "focus s nil root (Node a (v, kv, True) b) (FL (w, kw, False) wr # FR t (p, kp, cp) # ctx)"
    using z by (simp add: focus_up_down)
  obtain s1 where s1: "ngx_rbt_black v s = Some s1"
    "focus s1 nil root (Node a (v, kv, False) b) (FL (w, kw, False) wr # FR t (p, kp, cp) # ctx)" "same_out {v} s s1"
    using paint_focus(1) [OF zv] by auto
  obtain s2 where s2: "ngx_rbt_red w s1 = Some s2"
    "focus s2 nil root (Node a (v, kv, False) b) (FL (w, kw, True) wr # FR t (p, kp, cp) # ctx)" "same_out {w} s1 s2"
    using paint_parent(2) [OF s1(2)] by auto
  obtain s3 root' where s3: "ngx_rbtree_right_rotate s2 root nil w = Some (s3, root')"
    "focus s3 nil root' (Node a (v, kv, False) (Node b (w, kw, True) wr)) (FR t (p, kp, cp) # ctx)"
    "same_out (set (adrs (plug (FR t (p, kp, cp) # ctx) (Node (Node a (v, kv, False) b) (w, kw, True) wr)))) s2 s3"
    using right_rotate_focus s2(2) unfolding focus_up_down(1) [of _ _ _ _ "(w, kw, True)"] by blast
  have z3: "focus s3 nil root' t (FL (p, kp, cp) (Node a (v, kv, False) (Node b (w, kw, True) wr)) # ctx)"
    and zp: "focus s3 nil root' (Node t (p, kp, cp) (Node a (v, kv, False) (Node b (w, kw, True) wr))) ctx"
    using s3(2) by (simp_all add: focus_up_down)
  let ?A = "set (adrs (plug ctx (Node t (p, kp, cp) (Node (Node a (v, kv, True) b) (w, kw, False) wr))))"
  have so: "same_out ?A s s3" using s1(3) s2(3) s3(3) by (auto simp: same_out_def adrs_plug)
  have "nil \<notin> ?A" using nil_out [OF z] by simp
  then have "fld rb_parent s3 (adr nil t) = Some p" using parent_kept [OF z3 so] par by simp
  then show ?thesis using s1(1) s2(1) s3(1) z3 so focus_fld(2) [OF zp] by auto
qed

lemma children_focus:
  assumes "focus s nil root (Node l (a, k, c) r) ctx"
  shows "rb_children s a = Some (adr nil l, adr nil r, \<not> redt l, \<not> redt r)"
  using focus_fld(1,2) [OF assms] focus_red [of s nil root l "FL (a, k, c) r # ctx"]
    focus_red [of s nil root r "FR l (a, k, c) # ctx"] assms
  by (simp add: rb_children_def ngx_rbt_is_black_def focus_up_down)

text \<open>The last round, from the whole tree.\<close>

lemma lacks_done:
  assumes z: "focus s nil root X ctx" and "invc X" and "invh X" and "cc ctx (redt X)" and "ch ctx (bh X)"
  shows "lacks s nil root (plug ctx X) []"
  using assms invc_plug [of ctx X] invh_plug [of ctx X] focus_plug [of s nil root X ctx] black_inv(1)
  by (auto simp: lacks_def)

lemma del_black_focus:
  assumes l: "lacks s nil root t (FL (p, kp, cp) (Node wl (w, kw, False) wr) # ctx)" and t: "\<not> redt t"
  shows "\<exists>s' root' t' ctx'. del_black s root nil (adr nil t) w = Some (s', root', adr nil t') \<and> lacks s' nil root' t' ctx' \<and>
    ents (plug ctx' t') = ents (plug ctx (Node t (p, kp, cp) (Node wl (w, kw, False) wr))) \<and>
    (ctx' = ctx \<and> redt t' = cp \<or> ctx' = []) \<and>
    same_out (set (adrs (plug ctx (Node t (p, kp, cp) (Node wl (w, kw, False) wr))))) s s'"
proof -
  let ?Y = "Node t (p, kp, cp) (Node wl (w, kw, False) wr)"
  have z: "focus s nil root t (FL (p, kp, cp) (Node wl (w, kw, False) wr) # ctx)" "invc t" "invh t" "cc ctx cp"
    "ch ctx (bh t + 1 + (if cp then 0 else 1))" "fld rb_parent s (adr nil t) = Some p"
    "bh t = bh wl" "bh t = bh wr" "invh wl" "invh wr" "invc wl" "invc wr"
    "ctx \<noteq> [] \<longrightarrow> \<not> frame_red (last ctx)"
    using l recolt_black [OF t] by (auto simp: lacks_def)
  have zw: "focus s nil root (Node wl (w, kw, False) wr) (FR t (p, kp, cp) # ctx)" using z(1) by (simp add: focus_up_down)
  have ch: "rb_children s w = Some (adr nil wl, adr nil wr, \<not> redt wl, \<not> redt wr)" by (rule children_focus [OF zw])
  have na: "nil \<notin> set (adrs (plug ctx ?Y))" using nil_out [OF z(1)] by simp
  consider (both) "\<not> redt wl" "\<not> redt wr" | (far) "redt wr" | (near) "redt wl" "\<not> redt wr" by blast
  then show ?thesis
  proof cases
    case both
    obtain s1 where s1: "ngx_rbt_red w s = Some s1" "focus s1 nil root (Node wl (w, kw, True) wr) (FR t (p, kp, cp) # ctx)"
      "same_out {w} s s1" using paint_focus(2) [OF zw] by auto
    let ?X = "Node t (p, kp, cp) (Node wl (w, kw, True) wr)"
    have x: "focus s1 nil root ?X ctx" "focus s1 nil root t (FL (p, kp, cp) (Node wl (w, kw, True) wr) # ctx)"
      using s1(2) by (simp_all add: focus_up_down)
    have so: "same_out (set (adrs (plug ctx ?Y))) s s1" using s1(3) by (auto simp: same_out_def adrs_plug)
    have "del_black s root nil (adr nil t) w = Some (s1, root, adr nil ?X)"
      unfolding del_black_def using ch both s1(1) parent_kept [OF x(2) so na] z(6) by simp
    moreover have "fld rb_parent s1 p = Some (fst (frame_lab (hd ctx)))" if "ctx \<noteq> []"
      using focus_parent [of s1 nil root t p kp cp _ "hd ctx" "tl ctx"] x(1) that by simp
    then have "lacks s1 nil root ?X ctx" using x(1) z both cc_black [OF z(4)] t by (auto simp: lacks_def)
    moreover have "ents (plug ctx ?X) = ents (plug ctx ?Y)" by (rule ents_plug_cong) simp
    ultimately show ?thesis using so by (intro exI [of _ s1] exI [of _ root] exI [of _ ?X] exI [of _ ctx]) simp
  next
    case far
    obtain s1 root' where s1: "del_far s root nil (adr nil t) w = Some (s1, root', root')"
      "focus s1 nil root' (Node (Node t (p, kp, False) wl) (w, kw, cp) (recolt False wr)) ctx" (is "focus s1 nil root' ?X ctx")
      "same_out (set (adrs (plug ctx ?Y))) s s1"
      using del_far_focus [OF z(1) far z(6)] by blast
    have "lacks s1 nil root' (plug ctx ?X) []"
    proof (rule lacks_done [OF s1(2)])
      show "invc ?X" using z(2,11,12) black_inv(1,3) t by simp
      have "bh (recolt False wr) = bh wr + 1" using far by (cases wr rule: redt.cases) auto
      then show "invh ?X" "ch ctx (bh ?X)" using z(3,5,7,8,9,10) black_inv(2) by auto
      show "cc ctx (redt ?X)" using z(4) by simp
    qed
    moreover have "ents (plug ctx ?X) = ents (plug ctx ?Y)" by (rule ents_plug_cong) simp
    moreover have "root' = adr nil (plug ctx ?X)" using focus_root calculation(1) by (auto simp: lacks_def)
    ultimately show ?thesis using s1(1,3) ch far
      by (intro exI [of _ s1] exI [of _ root'] exI [of _ "plug ctx ?X"] exI [of _ "[]"]) (simp add: del_black_def)
  next
    case near
    obtain a v kv b where wl: "wl = Node a (v, kv, True) b" using near by (cases wl rule: redt.cases) auto
    obtain s1 s2 s3 root3 where s3: "ngx_rbt_black v s = Some s1" "ngx_rbt_red w s1 = Some s2"
      "ngx_rbtree_right_rotate s2 root nil w = Some (s3, root3)" "fld rb_parent s3 (adr nil t) = Some p" "fld rb_right s3 p = Some v"
      "focus s3 nil root3 t (FL (p, kp, cp) (Node a (v, kv, False) (Node b (w, kw, True) wr)) # ctx)"
      "same_out (set (adrs (plug ctx ?Y))) s s3"
      using del_near_focus [OF z(1) [unfolded wl] z(6)] wl by blast
    obtain s4 root' where s4: "del_far s3 root3 nil (adr nil t) v = Some (s4, root', root')"
      "focus s4 nil root' (Node (Node t (p, kp, False) a) (v, kv, cp) (recolt False (Node b (w, kw, True) wr))) ctx"
      (is "focus s4 nil root' ?X ctx")
      "same_out (set (adrs (plug ctx (Node t (p, kp, cp) (Node a (v, kv, False) (Node b (w, kw, True) wr)))))) s3 s4"
      using del_far_focus [OF s3(6) _ s3(4)] by auto
    have "lacks s4 nil root' (plug ctx ?X) []"
      using z(2-5,7-12) wl near t by (intro lacks_done [OF s4(2)]) auto
    moreover have "ents (plug ctx ?X) = ents (plug ctx ?Y)" using wl by (intro ents_plug_cong) simp
    moreover have "root' = adr nil (plug ctx ?X)" using focus_root calculation(1) by (auto simp: lacks_def)
    moreover have "same_out (set (adrs (plug ctx ?Y))) s s4" using s3(7) s4(3) wl by (auto simp: same_out_def adrs_plug)
    moreover have "del_black s root nil (adr nil t) w = Some (s4, root', root')"
      unfolding del_black_def using ch near wl s3(1-5) s4(1) by simp
    ultimately show ?thesis
      by (intro exI [of _ s4] exI [of _ root'] exI [of _ "plug ctx ?X"] exI [of _ "[]"]) simp
  qed
qed

text \<open>A red sibling: a rotation gives a black one.\<close>

lemma del_red_focus:
  assumes l: "lacks s nil root t (FL (p, kp, False) (Node wl (w, kw, True) wr) # ctx)" and t: "\<not> redt t"
    and w: "\<not> redt wl" "\<not> redt wr"
  shows "\<exists>s1 s2 s' root'. ngx_rbt_black w s = Some s1 \<and> ngx_rbt_red p s1 = Some s2 \<and>
    ngx_rbtree_left_rotate s2 root nil p = Some (s', root') \<and> fld rb_parent s' (adr nil t) = Some p \<and>
    fld rb_right s' p = Some (adr nil wl) \<and> lacks s' nil root' t (FL (p, kp, True) wl # FL (w, kw, False) wr # ctx) \<and>
    same_out (set (adrs (plug ctx (Node t (p, kp, False) (Node wl (w, kw, True) wr))))) s s'"
proof -
  have z: "focus s nil root t (FL (p, kp, False) (Node wl (w, kw, True) wr) # ctx)"
    "fld rb_parent s (adr nil t) = Some p" using l by (simp_all add: lacks_def)
  have zw: "focus s nil root (Node wl (w, kw, True) wr) (FR t (p, kp, False) # ctx)" using z(1) by (simp add: focus_up_down)
  obtain s1 where s1: "ngx_rbt_black w s = Some s1" "focus s1 nil root (Node wl (w, kw, False) wr) (FR t (p, kp, False) # ctx)"
    "same_out {w} s s1" using paint_focus(1) [OF zw] by auto
  obtain s2 where s2: "ngx_rbt_red p s1 = Some s2" "focus s2 nil root (Node wl (w, kw, False) wr) (FR t (p, kp, True) # ctx)"
    "same_out {p} s1 s2" using paint_parent(2) [OF s1(2)] by auto
  obtain s3 root' where s3: "ngx_rbtree_left_rotate s2 root nil p = Some (s3, root')"
    "focus s3 nil root' (Node (Node t (p, kp, True) wl) (w, kw, False) wr) ctx"
    "same_out (set (adrs (plug ctx (Node t (p, kp, True) (Node wl (w, kw, False) wr))))) s2 s3"
    using left_rotate_focus s2(2) unfolding focus_up_down by blast
  have z3: "focus s3 nil root' t (FL (p, kp, True) wl # FL (w, kw, False) wr # ctx)"
    and zp: "focus s3 nil root' (Node t (p, kp, True) wl) (FL (w, kw, False) wr # ctx)"
    using s3(2) by (simp_all add: focus_up_down)
  let ?A = "set (adrs (plug ctx (Node t (p, kp, False) (Node wl (w, kw, True) wr))))"
  have so: "same_out ?A s s3" using s1(3) s2(3) s3(3) by (auto simp: same_out_def adrs_plug)
  have "nil \<notin> ?A" using nil_out [OF z(1)] by simp
  then have par: "fld rb_parent s3 (adr nil t) = Some p" using parent_kept [OF z3 so] z(2) by simp
  then have "lacks s3 nil root' t (FL (p, kp, True) wl # FL (w, kw, False) wr # ctx)"
    using l z3 w by (auto simp: lacks_def)
  then show ?thesis using s1(1) s2(1) s3(1) par so focus_fld(2) [OF zp] by auto
qed

lemma delete_left_step:
  assumes l: "lacks s nil root t (FL (p, kp, cp) W # ctx)" and t: "\<not> redt t"
  shows "\<exists>s' root' t' ctx'. rb_delete_left s root nil (adr nil t) p = Some (s', root', adr nil t') \<and> lacks s' nil root' t' ctx' \<and>
    ents (plug ctx' t') = ents (plug (FL (p, kp, cp) W # ctx) t) \<and> (length ctx' \<le> length ctx \<or> redt t') \<and>
    same_out (set (adrs (plug (FL (p, kp, cp) W # ctx) t))) s s'"
proof -
  have z: "focus s nil root t (FL (p, kp, cp) W # ctx)" and W: "bh W = bh t + 1" "invh W" "invc W" "cp \<longrightarrow> \<not> redt W"
    using l by (simp_all add: lacks_def)
  obtain wl w kw cw wr where Wd: "W = Node wl (w, kw, cw) wr" using W(1) by (cases W rule: redt.cases) auto
  have zp: "focus s nil root (Node t (p, kp, cp) W) ctx" and zw: "focus s nil root W (FR t (p, kp, cp) # ctx)"
    using z by (simp_all add: focus_up_down)
  have rd: "fld rb_right s p = Some w" "ngx_rbt_is_red s w = Some cw" using focus_fld(2) [OF zp] focus_red [OF zw] Wd by simp_all
  show ?thesis
  proof (cases cw)
    case False
    then show ?thesis using del_black_focus [of s nil root t p kp cp wl w kw wr ctx] l t Wd rd
      unfolding delete_left_phases by fastforce
  next
    case True
    then have c: "\<not> cp" "\<not> redt wl" "\<not> redt wr" using W Wd by auto
    obtain s1 s2 s3 root3 where s3: "ngx_rbt_black w s = Some s1" "ngx_rbt_red p s1 = Some s2"
      "ngx_rbtree_left_rotate s2 root nil p = Some (s3, root3)" "fld rb_parent s3 (adr nil t) = Some p"
      "fld rb_right s3 p = Some (adr nil wl)" "lacks s3 nil root3 t (FL (p, kp, True) wl # FL (w, kw, False) wr # ctx)"
      "same_out (set (adrs (plug (FL (p, kp, cp) W # ctx) t))) s s3"
      using del_red_focus [of s nil root t p kp wl w kw wr ctx] l t c Wd True by auto
    obtain vl v kv vr where v: "wl = Node vl (v, kv, False) vr"
      using W(1) Wd True c(2) by (cases wl rule: redt.cases) auto
    obtain s' root' t' ctx' where s': "del_black s3 root3 nil (adr nil t) v = Some (s', root', adr nil t')" "lacks s' nil root' t' ctx'"
      "ents (plug ctx' t') = ents (plug (FL (w, kw, False) wr # ctx) (Node t (p, kp, True) wl))"
      "ctx' = FL (w, kw, False) wr # ctx \<and> redt t' \<or> ctx' = []"
      "same_out (set (adrs (plug (FL (w, kw, False) wr # ctx) (Node t (p, kp, True) wl)))) s3 s'"
      using del_black_focus [of s3 nil root3 t p kp True vl v kv vr "FL (w, kw, False) wr # ctx"] s3(6) t v by blast
    have "ents (plug ctx' t') = ents (plug (FL (p, kp, cp) W # ctx) t)"
      using s'(3) ents_plug_cong [of "Node (Node t (p, kp, True) wl) (w, kw, False) wr" "Node t (p, kp, cp) W" ctx] Wd by simp
    moreover have "same_out (set (adrs (plug (FL (p, kp, cp) W # ctx) t))) s s'"
      using s3(7) s'(5) Wd by (auto simp: same_out_def adrs_plug)
    moreover have "rb_delete_left s root nil (adr nil t) p = Some (s', root', adr nil t')"
      unfolding delete_left_phases using rd True s3(1-5) s'(1) v by simp
    ultimately show ?thesis using s'(2,4)
      by (intro exI [of _ s'] exI [of _ root'] exI [of _ t'] exI [of _ ctx']) auto
  qed
qed

lemma lacks_mir: "lacks s nil root t ctx \<Longrightarrow> lacks (mir s) nil root (mirror t) (map mirf ctx)"
proof -
  assume l: "lacks s nil root t ctx"
  have "recolt False (mirror t) = mirror (recolt False t)" by (cases t rule: redt.cases) auto
  moreover have "ctx \<noteq> [] \<longrightarrow> frame_red (last (map mirf ctx)) = frame_red (last ctx) \<and> frame_lab (hd (map mirf ctx)) = frame_lab (hd ctx)"
    by (simp add: last_map hd_map)
  moreover have "invh t" "ch ctx (bh t + 1)" using l by (simp_all add: lacks_def)
  ultimately show ?thesis using l ch_mir invh_mirror [of t] by (auto simp: lacks_def)
qed

lemma delete_right_step:
  assumes l: "lacks s nil root t (FR W (p, kp, cp) # ctx)" and t: "\<not> redt t"
  shows "\<exists>s' root' t' ctx'. rb_delete_right s root nil (adr nil t) p = Some (s', root', adr nil t') \<and> lacks s' nil root' t' ctx' \<and>
    ents (plug ctx' t') = ents (plug (FR W (p, kp, cp) # ctx) t) \<and> (length ctx' \<le> length ctx \<or> redt t') \<and>
    same_out (set (adrs (plug (FR W (p, kp, cp) # ctx) t))) s s'"
proof -
  let ?m = "map mirf (FR W (p, kp, cp) # ctx)"
  have m: "?m = FL (p, kp, cp) (mirror W) # map mirf ctx" by simp
  have "\<not> redt (mirror t)" using t by simp
  from delete_left_step [OF lacks_mir [OF l, unfolded m] this]
  obtain s1 root' t1 ctx1 where s1: "rb_delete_left (mir s) root nil (adr nil t) p = Some (s1, root', adr nil t1)"
    "lacks s1 nil root' t1 ctx1" "ents (plug ctx1 t1) = ents (plug ?m (mirror t))" "length ctx1 \<le> length ctx \<or> redt t1"
    "same_out (set (adrs (plug ?m (mirror t)))) (mir s) s1" unfolding m by auto
  have "rb_delete_right s root nil (adr nil t) p = Some (mir s1, root', adr nil (mirror t1))"
    using s1(1) by (simp add: delete_right_mir)
  moreover have "lacks (mir s1) nil root' (mirror t1) (map mirf ctx1)" by (rule lacks_mir [OF s1(2)])
  moreover have "ents (plug (map mirf ctx1) (mirror t1)) = ents (plug (FR W (p, kp, cp) # ctx) t)"
    using s1(3) unfolding plug_mir by simp
  moreover have "same_out (set (adrs (plug (FR W (p, kp, cp) # ctx) t))) s (mir s1)"
    using s1(5) same_out_mir [of _ s "mir s1"] unfolding plug_mir by simp
  ultimately show ?thesis using s1(4)
    by (intro exI [of _ "mir s1"] exI [of _ root'] exI [of _ "mirror t1"] exI [of _ "map mirf ctx1"]) simp
qed

section \<open>The loop\<close>

lemma delete_stops:
  assumes l: "lacks s nil root t ctx" and c: "ctx = [] \<or> redt t"
  shows "rb_delete_fixup s root nil (adr nil t) = Some (s, root, adr nil t)"
proof -
  have z: "focus s nil root t ctx" using l by (simp add: lacks_def)
  show ?thesis using c focus_root [of s nil root t] focus_red [OF z] z
    by (subst rb_delete_fixup.simps) (auto simp: ngx_rbt_is_black_def)
qed

lemma delete_fixup_focus:
  assumes "lacks s nil root t ctx"
  shows "\<exists>s' root' t' ctx'. rb_delete_fixup s root nil (adr nil t) = Some (s', root', adr nil t') \<and>
    lacks s' nil root' t' ctx' \<and> (ctx' = [] \<or> redt t') \<and> ents (plug ctx' t') = ents (plug ctx t) \<and>
    same_out (set (adrs (plug ctx t))) s s'"
  using assms
proof (induction "length ctx" arbitrary: s root t ctx rule: less_induct)
  case less
  note l = less.prems
  show ?case
  proof (cases "ctx = [] \<or> redt t")
    case True
    then show ?thesis using delete_stops [OF l] l by auto
  next
    case False
    then obtain f ctx1 where c: "ctx = f # ctx1" and t: "\<not> redt t" by (cases ctx) auto
    obtain p kp cp where pl: "frame_lab f = (p, kp, cp)" by (cases "frame_lab f") auto
    have z: "focus s nil root t (f # ctx1)" and par: "fld rb_parent s (adr nil t) = Some p" and bs: "bh (sib f) = bh t + 1"
      using l c pl by (simp_all add: lacks_def)
    have zp: "focus s nil root (plug1 f t) ctx1" using z by (cases f) (simp_all add: focus_up_down)
    have nr: "adr nil t \<noteq> root"
    proof -
      have "root \<in> cadrs (f # ctx1)" "set (adrs t) \<inter> cadrs (f # ctx1) = {}" "nil \<notin> cadrs (f # ctx1)"
        using z crep_root_in by (auto elim!: focusE)
      then show ?thesis using adr_in [of nil t] by (metis disjoint_iff)
    qed
    have "\<exists>tpl s1 root1 t1 ctx2. fld rb_left s p = Some tpl \<and> (if adr nil t = tpl then rb_delete_left s root nil (adr nil t) p
          else rb_delete_right s root nil (adr nil t) p) = Some (s1, root1, adr nil t1) \<and> lacks s1 nil root1 t1 ctx2 \<and>
        ents (plug ctx2 t1) = ents (plug ctx t) \<and> (length ctx2 \<le> length ctx1 \<or> redt t1) \<and> same_out (set (adrs (plug ctx t))) s s1"
    proof (cases f)
      case (FL x W)
      then have "fld rb_left s p = Some (adr nil t)" using focus_fld(1) [of s nil root t p kp cp W ctx1] zp pl by simp
      then show ?thesis using delete_left_step [of s nil root t p kp cp W ctx1] l t c FL pl by simp
    next
      case (FR W x)
      then have "fld rb_left s p = Some (adr nil W)" using focus_fld(1) [of s nil root W p kp cp t ctx1] zp pl by simp
      moreover have "adr nil t \<noteq> adr nil W"
      proof -
        have "adr nil W \<in> set (adrs W)" "nil \<notin> set (adrs (plug1 f t))" "distinct (adrs (plug1 f t))"
          using bs FR zp by (cases W rule: redt.cases; auto elim!: focusE)+
        then have "adr nil W \<noteq> nil" "adr nil W \<notin> set (adrs t)" using FR by auto
        then show ?thesis using adr_in [of nil t] by metis
      qed
      ultimately show ?thesis using delete_right_step [of s nil root t W p kp cp ctx1] l t c FR pl by simp
    qed
    then obtain tpl s1 root1 t1 ctx2 where st: "fld rb_left s p = Some tpl"
      "(if adr nil t = tpl then rb_delete_left s root nil (adr nil t) p
          else rb_delete_right s root nil (adr nil t) p) = Some (s1, root1, adr nil t1)" "lacks s1 nil root1 t1 ctx2"
      "ents (plug ctx2 t1) = ents (plug ctx t)" "length ctx2 \<le> length ctx1 \<or> redt t1" "same_out (set (adrs (plug ctx t))) s s1"
      by blast
    have bl: "ngx_rbt_is_black s (adr nil t) = Some True" using focus_red [OF z] t by (simp add: ngx_rbt_is_black_def)
    have it: "rb_delete_fixup s root nil (adr nil t) = rb_delete_fixup s1 root1 nil (adr nil t1)"
      using nr bl par st(1,2) by (subst rb_delete_fixup.simps) simp
    have sa: "set (adrs (plug ctx2 t1)) = set (adrs (plug ctx t))" using st(4) by (simp add: adrs_ents)
    show ?thesis
    proof (cases "redt t1")
      case True
      then show ?thesis using delete_stops [OF st(3)] st it by auto
    next
      case False
      then have "length ctx2 < length ctx" using st(5) c by simp
      from less.hyps [OF this st(3)] obtain s' root' t' ctx' where
        "rb_delete_fixup s1 root1 nil (adr nil t1) = Some (s', root', adr nil t')" "lacks s' nil root' t' ctx'"
        "ctx' = [] \<or> redt t'" "ents (plug ctx' t') = ents (plug ctx2 t1)" "same_out (set (adrs (plug ctx2 t1))) s1 s'" by blast
      then show ?thesis using it st(4,6) sa same_out_trans by (metis (no_types, lifting))
    qed
  qed
qed

end
