(* ===== verification/Ngx_Rbtree_Unlink.thy ===== *)
theory Ngx_Rbtree_Unlink
  imports Ngx_Rbtree_Delete
begin

text \<open>
  The first half of \<^verbatim>\<open>ngx_rbtree_delete\<close>: taking the node out of the tree, directly when it has a missing child,
  or by putting the least node of its right subtree in its place; then the whole of the function as
  the removal of an element of a list.
\<close>

section \<open>Heap lemmas\<close>

lemma focus_frame:
  assumes "focus s nil root t ctx" and "same_out A s s'" and "nil \<notin> A" and "A \<inter> set (adrs (plug ctx t)) = {}"
  shows "focus s' nil root t ctx"
proof -
  have "A \<inter> set (adrs t) = {}" "A \<inter> cadrs ctx = {}" using assms(4) by (auto simp: adrs_plug)
  then have "rep s' nil par t \<longleftrightarrow> rep s nil par t" "crep s' nil root p par ctx \<longleftrightarrow> crep s nil root p par ctx" for par p
    using rep_same_out [OF assms(2)] crep_same_out [OF assms(2)] by simp_all
  moreover have "s' nil = s nil" using assms(2,3) by (simp add: same_out_def)
  ultimately show ?thesis using assms(1) by (simp add: focus_def ngx_rbt_is_red_def fld_def)
qed

lemma plug_append [simp]: "plug (cs @ ctx) t = plug ctx (plug cs t)"
  by (induction cs arbitrary: t) auto

lemma focus_append: "focus s nil root t (cs @ ctx) \<longleftrightarrow> focus s nil root (plug cs t) ctx"
  using focus_plug [of s nil root t "cs @ ctx"] focus_plug [of s nil root "plug cs t" ctx] by simp

lemma cadrs_append [simp]: "cadrs (cs @ ctx) = cadrs cs \<union> cadrs ctx"
proof (induction cs)
  case (Cons f cs)
  then show ?case by (cases f) auto
qed simp

text \<open>Setting the parent of a subtree, the sentinel included.\<close>

lemma set_parent_any:
  assumes "rep s nil p t" and "distinct (adrs t)" and "s nil = Some sn" and "rb_color sn = 0"
  shows "\<exists>s' sn'. set_parent (adr nil t) q s = Some s' \<and> rep s' nil q t \<and> same_out {adr nil t} s s' \<and>
    s' nil = Some sn' \<and> rb_color sn' = 0 \<and> fld rb_parent s' (adr nil t) = Some q"
proof (cases t rule: redt.cases)
  case 1
  then show ?thesis using assms by (simp add: set_defs upd_Some same_out_def fld_def)
next
  case (2 l a k c r)
  from assms(1) 2 obtain n where n: "a \<noteq> nil" "s a = Some n" "rb_key n = k" "(rb_color n \<noteq> 0) = c"
    "rb_left n = adr nil l" "rb_right n = adr nil r" "rep s nil a l" "rep s nil a r" by (auto simp: cell_def)
  let ?s = "s(a \<mapsto> n\<lparr>rb_parent := q\<rparr>)"
  have "rep ?s nil a l" "rep ?s nil a r" using n(7,8) assms(2) 2 by simp_all
  then show ?thesis using n 2 assms(3,4) by (auto simp: set_defs upd_Some cell_def same_out_def fld_def)
qed

lemma clear_some: "s node = Some n \<Longrightarrow> \<exists>s'. rb_clear node s = Some s' \<and> same_out {node} s s' \<and> s' node \<noteq> None"
  by (simp add: rb_clear_def set_defs upd_Some same_out_def)

lemma paint_any:
  assumes z: "focus s nil root t ctx"
  shows "\<exists>s'. ngx_rbt_black (adr nil t) s = Some s' \<and> focus s' nil root (recolt False t) ctx \<and> same_out {adr nil t} s s'"
proof (cases "t = Leaf")
  case True
  show ?thesis using z
  proof (rule focusE)
    fix par sn
    assume p: "crep s nil root (adr nil t) par ctx" "s nil = Some sn" "nil \<notin> cadrs ctx" "distinct (adrs (plug ctx t))"
    let ?s = "s(nil \<mapsto> sn\<lparr>rb_color := 0\<rparr>)"
    have "focus ?s nil root Leaf ctx"
      using p True by (intro focusI [where par = par and sn = "sn\<lparr>rb_color := 0\<rparr>"]) auto
    then show ?thesis using True p(2) by (simp add: ngx_rbt_black_def upd_Some same_out_def)
  qed
next
  case False
  then show ?thesis using paint_tree(1) [OF z] by blast
qed

section \<open>The least node\<close>

lemma min_focus:
  assumes "focus s nil root t ctx" and "t \<noteq> Leaf"
  shows "\<exists>cs m km cm mr. ngx_rbtree_min s (adr nil t) nil = Some m \<and> t = plug cs (Node Leaf (m, km, cm) mr) \<and> pre cs = []"
  using assms
proof (induction t arbitrary: ctx)
  case (Node l x r)
  obtain a k c where x: "x = (a, k, c)" by (cases x) auto
  have z: "focus s nil root (Node l (a, k, c) r) ctx" using Node.prems(1) x by simp
  have lf: "adr nil l = nil \<longleftrightarrow> l = Leaf" using z rep_adr by (auto simp: focus_def)
  show ?case
  proof (cases "l = Leaf")
    case True
    then show ?thesis using focus_fld(1) [OF z] x
      by (intro exI [of _ "[]"] exI [of _ a] exI [of _ k] exI [of _ c] exI [of _ r]) (subst ngx_rbtree_min.simps, simp)
  next
    case False
    have "focus s nil root l (FL x r # ctx)" using z x by (simp add: focus_up_down)
    then obtain cs m km cm mr where "ngx_rbtree_min s (adr nil l) nil = Some m" "l = plug cs (Node Leaf (m, km, cm) mr)" "pre cs = []"
      using Node.IH(1) False by blast
    moreover have "pre (cs @ ctx') = pre ctx' @ pre cs" for ctx'
      by (induction cs rule: pre.induct) auto
    ultimately show ?thesis using focus_fld(1) [OF z] x lf False
      by (intro exI [of _ "cs @ [FL x r]"] exI [of _ m] exI [of _ km] exI [of _ cm] exI [of _ mr]) (subst ngx_rbtree_min.simps, simp)
  qed
qed simp

section \<open>Unlinking\<close>

definition rb_unlink :: "rheap \<Rightarrow> ptr \<Rightarrow> ptr \<Rightarrow> rheap option" where
  "rb_unlink s subst temp = do {
     sp \<leftarrow> fld rb_parent s subst;
     spl \<leftarrow> fld rb_left s sp;
     if subst = spl then set_left sp temp s else set_right sp temp s
   }"

lemma rehang_unlink: "x \<noteq> root \<Longrightarrow> rehang s root x y = map_option (\<lambda>s. (s, root)) (rb_unlink s x y)"
  by (simp add: rehang_def rb_unlink_def map_bind map_conv_bind_option comp_def)

lemma unlink_focus:
  assumes z: "focus s nil root M (f # ctx)" and M: "M = Node Leaf (m, km, cm) t \<or> M = Node t (m, km, cm) Leaf"
  shows "\<exists>s1. rb_unlink s m (adr nil t) = Some s1 \<and> rep s1 nil m t \<and>
    crep s1 nil root (adr nil t) (fst (frame_lab f)) (f # ctx) \<and> same_out (cadrs (f # ctx)) s s1"
  using z
proof (rule focusE)
  fix par sn
  assume p: "rep s nil par M" "crep s nil root (adr nil M) par (f # ctx)" "distinct (adrs M)"
    "set (adrs M) \<inter> cadrs (f # ctx) = {}" "distinct (adrs (plug (f # ctx) M))"
  have m: "adr nil M = m" "m \<noteq> nil" "m \<in> set (adrs M)" "rep s nil m t" "set (adrs t) \<subseteq> set (adrs M)" using M p(1) by auto
  obtain n where n: "s m = Some n" "rb_parent n = par" using M p(1) by (auto simp: cell_def)
  have mr: "m \<noteq> root" using crep_root_in [OF p(2)] p(4) m(3) by auto
  have "distinct (adrs (plug (f # ctx) Leaf))" using p(5) by (auto simp: adrs_def inorder_plug simp del: plug.simps)
  moreover have "m \<notin> cadrs (f # ctx)" using p(4) m(3) by auto
  ultimately obtain s1 root1 where s1: "rehang s root m (adr nil t) = Some (s1, root1)"
    "crep s1 nil root1 (adr nil t) par (f # ctx)" "same_out (cadrs (f # ctx)) s s1"
    using rehang_crep [OF p(2) [unfolded m(1)] n m(2)] by blast
  have "rep s1 nil m t" using rep_same_out [OF s1(3), of t] m(4,5) p(4) by blast
  moreover have "par = fst (frame_lab f)" using p(2) by (cases f) (auto elim: crep.elims)
  ultimately show ?thesis using s1 rehang_unlink [OF mr] by auto
qed

section \<open>Putting the successor in the place of the node\<close>

definition replace_rest :: "rheap \<Rightarrow> ptr \<Rightarrow> ptr \<Rightarrow> ptr \<Rightarrow> ptr \<Rightarrow> (rheap \<times> ptr) option" where
  "replace_rest s root sentinel node subst = do {
     l \<leftarrow> fld rb_left s node;
     s \<leftarrow> set_left subst l s;
     r \<leftarrow> fld rb_right s node;
     s \<leftarrow> set_right subst r s;
     p \<leftarrow> fld rb_parent s node;
     s \<leftarrow> set_parent subst p s;
     s \<leftarrow> ngx_rbt_copy_color subst node s;
     (s, root) \<leftarrow> rehang s root node subst;
     sl \<leftarrow> fld rb_left s subst;
     s \<leftarrow> (if sl \<noteq> sentinel then set_parent sl subst s else Some s);
     sr \<leftarrow> fld rb_right s subst;
     s \<leftarrow> (if sr \<noteq> sentinel then set_parent sr subst s else Some s);
     Some (s, root)
   }"

lemma replace_phases:
  "rb_replace s root sentinel node subst temp = do {
     sp \<leftarrow> fld rb_parent s subst;
     s \<leftarrow> (if sp = node then set_parent temp subst s else set_parent temp sp s);
     replace_rest s root sentinel node subst
   }"
  by (simp only: rb_replace_def replace_rest_def rehang_def)

lemma replace_rest_focus:
  assumes nn: "s node = Some nn" "(rb_color nn \<noteq> 0) = c" "rb_parent nn = par" "rb_left nn = adr nil l" "rb_right nn = adr nil R"
    and sub: "rep s nil pl l" "rep s nil pr R" and ctx: "crep s nil root node par ctx"
    and d: "distinct (adrs (plug ctx (Node l (node, k, c) R)))" "m \<notin> set (adrs (plug ctx (Node l (node, k, c) R)))"
    and m: "s m = Some nm" "m \<noteq> nil" "node \<noteq> nil" and nl: "s nil = Some sn" "rb_color sn = 0"
  shows "\<exists>s' root'. replace_rest s root nil node m = Some (s', root') \<and> focus s' nil root' (Node l (m, rb_key nm, c) R) ctx \<and>
    same_out (insert m (set (adrs l) \<union> set (adrs R) \<union> cadrs ctx)) s s'"
proof -
  have dd: "distinct (adrs l)" "distinct (adrs R)" "set (adrs l) \<inter> set (adrs R) = {}" "node \<notin> set (adrs l)" "node \<notin> set (adrs R)"
    "node \<notin> cadrs ctx" "set (adrs l) \<inter> cadrs ctx = {}" "set (adrs R) \<inter> cadrs ctx = {}" "distinct (adrs (plug ctx Leaf))"
    using d(1) distinct_plug [OF d(1)] by (auto simp: adrs_def inorder_plug)
  have dm: "m \<noteq> node" "m \<notin> set (adrs l)" "m \<notin> set (adrs R)" "m \<notin> cadrs ctx" using d(2) by (auto simp: adrs_plug)
  have nn': "nil \<notin> set (adrs l)" "nil \<notin> set (adrs R)" "nil \<notin> cadrs ctx" using rep_nil sub crep_nil ctx by blast+
  let ?nm = "nm\<lparr>rb_left := adr nil l, rb_right := adr nil R, rb_parent := par, rb_color := rb_color nn\<rparr>"
  define s1 where "s1 = s(m \<mapsto> ?nm)"
  have s1n: "s1 node = Some nn" using nn(1) dm(1) by (simp add: s1_def)
  have "crep s1 nil root node par ctx" using ctx dm(4) by (simp add: s1_def)
  then obtain s2 root' where s2: "rehang s1 root node m = Some (s2, root')" "crep s2 nil root' m par ctx" "same_out (cadrs ctx) s1 s2"
    using rehang_crep [of s1 nil root node par ctx nn m] s1n nn(3) m(3) dd(6,9) by blast
  have s2m: "s2 m = Some ?nm" "s2 nil = Some sn" using s2(3) dm nn' m(2) nl by (auto simp: same_out_def s1_def)
  have "same_out (insert m (cadrs ctx)) s s2" using s2(3) by (auto simp: same_out_def s1_def)
  then have "rep s2 nil pl l" "rep s2 nil pr R" using rep_same_out [of _ s s2] sub dd(7,8) dm(2,3) by blast+
  then obtain s3 where s3: "(if adr nil l \<noteq> nil then set_parent (adr nil l) m s2 else Some s2) = Some s3" "rep s3 nil m l"
    "same_out (set (adrs l)) s2 s3" using reparent dd(1) by blast
  have s3m: "s3 m = Some ?nm" "s3 nil = Some sn" using s3(3) s2m dm nn' by (auto simp: same_out_def)
  have "rep s3 nil pr R" using rep_same_out [OF s3(3), of R] \<open>rep s2 nil pr R\<close> dd(3) by blast
  then obtain s4 where s4: "(if adr nil R \<noteq> nil then set_parent (adr nil R) m s3 else Some s3) = Some s4" "rep s4 nil m R"
    "same_out (set (adrs R)) s3 s4" using reparent dd(2) by blast
  have s4m: "s4 m = Some ?nm" "s4 nil = Some sn" using s4(3) s3m dm nn' by (auto simp: same_out_def)
  have "replace_rest s root nil node m = Some (s4, root')"
  proof -
    have "ngx_rbt_copy_color m node (s(m \<mapsto> nm\<lparr>rb_left := adr nil l, rb_right := adr nil R, rb_parent := par\<rparr>)) = Some s1"
      using nn(1) dm(1) by (simp add: ngx_rbt_copy_color_def fld_def upd_Some s1_def)
    then show ?thesis unfolding replace_rest_def
      using nn m(1) dm(1) s2(1) s2m s3(1) s3m s4(1) by (simp add: fld_def set_defs upd_Some)
  qed
  moreover have "rep s4 nil par (Node l (m, rb_key nm, c) R)"
    using s4m(1) m(2) nn(2) s4(2) rep_same_out [OF s4(3), of l] s3(2) dd(3) by (auto simp: cell_def)
  moreover have "crep s4 nil root' m par ctx"
    using s2(2) crep_same_out [OF s3(3), of ctx] crep_same_out [OF s4(3), of ctx] dd(7,8) by blast
  moreover have "distinct (adrs (plug ctx (Node l (m, rb_key nm, c) R)))"
    using d dm by (auto simp: adrs_def inorder_plug cadrs_def)
  moreover have "same_out (insert m (set (adrs l) \<union> set (adrs R) \<union> cadrs ctx)) s s4"
    using s2(3) s3(3) s4(3) by (auto simp: same_out_def s1_def)
  ultimately show ?thesis using s4m(2) nl(2) by (auto intro: focusI)
qed

end
