(* ===== verification/Ngx_Rbtree_Remove.thy ===== *)
theory Ngx_Rbtree_Remove
  imports Ngx_Rbtree_Unlink
begin

text \<open>
  The whole of \<^verbatim>\<open>ngx_rbtree_delete\<close>: the tree without the node, and the invariant restored.
\<close>

lemma adr_not_in: "set (adrs t) \<inter> A = {} \<Longrightarrow> nil \<notin> A \<Longrightarrow> adr nil t \<notin> A"
  using adr_in [of nil t] by (metis disjoint_iff)

lemma adr_mem: "adr nil t \<in> insert nil (set (adrs t))"
  by (cases t) auto

lemma adrs_M: "set (adrs (plug ctx (Node Leaf (m, km, cm) t))) = insert m (set (adrs (plug ctx t)))"
  "set (adrs (plug ctx (Node t (m, km, cm) Leaf))) = insert m (set (adrs (plug ctx t)))"
  by (auto simp: adrs_plug)

lemma successor_focus:
  assumes z: "focus s nil root (Node Leaf (m, km, cm) mr) (cs @ FR l (node, k, c) # ctx)"
  shows "\<exists>s1 s' root'. rb_unlink s m (adr nil mr) = Some s1 \<and> rb_replace s1 root nil node m (adr nil mr) = Some (s', root') \<and>
    focus s' nil root' mr (cs @ FR l (m, km, c) # ctx) \<and>
    fld rb_parent s' (adr nil mr) = Some (fst (frame_lab (hd (cs @ FR l (m, km, c) # ctx)))) \<and>
    same_out (insert nil (set (adrs (plug (cs @ FR l (node, k, c) # ctx) (Node Leaf (m, km, cm) mr))))) s s' \<and> s' node \<noteq> None"
proof -
  let ?C = "cs @ FR l (node, k, c) # ctx" and ?C' = "cs @ FR l (m, km, c) # ctx"
  obtain f C where fC: "?C = f # C" by (cases ?C) auto
  obtain s1 where s1: "rb_unlink s m (adr nil mr) = Some s1" "rep s1 nil m mr"
    "crep s1 nil root (adr nil mr) (fst (frame_lab f)) ?C" "same_out (cadrs ?C) s s1"
    using unlink_focus [of s nil root _ f C m km cm mr] z unfolding fC by blast
  from z obtain par sn where p: "rep s nil par (Node Leaf (m, km, cm) mr)" "distinct (adrs (Node Leaf (m, km, cm) mr))"
    "set (adrs (Node Leaf (m, km, cm) mr)) \<inter> cadrs ?C = {}" "s nil = Some sn" "rb_color sn = 0"
    "nil \<notin> set (adrs (Node Leaf (m, km, cm) mr))" "nil \<notin> cadrs ?C" "distinct (adrs (plug ?C (Node Leaf (m, km, cm) mr)))"
    by (rule focusE)
  have mC: "m \<notin> cadrs ?C" "m \<notin> set (adrs mr)" "m \<noteq> nil" "set (adrs mr) \<inter> cadrs ?C = {}" "nil \<notin> set (adrs mr)" "node \<noteq> nil"
    and aC: "adr nil mr \<notin> cadrs ?C" "adr nil mr \<noteq> m"
    using p(2,3,6,7) adr_not_in [of mr "insert m (cadrs ?C)" nil] by auto
  have s1n: "s1 nil = Some sn" "s1 m = s m" using s1(4) p(4,7) mC(1) by (auto simp: same_out_def)
  obtain nm where nm: "s1 m = Some nm" "rb_key nm = km" "rb_parent nm = fst (frame_lab f)"
    using focus_parent [of s nil root Leaf m km cm mr f C] z p(1) s1n(2) unfolding fC by (auto simp: cell_def fld_def)
  have dp: "distinct (adrs (plug ?C mr))" "m \<notin> set (adrs (plug ?C mr))"
    using p(8) mC(1,2) by (auto simp: adrs_def inorder_plug cadrs_def simp del: plug_append)
  define q where "q = (if fst (frame_lab f) = node then m else fst (frame_lab f))"
  obtain s2 sn2 where s2: "set_parent (adr nil mr) q s1 = Some s2" "rep s2 nil q mr" "same_out {adr nil mr} s1 s2"
    "s2 nil = Some sn2" "rb_color sn2 = 0" "fld rb_parent s2 (adr nil mr) = Some q"
    using set_parent_any [OF s1(2) _ s1n(1) p(5), of q] p(2) by auto
  have c2: "crep s2 nil root (adr nil mr) (fst (frame_lab f)) ?C" using crep_same_out [OF s2(3), of ?C] s1(3) aC by simp
  have s2m: "s2 m = Some nm" using s2(3) nm(1) aC(2) by (auto simp: same_out_def)
  have ph: "rb_replace s1 root nil node m (adr nil mr) = replace_rest s2 root nil node m"
    unfolding replace_phases using nm s2(1) by (simp add: fld_def q_def split: if_splits)
  have q: "q = fst (frame_lab (hd ?C'))" "cs = [] \<or> (q = fst (frame_lab f) \<and> fst (frame_lab f) \<noteq> node)"
  proof -
    have "fst (frame_lab f) \<in> cadrs cs" if "cs \<noteq> []" using that fC by (cases cs; cases f) auto
    moreover have "node \<notin> cadrs cs"
      using dp(1) distinct_plug [of ctx "Node l (node, k, c) (plug cs mr)"] by (simp add: adrs_plug)
    ultimately show "q = fst (frame_lab (hd ?C'))" "cs = [] \<or> (q = fst (frame_lab f) \<and> fst (frame_lab f) \<noteq> node)"
      using fC by (cases cs; auto simp: q_def)+
  qed
  have "\<exists>nn par2 pl pr. s2 node = Some nn \<and> (rb_color nn \<noteq> 0) = c \<and> rb_parent nn = par2 \<and> rb_left nn = adr nil l \<and>
      rb_right nn = adr nil (plug cs mr) \<and> rep s2 nil pl l \<and> rep s2 nil pr (plug cs mr) \<and> crep s2 nil root node par2 ctx"
  proof (cases "cs = []")
    case True
    then show ?thesis using c2 s2(2) fC by (auto simp: cell_def)
  next
    case False
    then have "focus s2 nil root mr ?C" using focusI [OF s2(2) _ dp(1) s2(4,5)] c2 q(2) by simp
    then have "focus s2 nil root (Node l (node, k, c) (plug cs mr)) ctx" by (simp add: focus_append focus_up_down)
    then show ?thesis by (auto simp: focus_def cell_def)
  qed
  then obtain nn par2 pl pr where nn: "s2 node = Some nn" "(rb_color nn \<noteq> 0) = c" "rb_parent nn = par2" "rb_left nn = adr nil l"
      "rb_right nn = adr nil (plug cs mr)" "rep s2 nil pl l" "rep s2 nil pr (plug cs mr)" "crep s2 nil root node par2 ctx" by blast
  obtain s3 root' where s3: "replace_rest s2 root nil node m = Some (s3, root')"
    "focus s3 nil root' (Node l (m, km, c) (plug cs mr)) ctx"
    "same_out (insert m (set (adrs l) \<union> set (adrs (plug cs mr)) \<union> cadrs ctx)) s2 s3"
    using replace_rest_focus [OF nn, of k m nm sn2] dp s2m mC(3,6) s2(4,5) nm(2) by auto
  have z3: "focus s3 nil root' mr ?C'" using s3(2) by (simp add: focus_append focus_up_down)
  obtain f' C' where fC': "?C' = f' # C'" by (cases ?C') auto
  let ?A = "insert m (set (adrs l) \<union> set (adrs (plug cs mr)) \<union> cadrs ctx)"
  have A: "nil \<notin> ?A" "node \<notin> ?A"
    using p(7) mC dp(1) distinct_plug [of ctx "Node l (node, k, c) (plug cs mr)"] by (auto simp: adrs_plug)
  have "fld rb_parent s3 (adr nil mr) = Some (fst (frame_lab f'))"
    using parent_kept [OF z3 [unfolded fC'] s3(3) A(1)] s2(6) q(1) fC' by simp
  moreover have "same_out (insert nil (set (adrs (plug ?C (Node Leaf (m, km, cm) mr))))) s s3"
  proof -
    let ?B = "insert nil (set (adrs (plug ?C (Node Leaf (m, km, cm) mr))))"
    have "cadrs ?C \<subseteq> ?B" "{adr nil mr} \<subseteq> ?B" "?A \<subseteq> ?B" using adr_in [of nil mr] by (auto simp: adrs_plug)
    then show ?thesis using s1(4) s2(3) s3(3) same_out_mono same_out_trans by meson
  qed
  moreover have "s3 node = s2 node" using s3(3) A(2) by (simp add: same_out_def)
  ultimately show ?thesis using s1(1) ph s3(1) z3 fC' nn(1) by auto
qed

text \<open>A node with a missing child.\<close>

lemma single_focus:
  assumes z: "focus s nil root M (f # ctx)" and M: "M = Node Leaf (node, k, c) t \<or> M = Node t (node, k, c) Leaf"
  shows "\<exists>s1 s'. rb_unlink s node (adr nil t) = Some s1 \<and> fld rb_parent s1 node = Some (fst (frame_lab f)) \<and>
    set_parent (adr nil t) (fst (frame_lab f)) s1 = Some s' \<and> focus s' nil root t (f # ctx) \<and>
    fld rb_parent s' (adr nil t) = Some (fst (frame_lab f)) \<and>
    same_out (insert nil (set (adrs (plug (f # ctx) M)))) s s' \<and> s' node \<noteq> None"
proof -
  let ?sp = "fst (frame_lab f)"
  obtain s1 where s1: "rb_unlink s node (adr nil t) = Some s1" "rep s1 nil node t" "crep s1 nil root (adr nil t) ?sp (f # ctx)"
    "same_out (cadrs (f # ctx)) s s1" using unlink_focus [OF z M] by blast
  from z obtain par sn where p: "rep s nil par M" "distinct (adrs M)" "set (adrs M) \<inter> cadrs (f # ctx) = {}" "s nil = Some sn"
    "rb_color sn = 0" "nil \<notin> set (adrs M)" "nil \<notin> cadrs (f # ctx)" "distinct (adrs (plug (f # ctx) M))"
    by (rule focusE)
  have t: "distinct (adrs t)" "set (adrs t) \<inter> cadrs (f # ctx) = {}" "node \<notin> set (adrs t)" "node \<notin> cadrs (f # ctx)" "node \<noteq> nil"
    using M p(2,3,6) by auto
  have s1n: "s1 nil = Some sn" "s1 node = s node" using s1(4) p(4,7) t(4) by (auto simp: same_out_def)
  have par: "fld rb_parent s1 node = Some ?sp"
    using focus_parent [of s nil root Leaf node k c t f ctx] focus_parent [of s nil root t node k c Leaf f ctx] z M s1n(2)
    by (auto simp: fld_def)
  obtain s2 sn2 where s2: "set_parent (adr nil t) ?sp s1 = Some s2" "rep s2 nil ?sp t" "same_out {adr nil t} s1 s2"
    "s2 nil = Some sn2" "rb_color sn2 = 0" "fld rb_parent s2 (adr nil t) = Some ?sp"
    using set_parent_any [OF s1(2) t(1) s1n(1) p(5), of ?sp] by auto
  have "adr nil t \<notin> cadrs (f # ctx)" "adr nil t \<noteq> node"
    using adr_not_in [of t "insert node (cadrs (f # ctx))" nil] t(2,3,5) p(7) by auto
  then have "crep s2 nil root (adr nil t) ?sp (f # ctx)" "s2 node = s1 node"
    using crep_same_out [OF s2(3), of "f # ctx"] s1(3) s2(3) by (auto simp: same_out_def)
  moreover have "distinct (adrs (plug (f # ctx) t))"
    using p(8) M by (elim disjE) (simp_all add: adrs_def inorder_plug del: plug.simps)
  ultimately have "focus s2 nil root t (f # ctx)" using focusI [OF s2(2)] s2(4,5) by blast
  moreover have "same_out (insert nil (set (adrs (plug (f # ctx) M)))) s s2"
  proof -
    let ?B = "insert nil (set (adrs (plug (f # ctx) M)))"
    have "cadrs (f # ctx) \<subseteq> ?B" "{adr nil t} \<subseteq> ?B" using adr_in [of nil t] M by (auto simp: adrs_plug simp del: plug.simps)
    then show ?thesis using s1(4) s2(3) same_out_mono same_out_trans by meson
  qed
  moreover have "s2 node \<noteq> None" using \<open>s2 node = s1 node\<close> par by (auto simp: fld_def)
  ultimately show ?thesis using s1(1) par s2(1,6) by auto
qed

section \<open>The fixup after the node is out\<close>

definition rb_delete_end :: "bool \<Rightarrow> rheap \<Rightarrow> ngx_rbtree \<Rightarrow> ptr \<Rightarrow> ptr \<Rightarrow> (rheap \<times> ngx_rbtree) option" where
  "rb_delete_end red s tree root temp =
     (if red then Some (s, tree\<lparr>rt_root := root\<rparr>)
      else do {
        (s, root, temp) \<leftarrow> rb_delete_fixup s root (rt_sentinel tree) temp;
        s \<leftarrow> ngx_rbt_black temp s;
        Some (s, tree\<lparr>rt_root := root\<rparr>)
      })"

lemma delete_phases:
  "ngx_rbtree_delete s tree node = do {
     (subst, temp) \<leftarrow> rb_delete_choose s (rt_sentinel tree) node;
     if subst = rt_root tree then do {
       s \<leftarrow> ngx_rbt_black temp s;
       s \<leftarrow> rb_clear node s;
       Some (s, tree\<lparr>rt_root := temp\<rparr>)
     }
     else do {
       red \<leftarrow> ngx_rbt_is_red s subst;
       s \<leftarrow> rb_unlink s subst temp;
       (s, root) \<leftarrow>
         (if subst = node then do {
            sp \<leftarrow> fld rb_parent s subst;
            s \<leftarrow> set_parent temp sp s;
            Some (s, rt_root tree)
          }
          else rb_replace s (rt_root tree) (rt_sentinel tree) node subst temp);
       s \<leftarrow> rb_clear node s;
       rb_delete_end red s tree root temp
     }
   }"
  by (simp only: ngx_rbtree_delete_def rb_unlink_def rb_delete_end_def Let_def bind_assoc)

lemma delete_end_focus:
  assumes z: "focus s (rt_sentinel tree) root t ctx" "ctx \<noteq> []"
      "fld rb_parent s (adr (rt_sentinel tree) t) = Some (fst (frame_lab (hd ctx)))"
    and inv: "invc t" "invh t" "cc ctx red" "ch ctx (bh t + (if red then 0 else 1))" "red \<longrightarrow> \<not> redt t" "\<not> frame_red (last ctx)"
  shows "\<exists>s' tree' T'. rb_delete_end red s tree root (adr (rt_sentinel tree) t) = Some (s', tree') \<and> rbt s' tree' T' \<and>
    rt_sentinel tree' = rt_sentinel tree \<and> ents T' = ents (plug ctx t) \<and>
    same_out (insert (rt_sentinel tree) (set (adrs (plug ctx t)))) s s'"
proof (cases red)
  case True
  then have "invc (plug ctx t)" "invh (plug ctx t)" "\<not> redt (plug ctx t)"
    using inv cc_black [of ctx True] z(2) by (auto simp: invc_plug invh_plug redt_plug)
  then show ?thesis using True z(1) focus_plug [of s _ root t ctx]
    by (intro exI [of _ s] exI [of _ "tree\<lparr>rt_root := root\<rparr>"] exI [of _ "plug ctx t"]) (auto simp: rb_delete_end_def rbt_def)
next
  case False
  let ?nil = "rt_sentinel tree"
  have "lacks s ?nil root t ctx" using z inv False black_inv(1) [of t] by (auto simp: lacks_def)
  then obtain s1 root1 t1 ctx1 where s1: "rb_delete_fixup s root ?nil (adr ?nil t) = Some (s1, root1, adr ?nil t1)"
    "lacks s1 ?nil root1 t1 ctx1" "ctx1 = [] \<or> redt t1" "ents (plug ctx1 t1) = ents (plug ctx t)"
    "same_out (set (adrs (plug ctx t))) s s1" using delete_fixup_focus by blast
  have l1: "focus s1 ?nil root1 t1 ctx1" "invc (recolt False t1)" "invh t1" "cc ctx1 False" "ch ctx1 (bh t1 + 1)"
    "ctx1 \<noteq> [] \<longrightarrow> \<not> frame_red (last ctx1)" using s1(2) by (auto simp: lacks_def)
  obtain s2 where s2: "ngx_rbt_black (adr ?nil t1) s1 = Some s2" "focus s2 ?nil root1 (recolt False t1) ctx1" "same_out {adr ?nil t1} s1 s2"
    using paint_any [OF l1(1)] by blast
  let ?T = "plug ctx1 (recolt False t1)"
  have en: "ents ?T = ents (plug ctx t)" using s1(4) ents_plug_cong [of "recolt False t1" t1 ctx1] by simp
  have "bh (recolt False t1) = bh t1 + 1" if "redt t1" using that by (cases t1 rule: redt.cases) auto
  then have "invh ?T" using l1(3,5) s1(3) black_inv(2) [of t1] by (auto simp: invh_plug)
  moreover have "invc ?T" using l1(2,4) black_inv(3) [of t1] by (simp add: invc_plug)
  moreover have "\<not> redt ?T" using l1(6) black_inv(3) [of t1] redt_plug [of ctx1 "recolt False t1"] by (cases "ctx1 = []") auto
  moreover have "focus s2 ?nil root1 ?T []" using s2(2) focus_plug by blast
  moreover have "same_out (insert ?nil (set (adrs (plug ctx t)))) s s2"
  proof -
    have "set (adrs (plug ctx t)) = set (adrs (plug ctx1 t1))" using s1(4) by (simp add: adrs_ents)
    then have "{adr ?nil t1} \<subseteq> insert ?nil (set (adrs (plug ctx t)))" using adr_in [of ?nil t1] by (auto simp: adrs_plug)
    then show ?thesis using s1(5) s2(3) same_out_mono same_out_trans by (meson subset_insertI)
  qed
  ultimately show ?thesis using False s1(1) s2(1) en
    by (intro exI [of _ s2] exI [of _ "tree\<lparr>rt_root := root1\<rparr>"] exI [of _ ?T]) (auto simp: rb_delete_end_def rbt_def)
qed

section \<open>The whole function\<close>

lemma node_split: "a \<in> set (adrs T) \<Longrightarrow> \<exists>ctx l k c r. T = plug ctx (Node l (a, k, c) r)"
proof (induction T)
  case (Node l x r)
  consider "a = fst x" | "a \<in> set (adrs l)" | "a \<in> set (adrs r)" using Node.prems by auto
  then show ?case
  proof cases
    case 1
    then have "Node l x r = plug [] (Node l (a, fst (snd x), snd (snd x)) r)" by simp
    then show ?thesis by blast
  next
    case 2
    then obtain ctx l' k c r' where "l = plug ctx (Node l' (a, k, c) r')" using Node.IH(1) by blast
    then have "Node l x r = plug (ctx @ [FL x r]) (Node l' (a, k, c) r')" by simp
    then show ?thesis by blast
  next
    case 3
    then obtain ctx l' k c r' where "r = plug ctx (Node l' (a, k, c) r')" using Node.IH(2) by blast
    then have "Node l x r = plug (ctx @ [FR l x]) (Node l' (a, k, c) r')" by simp
    then show ?thesis by blast
  qed
qed simp

definition without :: "ptr \<Rightarrow> (ptr \<times> u64) list \<Rightarrow> (ptr \<times> u64) list" where
  "without a xs = filter (\<lambda>x. fst x \<noteq> a) xs"

lemma without_split: "a \<notin> fst ` set (xs @ ys) \<Longrightarrow> without a (xs @ (a, k) # ys) = xs @ ys"
proof -
  assume a: "a \<notin> fst ` set (xs @ ys)"
  then have "filter (\<lambda>x. fst x \<noteq> a) xs = xs" "filter (\<lambda>x. fst x \<noteq> a) ys = ys" by (force simp: filter_id_conv)+
  then show ?thesis by (simp add: without_def)
qed

lemma ents_plug: "ents (plug ctx t) = map (\<lambda>(a, k, c). (a, k)) (pre ctx) @ ents t @ map (\<lambda>(a, k, c). (a, k)) (post ctx)"
  by (simp add: ents_def inorder_plug)

lemma cc_relabel: "cc (cs @ FR l (a, k, c) # ctx) red = cc (cs @ FR l (a', k', c) # ctx) red"
  by (induction cs arbitrary: red) auto

lemma ch_relabel: "ch (cs @ FR l (a, k, c) # ctx) h = ch (cs @ FR l (a', k', c) # ctx) h"
  by (induction cs arbitrary: h) auto

lemma pre_append: "pre (cs @ ctx) = pre ctx @ pre cs"
  by (induction cs rule: pre.induct) auto

lemma post_append: "post (cs @ ctx) = post cs @ post ctx"
  by (induction cs rule: post.induct) auto

text \<open>The node has a missing child and is the root.\<close>

lemma delete_root:
  assumes r: "rbt s tree M" and M: "M = Node Leaf (node, k, c) t \<or> M = Node t (node, k, c) Leaf"
  shows "\<exists>s' tree' T'. ngx_rbtree_delete s tree node = Some (s', tree') \<and> rbt s' tree' T' \<and>
    rt_sentinel tree' = rt_sentinel tree \<and> ents T' = ents t \<and> same_out (insert (rt_sentinel tree) (set (adrs M))) s s' \<and>
    s' node \<noteq> None"
proof -
  let ?nil = "rt_sentinel tree"
  have z: "focus s ?nil (rt_root tree) M []" "invc M" "invh M" using r by (auto simp: rbt_def)
  have zt: "focus s ?nil (adr ?nil t) t []" and nt: "node \<notin> set (adrs t)" "node \<noteq> ?nil" "rt_root tree = node"
    using z(1) M by (auto simp: focus_def)
  have ti: "invc t" "invh t" using z(2,3) M by auto
  obtain s1 where s1: "ngx_rbt_black (adr ?nil t) s = Some s1" "focus s1 ?nil (adr ?nil t) (recolt False t) []" "same_out {adr ?nil t} s s1"
    using paint_any [OF zt] by blast
  have "adr ?nil t \<noteq> node" using adr_in [of ?nil t] nt(1,2) by metis
  moreover obtain n where "s node = Some n" using focus_cell [of s ?nil] z(1) M by blast
  ultimately have "s1 node = Some n" using s1(3) by (auto simp: same_out_def)
  then obtain s2 where s2: "rb_clear node s1 = Some s2" "same_out {node} s1 s2" "s2 node \<noteq> None" using clear_some by blast
  have "focus s2 ?nil (adr ?nil t) (recolt False t) []" using focus_frame [OF s1(2) s2(2)] nt by auto
  then have "rbt s2 (tree\<lparr>rt_root := adr ?nil t\<rparr>) (recolt False t)" using ti black_inv by (simp add: rbt_def)
  moreover have "rb_delete_choose s ?nil node = Some (node, adr ?nil t)"
    using focus_fld [of s ?nil "rt_root tree"] z(1) M by (auto simp: rb_delete_choose_def)
  then have "ngx_rbtree_delete s tree node = Some (s2, tree\<lparr>rt_root := adr ?nil t\<rparr>)"
    unfolding delete_phases using nt(3) s1(1) s2(1) by simp
  moreover have "same_out (insert ?nil (set (adrs M))) s s2"
  proof -
    have "{adr ?nil t} \<subseteq> insert ?nil (set (adrs M))" "{node} \<subseteq> insert ?nil (set (adrs M))" using adr_mem [of ?nil t] M by auto
    then show ?thesis using s1(3) s2(2) same_out_mono same_out_trans by meson
  qed
  ultimately show ?thesis using s2(3)
    by (intro exI [of _ s2] exI [of _ "tree\<lparr>rt_root := adr ?nil t\<rparr>"] exI [of _ "recolt False t"]) simp
qed

text \<open>The last steps: clearing the node that is out of the tree, and the fixup.\<close>

lemma delete_finish:
  assumes z: "focus s (rt_sentinel tree) root t ctx" "ctx \<noteq> []"
      "fld rb_parent s (adr (rt_sentinel tree) t) = Some (fst (frame_lab (hd ctx)))"
    and inv: "invc t" "invh t" "cc ctx red" "ch ctx (bh t + (if red then 0 else 1))" "red \<longrightarrow> \<not> redt t" "\<not> frame_red (last ctx)"
    and n: "s node \<noteq> None" "node \<noteq> rt_sentinel tree" "node \<notin> set (adrs (plug ctx t))"
  shows "\<exists>s' tree' T'. do {s \<leftarrow> rb_clear node s; rb_delete_end red s tree root (adr (rt_sentinel tree) t)} = Some (s', tree') \<and>
    rbt s' tree' T' \<and> rt_sentinel tree' = rt_sentinel tree \<and> ents T' = ents (plug ctx t) \<and>
    same_out (insert node (insert (rt_sentinel tree) (set (adrs (plug ctx t))))) s s' \<and> s' node \<noteq> None"
proof -
  let ?nil = "rt_sentinel tree"
  obtain s1 where s1: "rb_clear node s = Some s1" "same_out {node} s s1" "s1 node \<noteq> None" using n(1) clear_some by blast
  have z1: "focus s1 ?nil root t ctx" using focus_frame [OF z(1) s1(2)] n(2,3) by auto
  have "adr ?nil t \<noteq> node" using adr_in [of ?nil t] n(2,3) by (auto simp: adrs_plug)
  then have "fld rb_parent s1 (adr ?nil t) = Some (fst (frame_lab (hd ctx)))"
    using z(3) s1(2) by (simp add: same_out_def fld_def)
  from delete_end_focus [OF z1 z(2) this inv] s1 n(2,3) show ?thesis
    by (auto simp: same_out_def)
qed

lemma delete_single:
  assumes r: "rbt s tree (plug ctx M)" and M: "M = Node Leaf (node, k, c) t \<or> M = Node t (node, k, c) Leaf"
  shows "\<exists>s' tree' T'. ngx_rbtree_delete s tree node = Some (s', tree') \<and> rbt s' tree' T' \<and>
    rt_sentinel tree' = rt_sentinel tree \<and> ents T' = ents (plug ctx t) \<and>
    same_out (insert (rt_sentinel tree) (set (adrs (plug ctx M)))) s s' \<and> s' node \<noteq> None"
proof (cases ctx)
  case Nil
  then show ?thesis using delete_root [of s tree M] r M by simp
next
  case (Cons f ctx')
  let ?nil = "rt_sentinel tree"
  have z: "focus s ?nil (rt_root tree) M (f # ctx')" and inv: "invc (plug ctx M)" "invh (plug ctx M)" "\<not> redt (plug ctx M)"
    using r Cons focus_plug [of s ?nil _ M ctx] by (auto simp: rbt_def)
  obtain s1 s2 where s2: "rb_unlink s node (adr ?nil t) = Some s1" "fld rb_parent s1 node = Some (fst (frame_lab f))"
    "set_parent (adr ?nil t) (fst (frame_lab f)) s1 = Some s2" "focus s2 ?nil (rt_root tree) t (f # ctx')"
    "fld rb_parent s2 (adr ?nil t) = Some (fst (frame_lab f))"
    "same_out (insert ?nil (set (adrs (plug (f # ctx') M)))) s s2" "s2 node \<noteq> None"
    using single_focus [OF z M] by blast
  have nd: "node \<notin> set (adrs (plug ctx t))" "node \<noteq> ?nil" "node \<noteq> rt_root tree"
    using focus_distinct [OF z] M Cons focus_not_root [of s ?nil "rt_root tree" _ node k c _ f ctx'] z
    by (auto simp: adrs_plug simp del: plug.simps dest!: distinct_plug)
  have iv: "invc t" "invh t" "cc ctx c" "ch ctx (bh t + (if c then 0 else 1))" "c \<longrightarrow> \<not> redt t" "\<not> frame_red (last ctx)"
    using inv M redt_plug [of ctx M] Cons by (auto simp: invc_plug invh_plug simp del: plug.simps)
  obtain s' tree' T' where s': "do {s \<leftarrow> rb_clear node s2; rb_delete_end c s tree (rt_root tree) (adr ?nil t)} = Some (s', tree')"
    "rbt s' tree' T'" "rt_sentinel tree' = ?nil" "ents T' = ents (plug ctx t)"
    "same_out (insert node (insert ?nil (set (adrs (plug ctx t))))) s2 s'" "s' node \<noteq> None"
    using delete_finish [of s2 tree "rt_root tree" t ctx c node] s2(4,5,7) iv nd Cons by auto
  have "ngx_rbt_is_red s node = Some c" using focus_red [OF z] M by auto
  moreover have "rb_delete_choose s ?nil node = Some (node, adr ?nil t)"
    using focus_fld [of s ?nil "rt_root tree"] z M by (auto simp: rb_delete_choose_def)
  ultimately have "ngx_rbtree_delete s tree node = Some (s', tree')"
    unfolding delete_phases using nd(3) s2(1,2,3) s'(1) by simp
  moreover have "same_out (insert ?nil (set (adrs (plug ctx M)))) s s'"
  proof -
    have "insert node (insert ?nil (set (adrs (plug ctx t)))) = insert ?nil (set (adrs (plug ctx M)))" using M adrs_M by auto
    then show ?thesis using s2(6) s'(5) Cons same_out_trans by metis
  qed
  ultimately show ?thesis using s'(2-4,6) by blast
qed

lemma delete_pair:
  assumes r: "rbt s tree (plug ctx (Node l (node, k, c) R))" and lr: "l \<noteq> Leaf" "R \<noteq> Leaf"
  shows "\<exists>s' tree' T'. ngx_rbtree_delete s tree node = Some (s', tree') \<and> rbt s' tree' T' \<and>
    rt_sentinel tree' = rt_sentinel tree \<and>
    ents T' = map (\<lambda>(a, k, c). (a, k)) (pre ctx) @ ents l @ ents R @ map (\<lambda>(a, k, c). (a, k)) (post ctx) \<and>
    same_out (insert (rt_sentinel tree) (set (adrs (plug ctx (Node l (node, k, c) R))))) s s' \<and> s' node \<noteq> None"
proof -
  let ?nil = "rt_sentinel tree" and ?root = "rt_root tree"
  have zn: "focus s ?nil ?root (Node l (node, k, c) R) ctx" using r focus_plug by (auto simp: rbt_def)
  have zR: "focus s ?nil ?root R (FR l (node, k, c) # ctx)" using zn by (simp add: focus_up_down)
  obtain cs m km cm mr where mn: "ngx_rbtree_min s (adr ?nil R) ?nil = Some m" "R = plug cs (Node Leaf (m, km, cm) mr)" "pre cs = []"
    using min_focus [OF zR lr(2)] by blast
  let ?C = "cs @ FR l (node, k, c) # ctx" and ?C' = "cs @ FR l (m, km, c) # ctx" and ?M = "Node Leaf (m, km, cm) mr"
  have z: "focus s ?nil ?root ?M ?C" using zR mn(2) by (simp add: focus_append)
  have pl: "plug ctx (Node l (node, k, c) R) = plug ?C ?M" using mn(2) by simp
  obtain s1 s2 root2 where s2: "rb_unlink s m (adr ?nil mr) = Some s1" "rb_replace s1 ?root ?nil node m (adr ?nil mr) = Some (s2, root2)"
    "focus s2 ?nil root2 mr ?C'" "fld rb_parent s2 (adr ?nil mr) = Some (fst (frame_lab (hd ?C')))"
    "same_out (insert ?nil (set (adrs (plug ?C ?M)))) s s2" "s2 node \<noteq> None"
    using successor_focus [OF z] by blast
  have dc: "distinct (adrs (plug ctx (Node l (node, k, c) R)))" "?nil \<notin> set (adrs (plug ctx (Node l (node, k, c) R)))"
    using focus_distinct [OF zn] by auto
  have nd: "node \<noteq> m" "node \<notin> set (adrs (plug ?C' mr))" "node \<noteq> ?nil" "m \<noteq> ?root"
  proof -
    show "node \<noteq> ?nil" using dc(2) by (auto simp: adrs_plug)
    show "node \<noteq> m" "node \<notin> set (adrs (plug ?C' mr))"
      using distinct_plug [OF dc(1)] mn(2) by (auto simp: adrs_plug)
    obtain f C where "?C = f # C" by (cases ?C) auto
    then show "m \<noteq> ?root" using focus_not_root z by metis
  qed
  have inv: "invc (plug ?C ?M)" "invh (plug ?C ?M)" "\<not> redt (plug ?C ?M)" using r unfolding pl rbt_def by blast+
  have "frame_red (last ?C') = frame_red (last ?C)" by (cases "ctx = []") auto
  then have iv: "invc mr" "invh mr" "cc ?C' cm" "ch ?C' (bh mr + (if cm then 0 else 1))" "cm \<longrightarrow> \<not> redt mr" "\<not> frame_red (last ?C')"
    using inv redt_plug [of ?C ?M] cc_relabel [of cs l node k c ctx cm m km] ch_relabel [of cs l node k c ctx _ m km]
    unfolding invc_plug [of ?C ?M] invh_plug [of ?C ?M] by (auto simp del: plug_append)
  obtain s' tree' T' where s': "do {s \<leftarrow> rb_clear node s2; rb_delete_end cm s tree root2 (adr ?nil mr)} = Some (s', tree')"
    "rbt s' tree' T'" "rt_sentinel tree' = ?nil" "ents T' = ents (plug ?C' mr)"
    "same_out (insert node (insert ?nil (set (adrs (plug ?C' mr))))) s2 s'" "s' node \<noteq> None"
    using delete_finish [OF s2(3) _ s2(4) iv s2(6) nd(3,2)] by auto
  have rd: "ngx_rbt_is_red s m = Some cm" using focus_red [OF z] by simp
  have lf: "adr ?nil l \<noteq> ?nil" "adr ?nil R \<noteq> ?nil" using zn rep_adr lr by (auto simp: focus_def)
  have ch: "rb_delete_choose s ?nil node = Some (m, adr ?nil mr)"
    using focus_fld(1,2) [OF zn] lf mn(1) focus_fld(1,2) [OF z] by (simp add: rb_delete_choose_def)
  have "ngx_rbtree_delete s tree node = Some (s', tree')"
    unfolding delete_phases using ch rd nd(1,4) s2(1,2) s'(1) by simp
  moreover have "ents T' = map (\<lambda>(a, k, c). (a, k)) (pre ctx) @ ents l @ ents R @ map (\<lambda>(a, k, c). (a, k)) (post ctx)"
    using s'(4) mn(2,3) by (simp add: ents_plug)
  moreover have "same_out (insert ?nil (set (adrs (plug ?C ?M)))) s s'"
  proof -
    have "insert node (insert ?nil (set (adrs (plug ?C' mr)))) = insert ?nil (set (adrs (plug ?C ?M)))"
      by (auto simp: adrs_plug)
    then have "same_out (insert ?nil (set (adrs (plug ?C ?M)))) s2 s'" using s'(5) by (simp only:)
    then show ?thesis by (rule same_out_trans [OF s2(5)])
  qed
  ultimately show ?thesis using s'(2,3,6) unfolding pl by blast
qed

lemma delete_refines:
  assumes r: "rbt s tree T" and n: "node \<in> set (adrs T)"
  shows "\<exists>s' tree' T'. ngx_rbtree_delete s tree node = Some (s', tree') \<and> rbt s' tree' T' \<and>
    rt_sentinel tree' = rt_sentinel tree \<and> ents T' = without node (ents T) \<and>
    same_out (insert (rt_sentinel tree) (set (adrs T))) s s' \<and> s' node \<noteq> None"
proof -
  obtain ctx l k c R where T: "T = plug ctx (Node l (node, k, c) R)" using node_split [OF n] by blast
  let ?e = "map (\<lambda>(a, k, c). (a, k :: u64))"
  have "distinct (adrs T)" using r focus_distinct [of s "rt_sentinel tree" "rt_root tree" T "[]"] by (auto simp: rbt_def)
  then have "distinct (map fst (ents T))" by (simp add: adrs_ents)
  then have wo: "without node (ents T) = ?e (pre ctx) @ ents l @ ents R @ ?e (post ctx)"
    using without_split [of node "?e (pre ctx) @ ents l" "ents R @ ?e (post ctx)" k] T by (auto simp: ents_plug)
  consider "l = Leaf" | "R = Leaf" | "l \<noteq> Leaf" "R \<noteq> Leaf" by blast
  then show ?thesis
  proof cases
    case 1
    then show ?thesis using delete_single [of s tree ctx "Node Leaf (node, k, c) R" node k c R] r T wo by (simp add: ents_plug)
  next
    case 2
    then show ?thesis using delete_single [of s tree ctx "Node l (node, k, c) Leaf" node k c l] r T wo by (simp add: ents_plug)
  next
    case 3
    then show ?thesis using delete_pair [of s tree ctx l node k c R] r T wo by simp
  qed
qed

end
