(* ===== verification/Ngx_Rbtree_Props.thy ===== *)
theory Ngx_Rbtree_Props
  imports Ngx_Rbtree_Remove
begin

text \<open>
  The red-black tree as a whole: its height, the traversal by \<^verbatim>\<open>ngx_rbtree_min\<close> and \<^verbatim>\<open>ngx_rbtree_next\<close>, and
  sequences of insertions and deletions as operations on a sorted list.
\<close>

section \<open>The height\<close>

lemma bh_size: "invh t \<Longrightarrow> 2 ^ bh t \<le> length (ents t) + 1"
proof (induction t rule: invc.induct)
  case (2 l a k c r)
  then have "2 ^ bh l \<le> length (ents l) + 1" "2 ^ bh l \<le> length (ents r) + 1" by simp_all
  then show ?case by simp
qed simp

lemma bh_height: "invc t \<Longrightarrow> invh t \<Longrightarrow> height t \<le> 2 * bh t + (if redt t then 1 else 0)"
proof (induction t rule: invc.induct)
  case (2 l a k c r)
  then have "height l \<le> 2 * bh l + (if redt l then 1 else 0)" "height r \<le> 2 * bh l + (if redt r then 1 else 0)" by simp_all
  then show ?case using 2(3) by (cases c) (auto split: if_splits)
qed simp

lemma rbt_height:
  assumes "rbt s tree T"
  shows "2 ^ height T \<le> (length (ents T) + 1)\<^sup>2"
proof -
  have "height T \<le> 2 * bh T" "2 ^ bh T \<le> length (ents T) + 1"
    using assms bh_height [of T] bh_size [of T] by (auto simp: rbt_def)
  then have "(2 :: nat) ^ height T \<le> 2 ^ (2 * bh T)" by (intro power_increasing) auto
  also have "\<dots> = (2 ^ bh T)\<^sup>2" by (simp add: power_mult power2_eq_square mult_2 power_add)
  also have "\<dots> \<le> (length (ents T) + 1)\<^sup>2" using \<open>2 ^ bh T \<le> _\<close> by (intro power_mono) auto
  finally show ?thesis .
qed

section \<open>The traversal\<close>

definition first_or_null :: "ptr list \<Rightarrow> ptr" where
  "first_or_null xs = (case xs of [] \<Rightarrow> 0 | a # _ \<Rightarrow> a)"

lemma min_first:
  assumes "focus s nil root t ctx" and "t \<noteq> Leaf"
  shows "ngx_rbtree_min s (adr nil t) nil = Some (hd (adrs t))"
proof -
  obtain cs m km cm mr where "ngx_rbtree_min s (adr nil t) nil = Some m" "t = plug cs (Node Leaf (m, km, cm) mr)" "pre cs = []"
    using min_focus [OF assms] by blast
  then show ?thesis by (simp add: adrs_def inorder_plug)
qed

lemma next_up_focus:
  assumes "focus s nil root t ctx" and "t \<noteq> Leaf"
  shows "rb_next_up s root (adr nil t) = Some (first_or_null (map fst (post ctx)))"
  using assms
proof (induction ctx arbitrary: t)
  case Nil
  obtain l a k c r where t: "t = Node l (a, k, c) r" using Nil.prems(2) by (cases t rule: redt.cases) auto
  then obtain n where "s a = Some n" "a = root" using Nil.prems(1) focus_cell focus_root by fastforce
  then show ?case using t by (subst rb_next_up.simps) (simp add: first_or_null_def fld_def)
next
  case (Cons f ctx)
  obtain l a k c r where t: "t = Node l (a, k, c) r" using Cons.prems(2) by (cases t rule: redt.cases) auto
  obtain p kp cp where p: "frame_lab f = (p, kp, cp)" by (cases "frame_lab f") auto
  have pr: "fld rb_parent s a = Some p" "a \<noteq> root"
    using focus_parent focus_not_root Cons.prems(1) t p by fastforce+
  have z: "focus s nil root (plug1 f t) ctx" using Cons.prems(1) by (cases f) (simp_all add: focus_up_down)
  show ?case
  proof (cases f)
    case (FL x w)
    then have "fld rb_left s p = Some a" using focus_fld(1) [of s nil root t p kp cp w ctx] z p t by simp
    then show ?thesis using pr FL p t by (subst rb_next_up.simps) (simp add: first_or_null_def)
  next
    case (FR w x)
    then have "fld rb_left s p = Some (adr nil w)" using focus_fld(1) [of s nil root w p kp cp t ctx] z p by simp
    moreover have "adr nil w \<noteq> a"
      using focus_distinct [OF Cons.prems(1)] adr_mem [of nil w] FR t by (auto simp: adrs_plug dest: distinct_plug)
    ultimately show ?thesis using pr FR p t Cons.IH [OF z] by (subst rb_next_up.simps) simp
  qed
qed

lemma next_focus:
  assumes z: "focus s (rt_sentinel tree) (rt_root tree) (Node l (a, k, c) r) ctx"
  shows "ngx_rbtree_next s tree a = Some (first_or_null (adrs r @ map fst (post ctx)))"
proof -
  let ?nil = "rt_sentinel tree"
  have zr: "focus s ?nil (rt_root tree) r (FR l (a, k, c) # ctx)" using z by (simp add: focus_up_down)
  have lf: "adr ?nil r = ?nil \<longleftrightarrow> r = Leaf" using z rep_adr by (auto simp: focus_def)
  show ?thesis
  proof (cases "r = Leaf")
    case True
    then show ?thesis using focus_fld(2) [OF z] next_up_focus [OF z] by (simp add: ngx_rbtree_next_def)
  next
    case False
    then have "adrs r \<noteq> []" by (cases r) auto
    then show ?thesis using focus_fld(2) [OF z] min_first [OF zr False] lf False
      by (cases "adrs r") (simp_all add: ngx_rbtree_next_def first_or_null_def)
  qed
qed

lemma next_in_order:
  assumes r: "rbt s tree T" and xs: "adrs T = xs @ a # ys"
  shows "ngx_rbtree_next s tree a = Some (first_or_null ys)"
proof -
  obtain ctx l k c R where T: "T = plug ctx (Node l (a, k, c) R)" using node_split [of a T] xs by auto
  have z: "focus s (rt_sentinel tree) (rt_root tree) (Node l (a, k, c) R) ctx" using r T focus_plug by (auto simp: rbt_def)
  have "adrs T = (map fst (pre ctx) @ adrs l) @ a # (adrs R @ map fst (post ctx))" using T by (simp add: adrs_def inorder_plug)
  moreover have "distinct (adrs T)" using focus_distinct [OF z] T by simp
  ultimately have "ys = adrs R @ map fst (post ctx)" using xs by (auto simp: append_eq_append_conv2 Cons_eq_append_conv append_eq_Cons_conv)
  then show ?thesis using next_focus [OF z] by simp
qed

section \<open>Sequences of operations\<close>

datatype rb_op = Rb_insert ptr u64 | Rb_delete ptr

text \<open>The callers set the key of a node and insert it, and delete nodes that are in the tree.\<close>

fun rb_run :: "(rheap \<Rightarrow> ptr \<Rightarrow> ptr \<Rightarrow> ptr \<Rightarrow> rheap option) \<Rightarrow> rb_op list \<Rightarrow> rheap \<Rightarrow> ngx_rbtree \<Rightarrow> (rheap \<times> ngx_rbtree) option" where
  "rb_run ins [] s tree = Some (s, tree)"
| "rb_run ins (Rb_insert a k # ops) s tree = do {
     s \<leftarrow> upd a (\<lambda>n. n\<lparr>rb_key := k\<rparr>) s;
     (s, tree) \<leftarrow> ngx_rbtree_insert ins s tree a;
     rb_run ins ops s tree
   }"
| "rb_run ins (Rb_delete a # ops) s tree = do {
     (s, tree) \<leftarrow> ngx_rbtree_delete s tree a;
     rb_run ins ops s tree
   }"

text \<open>The specification: a list in the order of the keys, equal keys in the order of insertion.\<close>

fun list_run :: "(u64 \<Rightarrow> nat) \<Rightarrow> rb_op list \<Rightarrow> (ptr \<times> u64) list \<Rightarrow> (ptr \<times> u64) list" where
  "list_run rank [] xs = xs"
| "list_run rank (Rb_insert a k # ops) xs = list_run rank ops (insert_after rank (a, k) xs)"
| "list_run rank (Rb_delete a # ops) xs = list_run rank ops (without a xs)"

text \<open>Nodes are inserted only while they are out of the tree, deleted only while they are in it.\<close>

fun valid_run :: "rb_op list \<Rightarrow> ptr set \<Rightarrow> bool" where
  "valid_run [] A = True"
| "valid_run (Rb_insert a k # ops) A = (a \<notin> A \<and> valid_run ops (insert a A))"
| "valid_run (Rb_delete a # ops) A = (a \<in> A \<and> valid_run ops (A - {a}))"

fun op_node :: "rb_op \<Rightarrow> ptr" where
  "op_node (Rb_insert a k) = a"
| "op_node (Rb_delete a) = a"

fun op_key :: "rb_op \<Rightarrow> u64 list" where
  "op_key (Rb_insert a k) = [k]"
| "op_key (Rb_delete a) = []"

lemma same_out_dom:
  assumes "same_out A s s'" and "focus s' nil root' T' []" and "A \<subseteq> insert b (insert nil (set (adrs T')))" and "s' b \<noteq> None" and "s x \<noteq> None"
  shows "s' x \<noteq> None"
proof -
  have "s' y \<noteq> None" if y: "y \<in> set (adrs T')" for y
  proof -
    obtain ctx l k c R where "T' = plug ctx (Node l (y, k, c) R)" using node_split [OF y] by blast
    then show ?thesis using assms(2) focus_plug focus_cell by fastforce
  qed
  moreover have "s' nil \<noteq> None" using assms(2) by (auto simp: focus_def ngx_rbt_is_red_def fld_def)
  ultimately show ?thesis using assms by (cases "x \<in> A") (auto simp: same_out_def)
qed

lemma rbt_frame:
  assumes "rbt s tree T" and "same_out {a} s s'" and "a \<noteq> rt_sentinel tree" and "a \<notin> set (adrs T)"
  shows "rbt s' tree T"
  using assms focus_frame [of s "rt_sentinel tree" "rt_root tree" T "[]" "{a}" s'] by (auto simp: rbt_def)

context key_order begin

lemma insert_keyed:
  assumes r: "rbt s tree T" and a: "s a \<noteq> None" "a \<noteq> rt_sentinel tree" "a \<notin> set (adrs T)"
    and k: "key_sorted rank (ents T)" "\<forall>y \<in> set (ents T). ok (snd y)" "ok k"
  shows "\<exists>s' tree' T'. do {s \<leftarrow> upd a (\<lambda>n. n\<lparr>rb_key := k\<rparr>) s; ngx_rbtree_insert (insert_with lt) s tree a} = Some (s', tree') \<and>
    rbt s' tree' T' \<and> rt_sentinel tree' = rt_sentinel tree \<and> ents T' = insert_after rank (a, k) (ents T) \<and>
    (\<forall>x. s x \<noteq> None \<longrightarrow> s' x \<noteq> None)"
proof -
  obtain n where n: "s a = Some n" using a(1) by blast
  let ?s = "s(a \<mapsto> n\<lparr>rb_key := k\<rparr>)"
  have "rbt ?s tree T" using rbt_frame [OF r _ a(2,3)] by (simp add: same_out_def)
  from insert_refines [OF this _ a(2,3) k(1,2)] k(3) obtain s' tree' T' where
    s': "ngx_rbtree_insert (insert_with lt) ?s tree a = Some (s', tree')" "rbt s' tree' T'" "rt_sentinel tree' = rt_sentinel tree"
    "same_out (insert a (set (adrs T))) ?s s'" "ents T' = insert_after rank (a, k) (ents T)" by fastforce
  have ad: "set (adrs T') = insert a (set (adrs T))" using s'(5) by (simp add: adrs_ents)
  have z: "focus s' (rt_sentinel tree') (rt_root tree') T' []" using s'(2) by (simp add: rbt_def)
  then have "s' (rt_sentinel tree') \<noteq> None" by (auto simp: focus_def ngx_rbt_is_red_def fld_def)
  then have "s' x \<noteq> None" if "s x \<noteq> None" for x
    using that ad same_out_dom [OF s'(4) z, of "rt_sentinel tree'" x] by (cases "x = a") auto
  then show ?thesis using s' n by (auto simp: upd_Some)
qed

end

lemma delete_keyed:
  assumes r: "rbt s tree T" and n: "a \<in> set (adrs T)"
  shows "\<exists>s' tree' T'. ngx_rbtree_delete s tree a = Some (s', tree') \<and> rbt s' tree' T' \<and> rt_sentinel tree' = rt_sentinel tree \<and>
    ents T' = without a (ents T) \<and> (\<forall>x. s x \<noteq> None \<longrightarrow> s' x \<noteq> None)"
proof -
  obtain s' tree' T' where s': "ngx_rbtree_delete s tree a = Some (s', tree')" "rbt s' tree' T'" "rt_sentinel tree' = rt_sentinel tree"
    "ents T' = without a (ents T)" "same_out (insert (rt_sentinel tree) (set (adrs T))) s s'" "s' a \<noteq> None"
    using delete_refines [OF assms] by blast
  have "set (adrs T) \<subseteq> insert a (set (adrs T'))" using s'(4) by (auto simp: adrs_ents without_def)
  then have "s' x \<noteq> None" if "s x \<noteq> None" for x
    using that same_out_dom [OF s'(5), of "rt_sentinel tree'" "rt_root tree'" T' a x] s'(2,3,6) by (auto simp: rbt_def)
  then show ?thesis using s' by auto
qed

lemma without_sorted: "key_sorted rank xs \<Longrightarrow> key_sorted rank (without a xs)"
  by (simp add: key_sorted_def without_def sorted_map sorted_wrt_filter)

lemma set_without: "set (without a xs) \<subseteq> set xs"
  by (auto simp: without_def)

lemma adrs_without: "ents T' = without a (ents T) \<Longrightarrow> set (adrs T') = set (adrs T) - {a}"
  by (auto simp: adrs_ents without_def)

context key_order begin

lemma run_refines:
  assumes "rbt s tree T" and "key_sorted rank (ents T)" and "\<forall>y \<in> set (ents T). ok (snd y)" and "valid_run ops (set (adrs T))"
    and "\<forall>p \<in> set ops. s (op_node p) \<noteq> None \<and> op_node p \<noteq> rt_sentinel tree \<and> list_all ok (op_key p)"
  shows "\<exists>s' tree' T'. rb_run (insert_with lt) ops s tree = Some (s', tree') \<and> rbt s' tree' T' \<and>
    ents T' = list_run rank ops (ents T) \<and> key_sorted rank (ents T')"
  using assms
proof (induction ops arbitrary: s tree T)
  case Nil
  then show ?case by auto
next
  case (Cons p ops)
  show ?case
  proof (cases p)
    case (Rb_insert a k)
    obtain s1 tree1 T1 where s1: "do {s \<leftarrow> upd a (\<lambda>n. n\<lparr>rb_key := k\<rparr>) s; ngx_rbtree_insert (insert_with lt) s tree a} = Some (s1, tree1)"
      "rbt s1 tree1 T1" "rt_sentinel tree1 = rt_sentinel tree" "ents T1 = insert_after rank (a, k) (ents T)"
      "\<forall>x. s x \<noteq> None \<longrightarrow> s1 x \<noteq> None"
      using insert_keyed [of s tree T a k] Cons.prems Rb_insert by auto
    have "set (adrs T1) = insert a (set (adrs T))" using s1(4) by (simp add: adrs_ents)
    then have "\<exists>s' tree' T'. rb_run (insert_with lt) ops s1 tree1 = Some (s', tree') \<and> rbt s' tree' T' \<and>
        ents T' = list_run rank ops (ents T1) \<and> key_sorted rank (ents T')"
      using Cons.prems Rb_insert s1(3,4,5) by (intro Cons.IH [OF s1(2)]) (auto simp: insert_after_sorted)
    moreover have "rb_run (insert_with lt) (p # ops) s tree = rb_run (insert_with lt) ops s1 tree1"
      using Rb_insert s1(1) by (auto simp: bind_eq_Some_conv)
    ultimately show ?thesis using Rb_insert s1(4) by simp
  next
    case (Rb_delete a)
    obtain s1 tree1 T1 where s1: "ngx_rbtree_delete s tree a = Some (s1, tree1)" "rbt s1 tree1 T1" "rt_sentinel tree1 = rt_sentinel tree"
      "ents T1 = without a (ents T)" "\<forall>x. s x \<noteq> None \<longrightarrow> s1 x \<noteq> None"
      using delete_keyed [of s tree T a] Cons.prems Rb_delete by auto
    have "\<exists>s' tree' T'. rb_run (insert_with lt) ops s1 tree1 = Some (s', tree') \<and> rbt s' tree' T' \<and>
        ents T' = list_run rank ops (ents T1) \<and> key_sorted rank (ents T')"
      using Cons.prems Rb_delete s1(3,4,5) adrs_without [OF s1(4)] set_without [of a "ents T"]
      by (intro Cons.IH [OF s1(2)]) (auto simp: without_sorted)
    then show ?thesis using Rb_delete s1(1,4) by auto
  qed
qed

end

lemma init_rbt: "s sn \<noteq> None \<Longrightarrow> \<exists>s0 tree. ngx_rbtree_init s sn = Some (s0, tree) \<and> rbt s0 tree Leaf \<and> rt_sentinel tree = sn \<and>
    (\<forall>x. s x \<noteq> None \<longrightarrow> s0 x \<noteq> None)"
  by (auto simp: ngx_rbtree_init_def ngx_rbt_black_def upd_def rbt_def focus_def ngx_rbt_is_red_def fld_def)

section \<open>The properties\<close>

text \<open>
  (C10) The tree implements a sorted list. Starting from \<^verbatim>\<open>ngx_rbtree_init\<close>, every sequence of insertions of nodes
  that are out of the tree and deletions of nodes that are in it runs without a fault and to its
  end; the tree then holds exactly the nodes of the list that the same operations give, in the
  order of the keys and equal keys in the order of insertion, and is a red-black tree of height
  at most \<open>2 log\<^sub>2 (n + 1)\<close>.
\<close>

theorem rbtree_refines_sorted_list:
  assumes "s sn \<noteq> None" and "valid_run ops {}" and "\<forall>p \<in> set ops. s (op_node p) \<noteq> None \<and> op_node p \<noteq> sn"
  shows "\<exists>s0 tree0 s' tree' T. ngx_rbtree_init s sn = Some (s0, tree0) \<and>
    rb_run ngx_rbtree_insert_value ops s0 tree0 = Some (s', tree') \<and> rbt s' tree' T \<and>
    ents T = list_run unat ops [] \<and> key_sorted unat (ents T) \<and> 2 ^ height T \<le> (length (ents T) + 1)\<^sup>2"
proof -
  obtain s0 tree0 where s0: "ngx_rbtree_init s sn = Some (s0, tree0)" "rbt s0 tree0 Leaf" "rt_sentinel tree0 = sn"
    "\<forall>x. s x \<noteq> None \<longrightarrow> s0 x \<noteq> None" using init_rbt [of s sn] assms(1) by blast
  have "\<exists>s' tree' T'. rb_run (insert_with (<)) ops s0 tree0 = Some (s', tree') \<and> rbt s' tree' T' \<and>
    ents T' = list_run unat ops (ents Leaf) \<and> key_sorted unat (ents T')"
    using assms(2,3) s0 by (intro by_value.run_refines) (auto simp: key_sorted_def list_all_iff)
  then show ?thesis using s0(1) rbt_height unfolding insert_with_eqs by fastforce
qed

definition example_nodes :: rheap where
  "example_nodes = (\<lambda>a. if a \<in> {8, 100, 200, 300} then
     Some \<lparr>rb_key = 0, rb_left = 0, rb_right = 0, rb_parent = 0, rb_color = 0, rb_data = 0\<rparr> else None)"

theorem rbtree_refines_sorted_list_witness:
  "\<exists>s0 tree0 s' tree' T. ngx_rbtree_init example_nodes 8 = Some (s0, tree0) \<and>
    rb_run ngx_rbtree_insert_value [Rb_insert 100 5, Rb_insert 200 3, Rb_insert 300 5, Rb_delete 100] s0 tree0 =
      Some (s', tree') \<and> rbt s' tree' T \<and> ents T = [(200, 3), (300, 5)]"
  using rbtree_refines_sorted_list [of example_nodes 8 "[Rb_insert 100 5, Rb_insert 200 3, Rb_insert 300 5, Rb_delete 100]"]
  by (force simp: example_nodes_def insert_after_def without_def)

text \<open>
  (C11) The traversal. \<^verbatim>\<open>ngx_rbtree_min\<close> from the root gives the first node in the order of the keys, and
  \<^verbatim>\<open>ngx_rbtree_next\<close> the node after a given one, or \<^verbatim>\<open>NULL\<close> after the last one.
\<close>

theorem rbtree_next_in_order:
  assumes "rbt s tree T"
  shows "(T \<noteq> Leaf \<longrightarrow> ngx_rbtree_min s (rt_root tree) (rt_sentinel tree) = Some (hd (adrs T))) \<and>
    (\<forall>xs a ys. adrs T = xs @ a # ys \<longrightarrow> ngx_rbtree_next s tree a = Some (case ys of [] \<Rightarrow> 0 | b # _ \<Rightarrow> b))"
proof -
  have "focus s (rt_sentinel tree) (rt_root tree) T []" using assms by (simp add: rbt_def)
  then show ?thesis using min_first [of s "rt_sentinel tree" "rt_root tree" T "[]"] focus_root [of s "rt_sentinel tree" "rt_root tree" T]
      next_in_order [OF assms] by (simp add: first_or_null_def)
qed

definition example_tree :: rheap where
  "example_tree = [8 \<mapsto> \<lparr>rb_key = 0, rb_left = 0, rb_right = 0, rb_parent = 0, rb_color = 0, rb_data = 0\<rparr>,
     200 \<mapsto> \<lparr>rb_key = 3, rb_left = 8, rb_right = 300, rb_parent = 0, rb_color = 0, rb_data = 0\<rparr>,
     300 \<mapsto> \<lparr>rb_key = 5, rb_left = 8, rb_right = 8, rb_parent = 200, rb_color = 1, rb_data = 0\<rparr>]"

lemma example_tree_rbt:
  "rbt example_tree \<lparr>rt_root = 200, rt_sentinel = 8\<rparr> (Node Leaf (200, 3, False) (Node Leaf (300, 5, True) Leaf))"
  by (simp add: rbt_def focus_def example_tree_def cell_def ngx_rbt_is_red_def fld_def)

theorem rbtree_next_in_order_witness:
  "ngx_rbtree_min example_tree 200 8 = Some 200 \<and>
   ngx_rbtree_next example_tree \<lparr>rt_root = 200, rt_sentinel = 8\<rparr> 200 = Some 300 \<and>
   ngx_rbtree_next example_tree \<lparr>rt_root = 200, rt_sentinel = 8\<rparr> 300 = Some 0"
  using conjunct1 [OF rbtree_next_in_order [OF example_tree_rbt]]
    conjunct2 [OF rbtree_next_in_order [OF example_tree_rbt], rule_format, of "[]" 200 "[300]"]
    conjunct2 [OF rbtree_next_in_order [OF example_tree_rbt], rule_format, of "[200]" 300 "[]"] by simp

end
