(* ===== verification/Ngx_Event_Timer.thy ===== *)
theory Ngx_Event_Timer
  imports Ngx_Rbtree_Props
begin

text \<open>
  The timers of \<^verbatim>\<open>event/ngx_event_timer.h\<close> and \<^verbatim>\<open>event/ngx_event_timer.c\<close>: a client of the red-black tree. An event
  is named by its address, its tree node lies at \<^verbatim>\<open>offsetof(ngx_event_t, timer)\<close>. The handlers are code
  of the modules: an argument, a function of the event and of the whole state, which may set and
  delete timers or fault. The log messages are left out. The static sentinel is the one of the tree.
\<close>

section \<open>The model\<close>

abbreviation (input) offsetof_timer :: nat where "offsetof_timer \<equiv> 40"

definition NGX_TIMER_INFINITE :: u64 where
  "NGX_TIMER_INFINITE = - 1"

definition NGX_TIMER_LAZY_DELAY :: int where
  "NGX_TIMER_LAZY_DELAY = 300"

record 'w tm_state =
  tm_nodes :: rheap
  tm_tree :: ngx_rbtree
  tm_set :: "ptr \<Rightarrow> bool option"
  tm_timedout :: "ptr \<Rightarrow> bool option"
  tm_cancelable :: "ptr \<Rightarrow> bool option"
  tm_current_msec :: u64
  tm_world :: 'w

definition ngx_event_timer_init :: "ptr \<Rightarrow> 'w tm_state \<Rightarrow> 'w tm_state option" where
  "ngx_event_timer_init sentinel s = do {
     (h, t) \<leftarrow> ngx_rbtree_init (tm_nodes s) sentinel;
     Some (s\<lparr>tm_nodes := h, tm_tree := t\<rparr>)
   }"

definition ngx_event_del_timer :: "ptr \<Rightarrow> 'w tm_state \<Rightarrow> 'w tm_state option" where
  "ngx_event_del_timer ev s = do {
     (h, t) \<leftarrow> ngx_rbtree_delete (tm_nodes s) (tm_tree s) (ev + offsetof_timer);
     _ \<leftarrow> tm_set s ev;
     Some (s\<lparr>tm_nodes := h, tm_tree := t, tm_set := (tm_set s)(ev \<mapsto> False)\<rparr>)
   }"

text \<open>The negation of \<^verbatim>\<open>ngx_abs\<close> wraps.\<close>

definition ngx_abs :: "u64 \<Rightarrow> u64" where
  "ngx_abs v = (if 0 \<le> sint v then v else - v)"

definition add_timer_new :: "ptr \<Rightarrow> u64 \<Rightarrow> 'w tm_state \<Rightarrow> 'w tm_state option" where
  "add_timer_new ev key s = do {
     h \<leftarrow> upd (ev + offsetof_timer) (\<lambda>n. n\<lparr>rb_key := key\<rparr>) (tm_nodes s);
     (h, t) \<leftarrow> ngx_rbtree_insert ngx_rbtree_insert_timer_value h (tm_tree s) (ev + offsetof_timer);
     _ \<leftarrow> tm_set s ev;
     Some (s\<lparr>tm_nodes := h, tm_tree := t, tm_set := (tm_set s)(ev \<mapsto> True)\<rparr>)
   }"

definition ngx_event_add_timer :: "ptr \<Rightarrow> u64 \<Rightarrow> 'w tm_state \<Rightarrow> 'w tm_state option" where
  "ngx_event_add_timer ev timer s = do {
     let key = tm_current_msec s + timer;
     b \<leftarrow> tm_set s ev;
     if b then do {
       old \<leftarrow> fld rb_key (tm_nodes s) (ev + offsetof_timer);
       let diff = key - old;
       if sint (ngx_abs diff) < NGX_TIMER_LAZY_DELAY then Some s
       else do {
         s \<leftarrow> ngx_event_del_timer ev s;
         add_timer_new ev key s
       }
     }
     else add_timer_new ev key s
   }"

definition ngx_event_find_timer :: "'w tm_state \<Rightarrow> u64 option" where
  "ngx_event_find_timer s = (
     let root = rt_root (tm_tree s); sentinel = rt_sentinel (tm_tree s)
     in if root = sentinel then Some NGX_TIMER_INFINITE
        else do {
          node \<leftarrow> ngx_rbtree_min (tm_nodes s) root sentinel;
          k \<leftarrow> fld rb_key (tm_nodes s) node;
          let timer = k - tm_current_msec s;
          Some (if 0 < sint timer then timer else 0)
        })"

partial_function (option) ngx_event_expire_timers ::
  "(ptr \<Rightarrow> 'w tm_state \<Rightarrow> 'w tm_state option) \<Rightarrow> 'w tm_state \<Rightarrow> 'w tm_state option"
where
  "ngx_event_expire_timers handler s = (
     let root = rt_root (tm_tree s); sentinel = rt_sentinel (tm_tree s)
     in if root = sentinel then Some s
        else do {
          node \<leftarrow> ngx_rbtree_min (tm_nodes s) root sentinel;
          k \<leftarrow> fld rb_key (tm_nodes s) node;
          if 0 < sint (k - tm_current_msec s) then Some s
          else do {
            let ev = node - offsetof_timer;
            (h, t) \<leftarrow> ngx_rbtree_delete (tm_nodes s) (tm_tree s) (ev + offsetof_timer);
            _ \<leftarrow> tm_set s ev;
            let s = s\<lparr>tm_nodes := h, tm_tree := t, tm_set := (tm_set s)(ev \<mapsto> False)\<rparr>;
            _ \<leftarrow> tm_timedout s ev;
            let s = s\<lparr>tm_timedout := (tm_timedout s)(ev \<mapsto> True)\<rparr>;
            s \<leftarrow> handler ev s;
            ngx_event_expire_timers handler s
          }
        })"

partial_function (option) timers_left_loop :: "'w tm_state \<Rightarrow> ptr \<Rightarrow> int option" where
  "timers_left_loop s node =
     (if node = 0 then Some 0
      else do {
        let ev = node - offsetof_timer;
        c \<leftarrow> tm_cancelable s ev;
        if \<not> c then Some (- 2)
        else do {
          node \<leftarrow> ngx_rbtree_next (tm_nodes s) (tm_tree s) node;
          timers_left_loop s node
        }
      })"

text \<open>\<^verbatim>\<open>NGX_OK\<close> is 0 and \<^verbatim>\<open>NGX_AGAIN\<close> is -2.\<close>

definition ngx_event_no_timers_left :: "'w tm_state \<Rightarrow> int option" where
  "ngx_event_no_timers_left s = (
     let root = rt_root (tm_tree s); sentinel = rt_sentinel (tm_tree s)
     in if root = sentinel then Some 0
        else do {
          node \<leftarrow> ngx_rbtree_min (tm_nodes s) root sentinel;
          timers_left_loop s node
        })"

section \<open>The invariant\<close>

definition node_of :: "ptr \<times> u64 \<Rightarrow> ptr \<times> u64" where
  "node_of x = (fst x + offsetof_timer, snd x)"

text \<open>
  The tree holds the nodes of exactly the events whose flag \<^verbatim>\<open>timer_set\<close> is set, with their deadlines \<open>tms\<close> in
  order; all deadlines and the current time lie within \<open>2\<^sup>6\<^sup>3\<close> milliseconds after \<open>base\<close>.
\<close>

definition timers_inv :: "u64 \<Rightarrow> 'w tm_state \<Rightarrow> (ptr \<times> u64) list \<Rightarrow> bool" where
  "timers_inv base s tms \<longleftrightarrow> (\<exists>T. rbt (tm_nodes s) (tm_tree s) T \<and> ents T = map node_of tms) \<and>
     key_sorted (timer_rank base) tms \<and> (\<forall>x \<in> set tms. timer_near base (snd x)) \<and> timer_near base (tm_current_msec s) \<and>
     (\<forall>ev. tm_set s ev = Some True \<longleftrightarrow> ev \<in> fst ` set tms) \<and>
     (\<forall>ev. tm_set s ev \<noteq> None \<longrightarrow> tm_nodes s (ev + offsetof_timer) \<noteq> None \<and>
        ev + offsetof_timer \<noteq> rt_sentinel (tm_tree s) \<and> tm_timedout s ev \<noteq> None)"

lemma insert_after_node: "insert_after rank (node_of x) (map node_of xs) = map node_of (insert_after rank x xs)"
  by (simp add: insert_after_def takeWhile_map dropWhile_map comp_def node_of_def)

lemma without_node: "without (ev + 40) (map node_of xs) = map node_of (without ev xs)"
  by (simp add: without_def filter_map comp_def node_of_def)

lemma keys_node: "key_sorted rank (map node_of xs) \<longleftrightarrow> key_sorted rank xs"
  by (simp add: key_sorted_def comp_def node_of_def)

lemma nodes_in: "ev + 40 \<in> set (adrs T) \<longleftrightarrow> ev \<in> fst ` set tms" if "ents T = map node_of tms"
  using that by (auto simp: adrs_ents node_of_def image_iff)

lemma add_new_spec:
  assumes inv: "timers_inv base s tms" and ev: "tm_set s ev = Some False" and near: "timer_near base key"
  shows "\<exists>t. add_timer_new ev key s = Some t \<and> timers_inv base t (insert_after (timer_rank base) (ev, key) tms) \<and>
    (\<exists>h tr. t = s\<lparr>tm_nodes := h, tm_tree := tr, tm_set := (tm_set s)(ev \<mapsto> True)\<rparr>)"
proof -
  obtain T where T: "rbt (tm_nodes s) (tm_tree s) T" "ents T = map node_of tms" using inv by (auto simp: timers_inv_def)
  have i: "key_sorted (timer_rank base) tms" "\<forall>x \<in> set tms. timer_near base (snd x)"
    "\<forall>ev. tm_set s ev = Some True \<longleftrightarrow> ev \<in> fst ` set tms"
    "\<forall>ev. tm_set s ev \<noteq> None \<longrightarrow> tm_nodes s (ev + 40) \<noteq> None \<and> ev + 40 \<noteq> rt_sentinel (tm_tree s) \<and> tm_timedout s ev \<noteq> None"
    using inv by (auto simp: timers_inv_def)
  have n: "tm_nodes s (ev + 40) \<noteq> None" "ev + 40 \<noteq> rt_sentinel (tm_tree s)" "ev \<notin> fst ` set tms"
    using i(3,4) ev by (force, force, metis option.inject)
  have "key_sorted (timer_rank base) (ents T)" "\<forall>y \<in> set (ents T). timer_near base (snd y)"
    using i(1,2) T(2) by (auto simp: keys_node node_of_def)
  from by_timer.insert_keyed [OF T(1) n(1,2) _ this near] nodes_in [OF T(2)] n(3)
  obtain h tr T' where t: "do {h \<leftarrow> upd (ev + 40) (\<lambda>n. n\<lparr>rb_key := key\<rparr>) (tm_nodes s);
      ngx_rbtree_insert (insert_with timer_less) h (tm_tree s) (ev + 40)} = Some (h, tr)" "rbt h tr T'"
    "rt_sentinel tr = rt_sentinel (tm_tree s)" "ents T' = insert_after (timer_rank base) (ev + 40, key) (ents T)"
    "\<forall>x. tm_nodes s x \<noteq> None \<longrightarrow> h x \<noteq> None" by blast
  let ?t = "s\<lparr>tm_nodes := h, tm_tree := tr, tm_set := (tm_set s)(ev \<mapsto> True)\<rparr>"
  have "add_timer_new ev key s = Some ?t"
    using t(1) ev unfolding add_timer_new_def insert_with_eqs by (auto simp: bind_eq_Some_conv)
  moreover have "ents T' = map node_of (insert_after (timer_rank base) (ev, key) tms)"
    using t(4) T(2) insert_after_node [of "timer_rank base" "(ev, key)" tms] by (simp add: node_of_def)
  then have "timers_inv base ?t (insert_after (timer_rank base) (ev, key) tms)"
    using t(2,3,5) i near inv insert_after_sorted [OF i(1)] ev unfolding timers_inv_def by auto
  ultimately show ?thesis by blast
qed

lemma del_spec:
  assumes inv: "timers_inv base s tms" and ev: "ev \<in> fst ` set tms"
  shows "\<exists>h tr. ngx_rbtree_delete (tm_nodes s) (tm_tree s) (ev + 40) = Some (h, tr) \<and> tm_set s ev = Some True \<and>
    timers_inv base (s\<lparr>tm_nodes := h, tm_tree := tr, tm_set := (tm_set s)(ev \<mapsto> False)\<rparr>) (without ev tms)"
proof -
  obtain T where T: "rbt (tm_nodes s) (tm_tree s) T" "ents T = map node_of tms" using inv by (auto simp: timers_inv_def)
  have i: "key_sorted (timer_rank base) tms" "\<forall>x \<in> set tms. timer_near base (snd x)"
    "\<forall>ev. tm_set s ev = Some True \<longleftrightarrow> ev \<in> fst ` set tms"
    "\<forall>ev. tm_set s ev \<noteq> None \<longrightarrow> tm_nodes s (ev + 40) \<noteq> None \<and> ev + 40 \<noteq> rt_sentinel (tm_tree s) \<and> tm_timedout s ev \<noteq> None"
    using inv by (auto simp: timers_inv_def)
  obtain h tr T' where t: "ngx_rbtree_delete (tm_nodes s) (tm_tree s) (ev + 40) = Some (h, tr)" "rbt h tr T'"
    "rt_sentinel tr = rt_sentinel (tm_tree s)" "ents T' = without (ev + 40) (ents T)" "\<forall>x. tm_nodes s x \<noteq> None \<longrightarrow> h x \<noteq> None"
    using delete_keyed [OF T(1)] nodes_in [OF T(2)] ev by blast
  have ts: "tm_set s ev = Some True" using i(3) ev by blast
  have "ents T' = map node_of (without ev tms)" using t(4) T(2) without_node by simp
  moreover have "fst ` set (without ev tms) = fst ` set tms - {ev}" by (auto simp: without_def)
  ultimately have "timers_inv base (s\<lparr>tm_nodes := h, tm_tree := tr, tm_set := (tm_set s)(ev \<mapsto> False)\<rparr>) (without ev tms)"
    using t(2,3,5) i(2,3,4) ts inv i(4) [rule_format, of ev, unfolded ts] without_sorted [OF i(1)] set_without [of ev tms] unfolding timers_inv_def by auto
  then show ?thesis using t(1) ts by blast
qed

lemma timers_distinct: "timers_inv base s tms \<Longrightarrow> distinct (map fst tms)"
proof -
  assume inv: "timers_inv base s tms"
  then obtain T where T: "rbt (tm_nodes s) (tm_tree s) T" "ents T = map node_of tms" by (auto simp: timers_inv_def)
  have "distinct (adrs T)"
    using T(1) focus_distinct [of "tm_nodes s" "rt_sentinel (tm_tree s)" "rt_root (tm_tree s)" T "[]"] by (simp add: rbt_def)
  moreover have "adrs T = map (\<lambda>x. fst x + 40) tms" using T(2) by (simp add: adrs_ents node_of_def)
  ultimately show ?thesis by (auto simp: distinct_map inj_on_def)
qed

text \<open>The first timer, as \<^verbatim>\<open>ngx_rbtree_min\<close> finds it.\<close>

lemma first_timer:
  assumes inv: "timers_inv base s tms"
  shows "rt_root (tm_tree s) = rt_sentinel (tm_tree s) \<longleftrightarrow> tms = []"
    and "tms = (ev, k) # rest \<Longrightarrow> ngx_rbtree_min (tm_nodes s) (rt_root (tm_tree s)) (rt_sentinel (tm_tree s)) = Some (ev + 40)"
    and "(ev, k) \<in> set tms \<Longrightarrow> fld rb_key (tm_nodes s) (ev + 40) = Some k"
proof -
  let ?nil = "rt_sentinel (tm_tree s)" and ?root = "rt_root (tm_tree s)"
  obtain T where T: "rbt (tm_nodes s) (tm_tree s) T" "ents T = map node_of tms" using inv by (auto simp: timers_inv_def)
  have z: "focus (tm_nodes s) ?nil ?root T []" using T(1) by (simp add: rbt_def)
  have "T = Leaf \<longleftrightarrow> tms = []" using T(2) by (cases T rule: redt.cases) auto
  then show "?root = ?nil \<longleftrightarrow> tms = []" using z rep_adr by (fastforce simp: focus_def)
  show "ngx_rbtree_min (tm_nodes s) ?root ?nil = Some (ev + 40)" if "tms = (ev, k) # rest"
    using min_first [OF z] focus_root [OF z] that T(2) \<open>T = Leaf \<longleftrightarrow> tms = []\<close> by (simp add: adrs_ents node_of_def)
  show "fld rb_key (tm_nodes s) (ev + 40) = Some k" if "(ev, k) \<in> set tms"
  proof -
    have e: "(ev + 40, k) \<in> set (ents T)" using that T(2) by (force simp: node_of_def)
    then have "ev + 40 \<in> set (adrs T)" by (force simp: adrs_ents)
    then obtain ctx l k' c r where sp: "T = plug ctx (Node l (ev + 40, k', c) r)" using node_split by blast
    have "(ev + 40, k') \<in> set (ents T)" using sp by (simp add: ents_plug)
    moreover have "distinct (map fst (ents T))" using focus_distinct [OF z] by (simp add: adrs_ents)
    ultimately have "k' = k" using e by (metis eq_key_imp_eq_value)
    moreover have "focus (tm_nodes s) ?nil ?root (Node l (ev + 40, k', c) r) ctx" using z sp focus_plug by blast
    ultimately show ?thesis using focus_fld(3) by blast
  qed
qed

section \<open>The operations\<close>

definition lazy_timer :: "u64 \<Rightarrow> u64 \<Rightarrow> bool" where
  "lazy_timer key old \<longleftrightarrow> sint (ngx_abs (key - old)) < NGX_TIMER_LAZY_DELAY"

lemma add_timer_spec:
  assumes inv: "timers_inv base s tms" and ev: "tm_set s ev \<noteq> None" and near: "timer_near base (tm_current_msec s + timer)"
  shows "\<exists>t. ngx_event_add_timer ev timer s = Some t \<and> tm_world t = tm_world s \<and> tm_current_msec t = tm_current_msec s \<and>
    timers_inv base t (if \<exists>old. (ev, old) \<in> set tms \<and> lazy_timer (tm_current_msec s + timer) old then tms
      else insert_after (timer_rank base) (ev, tm_current_msec s + timer) (without ev tms))"
proof (cases "ev \<in> fst ` set tms")
  case False
  have "tm_set s ev \<noteq> Some True" using inv False by (auto simp: timers_inv_def)
  then have "tm_set s ev = Some False" using ev by auto
  moreover have "without ev tms = tms" "\<not> (\<exists>old. (ev, old) \<in> set tms)" using False by (force simp: without_def filter_id_conv)+
  ultimately show ?thesis using add_new_spec [OF inv _ near, of ev] by (auto simp: ngx_event_add_timer_def)
next
  case True
  then obtain old where old: "(ev, old) \<in> set tms" by auto
  have un: "o' = old" if "(ev, o') \<in> set tms" for o'
    using timers_distinct [OF inv] old that by (metis eq_key_imp_eq_value)
  have ts: "tm_set s ev = Some True" using inv True by (auto simp: timers_inv_def)
  note k = first_timer(3) [OF inv old]
  show ?thesis
  proof (cases "lazy_timer (tm_current_msec s + timer) old")
    case True
    then show ?thesis using inv ts k old by (auto simp: ngx_event_add_timer_def lazy_timer_def)
  next
    case False
    obtain h tr where d: "ngx_rbtree_delete (tm_nodes s) (tm_tree s) (ev + 40) = Some (h, tr)"
      "timers_inv base (s\<lparr>tm_nodes := h, tm_tree := tr, tm_set := (tm_set s)(ev \<mapsto> False)\<rparr>) (without ev tms)"
      using del_spec [OF inv \<open>ev \<in> fst ` set tms\<close>] by blast
    let ?s = "s\<lparr>tm_nodes := h, tm_tree := tr, tm_set := (tm_set s)(ev \<mapsto> False)\<rparr>"
    have "ngx_event_del_timer ev s = Some ?s" using d(1) ts by (simp add: ngx_event_del_timer_def)
    moreover have "\<not> (\<exists>old. (ev, old) \<in> set tms \<and> lazy_timer (tm_current_msec s + timer) old)" using False un by blast
    ultimately show ?thesis using add_new_spec [OF d(2) _ near, of ev] ts k False
      by (auto simp: ngx_event_add_timer_def lazy_timer_def)
  qed
qed

lemma del_timer_spec:
  assumes "timers_inv base s tms" and "ev \<in> fst ` set tms"
  shows "\<exists>t. ngx_event_del_timer ev s = Some t \<and> timers_inv base t (without ev tms) \<and> tm_world t = tm_world s \<and>
    tm_current_msec t = tm_current_msec s"
  using del_spec [OF assms] by (auto simp: ngx_event_del_timer_def)

text \<open>The deadline has passed.\<close>

definition expired :: "u64 \<Rightarrow> 'w tm_state \<Rightarrow> ptr \<times> u64 \<Rightarrow> bool" where
  "expired base s x \<longleftrightarrow> timer_rank base (snd x) \<le> timer_rank base (tm_current_msec s)"

lemma not_expired: "timer_near base k \<Longrightarrow> timers_inv base s tms \<Longrightarrow> 0 < sint (k - tm_current_msec s) \<longleftrightarrow> \<not> expired base s (ev, k)"
proof -
  assume a: "timer_near base k" "timers_inv base s tms"
  let ?n = "tm_current_msec s"
  have n: "timer_near base ?n" using a(2) by (simp add: timers_inv_def)
  have "0 < sint (k - ?n) \<longleftrightarrow> \<not> sint (k - ?n) < 0 \<and> k \<noteq> ?n"
    using signed_word_eqI [of "k - ?n" 0] by (auto simp: order_less_le)
  also have "\<dots> \<longleftrightarrow> \<not> timer_rank base k < timer_rank base ?n \<and> k \<noteq> ?n"
    using timer_less_near [OF a(1) n] by (simp add: timer_less_def)
  also have "\<dots> \<longleftrightarrow> timer_rank base ?n < timer_rank base k"
    unfolding timer_rank_def by (metis diff_add_cancel linorder_neqE_nat order_less_asym unsigned_word_eqI)
  finally show ?thesis by (simp add: expired_def not_le)
qed

lemma find_timer_spec:
  assumes inv: "timers_inv base s tms"
  shows "ngx_event_find_timer s = Some (case tms of [] \<Rightarrow> NGX_TIMER_INFINITE
    | x # _ \<Rightarrow> if expired base s x then 0 else snd x - tm_current_msec s)"
proof (cases tms)
  case Nil
  then show ?thesis using first_timer(1) [OF inv] by (simp add: ngx_event_find_timer_def Let_def)
next
  case (Cons x rest)
  obtain ev k where x: "x = (ev, k)" by (cases x) auto
  have "timer_near base k" using inv Cons x by (simp add: timers_inv_def)
  then show ?thesis using first_timer(1) [OF inv] first_timer(2) [OF inv Cons [unfolded x]] first_timer(3) [OF inv, of ev k] not_expired [of base k s tms ev] inv Cons x
    by (simp add: ngx_event_find_timer_def Let_def)
qed

section \<open>Expiry\<close>

lemma sorted_expired:
  assumes "key_sorted (timer_rank base) (x # rest)" and "\<not> expired base s x" and "y \<in> set (x # rest)"
  shows "\<not> expired base s y"
  using assms by (auto simp: key_sorted_def expired_def)

lemma expire_stops:
  assumes inv: "timers_inv base s tms" and c: "\<forall>x \<in> set tms. \<not> expired base s x"
  shows "ngx_event_expire_timers H s = Some s"
proof (cases tms)
  case Nil
  then show ?thesis using first_timer(1) [OF inv] by (subst ngx_event_expire_timers.simps) (simp add: Let_def)
next
  case (Cons x rest)
  obtain ev k where x: "x = (ev, k)" by (cases x) auto
  have "timer_near base k" using inv Cons x by (simp add: timers_inv_def)
  then have "0 < sint (k - tm_current_msec s)" using not_expired [of base k s tms ev] inv c Cons x by simp
  then show ?thesis using first_timer(1) [OF inv] first_timer(2) [OF inv Cons [unfolded x]] first_timer(3) [OF inv, of ev k] Cons x
    by (subst ngx_event_expire_timers.simps) (simp add: Let_def)
qed

lemma expire_step:
  assumes inv: "timers_inv base s (x # rest)" and e: "expired base s x"
  shows "\<exists>t. ngx_event_expire_timers H s = do { u \<leftarrow> H (fst x) t; ngx_event_expire_timers H u } \<and> timers_inv base t rest \<and>
    tm_set t (fst x) = Some False \<and> tm_timedout t = (tm_timedout s)(fst x \<mapsto> True) \<and> tm_world t = tm_world s \<and>
    tm_current_msec t = tm_current_msec s"
proof -
  obtain ev k where x: "x = (ev, k)" by (cases x) auto
  have near: "timer_near base k" using inv x by (simp add: timers_inv_def)
  have k: "\<not> 0 < sint (k - tm_current_msec s)" using not_expired [OF near inv, of ev] e x by simp
  obtain h tr where d: "ngx_rbtree_delete (tm_nodes s) (tm_tree s) (ev + 40) = Some (h, tr)" "tm_set s ev = Some True"
    "timers_inv base (s\<lparr>tm_nodes := h, tm_tree := tr, tm_set := (tm_set s)(ev \<mapsto> False)\<rparr>) (without ev (x # rest))"
    using del_spec [OF inv, of ev] x by auto
  have wo: "without ev (x # rest) = rest" using timers_distinct [OF inv] x by (force simp: without_def filter_id_conv)
  have "tm_timedout s ev \<noteq> None" using inv d(2) unfolding timers_inv_def by (metis option.distinct(1))
  then obtain to where to: "tm_timedout s ev = Some to" by blast
  let ?t = "s\<lparr>tm_nodes := h, tm_tree := tr, tm_set := (tm_set s)(ev \<mapsto> False), tm_timedout := (tm_timedout s)(ev \<mapsto> True)\<rparr>"
  have "timers_inv base ?t rest" using d(3) wo by (auto simp: timers_inv_def)
  moreover have "ngx_event_expire_timers H s = do { u \<leftarrow> H ev ?t; ngx_event_expire_timers H u }"
    using first_timer(1) [OF inv] first_timer(2) [OF inv, of ev k rest] first_timer(3) [OF inv, of ev k] k d(1,2) to x
    by (subst ngx_event_expire_timers.simps) (simp add: Let_def)
  ultimately show ?thesis using x by (intro exI [of _ ?t]) simp
qed

lemma expired_cong: "tm_current_msec t = tm_current_msec s \<Longrightarrow> expired base t = expired base s"
  by (simp add: expired_def fun_eq_iff)

lemma timers_sorted: "timers_inv base s tms \<Longrightarrow> key_sorted (timer_rank base) tms"
  by (simp add: timers_inv_def)

lemma expire_terminates:
  assumes "timers_inv base s tms"
    and H: "\<And>ev s tms. timers_inv base s tms \<Longrightarrow> tm_set s ev = Some False \<Longrightarrow>
      \<exists>t tms'. H ev s = Some t \<and> timers_inv base t tms' \<and> tm_current_msec t = tm_current_msec s \<and>
        length (filter (expired base t) tms') + budget (tm_world t) \<le> length (filter (expired base s) tms) + (budget (tm_world s) :: nat)"
  shows "\<exists>t tms'. ngx_event_expire_timers H s = Some t \<and> timers_inv base t tms' \<and> (\<forall>x \<in> set tms'. \<not> expired base t x)"
  using assms(1)
proof (induction "length (filter (expired base s) tms) + budget (tm_world s)" arbitrary: s tms rule: less_induct)
  case less
  show ?case
  proof (cases "\<forall>x \<in> set tms. \<not> expired base s x")
    case True
    then show ?thesis using expire_stops [OF less.prems] less.prems by blast
  next
    case False
    then obtain x rest where tms: "tms = x # rest" by (cases tms) auto
    have e: "expired base s x" using False sorted_expired timers_sorted less.prems tms by blast
    from expire_step [OF less.prems [unfolded tms] e, of H] obtain t where
      t: "ngx_event_expire_timers H s = do { u \<leftarrow> H (fst x) t; ngx_event_expire_timers H u }" "timers_inv base t rest"
        "tm_set t (fst x) = Some False" "tm_world t = tm_world s" "tm_current_msec t = tm_current_msec s" by blast
    obtain u tms' where u: "H (fst x) t = Some u" "timers_inv base u tms'" "tm_current_msec u = tm_current_msec t"
      "length (filter (expired base u) tms') + budget (tm_world u) \<le> length (filter (expired base t) rest) + budget (tm_world t)"
      using H [OF t(2,3)] by blast
    have "length (filter (expired base u) tms') + budget (tm_world u) < length (filter (expired base s) tms) + budget (tm_world s)"
      using u(4) t(4) tms e expired_cong [OF t(5), of base] by simp
    from less.hyps [OF this u(2)] show ?thesis using t(1) u(1) by simp
  qed
qed

lemma expire_in_order:
  assumes "timers_inv base s tms"
  shows "\<exists>t. ngx_event_expire_timers (\<lambda>ev s. Some (s\<lparr>tm_world := f ev (tm_world s)\<rparr>)) s = Some t \<and>
    timers_inv base t (dropWhile (expired base s) tms) \<and>
    tm_world t = fold f (map fst (takeWhile (expired base s) tms)) (tm_world s) \<and>
    (\<forall>ev. tm_timedout t ev = (if ev \<in> fst ` set (takeWhile (expired base s) tms) then Some True else tm_timedout s ev))"
  using assms
proof (induction tms arbitrary: s)
  case Nil
  then show ?case using expire_stops [OF Nil] by auto
next
  case (Cons x tms)
  let ?H = "\<lambda>ev s. Some (s\<lparr>tm_world := f ev (tm_world s)\<rparr>)"
  show ?case
  proof (cases "expired base s x")
    case False
    then show ?thesis using expire_stops [OF Cons.prems, of ?H] Cons.prems sorted_expired [OF timers_sorted [OF Cons.prems] False] by auto
  next
    case True
    from expire_step [OF Cons.prems True, of ?H] obtain t where
      t: "ngx_event_expire_timers ?H s = do { u \<leftarrow> ?H (fst x) t; ngx_event_expire_timers ?H u }" "timers_inv base t tms"
      "tm_timedout t = (tm_timedout s)(fst x \<mapsto> True)" "tm_world t = tm_world s" "tm_current_msec t = tm_current_msec s" by blast
    let ?u = "t\<lparr>tm_world := f (fst x) (tm_world t)\<rparr>"
    have "timers_inv base ?u tms" using t(2) by (simp add: timers_inv_def)
    from Cons.IH [OF this] show ?thesis using t True expired_cong [of ?u s base] by auto
  qed
qed

section \<open>Cancelable timers\<close>

lemma left_loop_spec:
  assumes T: "rbt (tm_nodes s) (tm_tree s) T" "adrs T = as @ map (\<lambda>ev. ev + 40) evs" and c: "\<forall>ev \<in> set evs. tm_cancelable s ev \<noteq> None"
  shows "timers_left_loop s (first_or_null (map (\<lambda>ev. ev + 40) evs)) =
    Some (if \<forall>ev \<in> set evs. tm_cancelable s ev = Some True then 0 else - 2)"
  using T(2) c
proof (induction evs arbitrary: as)
  case Nil
  show ?case by (subst timers_left_loop.simps) (simp add: first_or_null_def)
next
  case (Cons ev evs)
  have "ngx_rbtree_next (tm_nodes s) (tm_tree s) (ev + 40) = Some (first_or_null (map (\<lambda>ev. ev + 40) evs))"
    using next_in_order [OF T(1)] Cons.prems(1) by simp
  moreover obtain b where "tm_cancelable s ev = Some b" using Cons.prems(2) by auto
  ultimately show ?case using Cons.IH [of "as @ [ev + 40]"] Cons.prems
    by (subst timers_left_loop.simps) (cases b; simp add: first_or_null_def)
qed

lemma no_timers_left_spec:
  assumes inv: "timers_inv base s tms" and c: "\<forall>x \<in> set tms. tm_cancelable s (fst x) \<noteq> None"
  shows "ngx_event_no_timers_left s = Some (if \<forall>x \<in> set tms. tm_cancelable s (fst x) = Some True then 0 else - 2)"
proof (cases tms)
  case Nil
  then show ?thesis using first_timer(1) [OF inv] by (simp add: ngx_event_no_timers_left_def Let_def)
next
  case (Cons x rest)
  obtain T where T: "rbt (tm_nodes s) (tm_tree s) T" "ents T = map node_of tms" using inv by (auto simp: timers_inv_def)
  have "adrs T = [] @ map (\<lambda>ev. ev + 40) (map fst tms)" using T(2) by (simp add: adrs_ents node_of_def)
  from left_loop_spec [OF T(1) this] c show ?thesis
    using first_timer(1) [OF inv] first_timer(2) [OF inv, of "fst x" "snd x" rest] Cons
    by (auto simp: ngx_event_no_timers_left_def Let_def first_or_null_def)
qed

section \<open>The properties\<close>

text \<open>
  (C16) The timers implement a list of events in the order of their deadlines. \<^verbatim>\<open>ngx_event_add_timer\<close> moves the event
  to its new place, after events of the same deadline, or leaves it where it is when the new deadline
  is less than 300 ms from the old one; \<^verbatim>\<open>ngx_event_del_timer\<close> takes it out; \<^verbatim>\<open>ngx_event_find_timer\<close> returns the
  time to the nearest deadline, 0 when it has passed and \<^verbatim>\<open>NGX_TIMER_INFINITE\<close> without timers;
  \<^verbatim>\<open>ngx_event_no_timers_left\<close> returns \<^verbatim>\<open>NGX_OK\<close> just when all timers are cancelable. None of them faults, and
  the clock may wrap, as long as all times lie within \<open>2\<^sup>6\<^sup>3\<close> milliseconds.
\<close>

theorem event_timers_refine:
  assumes "timers_inv base s tms"
  shows "(\<forall>ev timer. tm_set s ev \<noteq> None \<longrightarrow> timer_near base (tm_current_msec s + timer) \<longrightarrow>
      (\<exists>t. ngx_event_add_timer ev timer s = Some t \<and> tm_world t = tm_world s \<and> timers_inv base t
        (if \<exists>old. (ev, old) \<in> set tms \<and> sint (ngx_abs (tm_current_msec s + timer - old)) < 300 then tms
         else insert_after (timer_rank base) (ev, tm_current_msec s + timer) (without ev tms)))) \<and>
    (\<forall>ev \<in> fst ` set tms. \<exists>t. ngx_event_del_timer ev s = Some t \<and> tm_world t = tm_world s \<and>
        timers_inv base t (without ev tms)) \<and>
    ngx_event_find_timer s = Some (case tms of [] \<Rightarrow> NGX_TIMER_INFINITE
      | x # _ \<Rightarrow> if expired base s x then 0 else snd x - tm_current_msec s) \<and>
    ((\<forall>x \<in> set tms. tm_cancelable s (fst x) \<noteq> None) \<longrightarrow>
      ngx_event_no_timers_left s = Some (if \<forall>x \<in> set tms. tm_cancelable s (fst x) = Some True then 0 else - 2))"
proof (intro conjI allI ballI impI)
  fix ev timer assume "tm_set s ev \<noteq> None" "timer_near base (tm_current_msec s + timer)"
  from add_timer_spec [OF assms this] show "\<exists>t. ngx_event_add_timer ev timer s = Some t \<and> tm_world t = tm_world s \<and> timers_inv base t
        (if \<exists>old. (ev, old) \<in> set tms \<and> sint (ngx_abs (tm_current_msec s + timer - old)) < 300 then tms
         else insert_after (timer_rank base) (ev, tm_current_msec s + timer) (without ev tms))"
    unfolding lazy_timer_def NGX_TIMER_LAZY_DELAY_def by blast
next
  fix ev assume "ev \<in> fst ` set tms"
  from del_timer_spec [OF assms this] show "\<exists>t. ngx_event_del_timer ev s = Some t \<and> tm_world t = tm_world s \<and>
        timers_inv base t (without ev tms)" by blast
qed (use find_timer_spec [OF assms] no_timers_left_spec [OF assms] in blast)+

text \<open>The event 60, whose node is at 100, is due at 4000; the time is 5000. The sentinel is at 8.\<close>

definition example_timers :: "nat tm_state" where
  "example_timers = \<lparr>tm_nodes = [8 \<mapsto> \<lparr>rb_key = 0, rb_left = 0, rb_right = 0, rb_parent = 0, rb_color = 0, rb_data = 0\<rparr>,
       100 \<mapsto> \<lparr>rb_key = 4000, rb_left = 8, rb_right = 8, rb_parent = 0, rb_color = 0, rb_data = 0\<rparr>],
     tm_tree = \<lparr>rt_root = 100, rt_sentinel = 8\<rparr>, tm_set = [60 \<mapsto> True], tm_timedout = [60 \<mapsto> False],
     tm_cancelable = [60 \<mapsto> False], tm_current_msec = 5000, tm_world = 0\<rparr>"

lemma example_timers_inv: "timers_inv 0 example_timers [(60, 4000)]"
proof -
  have "rbt (tm_nodes example_timers) (tm_tree example_timers) (Node Leaf (100, 4000, False) Leaf)"
    by (simp add: rbt_def focus_def example_timers_def cell_def ngx_rbt_is_red_def fld_def)
  moreover have "ents (Node Leaf (100, 4000, False) Leaf) = map node_of [(60, 4000)]" by (simp add: node_of_def)
  ultimately have "\<exists>T. rbt (tm_nodes example_timers) (tm_tree example_timers) T \<and> ents T = map node_of [(60, 4000)]" by blast
  then show ?thesis
    by (auto simp: timers_inv_def key_sorted_def timer_near_def timer_rank_def example_timers_def)
qed

theorem event_timers_refine_witness:
  "timers_inv 0 example_timers [(60, 4000)] \<and>
   (\<exists>t. ngx_event_add_timer 60 2000 example_timers = Some t \<and> timers_inv 0 t [(60, 7000)]) \<and>
   ngx_event_find_timer example_timers = Some 0 \<and> ngx_event_no_timers_left example_timers = Some (- 2)"
proof (intro conjI)
  note r = event_timers_refine [OF example_timers_inv]
  show "timers_inv 0 example_timers [(60, 4000)]" by (rule example_timers_inv)
  show "\<exists>t. ngx_event_add_timer 60 2000 example_timers = Some t \<and> timers_inv 0 t [(60, 7000)]"
    using conjunct1 [OF r, rule_format, of 60 2000]
    by (auto simp: example_timers_def timer_near_def timer_rank_def ngx_abs_def without_def insert_after_def)
  show "ngx_event_find_timer example_timers = Some 0"
    using r by (simp add: expired_def timer_rank_def example_timers_def)
  show "ngx_event_no_timers_left example_timers = Some (- 2)"
    using r by (simp add: example_timers_def)
qed

text \<open>
  (C17) Expired timers are delivered. \<^verbatim>\<open>ngx_event_expire_timers\<close> ends, and no timer that is due remains, whenever the
  handlers return, keep the invariant and set timers that are already due only out of a finite
  budget; they may set any number of timers for the future.
\<close>

theorem expire_timers_live:
  assumes "timers_inv base s tms"
    and "\<And>ev s tms. timers_inv base s tms \<Longrightarrow> tm_set s ev = Some False \<Longrightarrow>
      \<exists>t tms'. H ev s = Some t \<and> timers_inv base t tms' \<and> tm_current_msec t = tm_current_msec s \<and>
        length (filter (expired base t) tms') + budget (tm_world t) \<le>
        length (filter (expired base s) tms) + (budget (tm_world s) :: nat)"
  shows "\<exists>t tms'. ngx_event_expire_timers H s = Some t \<and> timers_inv base t tms' \<and> (\<forall>x \<in> set tms'. \<not> expired base t x)"
  by (rule expire_terminates [OF assms])

lemma filter_insert_after: "\<not> P x \<Longrightarrow> filter P (insert_after rank x xs) = filter P xs"
proof -
  let ?Q = "\<lambda>y. rank (snd y) \<le> rank (snd x)"
  assume "\<not> P x"
  moreover have "filter P (takeWhile ?Q xs) @ filter P (dropWhile ?Q xs) = filter P xs"
    by (metis filter_append takeWhile_dropWhile_id)
  ultimately show ?thesis by (simp add: insert_after_def)
qed

lemma filter_without: "length (filter P (without a xs)) \<le> length (filter P xs)"
  by (induction xs) (auto simp: without_def)

text \<open>Every handler sets the timer of its event again, for one second later.\<close>

theorem expire_timers_live_witness:
  "\<exists>t tms'. ngx_event_expire_timers (\<lambda>ev s. if tm_current_msec s = 5000 then ngx_event_add_timer ev 1000 s else Some s)
     example_timers = Some t \<and> timers_inv 0 t tms' \<and> (\<forall>x \<in> set tms'. \<not> expired 0 t x)"
proof (rule expire_timers_live [OF example_timers_inv, where budget = "\<lambda>_. 0"])
  fix ev :: ptr and s :: "nat tm_state" and tms
  let ?H = "\<lambda>ev s. if tm_current_msec s = 5000 then ngx_event_add_timer ev 1000 s else Some s"
  assume inv: "timers_inv 0 s tms" and ev: "tm_set s ev = Some False"
  show "\<exists>t tms'. ?H ev s = Some t \<and> timers_inv 0 t tms' \<and> tm_current_msec t = tm_current_msec s \<and>
    length (filter (expired 0 t) tms') + 0 \<le> length (filter (expired 0 s) tms) + 0"
  proof (cases "tm_current_msec s = 5000")
    case True
    have "timer_near 0 (tm_current_msec s + 1000)" using True by (simp add: timer_near_def timer_rank_def)
    moreover have "ev \<notin> fst ` set tms" using inv ev unfolding timers_inv_def by (metis option.inject)
    then have "\<not> (\<exists>old. (ev, old) \<in> set tms)" by force
    ultimately obtain t where t: "ngx_event_add_timer ev 1000 s = Some t" "tm_current_msec t = tm_current_msec s"
      "timers_inv 0 t (insert_after (timer_rank 0) (ev, tm_current_msec s + 1000) (without ev tms))"
      using add_timer_spec [OF inv, of ev 1000] ev by auto
    have "\<not> expired 0 t (ev, tm_current_msec s + 1000)" using True t(2) by (simp add: expired_def timer_rank_def)
    then show ?thesis using True t expired_cong [OF t(2), of 0] filter_without [of "expired 0 s" ev tms]
      by (auto simp: filter_insert_after)
  next
    case False
    then show ?thesis using inv by auto
  qed
qed

text \<open>
  (C18) The order of delivery. With handlers that act only on the rest of the state, exactly the timers that are due
  are taken out, their handlers run once each in the order of the deadlines, and the flag \<^verbatim>\<open>timedout\<close> is set
  for exactly these events.
\<close>

theorem expire_timers_in_order:
  assumes "timers_inv base s tms"
  shows "\<exists>t. ngx_event_expire_timers (\<lambda>ev s. Some (s\<lparr>tm_world := f ev (tm_world s)\<rparr>)) s = Some t \<and>
    timers_inv base t (dropWhile (expired base s) tms) \<and>
    tm_world t = fold f (map fst (takeWhile (expired base s) tms)) (tm_world s) \<and>
    (\<forall>ev. tm_timedout t ev = (if ev \<in> fst ` set (takeWhile (expired base s) tms) then Some True else tm_timedout s ev))"
  by (rule expire_in_order [OF assms])

theorem expire_timers_in_order_witness:
  "timers_inv 0 example_timers [(60, 4000)] \<and>
   (\<exists>t. ngx_event_expire_timers (\<lambda>ev s. Some (s\<lparr>tm_world := ev + tm_world s\<rparr>)) example_timers = Some t \<and>
     timers_inv 0 t [] \<and> tm_world t = 60 \<and> tm_timedout t 60 = Some True)"
  using expire_timers_in_order [OF example_timers_inv, of "(+)"] example_timers_inv
  by (force simp: expired_def timer_rank_def example_timers_def)

end
