(* ===== verification/Ngx_Times.thy ===== *)
theory Ngx_Times
  imports Ngx_Sprintf
begin

text \<open>
  The calendar of \<^verbatim>\<open>core/ngx_times.c\<close>: \<^verbatim>\<open>ngx_gmtime\<close> and the functions that print its result, against a
  definition of the Gregorian calendar by leap years and lengths of months.
\<close>

section \<open>The model\<close>

record ngx_tm =
  tm_sec :: int
  tm_min :: int
  tm_hour :: int
  tm_mday :: int
  tm_mon :: int
  tm_year :: int
  tm_wday :: int

text \<open>The cast of an \<^verbatim>\<open>ngx_uint_t\<close> to the \<^verbatim>\<open>int\<close> fields of \<^verbatim>\<open>struct tm\<close>.\<close>

definition int_cast :: "u64 \<Rightarrow> int" where
  "int_cast w = sint (ucast w :: u32)"

text \<open>
  \<open>t\<close> are the bits of the \<^verbatim>\<open>time_t\<close>. \<^verbatim>\<open>yday\<close> is signed; where it is divided it is not negative, so that the
  division is the one of unsigned words.
\<close>

definition gm_yday :: "u64 \<Rightarrow> u64 \<times> u64" where
  "gm_yday days = (
     let year = (days + 2) * 400 div (365 * 400 + 100 - 4 + 1);
         yday = days - (365 * year + year div 4 - year div 100 + year div 400)
     in if sint yday < 0 then
          let leap = (if year mod 4 = 0 \<and> (year mod 100 \<noteq> 0 \<or> year mod 400 = 0) then 1 else 0)
          in (365 + leap + yday, year - 1)
        else (yday, year))"

definition gm_month :: "u64 \<Rightarrow> u64 \<Rightarrow> u64 \<times> u64 \<times> u64" where
  "gm_month yday year = (
     let mon = (yday + 31) * 10 div 306;
         mday = yday - (367 * mon div 12 - 30) + 1
     in if 306 \<le> sint yday then (year + 1, mon - 10, mday) else (year, mon + 2, mday))"

definition ngx_gmtime :: "u64 \<Rightarrow> ngx_tm" where
  "ngx_gmtime t = (
     let n = t;
         days = n div 86400;
         wday = (4 + days) mod 7;
         n = n mod 86400;
         hour = n div 3600;
         n = n mod 3600;
         min = n div 60;
         sec = n mod 60;
         days = days - (31 + 28) + 719527;
         (yday, year) = gm_yday days;
         (year, mon, mday) = gm_month yday year
     in \<lparr>tm_sec = int_cast sec, tm_min = int_cast min, tm_hour = int_cast hour, tm_mday = int_cast mday,
         tm_mon = int_cast mon, tm_year = int_cast year, tm_wday = int_cast wday\<rparr>)"

definition week :: "string list" where
  "week = [''Sun'', ''Mon'', ''Tue'', ''Wed'', ''Thu'', ''Fri'', ''Sat'']"

definition months :: "string list" where
  "months = [''Jan'', ''Feb'', ''Mar'', ''Apr'', ''May'', ''Jun'', ''Jul'', ''Aug'', ''Sep'', ''Oct'', ''Nov'', ''Dec'']"

definition ngx_http_time :: "ptr \<Rightarrow> u64 \<Rightarrow> u8 list option" where
  "ngx_http_time buf t = (
     let tm = ngx_gmtime t
     in ngx_sprintf buf (bytes ''%s, %02d %s %4d %02d:%02d:%02d GMT'')
          [VA_ptr (bytes (week ! nat (tm_wday tm))), VA_int (tm_mday tm), VA_ptr (bytes (months ! nat (tm_mon tm - 1))),
           VA_int (tm_year tm), VA_int (tm_hour tm), VA_int (tm_min tm), VA_int (tm_sec tm)])"

definition ngx_http_cookie_time :: "ptr \<Rightarrow> u64 \<Rightarrow> u8 list option" where
  "ngx_http_cookie_time buf t = (
     let tm = ngx_gmtime t
     in ngx_sprintf buf
          (if tm_year tm > 2037 then bytes ''%s, %02d-%s-%d %02d:%02d:%02d GMT''
           else bytes ''%s, %02d-%s-%02d %02d:%02d:%02d GMT'')
          [VA_ptr (bytes (week ! nat (tm_wday tm))), VA_int (tm_mday tm), VA_ptr (bytes (months ! nat (tm_mon tm - 1))),
           VA_int (if tm_year tm > 2037 then tm_year tm else tm_year tm mod 100),
           VA_int (tm_hour tm), VA_int (tm_min tm), VA_int (tm_sec tm)])"

section \<open>The Gregorian calendar\<close>

definition leap_year :: "nat \<Rightarrow> bool" where
  "leap_year y \<longleftrightarrow> y mod 4 = 0 \<and> (y mod 100 \<noteq> 0 \<or> y mod 400 = 0)"

definition month_days :: "nat \<Rightarrow> nat \<Rightarrow> nat" where
  "month_days y m = (if m = 2 \<and> leap_year y then 29 else [31, 28, 31, 30, 31, 30, 31, 31, 30, 31, 30, 31] ! (m - 1))"

definition year_days :: "nat \<Rightarrow> nat" where
  "year_days y = (if leap_year y then 366 else 365)"

text \<open>Days since January 1, 1970.\<close>

definition civil_days :: "nat \<Rightarrow> nat \<Rightarrow> nat \<Rightarrow> nat" where
  "civil_days y m d = sum_list (map year_days [1970..<y]) + sum_list (map (month_days y) [1..<m]) + (d - 1)"

definition valid_date :: "nat \<Rightarrow> nat \<Rightarrow> nat \<Rightarrow> bool" where
  "valid_date y m d \<longleftrightarrow> 1970 \<le> y \<and> 1 \<le> m \<and> m \<le> 12 \<and> 1 \<le> d \<and> d \<le> month_days y m"

text \<open>Days from March 1 of year 0 to March 1 of year \<open>y\<close>, and to the first of the month \<open>k\<close> counted from March.\<close>

definition march :: "nat \<Rightarrow> nat" where
  "march y = 365 * y + y div 4 - y div 100 + y div 400"

definition month_offset :: "nat \<Rightarrow> nat" where
  "month_offset k = 367 * k div 12 - 30"

lemma leap_dvd: "leap_year y \<longleftrightarrow> 4 dvd y \<and> (\<not> 100 dvd y \<or> 400 dvd y)"
  by (simp add: leap_year_def mod_eq_0_iff_dvd)

lemma march_Suc: "march (Suc y) = march y + year_days (Suc y)"
proof -
  have s: "Suc y div d = y div d + (if d dvd Suc y then 1 else 0)" if "1 < d" for d
    using that by (simp add: div_Suc mod_eq_0_iff_dvd)
  have dv: "400 dvd Suc y \<Longrightarrow> 100 dvd Suc y" "100 dvd Suc y \<Longrightarrow> 4 dvd Suc y"
    by (rule dvd_trans [rotated], assumption, simp)+
  obtain a b c where abc: "y div 4 = a" "y div 100 = b" "y div 400 = c" "b \<le> y"
    by (simp add: div_le_dividend)
  show ?thesis unfolding march_def year_days_def leap_dvd s [of 4, simplified] s [of 100, simplified] s [of 400, simplified] abc(1-3)
    using dv abc(4) by (cases "4 dvd Suc y"; cases "100 dvd Suc y"; cases "400 dvd Suc y") simp_all
qed

lemma march_mono: "a \<le> b \<Longrightarrow> march a \<le> march b"
  by (rule lift_Suc_mono_le [of march]) (simp_all add: march_Suc)

lemma civil_year: "1970 \<le> y \<Longrightarrow> march y = sum_list (map year_days [1970..<y]) + year_days y - 306 + 719468"
proof (induction y rule: nat_induct_at_least)
  case base
  show ?case by (simp add: march_def year_days_def leap_year_def)
next
  case (Suc y)
  have "365 \<le> year_days y" "365 \<le> year_days (Suc y)" by (simp_all add: year_days_def)
  then show ?case using Suc by (simp add: march_Suc)
qed

section \<open>Words and the formulas of \<^verbatim>\<open>ngx_gmtime\<close>\<close>

lemma wnat: "m < 2 ^ 64 \<Longrightarrow> unat (of_nat m :: u64) = m"
  by (simp add: unat_of_nat)

lemma wdiv: "m < 2 ^ 64 \<Longrightarrow> n < 2 ^ 64 \<Longrightarrow> (of_nat m :: u64) div of_nat n = of_nat (m div n)"
  using wnat [of "m div n"] le_less_trans [OF div_le_dividend [of m n], of "2 ^ 64"]
  by (simp add: word_unat_eq_iff unat_div wnat)

lemma wmod: "m < 2 ^ 64 \<Longrightarrow> n < 2 ^ 64 \<Longrightarrow> (of_nat m :: u64) mod of_nat n = of_nat (m mod n)"
  using wnat [of "m mod n"] le_less_trans [OF mod_less_eq_dividend [of m n], of "2 ^ 64"]
  by (simp add: word_unat_eq_iff unat_mod wnat)

lemma wzero: "m < 2 ^ 64 \<Longrightarrow> (of_nat m :: u64) = 0 \<longleftrightarrow> m = 0"
proof -
  assume "m < 2 ^ 64"
  then have "unat (of_nat m :: u64) = m" by (rule wnat)
  then show ?thesis by (metis unat_eq_0)
qed

lemma sint_small: "- (2 ^ 63) \<le> i \<Longrightarrow> i < 2 ^ 63 \<Longrightarrow> sint (of_int i :: u64) = i"
  by (simp add: signed_of_int signed_take_bit_int_eq_self)

lemma sint_nat: "m < 2 ^ 63 \<Longrightarrow> sint (of_nat m :: u64) = int m"
  using sint_small [of "int m"] by simp

lemma div_between: "0 < n \<Longrightarrow> n * (m div n) \<le> m" "0 < n \<Longrightarrow> m < n * (m div n) + n" for m n :: nat
proof -
  assume "0 < n"
  then show "n * (m div n) \<le> m" by simp
  have "m = n * (m div n) + m mod n" by simp
  then show "m < n * (m div n) + n" using mod_less_divisor [OF \<open>0 < n\<close>, of m] by linarith
qed

lemma march_bounds: "146097 * y \<le> 400 * march y + 699" "400 * march y \<le> 146097 * y + 396"
proof -
  obtain a b c where abc: "y div 4 = a" "y div 100 = b" "y div 400 = c" by simp
  have "4 * a \<le> y" "y < 4 * a + 4" "100 * b \<le> y" "y < 100 * b + 100" "400 * c \<le> y" "y < 400 * c + 400"
    using div_between [of 4 y] div_between [of 100 y] div_between [of 400 y] abc by simp_all
  moreover have "march y = 365 * y + a - b + c" by (simp add: march_def abc)
  ultimately show "146097 * y \<le> 400 * march y + 699" "400 * march y \<le> 146097 * y + 396" by simp_all
qed

lemma year_estimate:
  assumes y: "y = (d + 2) * 400 div 146097" and "1 \<le> y"
  shows "march (y - 1) \<le> d" and "d < march (Suc y)"
proof -
  obtain z where z: "y = Suc z" using assms(2) by (cases y) auto
  have b: "146097 * y \<le> (d + 2) * 400" "(d + 2) * 400 < 146097 * y + 146097"
    using div_between [of 146097 "(d + 2) * 400"] unfolding y by simp_all
  show "march (y - 1) \<le> d" using b(1) march_bounds(2) [of z] unfolding z by simp
  show "d < march (Suc y)" using b(2) march_bounds(1) [of "Suc y"] by simp
qed

lemma year_word: "y < 2 ^ 50 \<Longrightarrow>
  365 * (of_nat y :: u64) + of_nat y div 4 - of_nat y div 100 + of_nat y div 400 = of_nat (march y)"
proof -
  assume y: "y < 2 ^ 50"
  have d: "(of_nat y :: u64) div 4 = of_nat (y div 4)" "(of_nat y :: u64) div 100 = of_nat (y div 100)"
    "(of_nat y :: u64) div 400 = of_nat (y div 400)"
    using wdiv [of y 4] wdiv [of y 100] wdiv [of y 400] y by simp_all
  have "y div 100 \<le> 365 * y + y div 4" using div_le_dividend [of y 100] by linarith
  then show ?thesis unfolding d march_def by (simp add: of_nat_diff)
qed

lemma leap_word: "y < 2 ^ 50 \<Longrightarrow>
  ((of_nat y :: u64) mod 4 = 0 \<and> ((of_nat y :: u64) mod 100 \<noteq> 0 \<or> (of_nat y :: u64) mod 400 = 0)) \<longleftrightarrow> leap_year y"
proof -
  assume y: "y < 2 ^ 50"
  have "(of_nat y :: u64) mod of_nat k = 0 \<longleftrightarrow> y mod k = 0" if "k < 2 ^ 50" for k
    using wmod [of y k] wzero [of "y mod k"] y that le_less_trans [OF mod_less_eq_dividend [of y k] y] by simp
  from this [of 4] this [of 100] this [of 400] show ?thesis by (simp add: leap_year_def)
qed

lemma gm_yday_nat:
  assumes D: "719468 \<le> D" "D < 2 ^ 50"
  shows "\<exists>Y. gm_yday (of_nat D) = (of_nat (D - march Y), of_nat Y) \<and> march Y \<le> D \<and> D < march (Suc Y) \<and> 1969 \<le> Y"
proof -
  define y where "y = (D + 2) * 400 div 146097"
  have yw: "((of_nat D :: u64) + 2) * 400 div 146097 = of_nat y"
    using wdiv [of "(D + 2) * 400" 146097] D(2) by (simp add: y_def algebra_simps)
  have y50: "y < 2 ^ 50" "1969 \<le> y"
  proof -
    have b: "146097 * y \<le> (D + 2) * 400" "(D + 2) * 400 < 146097 * y + 146097"
      using div_between [of 146097 "(D + 2) * 400"] unfolding y_def by simp_all
    then show "y < 2 ^ 50" "1969 \<le> y" using D by simp_all
  qed
  have e: "march (y - 1) \<le> D" "D < march (Suc y)" using year_estimate [OF y_def] y50(2) by simp_all
  show ?thesis
  proof (cases "march y \<le> D")
    case True
    have "of_nat D - of_nat (march y) = (of_nat (D - march y) :: u64)" using True by (simp add: of_nat_diff)
    moreover have "sint (of_nat (D - march y) :: u64) = int (D - march y)" using D(2) by (intro sint_nat) simp
    ultimately have "gm_yday (of_nat D) = (of_nat (D - march y), of_nat y)"
      unfolding gm_yday_def using yw year_word [OF y50(1)] by (simp add: Let_def)
    then show ?thesis using True e(2) y50(2) by blast
  next
    case False
    obtain z where z: "y = Suc z" using y50(2) by (cases y) auto
    have m: "march y = march z + year_days y" by (simp add: z march_Suc)
    have lt: "D < march y" "march z \<le> D" using False e(1) z by simp_all
    let ?w = "of_nat D - of_nat (march y) :: u64"
    have "?w = of_int (int D - int (march y))" by simp
    moreover have "int (march y) \<le> int D + 366" using lt m by (simp add: year_days_def split: if_splits)
    ultimately have "sint ?w = int D - int (march y)" using sint_small [of "int D - int (march y)"] lt by simp
    then have neg: "sint ?w < 0" using lt by simp
    have "365 + (if leap_year y then 1 else 0) + ?w = of_nat (year_days y) + of_nat D - of_nat (march y)"
      by (simp add: year_days_def)
    also have "\<dots> = of_nat (D - march z)" using lt(2) by (simp add: m of_nat_diff)
    finally have "gm_yday (of_nat D) = (of_nat (D - march z), of_nat z)"
      unfolding gm_yday_def using yw year_word [OF y50(1)] leap_word [OF y50(1)] neg z by (simp add: Let_def)
    moreover have "z \<noteq> 1968"
    proof
      assume "z = 1968"
      then have "march (Suc z) = 719162" by (simp add: march_def)
      then show False using lt z D(1) by simp
    qed
    ultimately show ?thesis using lt z y50(2) by (intro exI [of _ z]) simp
  qed
qed


text \<open>The months counted from March; the last one is February.\<close>

lemma month_cases: "1 \<le> k \<Longrightarrow> k \<le> 12 \<Longrightarrow> k \<in> {1, 2, 3, 4, 5, 6, 7, 8, 9, 10, 11, 12}" for k :: nat
  unfolding insert_iff empty_iff by presburger

lemma month_of_yday:
  assumes "y < 366" and k: "k = (y + 31) * 10 div 306"
  shows "1 \<le> k \<and> k \<le> 12 \<and> month_offset k \<le> y \<and> (306 \<le> y \<longleftrightarrow> 11 \<le> k) \<and>
    y - month_offset k < [31, 30, 31, 30, 31, 31, 30, 31, 30, 31, 31, 29] ! (k - 1)"
proof -
  have b: "306 * k \<le> 10 * y + 310" "10 * y + 310 < 306 * k + 306"
    using div_between [of 306 "(y + 31) * 10"] unfolding k by simp_all
  then have "1 \<le> k" "k \<le> 12" using assms(1) by simp_all
  then have "k \<in> {1, 2, 3, 4, 5, 6, 7, 8, 9, 10, 11, 12}" by (rule month_cases)
  then show ?thesis using b assms(1) by (elim insertE emptyE; auto simp: month_offset_def)
qed

lemma gm_month_nat:
  assumes "y < 366" and k: "k = (y + 31) * 10 div 306"
  shows "gm_month (of_nat y) (of_nat Y) = (if 306 \<le> y then (of_nat (Y + 1), of_nat (k - 10), of_nat (y - month_offset k + 1))
    else (of_nat Y, of_nat (k + 2), of_nat (y - month_offset k + 1)))"
proof -
  note m = month_of_yday [OF assms]
  have kw: "((of_nat y :: u64) + 31) * 10 div 306 = of_nat k"
    using wdiv [of "(y + 31) * 10" 306] assms(1) by (simp add: k algebra_simps)
  have ow: "(367 * of_nat k div 12 - 30 :: u64) = of_nat (month_offset k)"
  proof -
    have "30 \<le> 367 * k div 12" using m div_le_mono [of 367 "367 * k" 12] by simp
    then show ?thesis using wdiv [of "367 * k" 12] m by (simp add: month_offset_def of_nat_diff)
  qed
  have "sint (of_nat y :: u64) = int y" using assms(1) by (intro sint_nat) simp
  then show ?thesis unfolding gm_month_def kw Let_def ow
    using m by (auto simp: of_nat_diff)
qed


lemma month_sums:
  assumes "1 \<le> k" and "k \<le> 10"
  shows "sum_list (map (month_days y) [1..<k + 2]) = year_days y - 306 + month_offset k"
    and "month_days y (k + 2) = [31, 30, 31, 30, 31, 31, 30, 31, 30, 31, 31, 29] ! (k - 1)"
proof -
  have "k \<in> {1, 2, 3, 4, 5, 6, 7, 8, 9, 10}" using month_cases [of k] assms by auto
  then show "sum_list (map (month_days y) [1..<k + 2]) = year_days y - 306 + month_offset k"
    by (elim insertE emptyE) (simp_all add: upt_rec month_days_def year_days_def month_offset_def)
  show "month_days y (k + 2) = [31, 30, 31, 30, 31, 31, 30, 31, 30, 31, 31, 29] ! (k - 1)"
    using \<open>k \<in> _\<close> by (elim insertE emptyE) (simp_all add: month_days_def)
qed

lemma civil_spring:
  assumes "1970 \<le> Y" and "1 \<le> k" and "k \<le> 10"
  shows "civil_days Y (k + 2) d + 719468 = march Y + month_offset k + (d - 1)"
proof -
  have "365 \<le> year_days Y" by (simp add: year_days_def)
  then show ?thesis using civil_year [OF assms(1)] month_sums(1) [OF assms(2,3), of Y] by (simp add: civil_days_def)
qed

lemma civil_winter:
  assumes "1970 \<le> Suc Y" and "k = 11 \<or> k = 12"
  shows "civil_days (Suc Y) (k - 10) d + 719468 = march Y + month_offset k + (d - 1)"
proof -
  have "365 \<le> year_days (Suc Y)" by (simp add: year_days_def)
  then have "march Y + 306 = sum_list (map year_days [1970..<Suc Y]) + 719468"
    using civil_year [OF assms(1)] march_Suc [of Y] by linarith
  moreover have "[1..<2] = [1 :: nat]" by (simp add: upt_rec)
  ultimately show ?thesis using assms(2) unfolding civil_days_def by (auto simp: month_offset_def month_days_def)
qed


lemma civil_march:
  assumes "1970 \<le> Y" and "1 \<le> M" and "M \<le> 12"
  shows "civil_days Y M d + 719468 =
    march (if M \<le> 2 then Y - 1 else Y) + month_offset (if M \<le> 2 then M + 10 else M - 2) + (d - 1)"
proof (cases "M \<le> 2")
  case True
  then have "M = 1 \<or> M = 2" using assms(2) by linarith
  then show ?thesis using civil_winter [of "Y - 1" "M + 10" d] assms(1) by auto
next
  case False
  then obtain k where k: "M = k + 2" "1 \<le> k" "k \<le> 10" using assms(3) le_Suc_ex [of 2 M] by (auto simp: add.commute)
  then show ?thesis using civil_spring [of Y k d] assms(1) by simp
qed

lemma gmtime_day:
  assumes D: "719468 \<le> D" "D < 2 ^ 50"
  shows "\<exists>Y M d. (let (yday, year) = gm_yday (of_nat D) in gm_month yday year) = (of_nat Y, of_nat M, of_nat d) \<and>
    valid_date Y M d \<and> civil_days Y M d + 719468 = D"
proof -
  obtain Y where Y: "gm_yday (of_nat D) = (of_nat (D - march Y), of_nat Y)" "march Y \<le> D" "D < march (Suc Y)" "1969 \<le> Y"
    using gm_yday_nat [OF D] by blast
  define y where "y = D - march Y"
  define k where "k = (y + 31) * 10 div 306"
  have y: "y < year_days (Suc Y)" "y < 366" using Y(2,3) march_Suc [of Y] by (simp_all add: y_def year_days_def split: if_splits)
  note m = month_of_yday [OF y(2) k_def] and g = gm_month_nat [OF y(2) k_def, of Y]
  have md: "month_offset k \<le> y" and yD: "march Y + y = D" using m Y(2) by (simp_all add: y_def)
  let ?d = "y - month_offset k + 1"
  show ?thesis
  proof (cases "306 \<le> y")
    case True
    then have k: "k = 11 \<or> k = 12" using m by auto
    have "civil_days (Suc Y) (k - 10) ?d + 719468 = D"
      using civil_winter [of Y k ?d] k Y(4) md yD by simp
    moreover have "valid_date (Suc Y) (k - 10) ?d"
      using k m y(1) Y(4) by (auto simp: valid_date_def month_days_def year_days_def month_offset_def split: if_splits)
    ultimately show ?thesis using g Y(1) True
      by (intro exI [of _ "Suc Y"] exI [of _ "k - 10"] exI [of _ ?d]) (simp add: y_def)
  next
    case False
    then have k: "1 \<le> k" "k \<le> 10" using m by auto
    have "Y \<noteq> 1969"
    proof
      assume "Y = 1969"
      then have "march Y = 719162" by (simp add: march_def)
      then show False using False D(1) by (simp add: y_def)
    qed
    then have Y1: "1970 \<le> Y" using Y(4) by simp
    have "civil_days Y (k + 2) ?d + 719468 = D" using civil_spring [OF Y1 k, of ?d] md yD by simp
    moreover have "valid_date Y (k + 2) ?d" using k m Y1 month_sums(2) [OF k, of Y] by (simp add: valid_date_def)
    ultimately show ?thesis using g Y(1) False
      by (intro exI [of _ Y] exI [of _ "k + 2"] exI [of _ ?d]) (simp add: y_def)
  qed
qed


lemma int_cast_nat: "m < 2 ^ 31 \<Longrightarrow> int_cast (of_nat m) = int m"
proof -
  assume m: "m < 2 ^ 31"
  have "(ucast (of_nat m :: u64) :: u32) = of_nat m"
    using m by (simp add: word_unat_eq_iff unsigned_ucast_eq unat_of_nat take_bit_nat_eq_self)
  moreover have "sint (of_nat m :: u32) = int m" using m by (simp add: signed_of_nat signed_take_bit_int_eq_self)
  ultimately show ?thesis by (simp add: int_cast_def)
qed

lemma civil_year_le: "valid_date Y M d \<Longrightarrow> 365 * (Y - 1970) \<le> civil_days Y M d"
proof -
  have "365 * (Y - 1970) \<le> sum_list (map year_days [1970..<Y])"
  proof (induction Y)
    case (Suc Y)
    have "365 \<le> year_days Y" by (simp add: year_days_def)
    then show ?case using Suc by (cases "1970 \<le> Y") auto
  qed simp
  then show ?thesis by (simp add: civil_days_def)
qed

lemma gmtime_nat:
  assumes t: "n < 2 ^ 54"
  shows "\<exists>Y M d. ngx_gmtime (of_nat n) = \<lparr>tm_sec = int (n mod 60), tm_min = int (n mod 3600 div 60),
      tm_hour = int (n mod 86400 div 3600), tm_mday = int d, tm_mon = int M, tm_year = int Y,
      tm_wday = int ((4 + n div 86400) mod 7)\<rparr> \<and>
    valid_date Y M d \<and> civil_days Y M d = n div 86400"
proof -
  let ?D = "n div 86400 + 719468"
  have D: "719468 \<le> ?D" "?D < 2 ^ 50" using t div_le_mono [of n "2 ^ 54" 86400] by simp_all
  obtain Y M d where y: "(let (yday, year) = gm_yday (of_nat ?D) in gm_month yday year) = (of_nat Y, of_nat M, of_nat d)"
    "valid_date Y M d" "civil_days Y M d + 719468 = ?D" using gmtime_day [OF D] by blast
  have dw: "(of_nat n :: u64) div 86400 = of_nat (n div 86400)" "(of_nat n :: u64) mod 86400 = of_nat (n mod 86400)"
    using wdiv [of n 86400] wmod [of n 86400] t by simp_all
  have hw: "(of_nat (n mod 86400) :: u64) div 3600 = of_nat (n mod 86400 div 3600)"
    "(of_nat (n mod 86400) :: u64) mod 3600 = of_nat (n mod 3600)"
    using wdiv [of "n mod 86400" 3600] wmod [of "n mod 86400" 3600] by (simp_all add: mod_mod_cancel)
  have mw: "(of_nat (n mod 3600) :: u64) div 60 = of_nat (n mod 3600 div 60)" "(of_nat (n mod 3600) :: u64) mod 60 = of_nat (n mod 60)"
    using wdiv [of "n mod 3600" 60] wmod [of "n mod 3600" 60] by (simp_all add: mod_mod_cancel)
  have ww: "(4 + of_nat (n div 86400) :: u64) mod 7 = of_nat ((4 + n div 86400) mod 7)"
    using wmod [of "4 + n div 86400" 7] D(2) by simp
  have days: "(of_nat (n div 86400) - (31 + 28) + 719527 :: u64) = of_nat ?D" by simp
  have "Y < 2 ^ 31" using civil_year_le [OF y(2)] y(2,3) t div_le_mono [of n "2 ^ 54" 86400] by (simp add: valid_date_def)
  moreover have "M < 2 ^ 31" "d < 2 ^ 31"
    using y(2) month_cases [of M] by (auto simp: valid_date_def month_days_def split: if_splits)
  ultimately have "ngx_gmtime (of_nat n) = \<lparr>tm_sec = int (n mod 60), tm_min = int (n mod 3600 div 60),
      tm_hour = int (n mod 86400 div 3600), tm_mday = int d, tm_mon = int M, tm_year = int Y,
      tm_wday = int ((4 + n div 86400) mod 7)\<rparr>"
    unfolding ngx_gmtime_def Let_def dw hw mw ww days
    using y(1) by (auto simp: Let_def split_beta int_cast_nat)
  then show ?thesis using y(2,3) by auto
qed

lemma day_seconds: "n = n div 86400 * 86400 + n mod 86400 div 3600 * 3600 + n mod 3600 div 60 * 60 + n mod 60" for n :: nat
proof -
  have "n mod 86400 mod 3600 = n mod 3600" "n mod 3600 mod 60 = n mod 60" by (simp_all add: mod_mod_cancel)
  then show ?thesis using div_mult_mod_eq [of n 86400] div_mult_mod_eq [of "n mod 86400" 3600] div_mult_mod_eq [of "n mod 3600" 60]
    by (simp only: add.assoc)
qed

section \<open>Property\<close>

text \<open>
  (C38) \<^verbatim>\<open>ngx_gmtime\<close> is the Gregorian calendar: for every time up to \<open>2 ^ 54\<close> seconds (more than five hundred million years) its
  fields are a date that exists, whose days since January 1, 1970, counted by leap years and lengths of months, together with the time
  of day are exactly the argument, and the day of the week advances by one each day from Thursday on.
\<close>

theorem gmtime_calendar:
  assumes "unat t < 2 ^ 54"
  shows "\<exists>Y M d h mi s. ngx_gmtime t = \<lparr>tm_sec = int s, tm_min = int mi, tm_hour = int h, tm_mday = int d, tm_mon = int M,
      tm_year = int Y, tm_wday = int ((4 + civil_days Y M d) mod 7)\<rparr> \<and>
    valid_date Y M d \<and> h < 24 \<and> mi < 60 \<and> s < 60 \<and> civil_days Y M d * 86400 + h * 3600 + mi * 60 + s = unat t"
proof -
  define n where "n = unat t"
  have "n mod 86400 div 3600 < 24" "n mod 3600 div 60 < 60" "n mod 60 < 60" by (simp_all add: less_mult_imp_div_less)
  moreover obtain Y M d where "ngx_gmtime (of_nat n) = \<lparr>tm_sec = int (n mod 60), tm_min = int (n mod 3600 div 60),
      tm_hour = int (n mod 86400 div 3600), tm_mday = int d, tm_mon = int M, tm_year = int Y,
      tm_wday = int ((4 + civil_days Y M d) mod 7)\<rparr>" "valid_date Y M d" "civil_days Y M d = n div 86400"
    using gmtime_nat [of n] assms unfolding n_def by metis
  moreover have "of_nat n = t" by (simp add: n_def)
  ultimately show ?thesis using day_seconds [of n, symmetric] unfolding n_def [symmetric] by metis
qed

theorem gmtime_calendar_witness:
  "\<exists>Y M d h mi s. ngx_gmtime 784111777 = \<lparr>tm_sec = int s, tm_min = int mi, tm_hour = int h, tm_mday = int d, tm_mon = int M,
      tm_year = int Y, tm_wday = int ((4 + civil_days Y M d) mod 7)\<rparr> \<and>
    valid_date Y M d \<and> h < 24 \<and> mi < 60 \<and> s < 60 \<and> civil_days Y M d * 86400 + h * 3600 + mi * 60 + s = 784111777"
  using gmtime_calendar [of 784111777] by simp

end
