(* ===== verification/Ngx_Parse_Time.thy ===== *)
theory Ngx_Parse_Time
  imports Ngx_Times
begin

text \<open>
  \<^verbatim>\<open>ngx_parse_http_time\<close> of \<^verbatim>\<open>core/ngx_parse_time.c\<close>, which reads a date in one of the three formats of HTTP. A read outside
  the \<^verbatim>\<open>len\<close> bytes of \<^verbatim>\<open>value\<close> is a fault, the value \<open>None\<close>; the return of \<^verbatim>\<open>NGX_ERROR\<close> in the middle of the
  function is \<open>Some None\<close>.
\<close>

section \<open>The model\<close>

definition rd :: "u8 list \<Rightarrow> nat \<Rightarrow> u8 option" where
  "rd v p = (if p < length v then Some (v ! p) else None)"

definition pt_bind :: "'a option option \<Rightarrow> ('a \<Rightarrow> 'b option option) \<Rightarrow> 'b option option" where
  "pt_bind m f = (case m of None \<Rightarrow> None | Some None \<Rightarrow> Some None | Some (Some x) \<Rightarrow> f x)"

datatype pt_fmt = rfc822 | rfc850 | isoc

definition pt_digit :: "u8 list \<Rightarrow> nat \<Rightarrow> u64 option option" where
  "pt_digit v p = map_option (\<lambda>c. if c < C CHR ''0'' \<or> c > C CHR ''9'' then None else Some (ucast c - 48)) (rd v p)"

definition pt_two :: "u8 list \<Rightarrow> nat \<Rightarrow> u64 option option" where
  "pt_two v p = pt_bind (pt_digit v p) (\<lambda>a. pt_bind (pt_digit v (p + 1)) (\<lambda>b. Some (Some (a * 10 + b))))"

definition pt_four :: "u8 list \<Rightarrow> nat \<Rightarrow> u64 option option" where
  "pt_four v p = pt_bind (pt_digit v p) (\<lambda>a. pt_bind (pt_digit v (p + 1)) (\<lambda>b.
     pt_bind (pt_digit v (p + 2)) (\<lambda>c. pt_bind (pt_digit v (p + 3)) (\<lambda>d.
       Some (Some (a * 1000 + b * 100 + c * 10 + d))))))"

text \<open>\<^verbatim>\<open>if (*p != c) return NGX_ERROR;\<close>\<close>

definition pt_expect :: "u8 list \<Rightarrow> nat \<Rightarrow> u8 \<Rightarrow> unit option option" where
  "pt_expect v p c = map_option (\<lambda>x. if x \<noteq> c then None else Some ()) (rd v p)"

fun pt_weekday :: "u8 list \<Rightarrow> nat \<Rightarrow> nat \<times> bool" where
  "pt_weekday [] p = (p, False)"
| "pt_weekday (c # cs) p =
     (if c = C CHR '','' then (p, False) else if c = C CHR '' '' then (p, True) else pt_weekday cs (p + 1))"

fun pt_spaces :: "u8 list \<Rightarrow> nat \<Rightarrow> nat" where
  "pt_spaces [] p = p"
| "pt_spaces (c # cs) p = (if c \<noteq> C CHR '' '' then p else pt_spaces cs (p + 1))"

definition pt_day :: "u8 list \<Rightarrow> nat \<Rightarrow> (pt_fmt \<times> u64 \<times> nat) option option" where
  "pt_day v p = pt_bind (pt_two v p) (\<lambda>day.
     case rd v (p + 2) of
       None \<Rightarrow> None
     | Some c \<Rightarrow>
         if c = C CHR '' '' then
           (if int (length v) - int (p + 2) < 18 then Some None else Some (Some (rfc822, day, p + 3)))
         else if c = C CHR ''-'' then Some (Some (rfc850, day, p + 3))
         else Some None)"

definition pt_month :: "u8 list \<Rightarrow> nat \<Rightarrow> int option option" where
  "pt_month v p =
     (case rd v p of
        None \<Rightarrow> None
      | Some c \<Rightarrow>
          if c = C CHR ''J'' then
            (case rd v (p + 1) of
               None \<Rightarrow> None
             | Some c1 \<Rightarrow> if c1 = C CHR ''a'' then Some (Some 0)
                          else map_option (\<lambda>c2. Some (if c2 = C CHR ''n'' then 5 else 6)) (rd v (p + 2)))
          else if c = C CHR ''F'' then Some (Some 1)
          else if c = C CHR ''M'' then map_option (\<lambda>c2. Some (if c2 = C CHR ''r'' then 2 else 4)) (rd v (p + 2))
          else if c = C CHR ''A'' then map_option (\<lambda>c1. Some (if c1 = C CHR ''p'' then 3 else 7)) (rd v (p + 1))
          else if c = C CHR ''S'' then Some (Some 8)
          else if c = C CHR ''O'' then Some (Some 9)
          else if c = C CHR ''N'' then Some (Some 10)
          else if c = C CHR ''D'' then Some (Some 11)
          else Some None)"

text \<open>The year of the first two formats, and the position after it; \<open>p\<close> is behind the month.\<close>

definition pt_year :: "u8 list \<Rightarrow> pt_fmt \<Rightarrow> nat \<Rightarrow> (u64 \<times> nat) option option" where
  "pt_year v fmt p =
     (case fmt of
        rfc822 \<Rightarrow> pt_bind (pt_expect v p (C CHR '' '')) (\<lambda>_. pt_bind (pt_four v (p + 1)) (\<lambda>year. Some (Some (year, p + 5))))
      | rfc850 \<Rightarrow> pt_bind (pt_expect v p (C CHR ''-'')) (\<lambda>_. pt_bind (pt_two v (p + 1)) (\<lambda>year.
          Some (Some (year + (if year < 70 then 2000 else 1900), p + 3))))
      | isoc \<Rightarrow> Some (Some (0, p + 1)))"

text \<open>The day of the last format.\<close>

definition pt_isoc_day :: "u8 list \<Rightarrow> nat \<Rightarrow> (u64 \<times> nat) option option" where
  "pt_isoc_day v p =
     (case rd v p of
        None \<Rightarrow> None
      | Some c \<Rightarrow>
          let p = (if c = C CHR '' '' then p + 1 else p)
          in pt_bind (pt_digit v p) (\<lambda>day.
               pt_bind
                 (case rd v (p + 1) of
                    None \<Rightarrow> None
                  | Some c \<Rightarrow> if c \<noteq> C CHR '' '' then pt_bind (pt_digit v (p + 1)) (\<lambda>d. Some (Some (day * 10 + d, p + 2)))
                              else Some (Some (day, p + 1)))
                 (\<lambda>(day, p). if int (length v) - int p < 14 then Some None else Some (Some (day, p)))))"

definition pt_clock :: "u8 list \<Rightarrow> nat \<Rightarrow> (u64 \<times> u64 \<times> u64) option option" where
  "pt_clock v p =
     pt_bind (pt_expect v p (C CHR '' '')) (\<lambda>_. pt_bind (pt_two v (p + 1)) (\<lambda>hour.
     pt_bind (pt_expect v (p + 3) (C CHR '':'')) (\<lambda>_. pt_bind (pt_two v (p + 4)) (\<lambda>min.
     pt_bind (pt_expect v (p + 6) (C CHR '':'')) (\<lambda>_. pt_bind (pt_two v (p + 7)) (\<lambda>sec.
       Some (Some (hour, min, sec))))))))"

definition mday :: "u64 list" where
  "mday = [31, 28, 31, 30, 31, 30, 31, 31, 30, 31, 30, 31]"

definition pt_date :: "u64 \<Rightarrow> int \<Rightarrow> u64 \<Rightarrow> u64 \<times> u64 \<times> u64 \<Rightarrow> int option option" where
  "pt_date day month year clock =
     (case clock of (hour, minute, sec) \<Rightarrow>
        if hour > 23 \<or> minute > 59 \<or> sec > 59 then Some None
        else if (if day = 29 \<and> month = 1 then year AND 3 \<noteq> 0 \<or> (year mod 100 = 0 \<and> year mod 400 \<noteq> 0)
                 else day > mday ! nat month) then Some None
        else
          let (month, year) = (if month - 1 \<le> 0 then (month - 1 + 12, year - 1) else (month - 1, year));
              time = (365 * year + year div 4 - year div 100 + year div 400 + of_int (367 * month div 12) - 30
                + day - 1 - 719527 + 31 + 28) * 86400 + hour * 3600 + minute * 60 + sec
          in Some (Some (sint time)))"

definition pt_fields :: "u8 list \<Rightarrow> nat \<Rightarrow> pt_fmt \<Rightarrow> u64 \<Rightarrow> int option option" where
  "pt_fields v p fmt day =
     pt_bind (pt_month v p) (\<lambda>month.
     pt_bind (pt_year v fmt (p + 3)) (\<lambda>(year, p).
     pt_bind (if fmt = isoc then pt_isoc_day v p else Some (Some (day, p))) (\<lambda>(day, p).
     pt_bind (pt_clock v p) (\<lambda>clock.
     pt_bind (if fmt = isoc then pt_bind (pt_expect v (p + 9) (C CHR '' '')) (\<lambda>_. pt_four v (p + 10)) else Some (Some year)) (\<lambda>year.
       pt_date day month year clock)))))"

text \<open>\<^verbatim>\<open>NGX_ERROR\<close> is -1.\<close>

definition ngx_parse_http_time :: "u8 list \<Rightarrow> int option" where
  "ngx_parse_http_time v =
     (let (p, iso) = pt_weekday v 0;
          p = pt_spaces (drop (p + 1) v) (p + 1)
      in if int (length v) - int p < 18 then Some (- 1)
         else map_option (case_option (- 1) id)
           (if iso then pt_fields v p isoc 0
            else pt_bind (pt_day v p) (\<lambda>(fmt, day, p). pt_fields v p fmt day)))"

section \<open>No read outside the value\<close>

definition safe :: "'a option option \<Rightarrow> bool" where
  "safe m \<longleftrightarrow> m \<noteq> None"

lemma safe_Some [simp]: "safe (Some x)"
  by (simp add: safe_def)

lemma safe_if [intro]: "(b \<Longrightarrow> safe m) \<Longrightarrow> (\<not> b \<Longrightarrow> safe m') \<Longrightarrow> safe (if b then m else m')"
  by simp

lemma safe_bind: "safe m \<Longrightarrow> (\<And>x. m = Some (Some x) \<Longrightarrow> safe (f x)) \<Longrightarrow> safe (pt_bind m f)"
  by (cases m; cases "the m") (auto simp: pt_bind_def safe_def)

lemma bind_Some: "pt_bind m f = Some (Some y) \<longleftrightarrow> (\<exists>x. m = Some (Some x) \<and> f x = Some (Some y))"
  by (auto simp: pt_bind_def split: option.splits)

lemma safe_digit: "p < length v \<Longrightarrow> safe (pt_digit v p)"
  by (simp add: pt_digit_def rd_def)

lemma safe_expect: "p < length v \<Longrightarrow> safe (pt_expect v p c)"
  by (simp add: pt_expect_def rd_def)

lemma safe_two: "p + 1 < length v \<Longrightarrow> safe (pt_two v p)"
  unfolding pt_two_def by (intro safe_bind safe_digit) simp_all

lemma safe_four: "p + 3 < length v \<Longrightarrow> safe (pt_four v p)"
  unfolding pt_four_def by (intro safe_bind safe_digit) simp_all

lemma safe_month: "p + 2 < length v \<Longrightarrow> safe (pt_month v p)"
  by (simp add: pt_month_def rd_def)

lemma safe_day: "p + 2 < length v \<Longrightarrow> safe (pt_day v p)"
  unfolding pt_day_def by (intro safe_bind safe_two) (auto simp: rd_def)

lemma safe_clock: "p + 8 < length v \<Longrightarrow> safe (pt_clock v p)"
  unfolding pt_clock_def by (intro safe_bind safe_two safe_expect) simp_all

lemma safe_isoc_day: "p + 2 < length v \<Longrightarrow> safe (pt_isoc_day v p)"
  unfolding pt_isoc_day_def by (auto simp: rd_def Let_def split_beta intro!: safe_bind safe_digit)

lemma isoc_day_room: "pt_isoc_day v p = Some (Some (day, q)) \<Longrightarrow> q + 14 \<le> length v"
  by (auto simp: pt_isoc_day_def Let_def bind_Some split: option.splits if_splits)

lemma safe_date: "safe (pt_date day month year clock)"
  by (simp add: pt_date_def split_beta Let_def)

lemma safe_fields:
  assumes "case fmt of rfc822 \<Rightarrow> p + 17 \<le> length v | rfc850 \<Rightarrow> p + 15 \<le> length v | isoc \<Rightarrow> p + 7 \<le> length v"
  shows "safe (pt_fields v p fmt day)"
proof -
  have m: "safe (pt_month v p)" using assms by (intro safe_month) (auto split: pt_fmt.splits)
  have y: "safe (pt_year v fmt (p + 3))"
    using assms by (cases fmt) (auto simp: pt_year_def intro!: safe_bind safe_expect safe_four safe_two)
  have q: "if fmt = isoc then q = p + 4 else q + 9 \<le> length v" if "pt_year v fmt (p + 3) = Some (Some (year, q))" for year q
    using that assms by (cases fmt) (auto simp: pt_year_def bind_Some)
  show ?thesis unfolding pt_fields_def
  proof (intro safe_bind m y, clarify, intro safe_bind, goal_cases)
    case (1 month year q)
    then show ?case using q [OF 1(2)] assms by (auto intro!: safe_isoc_day)
  next
    case (2 month year q x)
    obtain d r where x: "x = (d, r)" by (cases x) auto
    have r: "if fmt = isoc then r + 14 \<le> length v else r + 9 \<le> length v"
      using 2(3) q [OF 2(2)] x by (auto dest: isoc_day_room split: if_splits)
    show ?case unfolding x prod.case using r
      by (intro safe_bind safe_clock safe_if safe_expect safe_four safe_date) (auto split: if_splits)
  qed
qed

lemma pt_spaces_ge: "p \<le> pt_spaces cs p"
  by (induction cs p rule: pt_spaces.induct) (auto split: if_splits)

lemma day_room: "pt_day v q = Some (Some (fmt, day, p)) \<Longrightarrow> p = q + 3 \<and> (fmt = rfc822 \<and> q + 20 \<le> length v \<or> fmt = rfc850)"
  by (auto simp: pt_day_def bind_Some split: option.splits if_splits)

text \<open>
  \<^verbatim>\<open>ngx_parse_http_time\<close> never reads outside the \<^verbatim>\<open>len\<close> bytes it is given, whatever they are: the tests of the
  remaining length that each format has are enough for every read behind them.
\<close>

theorem parse_http_time_safe: "ngx_parse_http_time v \<noteq> None"
proof -
  obtain p iso where w: "pt_weekday v 0 = (p, iso)" by (cases "pt_weekday v 0") auto
  define q where "q = pt_spaces (drop (p + 1) v) (p + 1)"
  have e: "ngx_parse_http_time v = (if int (length v) - int q < 18 then Some (- 1) else map_option (case_option (- 1) id)
      (if iso then pt_fields v q isoc 0 else pt_bind (pt_day v q) (\<lambda>(fmt, day, p). pt_fields v p fmt day)))"
    by (simp add: ngx_parse_http_time_def w q_def)
  show ?thesis
  proof (cases "int (length v) - int q < 18")
    case True
    then show ?thesis by (simp add: e)
  next
    case False
    then have len: "q + 18 \<le> length v" by simp
    have 1: "safe (pt_fields v q isoc 0)" using len by (intro safe_fields) simp
    have 2: "safe (pt_bind (pt_day v q) (\<lambda>(fmt, day, p). pt_fields v p fmt day))"
    proof (rule safe_bind)
      show "safe (pt_day v q)" using len by (intro safe_day) simp
      fix x assume x: "pt_day v q = Some (Some x)"
      obtain fmt day p where "x = (fmt, day, p)" by (cases x) auto
      then show "safe (case x of (fmt, day, p) \<Rightarrow> pt_fields v p fmt day)"
        using day_room [of v q fmt day p] x len by (auto intro!: safe_fields)
    qed
    show ?thesis unfolding e using False 1 2 by (cases iso) (simp_all add: safe_def)
  qed
qed

end
