(* ===== verification/Ngx_Parse_Time_Props.thy ===== *)
theory Ngx_Parse_Time_Props
  imports Ngx_Parse_Time
begin

text \<open>
  The value that \<^verbatim>\<open>ngx_parse_http_time\<close> gives a date in each of its three formats, against the calendar of \<^verbatim>\<open>Ngx_Times\<close>, and
  the round trip of the dates that \<^verbatim>\<open>ngx_http_time\<close> and \<^verbatim>\<open>ngx_http_cookie_time\<close> print.
\<close>

section \<open>The printed fields\<close>

lemma two_text:
  assumes "n < 100" and "length out + 20 \<le> cap"
  shows "ngx_sprintf_num out cap (of_nat n) 48 0 2 = out @ [dec_char (n div 10), dec_char (n mod 10)]"
proof -
  have u: "unat (of_nat n :: u64) = n" using assms(1) by (intro wnat) simp
  have "digits 10 n = (if n < 10 then [n] else [n div 10, n mod 10])"
    using assms(1) by (auto simp: digits.simps)
  then have "replicate (2 - length (num_text (of_nat n) 0)) 48 @ num_text (of_nat n) 0 = [dec_char (n div 10), dec_char (n mod 10)]"
    by (auto simp: num_text_dec u dec_char_def)
  then show ?thesis using sprintf_num_room [of out 2 cap] assms(2) by simp
qed

lemma four_text:
  assumes "1000 \<le> n" "n < 10000" and "length out + 20 \<le> cap"
  shows "ngx_sprintf_num out cap (of_nat n) 32 0 4 =
    out @ [dec_char (n div 1000), dec_char (n div 100 mod 10), dec_char (n div 10 mod 10), dec_char (n mod 10)]"
proof -
  have u: "unat (of_nat n :: u64) = n" using assms(2) by (intro wnat) simp
  have "\<not> n < 10" "\<not> n div 10 < 10" "\<not> n div 100 < 10" "n div 1000 < 10"
    using assms(1,2) div_le_mono [OF assms(1), of 10] div_le_mono [OF assms(1), of 100] div_le_mono [of n 9999 1000] by simp_all
  then have "digits 10 n = [n div 1000, n div 100 mod 10, n div 10 mod 10, n mod 10]"
    by (simp add: digits.simps [of 10 n] digits.simps [of 10 "n div 10"] digits.simps [of 10 "n div 100"]
       digits.simps [of 10 "n div 1000"] div_mult2_eq [symmetric])
  then show ?thesis using sprintf_num_room [of out 4 cap] assms(3) by (simp add: num_text_dec u)
qed

lemma http_format:
  assumes cap: "100 \<le> cap" and w: "w0 \<noteq> 0" "w1 \<noteq> 0" "w2 \<noteq> 0" and m: "m0 \<noteq> 0" "m1 \<noteq> 0" "m2 \<noteq> 0"
    and n: "d < 100" "1000 \<le> y" "y < 10000" "h < 100" "mi < 100" "s < 100"
  shows "ngx_vslprintf cap (bytes ''%s, %02d %s %4d %02d:%02d:%02d GMT'')
      [VA_ptr [w0, w1, w2], VA_int (int d), VA_ptr [m0, m1, m2], VA_int (int y), VA_int (int h), VA_int (int mi), VA_int (int s)] =
    Some ([w0, w1, w2, 44, 32, dec_char (d div 10), dec_char (d mod 10), 32, m0, m1, m2, 32,
      dec_char (y div 1000), dec_char (y div 100 mod 10), dec_char (y div 10 mod 10), dec_char (y mod 10), 32,
      dec_char (h div 10), dec_char (h mod 10), 58, dec_char (mi div 10), dec_char (mi mod 10), 58,
      dec_char (s div 10), dec_char (s mod 10), 32, 71, 77, 84])"
  using assms
  by (simp add: ngx_vslprintf_def vs_loop.simps vs_percent_def fmt_width.simps fmt_flags.simps vs_directive_def
        vs_string_def vs_either_def vs_number_def two_text four_text byte_at_def)

section \<open>The formula of the days\<close>

lemma days_word:
  assumes c: "c + 719468 = march y + month_offset k + (d - 1)" and "1 \<le> d" and k: "1 \<le> k" and "y < 2 ^ 50"
  shows "365 * (of_nat y :: u64) + of_nat y div 4 - of_nat y div 100 + of_nat y div 400 + of_int (367 * int k div 12) - 30
    + of_nat d - 1 - 719527 + 31 + 28 = of_nat c"
proof -
  define e where "e = 367 * k div 12"
  have e: "30 \<le> e" "month_offset k = e - 30" using k div_le_mono [of 367 "367 * k" 12] by (simp_all add: e_def month_offset_def)
  have "367 * int k div 12 = int e" by (simp add: e_def zdiv_int)
  then have ew: "(of_int (367 * int k div 12) :: u64) = of_nat e" by simp
  have "march y + e + d = c + 719499" using c e assms(2) by simp
  then have "(of_nat (march y) + of_nat e + of_nat d :: u64) = of_nat c + 719499" by (metis of_nat_add of_nat_numeral)
  then show ?thesis unfolding year_word [OF assms(4)] ew by (simp add: algebra_simps)
qed

lemma and_3: "(of_nat y :: u64) AND 3 = 0 \<longleftrightarrow> y mod 4 = 0" if "y < 2 ^ 50"
proof -
  have "(of_nat y :: u64) AND 3 = take_bit 2 (of_nat y)" by (simp only: take_bit_eq_mask) (simp add: mask_eq_exp_minus_1)
  also have "\<dots> = of_nat y mod 4" by (simp add: take_bit_eq_mod)
  finally have "(of_nat y :: u64) AND 3 = of_nat y mod 4" .
  then show ?thesis using wmod [of y 4] wzero [of "y mod 4"] that by simp
qed

lemma word_gt: "n < 2 ^ 64 \<Longrightarrow> m < 2 ^ 64 \<Longrightarrow> (of_nat n :: u64) < of_nat m \<longleftrightarrow> n < m"
  by (simp add: word_less_nat_alt wnat)

lemma word_eq: "n < 2 ^ 64 \<Longrightarrow> m < 2 ^ 64 \<Longrightarrow> (of_nat n :: u64) = of_nat m \<longleftrightarrow> n = m"
  by (metis wnat)

lemma date_rejected:
  assumes M: "1 \<le> M" "M \<le> 12" and b: "Y < 10000" "d < 100"
  shows "(if (of_nat d :: u64) = 29 \<and> int M - 1 = 1 then (of_nat Y :: u64) AND 3 \<noteq> 0 \<or> ((of_nat Y :: u64) mod 100 = 0 \<and> (of_nat Y :: u64) mod 400 \<noteq> 0)
    else (of_nat d :: u64) > mday ! nat (int M - 1)) \<longleftrightarrow> month_days Y M < d" (is "?c \<longleftrightarrow> _")
proof (cases "d = 29 \<and> M = 2")
  case True
  have "(of_nat Y :: u64) mod of_nat k = 0 \<longleftrightarrow> Y mod k = 0" if "k < 2 ^ 50" for k
    using wmod [of Y k] wzero [of "Y mod k"] b that le_less_trans [OF mod_less_eq_dividend [of Y k] b(1)] by simp
  note y = this [of 100] this [of 400] and_3 [of Y]
  then show ?thesis using True b by (auto simp: leap_year_def month_days_def)
next
  case False
  let ?t = "[31, 28, 31, 30, 31, 30, 31, 31, 30, 31, 30, 31] :: nat list"
  have m: "M \<in> {1, 2, 3, 4, 5, 6, 7, 8, 9, 10, 11, 12}" using M by (rule month_cases)
  have "mday ! nat (int M - 1) = of_nat (?t ! (M - 1))" using m by (elim insertE emptyE) (simp_all add: mday_def)
  moreover have "?t ! (M - 1) < 2 ^ 64" using m by auto
  ultimately have "(of_nat d :: u64) > mday ! nat (int M - 1) \<longleftrightarrow> ?t ! (M - 1) < d" using b(2) word_gt [of "?t ! (M - 1)" d] by simp
  moreover have "\<not> ((of_nat d :: u64) = 29 \<and> int M - 1 = 1)" using False word_eq [of d 29] b(2) by auto
  moreover have "?t ! (M - 1) < d \<longleftrightarrow> month_days Y M < d" using False by (auto simp: month_days_def)
  ultimately show ?thesis by (simp only: if_False)
qed

lemma clock_word: "n < 100 \<Longrightarrow> (of_nat n :: u64) > 23 \<longleftrightarrow> 23 < n" "n < 100 \<Longrightarrow> (of_nat n :: u64) > 59 \<longleftrightarrow> 59 < n"
  using word_gt [of 23 n] word_gt [of 59 n] by simp_all

lemma month_offset_le: "k \<le> 12 \<Longrightarrow> month_offset k \<le> 367"
  using div_le_mono [of "367 * k" "367 * 12" 12] by (simp add: month_offset_def)

lemma civil_days_bound:
  assumes "1970 \<le> Y" "Y < 10000" "1 \<le> M" "M \<le> 12" "d < 100"
  shows "civil_days Y M d < 4000000"
proof -
  have "march (if M \<le> 2 then Y - 1 else Y) \<le> march 10000" using assms by (intro march_mono) auto
  moreover have "march 10000 = 3652425" by (simp add: march_def)
  moreover have "month_offset (if M \<le> 2 then M + 10 else M - 2) \<le> 367"
    using assms by (intro month_offset_le) auto
  ultimately show ?thesis using civil_march [of Y M d] assms by simp
qed

definition date_value :: "nat \<Rightarrow> nat \<Rightarrow> nat \<Rightarrow> nat \<Rightarrow> nat \<Rightarrow> nat \<Rightarrow> int option" where
  "date_value Y M d h mi s = (if d \<le> month_days Y M \<and> h < 24 \<and> mi < 60 \<and> s < 60
     then Some (int (civil_days Y M d * 86400 + h * 3600 + mi * 60 + s)) else None)"

lemma pt_date_exact:
  assumes Y: "1970 \<le> Y" "Y < 10000" and M: "1 \<le> M" "M \<le> 12" and d: "1 \<le> d" "d < 100" and b: "h < 100" "mi < 100" "s < 100"
  shows "pt_date (of_nat d) (int M - 1) (of_nat Y) (of_nat h, of_nat mi, of_nat s) = Some (date_value Y M d h mi s)"
proof (cases "d \<le> month_days Y M \<and> h < 24 \<and> mi < 60 \<and> s < 60")
  case False
  then show ?thesis unfolding pt_date_def prod.case date_rejected [OF M Y(2) d(2)] date_value_def
    using b clock_word [of h] clock_word [of mi] clock_word [of s] by auto
next
  case True
  define N where "N = civil_days Y M d * 86400 + h * 3600 + mi * 60 + s"
  have N: "N < 2 ^ 63" using civil_days_bound [OF Y M d(2)] b by (simp add: N_def)
  let ?k = "if M \<le> 2 then M + 10 else M - 2" and ?y = "if M \<le> 2 then Y - 1 else Y"
  have my: "(if int M - 1 - 1 \<le> 0 then (int M - 1 - 1 + 12, of_nat Y - 1) else (int M - 1 - 1, of_nat Y)) = (int ?k, of_nat ?y :: u64)"
    using Y(1) by (auto simp: of_nat_diff)
  have w: "365 * (of_nat ?y :: u64) + of_nat ?y div 4 - of_nat ?y div 100 + of_nat ?y div 400 + of_int (367 * int ?k div 12) - 30
    + of_nat d - 1 - 719527 + 31 + 28 = of_nat (civil_days Y M d)"
    using Y M by (intro days_word [OF civil_march [OF Y(1) M] d(1)]) auto
  have c: "\<not> ((of_nat h :: u64) > 23 \<or> (of_nat mi :: u64) > 59 \<or> (of_nat s :: u64) > 59)" "\<not> month_days Y M < d"
    using True clock_word [of h] clock_word [of mi] clock_word [of s] by auto
  have "(of_nat (civil_days Y M d) * 86400 + of_nat h * 3600 + of_nat mi * 60 + of_nat s :: u64) = of_nat N" by (simp add: N_def)
  then show ?thesis unfolding pt_date_def prod.case date_rejected [OF M Y(2) d(2)] if_not_P [OF c(1)] if_not_P [OF c(2)] my Let_def w
      date_value_def if_P [OF True] N_def [symmetric] by (simp only: sint_nat [OF N])
qed


section \<open>Texts of the three formats\<close>

lemma dec_char_range: "a < 10 \<Longrightarrow> \<not> dec_char a < 48 \<and> \<not> 57 < dec_char a \<and> ucast (dec_char a) - (48 :: u64) = of_nat a \<and>
    dec_char a \<noteq> 32"
  by (rule small_cases [of "\<lambda>a. a < 10 \<longrightarrow> \<not> dec_char a < 48 \<and> \<not> 57 < dec_char a \<and> ucast (dec_char a) - (48 :: u64) = of_nat a \<and>
    dec_char a \<noteq> 32", rule_format]) (simp_all add: dec_char_def)

lemma digit_dec: "rd v p = Some (dec_char a) \<Longrightarrow> a < 10 \<Longrightarrow> pt_digit v p = Some (Some (of_nat a))"
  using dec_char_range [of a] by (simp add: pt_digit_def)

lemma two_dec:
  assumes "rd v p = Some (dec_char (n div 10))" "rd v (p + 1) = Some (dec_char (n mod 10))" "n < 100"
  shows "pt_two v p = Some (Some (of_nat n))"
proof -
  have "n div 10 < 10" using assms(3) by simp
  moreover have "(of_nat (n div 10) * 10 + of_nat (n mod 10) :: u64) = of_nat n"
    by (metis div_mult_mod_eq of_nat_add of_nat_mult of_nat_numeral)
  ultimately show ?thesis using assms(1,2) digit_dec [of v p "n div 10"] digit_dec [of v "p + 1" "n mod 10"]
    by (simp add: pt_two_def pt_bind_def)
qed

lemma of_nat_four: "n = a * 1000 + b * 100 + c * 10 + e \<Longrightarrow>
    of_nat a * 1000 + of_nat b * 100 + of_nat c * 10 + of_nat e = (of_nat n :: u64)"
  by simp

lemma four_dec:
  assumes "rd v p = Some (dec_char (n div 1000))" "rd v (p + 1) = Some (dec_char (n div 100 mod 10))"
    "rd v (p + 2) = Some (dec_char (n div 10 mod 10))" "rd v (p + 3) = Some (dec_char (n mod 10))" "n < 10000"
  shows "pt_four v p = Some (Some (of_nat n))"
proof -
  have "n div 1000 < 10" using assms(5) by simp
  moreover have "n div 1000 * 1000 + n div 100 mod 10 * 100 + n div 10 mod 10 * 10 + n mod 10 = n"
  proof -
    obtain a b c where e: "n div 10 = a" "n div 100 = b" "n div 1000 = c" by simp
    have "a div 10 = b" "b div 10 = c" by (simp_all add: e [symmetric] div_mult2_eq [symmetric])
    then have "n = 10 * a + n mod 10" "a = 10 * b + a mod 10" "b = 10 * c + b mod 10"
      using mult_div_mod_eq [of 10 n] mult_div_mod_eq [of 10 a] mult_div_mod_eq [of 10 b] e(1) by simp_all
    then show ?thesis unfolding e by simp
  qed
  from this [symmetric] have "(of_nat (n div 1000) * 1000 + of_nat (n div 100 mod 10) * 100 + of_nat (n div 10 mod 10) * 10 + of_nat (n mod 10) :: u64) = of_nat n"
    by (rule of_nat_four)
  ultimately show ?thesis using assms(1-4) digit_dec [of v p "n div 1000"] digit_dec [of v "p + 1" "n div 100 mod 10"]
      digit_dec [of v "p + 2" "n div 10 mod 10"] digit_dec [of v "p + 3" "n mod 10"]
    by (simp add: pt_four_def pt_bind_def)
qed

lemma week_name: "w < 7 \<Longrightarrow> \<exists>a b c. bytes (week ! w) = [a, b, c] \<and> {a, b, c} \<inter> {0, 32, 44} = {}"
  by (rule small_cases [of "\<lambda>w. w < 7 \<longrightarrow> (\<exists>a b c. bytes (week ! w) = [a, b, c] \<and> {a, b, c} \<inter> {0, 32, 44} = {})", rule_format])
    (simp_all add: week_def)

lemma month_name: "1 \<le> M \<Longrightarrow> M \<le> 12 \<Longrightarrow> \<exists>a b c. bytes (months ! (M - 1)) = [a, b, c] \<and> {a, b, c} \<inter> {0, 32} = {} \<and>
    (\<forall>v p. rd v p = Some a \<longrightarrow> rd v (p + 1) = Some b \<longrightarrow> rd v (p + 2) = Some c \<longrightarrow> pt_month v p = Some (Some (int M - 1)))"
  by (drule (1) month_cases, elim insertE emptyE) (simp_all add: months_def pt_month_def)

definition two_digits :: "nat \<Rightarrow> u8 list" where
  "two_digits n = [dec_char (n div 10), dec_char (n mod 10)]"

definition four_digits :: "nat \<Rightarrow> u8 list" where
  "four_digits n = [dec_char (n div 1000), dec_char (n div 100 mod 10), dec_char (n div 10 mod 10), dec_char (n mod 10)]"

definition clock_text :: "nat \<Rightarrow> nat \<Rightarrow> nat \<Rightarrow> u8 list" where
  "clock_text h mi s = two_digits h @ 58 # two_digits mi @ 58 # two_digits s"

definition rfc822_text :: "nat \<Rightarrow> nat \<Rightarrow> nat \<Rightarrow> nat \<Rightarrow> nat \<Rightarrow> nat \<Rightarrow> nat \<Rightarrow> u8 list" where
  "rfc822_text w Y M d h mi s = bytes (week ! w) @ bytes '', '' @ two_digits d @ 32 # bytes (months ! (M - 1)) @ 32 # four_digits Y
     @ 32 # clock_text h mi s @ bytes '' GMT''"

definition rfc850_text :: "u8 list \<Rightarrow> nat \<Rightarrow> nat \<Rightarrow> nat \<Rightarrow> nat \<Rightarrow> nat \<Rightarrow> nat \<Rightarrow> u8 list" where
  "rfc850_text weekday Y M d h mi s = weekday @ bytes '', '' @ two_digits d @ 45 # bytes (months ! (M - 1)) @ 45 # two_digits (Y mod 100)
     @ 32 # clock_text h mi s @ bytes '' GMT''"

definition asctime_text :: "nat \<Rightarrow> nat \<Rightarrow> nat \<Rightarrow> nat \<Rightarrow> nat \<Rightarrow> nat \<Rightarrow> nat \<Rightarrow> u8 list" where
  "asctime_text w Y M d h mi s = bytes (week ! w) @ 32 # bytes (months ! (M - 1)) @ 32 # (if d < 10 then [32, dec_char d] else two_digits d)
     @ 32 # clock_text h mi s @ 32 # four_digits Y"

definition cookie_long_text :: "nat \<Rightarrow> nat \<Rightarrow> nat \<Rightarrow> nat \<Rightarrow> nat \<Rightarrow> nat \<Rightarrow> nat \<Rightarrow> u8 list" where
  "cookie_long_text w Y M d h mi s = bytes (week ! w) @ bytes '', '' @ two_digits d @ 45 # bytes (months ! (M - 1)) @ 45 # four_digits Y
     @ 32 # clock_text h mi s @ bytes '' GMT''"

lemmas text_defs = cookie_long_text_def two_digits_def four_digits_def clock_text_def rfc822_text_def rfc850_text_def asctime_text_def

lemma parse_rfc822:
  assumes w: "w < 7" and M: "1 \<le> M" "M \<le> 12" and n: "d < 100" "Y < 10000" "h < 100" "mi < 100" "s < 100"
    and date: "pt_date (of_nat d) (int M - 1) (of_nat Y) (of_nat h, of_nat mi, of_nat s) = Some r"
  shows "ngx_parse_http_time (rfc822_text w Y M d h mi s) = Some (case_option (- 1) id r)"
proof -
  obtain w0 w1 w2 where w: "bytes (week ! w) = [w0, w1, w2]" "{w0, w1, w2} \<inter> {0, 32, 44} = {}" using week_name [OF w] by auto
  obtain m0 m1 m2 where m: "bytes (months ! (M - 1)) = [m0, m1, m2]"
    "\<And>v p. rd v p = Some m0 \<Longrightarrow> rd v (p + 1) = Some m1 \<Longrightarrow> rd v (p + 2) = Some m2 \<Longrightarrow> pt_month v p = Some (Some (int M - 1))"
    using month_name [OF M] by metis
  have "rfc822_text w Y M d h mi s = [w0, w1, w2, 44, 32, dec_char (d div 10), dec_char (d mod 10), 32, m0, m1, m2, 32,
      dec_char (Y div 1000), dec_char (Y div 100 mod 10), dec_char (Y div 10 mod 10), dec_char (Y mod 10), 32,
      dec_char (h div 10), dec_char (h mod 10), 58, dec_char (mi div 10), dec_char (mi mod 10), 58,
      dec_char (s div 10), dec_char (s mod 10), 32, 71, 77, 84]" (is "_ = ?v")
    by (simp add: text_defs w(1) m(1) del: One_nat_def)
  note form = this
  have "d div 10 < 10" using n(1) by simp
  then have p: "pt_weekday ?v 0 = (3, False)" "pt_spaces (drop 4 ?v) 4 = 5"
    using w dec_char_range [of "d div 10"] by simp_all
  have day: "pt_day ?v 5 = Some (Some (rfc822, of_nat d, 8))"
    using two_dec [of ?v 5 d] n(1) by (simp add: pt_day_def pt_bind_def rd_def)
  have "pt_year ?v rfc822 11 = Some (Some (of_nat Y, 16))"
    using four_dec [of ?v 12 Y] n(2) by (simp add: pt_year_def pt_bind_def pt_expect_def rd_def)
  moreover have "pt_clock ?v 16 = Some (Some (of_nat h, of_nat mi, of_nat s))"
    using two_dec [of ?v 17 h] two_dec [of ?v 20 mi] two_dec [of ?v 23 s] n(3-5)
    by (simp add: pt_clock_def pt_bind_def pt_expect_def rd_def)
  moreover have "pt_month ?v 8 = Some (Some (int M - 1))" by (rule m(2)) (simp_all add: rd_def)
  ultimately have "pt_fields ?v 8 rfc822 (of_nat d) = Some r" by (simp add: pt_fields_def pt_bind_def date)
  then have f: "pt_bind (pt_day ?v 5) (\<lambda>(fmt, day, p). pt_fields ?v p fmt day) = Some r" unfolding day by (simp add: pt_bind_def)
  have "length ?v = 29" by simp
  then have "ngx_parse_http_time ?v = Some (case_option (- 1) id r)"
    unfolding ngx_parse_http_time_def p(1) using p(2) f by (simp add: Let_def)
  then show ?thesis unfolding form .
qed

lemma month_days_le: "1 \<le> M \<Longrightarrow> M \<le> 12 \<Longrightarrow> month_days Y M \<le> 31"
  by (drule (1) month_cases, elim insertE emptyE) (simp_all add: month_days_def)

lemma year_bound: "valid_date Y M d \<Longrightarrow> civil_days Y M d + 719468 < march (y - 1) + 306 \<Longrightarrow> 1970 < y \<Longrightarrow> Y < y"
proof (rule ccontr)
  assume a: "valid_date Y M d" "civil_days Y M d + 719468 < march (y - 1) + 306" "1970 < y" "\<not> Y < y"
  obtain z where z: "y = Suc z" using a(3) by (cases y) auto
  have "march (Suc z) \<le> march Y" using a(4) z by (intro march_mono) simp
  moreover have "365 \<le> year_days Y" "march Y + 306 = sum_list (map year_days [1970..<Y]) + year_days Y + 719468"
    using civil_year [of Y] a(1) by (simp_all add: year_days_def valid_date_def)
  moreover have "march z + year_days Y \<le> march Y"
  proof -
    have "march (Y - 1) + year_days Y = march Y" using march_Suc [of "Y - 1"] a(1) by (simp add: valid_date_def)
    then show ?thesis using march_mono [of z "Y - 1"] a(4) z by (simp add: le_diff_conv2)
  qed
  ultimately show False using a(2) unfolding z civil_days_def by simp
qed

lemma rfc822_length: "w < 7 \<Longrightarrow> 1 \<le> M \<Longrightarrow> M \<le> 12 \<Longrightarrow> length (rfc822_text w Y M d h mi s) = 29"
  using arg_cong [of _ _ length] week_name [of w] month_name [of M] by (auto simp: text_defs dest!: arg_cong [of "bytes _" _ length])

lemma http_text:
  assumes buf: "buf + 100 < 2 ^ 64" and "w < 7" and M: "1 \<le> M" "M \<le> 12" and n: "d < 100" "1000 \<le> Y" "Y < 10000" "h < 100" "mi < 100" "s < 100"
  shows "ngx_sprintf buf (bytes ''%s, %02d %s %4d %02d:%02d:%02d GMT'')
      [VA_ptr (bytes (week ! w)), VA_int (int d), VA_ptr (bytes (months ! (M - 1))), VA_int (int Y), VA_int (int h), VA_int (int mi), VA_int (int s)] =
    Some (rfc822_text w Y M d h mi s)"
proof -
  obtain w0 w1 w2 where w: "bytes (week ! w) = [w0, w1, w2]" "{w0, w1, w2} \<inter> {0, 32, 44} = {}" using week_name [OF assms(2)] by auto
  obtain m0 m1 m2 where m: "bytes (months ! (M - 1)) = [m0, m1, m2]" "{m0, m1, m2} \<inter> {0, 32} = {}" using month_name [OF M] by metis
  show ?thesis unfolding ngx_sprintf_def w(1) m(1)
    using http_format [of "2 ^ 64 - 1 - buf" w0 w1 w2 m0 m1 m2 d Y h mi s] w m n buf by (simp add: text_defs del: One_nat_def)
qed

lemma pt_weekday_word: "44 \<notin> set u \<Longrightarrow> 32 \<notin> set u \<Longrightarrow> pt_weekday (u @ 44 # v) p = (p + length u, False)"
  by (induction u arbitrary: p) auto

lemma rd_Cons: "rd (x # xs) 0 = Some x" "rd (x # xs) 1 = rd xs 0" "rd (x # xs) (Suc i) = rd xs i" "rd (x # xs) (numeral j) = rd xs (pred_numeral j)"
  by (simp_all add: rd_def numeral_eq_Suc)

lemma rd_append: "rd (u @ v) (length u + p) = rd v p"
  by (simp add: rd_def nth_append)

lemma century: "1970 \<le> Y \<Longrightarrow> Y < 2070 \<Longrightarrow>
    (of_nat (Y mod 100) :: u64) + (if (of_nat (Y mod 100) :: u64) < 70 then 2000 else 1900) = of_nat Y"
proof -
  assume Y: "1970 \<le> Y" "Y < 2070"
  obtain q r where q: "Y div 100 = q" "Y mod 100 = r" by simp
  then have r: "r < 100" "Y = 100 * q + r" by auto
  then have "q = 19 \<or> q = 20" using Y by auto
  then have "r < 70 \<and> Y = r + 2000 \<or> \<not> r < 70 \<and> Y = r + 1900" using Y r by auto
  moreover have "(of_nat r :: u64) < 70 \<longleftrightarrow> r < 70" using word_gt [of r 70] r by simp
  ultimately show ?thesis unfolding q by auto
qed

lemma parse_rfc850:
  assumes u: "44 \<notin> set u" "32 \<notin> set u" and M: "1 \<le> M" "M \<le> 12" and n: "d < 100" "1970 \<le> Y" "Y < 2070" "h < 100" "mi < 100" "s < 100"
    and date: "pt_date (of_nat d) (int M - 1) (of_nat Y) (of_nat h, of_nat mi, of_nat s) = Some r"
  shows "ngx_parse_http_time (rfc850_text u Y M d h mi s) = Some (case_option (- 1) id r)"
proof -
  obtain m0 m1 m2 where m: "bytes (months ! (M - 1)) = [m0, m1, m2]"
    "\<And>v p. rd v p = Some m0 \<Longrightarrow> rd v (p + 1) = Some m1 \<Longrightarrow> rd v (p + 2) = Some m2 \<Longrightarrow> pt_month v p = Some (Some (int M - 1))"
    using month_name [OF M] by metis
  let ?y = "Y mod 100"
  let ?t = "[44, 32, dec_char (d div 10), dec_char (d mod 10), 45, m0, m1, m2, 45, dec_char (?y div 10), dec_char (?y mod 10), 32,
      dec_char (h div 10), dec_char (h mod 10), 58, dec_char (mi div 10), dec_char (mi mod 10), 58,
      dec_char (s div 10), dec_char (s mod 10), 32, 71, 77, 84]"
  define v where "v = u @ ?t"
  define k where "k = length u"
  have form: "rfc850_text u Y M d h mi s = v" by (simp add: v_def text_defs m(1) del: One_nat_def)
  have v: "rd v (k + i) = rd ?t i" for i unfolding v_def k_def by (rule rd_append)
  have "d div 10 < 10" using n(1) by simp
  then have p: "pt_weekday v 0 = (k, False)" "pt_spaces (drop (k + 1) v) (k + 1) = k + 2"
    using pt_weekday_word [OF u] dec_char_range [of "d div 10"] by (simp_all add: v_def k_def)
  have day: "pt_day v (k + 2) = Some (Some (rfc850, of_nat d, k + 5))"
    using two_dec [of v "k + 2" d] n(1) by (simp add: pt_day_def pt_bind_def add.assoc v rd_Cons del: One_nat_def add_2_eq_Suc add_2_eq_Suc')
  have "pt_two v (k + 9) = Some (Some (of_nat ?y))"
    using two_dec [of v "k + 9" ?y] by (simp add: add.assoc v rd_Cons del: One_nat_def add_2_eq_Suc add_2_eq_Suc')
  moreover have "(of_nat ?y :: u64) + (if (of_nat ?y :: u64) < 70 then 2000 else 1900) = of_nat Y" by (rule century [OF n(2,3)])
  ultimately have "pt_year v rfc850 (k + 8) = Some (Some (of_nat Y, k + 11))"
    by (simp add: pt_year_def pt_bind_def pt_expect_def add.assoc v rd_Cons del: One_nat_def add_2_eq_Suc add_2_eq_Suc')
  moreover have "pt_clock v (k + 11) = Some (Some (of_nat h, of_nat mi, of_nat s))"
    using two_dec [of v "k + 12" h] two_dec [of v "k + 15" mi] two_dec [of v "k + 18" s] n(4-6)
    by (simp add: pt_clock_def pt_bind_def pt_expect_def add.assoc v rd_Cons del: One_nat_def add_2_eq_Suc add_2_eq_Suc')
  moreover have "pt_month v (k + 5) = Some (Some (int M - 1))" by (rule m(2)) (simp_all add: add.assoc v rd_Cons del: One_nat_def add_2_eq_Suc add_2_eq_Suc')
  ultimately have "pt_fields v (k + 5) rfc850 (of_nat d) = Some r"
    by (simp add: pt_fields_def pt_bind_def date add.assoc)
  then have f: "pt_bind (pt_day v (k + 2)) (\<lambda>(fmt, day, p). pt_fields v p fmt day) = Some r" unfolding day by (simp add: pt_bind_def)
  have "length v = k + 24" by (simp add: v_def k_def)
  then show ?thesis
    unfolding form ngx_parse_http_time_def p(1) using p(2) f by (simp add: Let_def)
qed

lemma parse_asctime:
  assumes w: "w < 7" and M: "1 \<le> M" "M \<le> 12" and n: "d < 100" "Y < 10000" "h < 100" "mi < 100" "s < 100"
    and date: "pt_date (of_nat d) (int M - 1) (of_nat Y) (of_nat h, of_nat mi, of_nat s) = Some r"
  shows "ngx_parse_http_time (asctime_text w Y M d h mi s) = Some (case_option (- 1) id r)"
proof -
  obtain w0 w1 w2 where w: "bytes (week ! w) = [w0, w1, w2]" "{w0, w1, w2} \<inter> {0, 32, 44} = {}" using week_name [OF w] by auto
  obtain m0 m1 m2 where m: "bytes (months ! (M - 1)) = [m0, m1, m2]" "{m0, m1, m2} \<inter> {0, 32} = {}"
    "\<And>v p. rd v p = Some m0 \<Longrightarrow> rd v (p + 1) = Some m1 \<Longrightarrow> rd v (p + 2) = Some m2 \<Longrightarrow> pt_month v p = Some (Some (int M - 1))"
    using month_name [OF M] by metis
  have form: "asctime_text w Y M d h mi s = [w0, w1, w2, 32, m0, m1, m2, 32, if d < 10 then 32 else dec_char (d div 10), dec_char (d mod 10), 32,
      dec_char (h div 10), dec_char (h mod 10), 58, dec_char (mi div 10), dec_char (mi mod 10), 58,
      dec_char (s div 10), dec_char (s mod 10), 32,
      dec_char (Y div 1000), dec_char (Y div 100 mod 10), dec_char (Y div 10 mod 10), dec_char (Y mod 10)]" (is "_ = ?v")
    by (simp add: text_defs w(1) m(1) del: One_nat_def)
  have p: "pt_weekday ?v 0 = (3, True)" "pt_spaces (drop 4 ?v) 4 = 4" using w m(2) by simp_all
  have dd: "d div 10 < 10" "(of_nat (d div 10) * 10 + of_nat (d mod 10) :: u64) = of_nat d"
    using n(1) by (simp, metis div_mult_mod_eq of_nat_add of_nat_mult of_nat_numeral)
  have "pt_isoc_day ?v 8 = Some (Some (of_nat d, 10))"
  proof (cases "d < 10")
    case True
    then show ?thesis using digit_dec [of ?v 9 d] by (simp add: pt_isoc_day_def pt_bind_def rd_def)
  next
    case False
    then show ?thesis using dec_char_range [OF dd(1)] dec_char_range [of "d mod 10"] digit_dec [of ?v 8 "d div 10"] digit_dec [of ?v 9 "d mod 10"] dd
      by (simp add: pt_isoc_day_def pt_bind_def rd_def)
  qed
  moreover have "pt_clock ?v 10 = Some (Some (of_nat h, of_nat mi, of_nat s))"
    using two_dec [of ?v 11 h] two_dec [of ?v 14 mi] two_dec [of ?v 17 s] n(3-5)
    by (simp add: pt_clock_def pt_bind_def pt_expect_def rd_def)
  moreover have "pt_four ?v 20 = Some (Some (of_nat Y))"
    using four_dec [of ?v 20 Y] n(2) by (simp add: rd_def)
  moreover have "pt_month ?v 4 = Some (Some (int M - 1))" by (rule m(3)) (simp_all add: rd_def)
  ultimately have "pt_fields ?v 4 isoc 0 = Some r"
    by (simp add: pt_fields_def pt_year_def pt_expect_def rd_def pt_bind_def date)
  then show ?thesis
    unfolding form ngx_parse_http_time_def p(1) using p(2) by (simp add: Let_def)
qed

lemma cookie_format:
  assumes cap: "100 \<le> cap" and w: "w0 \<noteq> 0" "w1 \<noteq> 0" "w2 \<noteq> 0" and m: "m0 \<noteq> 0" "m1 \<noteq> 0" "m2 \<noteq> 0"
    and n: "d < 100" "y < 100" "h < 100" "mi < 100" "s < 100"
  shows "ngx_vslprintf cap (bytes ''%s, %02d-%s-%02d %02d:%02d:%02d GMT'')
      [VA_ptr [w0, w1, w2], VA_int (int d), VA_ptr [m0, m1, m2], VA_int (int y), VA_int (int h), VA_int (int mi), VA_int (int s)] =
    Some ([w0, w1, w2, 44, 32, dec_char (d div 10), dec_char (d mod 10), 45, m0, m1, m2, 45,
      dec_char (y div 10), dec_char (y mod 10), 32,
      dec_char (h div 10), dec_char (h mod 10), 58, dec_char (mi div 10), dec_char (mi mod 10), 58,
      dec_char (s div 10), dec_char (s mod 10), 32, 71, 77, 84])"
  using assms
  by (simp add: ngx_vslprintf_def vs_loop.simps vs_percent_def fmt_width.simps fmt_flags.simps vs_directive_def
        vs_string_def vs_either_def vs_number_def two_text byte_at_def)

text \<open>From the year 2038 on \<^verbatim>\<open>ngx_http_cookie_time\<close> prints four digits of the year, between dashes.\<close>

lemma plain_four_text:
  assumes "1000 \<le> n" "n < 10000" and "length out + 20 \<le> cap"
  shows "ngx_sprintf_num out cap (of_nat n) 32 0 0 =
    out @ [dec_char (n div 1000), dec_char (n div 100 mod 10), dec_char (n div 10 mod 10), dec_char (n mod 10)]"
proof -
  have u: "unat (of_nat n :: u64) = n" using assms(2) by (intro wnat) simp
  have "\<not> n < 10" "\<not> n div 10 < 10" "\<not> n div 100 < 10" "n div 1000 < 10"
    using assms(1,2) div_le_mono [OF assms(1), of 10] div_le_mono [OF assms(1), of 100] div_le_mono [of n 9999 1000] by simp_all
  then have "digits 10 n = [n div 1000, n div 100 mod 10, n div 10 mod 10, n mod 10]"
    by (simp add: digits.simps [of 10 n] digits.simps [of 10 "n div 10"] digits.simps [of 10 "n div 100"]
       digits.simps [of 10 "n div 1000"] div_mult2_eq [symmetric])
  then show ?thesis using sprintf_num_room [of out 0 cap] assms(3) by (simp add: num_text_dec u)
qed

lemma cookie_long_format:
  assumes cap: "100 \<le> cap" and w: "w0 \<noteq> 0" "w1 \<noteq> 0" "w2 \<noteq> 0" and m: "m0 \<noteq> 0" "m1 \<noteq> 0" "m2 \<noteq> 0"
    and n: "d < 100" "1000 \<le> y" "y < 10000" "h < 100" "mi < 100" "s < 100"
  shows "ngx_vslprintf cap (bytes ''%s, %02d-%s-%d %02d:%02d:%02d GMT'')
      [VA_ptr [w0, w1, w2], VA_int (int d), VA_ptr [m0, m1, m2], VA_int (int y), VA_int (int h), VA_int (int mi), VA_int (int s)] =
    Some ([w0, w1, w2, 44, 32, dec_char (d div 10), dec_char (d mod 10), 45, m0, m1, m2, 45,
      dec_char (y div 1000), dec_char (y div 100 mod 10), dec_char (y div 10 mod 10), dec_char (y mod 10), 32,
      dec_char (h div 10), dec_char (h mod 10), 58, dec_char (mi div 10), dec_char (mi mod 10), 58,
      dec_char (s div 10), dec_char (s mod 10), 32, 71, 77, 84])"
  using assms
  by (simp add: ngx_vslprintf_def vs_loop.simps vs_percent_def fmt_width.simps fmt_flags.simps vs_directive_def
        vs_string_def vs_either_def vs_number_def two_text plain_four_text byte_at_def)

lemma cookie_long:
  assumes buf: "buf + 100 < 2 ^ 64" and "w < 7" and M: "1 \<le> M" "M \<le> 12" and n: "d < 100" "1000 \<le> Y" "Y < 10000" "h < 100" "mi < 100" "s < 100"
  shows "ngx_sprintf buf (bytes ''%s, %02d-%s-%d %02d:%02d:%02d GMT'')
      [VA_ptr (bytes (week ! w)), VA_int (int d), VA_ptr (bytes (months ! (M - 1))), VA_int (int Y), VA_int (int h), VA_int (int mi), VA_int (int s)] =
    Some (cookie_long_text w Y M d h mi s)"
proof -
  obtain w0 w1 w2 where w: "bytes (week ! w) = [w0, w1, w2]" "{w0, w1, w2} \<inter> {0, 32, 44} = {}" using week_name [OF assms(2)] by auto
  obtain m0 m1 m2 where m: "bytes (months ! (M - 1)) = [m0, m1, m2]" "{m0, m1, m2} \<inter> {0, 32} = {}" using month_name [OF M] by metis
  show ?thesis unfolding ngx_sprintf_def w(1) m(1)
    using cookie_long_format [of "2 ^ 64 - 1 - buf" w0 w1 w2 m0 m1 m2 d Y h mi s] w m n buf by (simp add: text_defs del: One_nat_def)
qed

text \<open>The parser takes the first two digits for the year and expects a space behind them.\<close>

lemma parse_by_day:
  assumes "pt_weekday v 0 = (3, False)" "pt_spaces (drop 4 v) 4 = 5" "length v = 29"
    and "pt_bind (pt_day v 5) (\<lambda>(fmt, day, p). pt_fields v p fmt day) = Some r"
  shows "ngx_parse_http_time v = Some (case_option (- 1) id r)"
  using assms by (simp add: ngx_parse_http_time_def Let_def)

lemma parse_cookie_long:
  assumes w: "w < 7" and M: "1 \<le> M" "M \<le> 12" and n: "d < 100" "Y < 10000"
  shows "ngx_parse_http_time (cookie_long_text w Y M d h mi s) = Some (- 1)"
proof -
  obtain w0 w1 w2 where w: "bytes (week ! w) = [w0, w1, w2]" "{w0, w1, w2} \<inter> {0, 32, 44} = {}" using week_name [OF w] by auto
  obtain m0 m1 m2 where m: "bytes (months ! (M - 1)) = [m0, m1, m2]"
    "\<And>v p. rd v p = Some m0 \<Longrightarrow> rd v (p + 1) = Some m1 \<Longrightarrow> rd v (p + 2) = Some m2 \<Longrightarrow> pt_month v p = Some (Some (int M - 1))"
    using month_name [OF M] by metis
  have form: "cookie_long_text w Y M d h mi s = [w0, w1, w2, 44, 32, dec_char (d div 10), dec_char (d mod 10), 45, m0, m1, m2, 45,
      dec_char (Y div 1000), dec_char (Y div 100 mod 10), dec_char (Y div 10 mod 10), dec_char (Y mod 10), 32,
      dec_char (h div 10), dec_char (h mod 10), 58, dec_char (mi div 10), dec_char (mi mod 10), 58,
      dec_char (s div 10), dec_char (s mod 10), 32, 71, 77, 84]" (is "_ = ?v")
    by (simp add: text_defs w(1) m(1) del: One_nat_def)
  have c: "d div 10 < 10" "Y div 1000 < 10" "Y div 10 mod 10 < 10" using n by simp_all
  have p: "pt_weekday ?v 0 = (3, False)" "pt_spaces (drop 4 ?v) 4 = 5"
    using w dec_char_range [OF c(1)] by simp_all
  have day: "pt_day ?v 5 = Some (Some (rfc850, of_nat d, 8))"
    using two_dec [of ?v 5 d] n(1) by (simp add: pt_day_def pt_bind_def rd_def)
  have y: "Y div 100 < 100" "Y div 100 div 10 = Y div 1000" using n(2) by (simp_all add: less_mult_imp_div_less div_mult2_eq [symmetric])
  have "pt_two ?v 12 = Some (Some (of_nat (Y div 100)))"
    using two_dec [of ?v 12 "Y div 100"] y by (simp add: rd_def)
  then have year: "\<exists>z. pt_year ?v rfc850 11 = Some (Some (z, 14))"
    by (simp add: pt_year_def pt_bind_def pt_expect_def rd_def)
  have "pt_clock ?v 14 = Some None"
    using dec_char_range [OF c(3)] by (auto simp: pt_clock_def pt_bind_def pt_expect_def rd_def)
  moreover have "pt_month ?v 8 = Some (Some (int M - 1))" by (rule m(2)) (simp_all add: rd_def)
  ultimately have "pt_fields ?v 8 rfc850 (of_nat d) = Some None"
    using year by (auto simp: pt_fields_def pt_bind_def)
  then have f: "pt_bind (pt_day ?v 5) (\<lambda>(fmt, day, p). pt_fields ?v p fmt day) = Some None" unfolding day by (simp add: pt_bind_def)
  have "length ?v = 29" by simp
  from parse_by_day [OF p this f] show ?thesis unfolding form by (simp only: option.case)
qed

lemma months_of_year: "sum_list (map (month_days Y) [1..<13]) = year_days Y"
proof -
  have "[1..<13] = [1, 2, 3, 4, 5, 6, 7, 8, 9, 10, 11, 12 :: nat]" by (simp add: upt_rec)
  then show ?thesis by (simp add: month_days_def year_days_def)
qed

lemma year_fill: "valid_date Y M d \<Longrightarrow> sum_list (map (month_days Y) [1..<M]) + (d - 1) < year_days Y"
proof -
  assume v: "valid_date Y M d"
  then have "[1..<13] = [1..<M] @ [M] @ [Suc M..<13]"
    using upt_add_eq_append [of 1 M "13 - M"] by (simp add: valid_date_def upt_conv_Cons)
  then have "sum_list (map (month_days Y) [1..<M]) + month_days Y M \<le> year_days Y"
    unfolding months_of_year [symmetric] by simp
  then show ?thesis using v unfolding valid_date_def by linarith
qed

lemma civil_days_before:
  assumes "valid_date Y M d" and "Y < y"
  shows "civil_days Y M d < sum_list (map year_days [1970..<y])"
proof -
  have Y: "1970 \<le> Y" using assms(1) by (simp add: valid_date_def)
  have "[1970..<y] = [1970..<Y] @ [Y] @ [Suc Y..<y]"
    using Y assms(2) upt_add_eq_append [of 1970 Y "y - Y"] by (simp add: upt_conv_Cons)
  then show ?thesis using year_fill [OF assms(1)] by (simp add: civil_days_def)
qed

lemma cookie_text:
  assumes buf: "buf + 100 < 2 ^ 64" and "w < 7" and M: "1 \<le> M" "M \<le> 12" and n: "d < 100" "h < 100" "mi < 100" "s < 100"
  shows "ngx_sprintf buf (bytes ''%s, %02d-%s-%02d %02d:%02d:%02d GMT'')
      [VA_ptr (bytes (week ! w)), VA_int (int d), VA_ptr (bytes (months ! (M - 1))), VA_int (int (Y mod 100)), VA_int (int h), VA_int (int mi), VA_int (int s)] =
    Some (rfc850_text (bytes (week ! w)) Y M d h mi s)"
proof -
  obtain w0 w1 w2 where w: "bytes (week ! w) = [w0, w1, w2]" "{w0, w1, w2} \<inter> {0, 32, 44} = {}" using week_name [OF assms(2)] by auto
  obtain m0 m1 m2 where m: "bytes (months ! (M - 1)) = [m0, m1, m2]" "{m0, m1, m2} \<inter> {0, 32} = {}" using month_name [OF M] by metis
  show ?thesis unfolding ngx_sprintf_def w(1) m(1)
    using cookie_format [of "2 ^ 64 - 1 - buf" w0 w1 w2 m0 m1 m2 d "Y mod 100" h mi s] w m n buf by (simp add: text_defs del: One_nat_def)
qed

lemma years_to_2038: "sum_list (map year_days [1970..<2038]) = 24837"
  by (simp add: year_days_def leap_year_def)

text \<open>The fields of a time, in the form the functions above take them.\<close>

lemma time_fields:
  assumes t: "n < 253402300800"
  obtains Y M d where "ngx_gmtime (of_nat n) = \<lparr>tm_sec = int (n mod 60), tm_min = int (n mod 3600 div 60),
      tm_hour = int (n mod 86400 div 3600), tm_mday = int d, tm_mon = int M, tm_year = int Y,
      tm_wday = int ((4 + n div 86400) mod 7)\<rparr>"
    "1970 \<le> Y" "Y < 10000" "n < 2145916800 \<longleftrightarrow> Y < 2038" "1 \<le> M" "M \<le> 12" "1 \<le> d" "d < 100"
    "date_value Y M d (n mod 86400 div 3600) (n mod 3600 div 60) (n mod 60) = Some (int n)"
proof -
  obtain Y M d where g: "ngx_gmtime (of_nat n) = \<lparr>tm_sec = int (n mod 60), tm_min = int (n mod 3600 div 60),
      tm_hour = int (n mod 86400 div 3600), tm_mday = int d, tm_mon = int M, tm_year = int Y,
      tm_wday = int ((4 + n div 86400) mod 7)\<rparr>" "valid_date Y M d" "civil_days Y M d = n div 86400"
    using gmtime_nat [of n] t by auto
  have Y: "Y < 10000" using year_bound [OF g(2), of 10000] g(3) div_le_mono [of n 253402300799 86400] t by (simp add: march_def)
  have "n < 2145916800 \<longrightarrow> Y < 2038"
    using year_bound [OF g(2), of 2038] g(3) div_le_mono [of n 2145916799 86400] by (simp add: march_def)
  moreover have "n div 86400 < 24837" if "Y < 2038"
    using civil_days_before [OF g(2) that] g(3) by (simp only: years_to_2038)
  ultimately have Y1: "n < 2145916800 \<longleftrightarrow> Y < 2038" by (simp add: div_less_iff_less_mult) blast
  have M: "1970 \<le> Y" "1 \<le> M" "M \<le> 12" "1 \<le> d" "d \<le> month_days Y M" "d < 100"
    using g(2) month_days_le [of M Y] by (auto simp: valid_date_def)
  have "n mod 86400 div 3600 < 24" "n mod 3600 div 60 < 60" "n mod 60 < 60" by (simp_all add: less_mult_imp_div_less)
  then have "date_value Y M d (n mod 86400 div 3600) (n mod 3600 div 60) (n mod 60) = Some (int n)"
    unfolding date_value_def using M(5) arg_cong [OF day_seconds [of n], of int] g(3) by simp
  then show ?thesis using that [OF g(1)] Y Y1 M by blast
qed

section \<open>Properties\<close>

text \<open>
  (C39) The three formats of a date have the same value: for every year from 1970 to 9999 (to 2069 for the two-digit years of the
  obsolete format), every month and every two-digit day from 1 to 99, hour, minute and second, \<^verbatim>\<open>ngx_parse_http_time\<close> returns
  the number of seconds that the calendar gives the date, and among these dates \<^verbatim>\<open>NGX_ERROR\<close> exactly when the month does
  not have that day or the time of day does not exist. Outside this range it is not so: day zero is accepted, and the last
  second of 1969 has the value of \<^verbatim>\<open>NGX_ERROR\<close> (below).
\<close>

theorem http_date_value:
  assumes "1970 \<le> Y" "Y < 10000" "1 \<le> M" "M \<le> 12" "1 \<le> d" "d < 100" "h < 100" "mi < 100" "s < 100"
    and "w < 7" "44 \<notin> set u" "32 \<notin> set u"
  shows "ngx_parse_http_time (rfc822_text w Y M d h mi s) = Some (case_option (- 1) id (date_value Y M d h mi s)) \<and>
    ngx_parse_http_time (asctime_text w Y M d h mi s) = Some (case_option (- 1) id (date_value Y M d h mi s)) \<and>
    (Y < 2070 \<longrightarrow> ngx_parse_http_time (rfc850_text u Y M d h mi s) = Some (case_option (- 1) id (date_value Y M d h mi s)))"
  using pt_date_exact [of Y M d h mi s] assms
  by (simp add: parse_rfc822 parse_asctime parse_rfc850 del: One_nat_def)

theorem http_date_value_witness:
  "ngx_parse_http_time (rfc850_text (bytes ''Sunday'') 1994 11 6 8 49 37) = Some (case_option (- 1) id (date_value 1994 11 6 8 49 37)) \<and>
   ngx_parse_http_time (asctime_text 0 1994 11 31 8 49 37) = Some (- 1)"
  using http_date_value [of 1994 11 6 8 49 37 0 "bytes ''Sunday''"] http_date_value [of 1994 11 31 8 49 37 0 "[]"]
  by (simp add: date_value_def month_days_def)

text \<open>
  (C40) A date that nginx prints is read back: for every time before the year 10000, \<^verbatim>\<open>ngx_http_time\<close> writes a text of 29 bytes from
  which \<^verbatim>\<open>ngx_parse_http_time\<close> returns the same time. \<^verbatim>\<open>ngx_http_cookie_time\<close> writes a date too, which is read back as the same
  time when it is before the year 2038; from 2038 on its four-digit year between dashes is a form that
  \<^verbatim>\<open>ngx_parse_http_time\<close> refuses with \<^verbatim>\<open>NGX_ERROR\<close>.
\<close>

theorem http_time_roundtrip:
  assumes "unat t < 253402300800" and "buf + 100 < 2 ^ 64"
  shows "\<exists>s s'. ngx_http_time buf t = Some s \<and> length s = 29 \<and> ngx_parse_http_time s = Some (int (unat t)) \<and>
    ngx_http_cookie_time buf t = Some s' \<and>
    ngx_parse_http_time s' = Some (if unat t < 2145916800 then int (unat t) else - 1)"
proof -
  define n where "n = unat t"
  let ?h = "n mod 86400 div 3600" and ?mi = "n mod 3600 div 60" and ?s = "n mod 60" and ?w = "(4 + n div 86400) mod 7"
  obtain Y M d where g: "ngx_gmtime (of_nat n) = \<lparr>tm_sec = int ?s, tm_min = int ?mi, tm_hour = int ?h, tm_mday = int d, tm_mon = int M,
      tm_year = int Y, tm_wday = int ?w\<rparr>" "1970 \<le> Y" "Y < 10000" "n < 2145916800 \<longleftrightarrow> Y < 2038"
      "1 \<le> M" "M \<le> 12" "1 \<le> d" "d < 100" "date_value Y M d ?h ?mi ?s = Some (int n)"
    using time_fields [of n] assms(1) unfolding n_def by metis
  let ?r = "rfc822_text ?w Y M d ?h ?mi ?s" and ?c = "rfc850_text (bytes (week ! ?w)) Y M d ?h ?mi ?s"
  have b: "?h < 100" "?mi < 100" "?s < 100" by (simp_all add: less_mult_imp_div_less)
  have y: "int Y mod 100 = int (Y mod 100)" by (simp add: zmod_int)
  note date = pt_date_exact [OF g(2,3,5-8) b, unfolded g(9)]
  have "ngx_http_time buf (of_nat n) = Some ?r"
    unfolding ngx_http_time_def Let_def g(1) using http_text [of buf ?w M d Y ?h ?mi ?s] g b assms(2) by (simp add: nat_diff_distrib)
  moreover have "ngx_parse_http_time ?r = Some (int n)" using parse_rfc822 [OF _ g(5,6,8,3) b date, of ?w] by simp
  moreover have "length ?r = 29" by (rule rfc822_length) (use g in simp_all)
  moreover have "ngx_http_cookie_time buf (of_nat n) = Some ?c" if "n < 2145916800"
    unfolding ngx_http_cookie_time_def Let_def g(1)
    using cookie_text [of buf ?w M d ?h ?mi ?s Y] g that b assms(2) by (simp add: nat_diff_distrib y)
  moreover have "ngx_parse_http_time ?c = Some (int n)" if "n < 2145916800"
    using parse_rfc850 [OF _ _ g(5,6,8,2) _ b date, of "bytes (week ! ?w)"] week_name [of ?w] g(4) that by auto
  moreover have "ngx_http_cookie_time buf (of_nat n) = Some (cookie_long_text ?w Y M d ?h ?mi ?s)" if "\<not> n < 2145916800"
    unfolding ngx_http_cookie_time_def Let_def g(1)
    using cookie_long [of buf ?w M d Y ?h ?mi ?s] g that b assms(2) by (simp add: nat_diff_distrib)
  moreover have "ngx_parse_http_time (cookie_long_text ?w Y M d ?h ?mi ?s) = Some (- 1)"
    by (rule parse_cookie_long) (use g in simp_all)
  ultimately have "\<exists>s s'. ngx_http_time buf (of_nat n) = Some s \<and> length s = 29 \<and> ngx_parse_http_time s = Some (int n) \<and>
    ngx_http_cookie_time buf (of_nat n) = Some s' \<and> ngx_parse_http_time s' = Some (if n < 2145916800 then int n else - 1)"
    by (cases "n < 2145916800") (simp_all only: if_True if_False simp_thms, blast+)
  then show ?thesis by (simp add: n_def cong: if_cong)
qed

theorem http_time_roundtrip_witness:
  "\<exists>s s'. ngx_http_time 4096 784111777 = Some s \<and> length s = 29 \<and> ngx_parse_http_time s = Some 784111777 \<and>
    ngx_http_cookie_time 4096 784111777 = Some s' \<and> ngx_parse_http_time s' = Some 784111777"
  using http_time_roundtrip [of 784111777 4096] by simp

text \<open>
  The test \<^verbatim>\<open>day > mday[month]\<close> has no lower bound: a day zero is accepted and stands for the last day of the month before.
\<close>

lemma last_second_of_1969: "ngx_parse_http_time (bytes ''Wed, 31 Dec 1969 23:59:59 GMT'') = Some (- 1)"
  by code_simp

lemma day_zero_accepted: "ngx_parse_http_time (bytes ''Sun, 00 Nov 1994 08:49:37 GMT'') = Some 783593377"
  by code_simp

end
