(* ===== verification/Ngx_Radix_Tree.thy ===== *)
theory Ngx_Radix_Tree
  imports Ngx_Palloc
begin

text \<open>
  The radix tree of \<^verbatim>\<open>core/ngx_radix_tree.c\<close>, which holds the address ranges of the \<^verbatim>\<open>geo\<close> module: nodes in a store
  indexed by address, carved from pages that the memory pool provides. A load or a store through \<^verbatim>\<open>NULL\<close> or through an
  address without a node is the fault \<open>None\<close>, as is a byte of a key or a mask outside its array; so is a loop that does not end.
\<close>

section \<open>Nodes\<close>

definition NGX_RADIX_NO_VALUE :: u64 where
  "NGX_RADIX_NO_VALUE = - 1"

record ngx_radix_node =
  rx_right :: ptr
  rx_left :: ptr
  rx_parent :: ptr
  rx_value :: u64

definition sizeof_radix_node :: nat where [simp]:
  "sizeof_radix_node = 32"

record ngx_radix_tree =
  rt_root :: ptr
  rt_pool :: ptr
  rt_free :: ptr
  rt_start :: ptr
  rt_size :: nat

text \<open>The memory the functions work on: that of the pool, the nodes, and the tree structure.\<close>

record radix =
  rx_mem :: mem
  rx_nodes :: "ptr \<Rightarrow> ngx_radix_node option"
  rx_tree :: ngx_radix_tree

abbreviation put_node :: "ptr \<Rightarrow> ngx_radix_node \<Rightarrow> radix \<Rightarrow> radix" where
  "put_node p n r \<equiv> r\<lparr>rx_nodes := (rx_nodes r)(p \<mapsto> n)\<rparr>"

datatype radix_rc = Rx_OK | Rx_ERROR | Rx_BUSY

definition child :: "bool \<Rightarrow> ngx_radix_node \<Rightarrow> ptr" where
  "child b n = (if b then rx_right n else rx_left n)"

definition ngx_radix_alloc :: "allocator \<Rightarrow> radix \<Rightarrow> (ptr \<times> radix) option" where
  "ngx_radix_alloc A r = (
     let t = rx_tree r;
         carve = (\<lambda>r. let t = rx_tree r in
           Some (rt_start t, r\<lparr>rx_tree := t\<lparr>rt_start := rt_start t + sizeof_radix_node,
             rt_size := size_t_of (int (rt_size t) - int sizeof_radix_node)\<rparr>\<rparr>))
     in if rt_free t \<noteq> 0 then do {
          n \<leftarrow> rx_nodes r (rt_free t);
          Some (rt_free t, r\<lparr>rx_tree := t\<lparr>rt_free := rx_right n\<rparr>\<rparr>)
        }
        else if rt_size t < sizeof_radix_node then do {
          (p, m) \<leftarrow> ngx_pmemalign A (rx_mem r) (rt_pool t) (ngx_pagesize (rx_mem r)) (ngx_pagesize (rx_mem r));
          if p = 0 then Some (0, r\<lparr>rx_mem := m, rx_tree := t\<lparr>rt_start := 0\<rparr>\<rparr>)
          else carve (r\<lparr>rx_mem := m, rx_tree := t\<lparr>rt_start := p, rt_size := ngx_pagesize m\<rparr>\<rparr>)
        }
        else carve r)"

text \<open>The four assignments to a new node.\<close>

definition radix_node_new :: "ptr \<Rightarrow> ngx_radix_node" where
  "radix_node_new parent = \<lparr>rx_right = 0, rx_left = 0, rx_parent = parent, rx_value = NGX_RADIX_NO_VALUE\<rparr>"

text \<open>\<^verbatim>\<open>if (key & bit) { node->right = next; } else { node->left = next; }\<close>\<close>

definition radix_link :: "ptr \<Rightarrow> bool \<Rightarrow> ptr \<Rightarrow> radix \<Rightarrow> radix option" where
  "radix_link node b p r = do {
     n \<leftarrow> rx_nodes r node;
     Some (put_node node (if b then n\<lparr>rx_right := p\<rparr> else n\<lparr>rx_left := p\<rparr>) r)
   }"

definition radix_set_value :: "ptr \<Rightarrow> u64 \<Rightarrow> radix \<Rightarrow> radix option" where
  "radix_set_value node v r = do {
     n \<leftarrow> rx_nodes r node;
     Some (put_node node (n\<lparr>rx_value := v\<rparr>) r)
   }"

text \<open>The branch of an insertion that found its node.\<close>

definition radix_occupy :: "ptr \<Rightarrow> u64 \<Rightarrow> radix \<Rightarrow> (radix_rc \<times> radix) option" where
  "radix_occupy node v r = do {
     n \<leftarrow> rx_nodes r node;
     if rx_value n \<noteq> NGX_RADIX_NO_VALUE then Some (Rx_BUSY, r)
     else do {
       r \<leftarrow> radix_set_value node v r;
       Some (Rx_OK, r)
     }
   }"

text \<open>The loop of a deletion, which takes out a leaf and then each node above it that has become useless.\<close>

partial_function (option) radix_prune :: "ptr \<Rightarrow> radix \<Rightarrow> radix option" where
  "radix_prune node r = do {
     n \<leftarrow> rx_nodes r node;
     m \<leftarrow> rx_nodes r (rx_parent n);
     let r = put_node (rx_parent n) (if rx_right m = node then m\<lparr>rx_right := 0\<rparr> else m\<lparr>rx_left := 0\<rparr>) r;
     n \<leftarrow> rx_nodes r node;
     let r = put_node node (n\<lparr>rx_right := rt_free (rx_tree r)\<rparr>) r;
     let r = r\<lparr>rx_tree := (rx_tree r)\<lparr>rt_free := node\<rparr>\<rparr>;
     m \<leftarrow> rx_nodes r (rx_parent n);
     if rx_right m \<noteq> 0 \<or> rx_left m \<noteq> 0 then Some r
     else if rx_value m \<noteq> NGX_RADIX_NO_VALUE then Some r
     else if rx_parent m = 0 then Some r
     else radix_prune (rx_parent n) r
   }"

text \<open>What both deletions do once they have followed the key to \<open>node\<close>.\<close>

definition radix_delete_node :: "ptr \<Rightarrow> radix \<Rightarrow> (radix_rc \<times> radix) option" where
  "radix_delete_node node r =
     (if node = 0 then Some (Rx_ERROR, r)
      else do {
        n \<leftarrow> rx_nodes r node;
        if rx_right n \<noteq> 0 \<or> rx_left n \<noteq> 0 then
          (if rx_value n \<noteq> NGX_RADIX_NO_VALUE then do {
             r \<leftarrow> radix_set_value node NGX_RADIX_NO_VALUE r;
             Some (Rx_OK, r)
           }
           else Some (Rx_ERROR, r))
        else do {
          r \<leftarrow> radix_prune node r;
          Some (Rx_OK, r)
        }
      })"

section \<open>Keys of 32 bits\<close>

text \<open>The first loop of the insertion; the result is \<^verbatim>\<open>bit\<close>, \<^verbatim>\<open>node\<close> and \<^verbatim>\<open>next\<close> behind it.\<close>

partial_function (option) radix32_walk ::
    "(ptr \<Rightarrow> ngx_radix_node option) \<Rightarrow> u32 \<Rightarrow> u32 \<Rightarrow> u32 \<Rightarrow> ptr \<Rightarrow> ptr \<Rightarrow> (u32 \<times> ptr \<times> ptr) option" where
  "radix32_walk h key mk bt node nxt =
     (if bt AND mk \<noteq> 0 then do {
        n \<leftarrow> h node;
        let nxt = child (key AND bt \<noteq> 0) n;
        if nxt = 0 then Some (bt, node, nxt)
        else radix32_walk h key mk (drop_bit 1 bt) nxt nxt
      }
      else Some (bt, node, nxt))"

text \<open>The second loop, which adds the nodes that are missing; \<open>None\<close> instead of a node is the return of \<^verbatim>\<open>NGX_ERROR\<close>.\<close>

partial_function (option) radix32_grow ::
    "allocator \<Rightarrow> u32 \<Rightarrow> u32 \<Rightarrow> u32 \<Rightarrow> ptr \<Rightarrow> radix \<Rightarrow> (ptr option \<times> radix) option" where
  "radix32_grow A key mk bt node r =
     (if bt AND mk \<noteq> 0 then do {
        (nxt, r) \<leftarrow> ngx_radix_alloc A r;
        if nxt = 0 then Some (None, r)
        else do {
          r \<leftarrow> radix_link node (key AND bt \<noteq> 0) nxt (put_node nxt (radix_node_new node) r);
          radix32_grow A key mk (drop_bit 1 bt) nxt r
        }
      }
      else Some (Some node, r))"

definition ngx_radix32tree_insert :: "allocator \<Rightarrow> u32 \<Rightarrow> u32 \<Rightarrow> u64 \<Rightarrow> radix \<Rightarrow> (radix_rc \<times> radix) option" where
  "ngx_radix32tree_insert A key mk v r = do {
     (bt, node, nxt) \<leftarrow> radix32_walk (rx_nodes r) key mk 0x80000000 (rt_root (rx_tree r)) (rt_root (rx_tree r));
     if nxt \<noteq> 0 then radix_occupy node v r
     else do {
       (res, r) \<leftarrow> radix32_grow A key mk bt node r;
       case res of
         None \<Rightarrow> Some (Rx_ERROR, r)
       | Some node \<Rightarrow> do {
           r \<leftarrow> radix_set_value node v r;
           Some (Rx_OK, r)
         }
     }
   }"

partial_function (option) radix32_descend ::
    "(ptr \<Rightarrow> ngx_radix_node option) \<Rightarrow> u32 \<Rightarrow> u32 \<Rightarrow> u32 \<Rightarrow> ptr \<Rightarrow> ptr option" where
  "radix32_descend h key mk bt node =
     (if node \<noteq> 0 \<and> bt AND mk \<noteq> 0 then do {
        n \<leftarrow> h node;
        radix32_descend h key mk (drop_bit 1 bt) (child (key AND bt \<noteq> 0) n)
      }
      else Some node)"

definition ngx_radix32tree_delete :: "u32 \<Rightarrow> u32 \<Rightarrow> radix \<Rightarrow> (radix_rc \<times> radix) option" where
  "ngx_radix32tree_delete key mk r = do {
     node \<leftarrow> radix32_descend (rx_nodes r) key mk 0x80000000 (rt_root (rx_tree r));
     radix_delete_node node r
   }"

partial_function (option) radix32_look ::
    "(ptr \<Rightarrow> ngx_radix_node option) \<Rightarrow> u32 \<Rightarrow> u32 \<Rightarrow> ptr \<Rightarrow> u64 \<Rightarrow> u64 option" where
  "radix32_look h key bt node v =
     (if node \<noteq> 0 then do {
        n \<leftarrow> h node;
        let v = (if rx_value n \<noteq> NGX_RADIX_NO_VALUE then rx_value n else v);
        radix32_look h key (drop_bit 1 bt) (child (key AND bt \<noteq> 0) n) v
      }
      else Some v)"

definition ngx_radix32tree_find :: "u32 \<Rightarrow> radix \<Rightarrow> u64 option" where
  "ngx_radix32tree_find key r =
     radix32_look (rx_nodes r) key 0x80000000 (rt_root (rx_tree r)) NGX_RADIX_NO_VALUE"

section \<open>Keys of 128 bits\<close>

definition byte :: "u8 list \<Rightarrow> nat \<Rightarrow> u8 option" where
  "byte s i = (if i < length s then Some (s ! i) else None)"

text \<open>\<^verbatim>\<open>bit >>= 1; if (bit == 0) { if (++i == 16) break; bit = 0x80; }\<close>; the index 16 stands for the \<^verbatim>\<open>break\<close>.\<close>

definition radix128_next :: "nat \<Rightarrow> u8 \<Rightarrow> nat \<times> u8" where
  "radix128_next i bt =
     (let bt = drop_bit 1 bt
      in if bt = 0 then (if i + 1 = 16 then (16, bt) else (i + 1, 0x80)) else (i, bt))"

partial_function (option) radix128_walk ::
    "(ptr \<Rightarrow> ngx_radix_node option) \<Rightarrow> u8 list \<Rightarrow> u8 list \<Rightarrow> nat \<Rightarrow> u8 \<Rightarrow> ptr \<Rightarrow> ptr \<Rightarrow> (nat \<times> u8 \<times> ptr \<times> ptr) option" where
  "radix128_walk h key mk i bt node nxt = do {
     m \<leftarrow> byte mk i;
     if bt AND m \<noteq> 0 then do {
       k \<leftarrow> byte key i;
       n \<leftarrow> h node;
       let nxt = child (k AND bt \<noteq> 0) n;
       if nxt = 0 then Some (i, bt, node, nxt)
       else do {
         let (i, bt) = radix128_next i bt;
         if i = 16 then Some (i, bt, nxt, nxt)
         else radix128_walk h key mk i bt nxt nxt
       }
     }
     else Some (i, bt, node, nxt)
   }"

partial_function (option) radix128_grow ::
    "allocator \<Rightarrow> u8 list \<Rightarrow> u8 list \<Rightarrow> nat \<Rightarrow> u8 \<Rightarrow> ptr \<Rightarrow> radix \<Rightarrow> (ptr option \<times> radix) option" where
  "radix128_grow A key mk i bt node r = do {
     m \<leftarrow> byte mk i;
     if bt AND m \<noteq> 0 then do {
       (nxt, r) \<leftarrow> ngx_radix_alloc A r;
       if nxt = 0 then Some (None, r)
       else do {
         k \<leftarrow> byte key i;
         r \<leftarrow> radix_link node (k AND bt \<noteq> 0) nxt (put_node nxt (radix_node_new node) r);
         let (i, bt) = radix128_next i bt;
         if i = 16 then Some (Some nxt, r)
         else radix128_grow A key mk i bt nxt r
       }
     }
     else Some (Some node, r)
   }"

definition ngx_radix128tree_insert :: "allocator \<Rightarrow> u8 list \<Rightarrow> u8 list \<Rightarrow> u64 \<Rightarrow> radix \<Rightarrow> (radix_rc \<times> radix) option" where
  "ngx_radix128tree_insert A key mk v r = do {
     (i, bt, node, nxt) \<leftarrow> radix128_walk (rx_nodes r) key mk 0 0x80 (rt_root (rx_tree r)) (rt_root (rx_tree r));
     if nxt \<noteq> 0 then radix_occupy node v r
     else do {
       (res, r) \<leftarrow> radix128_grow A key mk i bt node r;
       case res of
         None \<Rightarrow> Some (Rx_ERROR, r)
       | Some node \<Rightarrow> do {
           r \<leftarrow> radix_set_value node v r;
           Some (Rx_OK, r)
         }
     }
   }"

partial_function (option) radix128_descend ::
    "(ptr \<Rightarrow> ngx_radix_node option) \<Rightarrow> u8 list \<Rightarrow> u8 list \<Rightarrow> nat \<Rightarrow> u8 \<Rightarrow> ptr \<Rightarrow> ptr option" where
  "radix128_descend h key mk i bt node =
     (if node = 0 then Some node
      else do {
        m \<leftarrow> byte mk i;
        if bt AND m \<noteq> 0 then do {
          k \<leftarrow> byte key i;
          n \<leftarrow> h node;
          let node = child (k AND bt \<noteq> 0) n;
          let (i, bt) = radix128_next i bt;
          if i = 16 then Some node
          else radix128_descend h key mk i bt node
        }
        else Some node
      })"

definition ngx_radix128tree_delete :: "u8 list \<Rightarrow> u8 list \<Rightarrow> radix \<Rightarrow> (radix_rc \<times> radix) option" where
  "ngx_radix128tree_delete key mk r = do {
     node \<leftarrow> radix128_descend (rx_nodes r) key mk 0 0x80 (rt_root (rx_tree r));
     radix_delete_node node r
   }"

partial_function (option) radix128_look ::
    "(ptr \<Rightarrow> ngx_radix_node option) \<Rightarrow> u8 list \<Rightarrow> nat \<Rightarrow> u8 \<Rightarrow> ptr \<Rightarrow> u64 \<Rightarrow> u64 option" where
  "radix128_look h key i bt node v =
     (if node \<noteq> 0 then do {
        n \<leftarrow> h node;
        let v = (if rx_value n \<noteq> NGX_RADIX_NO_VALUE then rx_value n else v);
        k \<leftarrow> byte key i;
        let node = child (k AND bt \<noteq> 0) n;
        let bt = drop_bit 1 bt;
        if bt = 0 then radix128_look h key (i + 1) 0x80 node v
        else radix128_look h key i bt node v
      }
      else Some v)"

definition ngx_radix128tree_find :: "u8 list \<Rightarrow> radix \<Rightarrow> u64 option" where
  "ngx_radix128tree_find key r =
     radix128_look (rx_nodes r) key 0 0x80 (rt_root (rx_tree r)) NGX_RADIX_NO_VALUE"

section \<open>Creation\<close>

definition sizeof_radix_tree :: nat where [simp]:
  "sizeof_radix_tree = 40"

text \<open>The \<^verbatim>\<open>do\<close> loop over the keys of one length; the result is whether every insertion returned \<^verbatim>\<open>NGX_OK\<close>.\<close>

partial_function (option) radix_prealloc_keys :: "allocator \<Rightarrow> u32 \<Rightarrow> u32 \<Rightarrow> u32 \<Rightarrow> radix \<Rightarrow> (bool \<times> radix) option" where
  "radix_prealloc_keys A inc mk key r = do {
     (rc, r) \<leftarrow> ngx_radix32tree_insert A key mk NGX_RADIX_NO_VALUE r;
     if rc \<noteq> Rx_OK then Some (False, r)
     else if key + inc \<noteq> 0 then radix_prealloc_keys A inc mk (key + inc) r
     else Some (True, r)
   }"

partial_function (option) radix_prealloc :: "allocator \<Rightarrow> int \<Rightarrow> u32 \<Rightarrow> u32 \<Rightarrow> radix \<Rightarrow> (bool \<times> radix) option" where
  "radix_prealloc A preallocate mk inc r =
     (if preallocate = 0 then Some (True, r)
      else do {
        let mk = drop_bit 1 mk OR 0x80000000;
        (ok, r) \<leftarrow> radix_prealloc_keys A inc mk 0 r;
        if ok then radix_prealloc A (preallocate - 1) mk (drop_bit 1 inc) r
        else Some (False, r)
      })"

text \<open>The number of levels that \<^verbatim>\<open>preallocate == -1\<close> stands for.\<close>

definition radix_levels :: "nat \<Rightarrow> int \<Rightarrow> int" where
  "radix_levels pagesize preallocate =
     (if preallocate = - 1 then
        (if pagesize div sizeof_radix_node = 128 then 6 else if pagesize div sizeof_radix_node = 256 then 7 else 8)
      else preallocate)"

text \<open>\<open>None\<close> instead of a tree is the return of \<^verbatim>\<open>NULL\<close>; the memory of the pool is returned in both cases.\<close>

definition ngx_radix_tree_create :: "allocator \<Rightarrow> ptr \<Rightarrow> int \<Rightarrow> mem \<Rightarrow> (radix option \<times> mem) option" where
  "ngx_radix_tree_create A pool preallocate s = do {
     (p, s) \<leftarrow> ngx_palloc A s pool sizeof_radix_tree;
     if p = 0 then Some (None, s)
     else do {
       let r = \<lparr>rx_mem = s, rx_nodes = Map.empty,
         rx_tree = \<lparr>rt_root = 0, rt_pool = pool, rt_free = 0, rt_start = 0, rt_size = 0\<rparr>\<rparr>;
       (root, r) \<leftarrow> ngx_radix_alloc A r;
       if root = 0 then Some (None, rx_mem r)
       else do {
         let r = put_node root (radix_node_new 0) (r\<lparr>rx_tree := (rx_tree r)\<lparr>rt_root := root\<rparr>\<rparr>);
         (ok, r) \<leftarrow> radix_prealloc A (radix_levels (ngx_pagesize (rx_mem r)) preallocate) 0 0x80000000 r;
         Some (if ok then Some r else None, rx_mem r)
       }
     }
   }"

end
