(* ===== verification/Ngx_Radix_Arena.thy ===== *)
theory Ngx_Radix_Arena
  imports Ngx_Radix_Tree Ngx_Palloc_Ops
begin

text \<open>
  Where the nodes of a radix tree live: the cells in use, the list of freed cells and the rest of the current page do not overlap
  and lie in regions that the memory pool has handed out.
\<close>

section \<open>The page size does not change\<close>

lemma palloc_small_loop_pagesize:
  "palloc_small_loop s p sz al = Some x \<Longrightarrow> (\<forall>m t. x = Some (m, t) \<longrightarrow> ngx_pagesize t = ngx_pagesize s)"
  by (erule palloc_small_loop.raw_induct [rotated])
    (auto simp: Let_def bind_eq_Some_conv split: if_splits)

lemma palloc_block_loop_pagesize:
  "palloc_block_loop s pool p = Some x \<Longrightarrow> ngx_pagesize (snd x) = ngx_pagesize s"
proof (erule palloc_block_loop.raw_induct [rotated])
  fix f :: "mem \<Rightarrow> ptr \<Rightarrow> ptr \<Rightarrow> (ptr \<times> mem) option" and s pool p x
  assume ih: "\<And>s pool p x. f s pool p = Some x \<Longrightarrow> ngx_pagesize (snd x) = ngx_pagesize s"
  assume "(do {
     d \<leftarrow> heap_d s p;
     if d_next d = 0 then Some (p, s)
     else do {
       let s1 = s\<lparr>heap_d := (heap_d s)(p \<mapsto> d\<lparr>d_failed := (d_failed d + 1) mod 2 ^ 64\<rparr>)\<rparr>;
       if 4 < d_failed d then do {
         pl \<leftarrow> heap_p s1 pool;
         f (s1\<lparr>heap_p := (heap_p s1)(pool \<mapsto> pl\<lparr>pl_current := d_next d\<rparr>)\<rparr>) pool (d_next d)
       }
       else f s1 pool (d_next d)
     }
   }) = Some x"
  then show "ngx_pagesize (snd x) = ngx_pagesize s"
    by (auto simp: Let_def bind_eq_Some_conv split: if_splits dest!: ih)
qed

lemma palloc_small_pagesize: "ngx_palloc_small A s pool sz al = Some (p, t) \<Longrightarrow> ngx_pagesize t = ngx_pagesize s"
  by (auto simp: ngx_palloc_small_def ngx_palloc_block_def ngx_memalign_def c_memalign_def Let_def bind_eq_Some_conv
      dest!: palloc_small_loop_pagesize palloc_block_loop_pagesize split: option.splits if_splits)

lemma palloc_link_pagesize: "palloc_large_link A s pool q = Some (p, t) \<Longrightarrow> ngx_pagesize t = ngx_pagesize s"
  by (auto simp: palloc_large_link_def bind_eq_Some_conv c_free_def dest!: palloc_small_pagesize split: option.splits if_splits)

lemma pmemalign_pagesize: "ngx_pmemalign A s pool n al = Some (p, t) \<Longrightarrow> ngx_pagesize t = ngx_pagesize s"
  by (auto simp: ngx_pmemalign_def ngx_memalign_def c_memalign_def Let_def dest!: palloc_link_pagesize split: option.splits if_splits)

lemma palloc_large_pagesize: "ngx_palloc_large A s pool n = Some (p, t) \<Longrightarrow> ngx_pagesize t = ngx_pagesize s"
  by (auto simp: ngx_palloc_large_def ngx_alloc_def c_malloc_def Let_def bind_eq_Some_conv dest!: palloc_link_pagesize
      split: option.splits if_splits)

lemma palloc_pagesize: "ngx_palloc A s pool n = Some (p, t) \<Longrightarrow> ngx_pagesize t = ngx_pagesize s"
  by (auto simp: ngx_palloc_def bind_eq_Some_conv dest!: palloc_small_pagesize palloc_large_pagesize split: if_splits)

section \<open>Pages\<close>

text \<open>
  The requests for pages that a run of operations makes: \<open>pages A pool k m\<close> is the memory after \<open>k\<close> of them that succeed;
  \<open>exhausted A pool n m m'\<close> says that the first \<open>k < n\<close> of them succeed, that the next one returns \<^verbatim>\<open>NULL\<close> because the C library
  refuses it in the state reached then, and that it leaves the memory \<open>m'\<close>.
\<close>

abbreviation page_request :: "allocator \<Rightarrow> ptr \<Rightarrow> mem \<Rightarrow> (ptr \<times> mem) option" where
  "page_request A pool m \<equiv> ngx_pmemalign A m pool (ngx_pagesize m) (ngx_pagesize m)"

primrec pages :: "allocator \<Rightarrow> ptr \<Rightarrow> nat \<Rightarrow> mem \<Rightarrow> mem option" where
  "pages A pool 0 m = Some m"
| "pages A pool (Suc k) m = do {
     (p, m) \<leftarrow> page_request A pool m;
     if p = 0 then None else pages A pool k m
   }"

definition exhausted :: "allocator \<Rightarrow> ptr \<Rightarrow> nat \<Rightarrow> mem \<Rightarrow> mem \<Rightarrow> bool" where
  "exhausted A pool n m m' \<longleftrightarrow> (\<exists>k < n. \<exists>u g. pages A pool k m = Some u \<and> page_request A pool u = Some (0, m') \<and>
     pool_inv u pool g \<and> chunk_refused A (live u) (g_size g) (ngx_pagesize u) (ngx_pagesize u))"

text \<open>A step of a radix tree that takes at most \<open>n\<close> pages, or fails because there is no further page.\<close>

definition paged :: "allocator \<Rightarrow> nat \<Rightarrow> bool \<Rightarrow> radix \<Rightarrow> radix \<Rightarrow> bool" where
  "paged A n ok r r' \<longleftrightarrow> rt_pool (rx_tree r') = rt_pool (rx_tree r) \<and>
     (if ok then \<exists>k \<le> n. pages A (rt_pool (rx_tree r)) k (rx_mem r) = Some (rx_mem r')
      else exhausted A (rt_pool (rx_tree r)) n (rx_mem r) (rx_mem r'))"

lemma pages_add: "pages A pool (j + k) m = Option.bind (pages A pool j m) (pages A pool k)"
  by (induction j arbitrary: m) (auto split: bind_splits)

lemma pages_pagesize: "pages A pool k m = Some u \<Longrightarrow> ngx_pagesize u = ngx_pagesize m"
proof (induction k arbitrary: m)
  case (Suc k)
  then show ?case by (fastforce simp: bind_eq_Some_conv dest: pmemalign_pagesize split: if_splits)
qed simp

lemma paged_same: "rx_mem r' = rx_mem r \<Longrightarrow> rt_pool (rx_tree r') = rt_pool (rx_tree r) \<Longrightarrow> paged A n True r r'"
  by (auto simp: paged_def intro!: exI [of _ 0])

lemma paged_trans:
  assumes "paged A m True r r1" and "paged A n ok r1 r2"
  shows "paged A (m + n) ok r r2"
proof -
  let ?pool = "rt_pool (rx_tree r)"
  obtain j where j: "j \<le> m" "pages A ?pool j (rx_mem r) = Some (rx_mem r1)" and pool: "rt_pool (rx_tree r1) = ?pool"
    using assms(1) by (auto simp: paged_def)
  then have add: "pages A ?pool (j + k) (rx_mem r) = pages A ?pool k (rx_mem r1)" for k by (simp add: pages_add)
  show ?thesis
  proof (cases ok)
    case True
    then obtain k where "k \<le> n" "pages A ?pool k (rx_mem r1) = Some (rx_mem r2)" "rt_pool (rx_tree r2) = ?pool"
      using assms(2) pool by (auto simp: paged_def)
    then show ?thesis using True j(1) add [of k] by (auto simp: paged_def intro!: exI [of _ "j + k"])
  next
    case False
    then have ex: "exhausted A ?pool n (rx_mem r1) (rx_mem r2)" and p2: "rt_pool (rx_tree r2) = ?pool"
      using assms(2) pool by (simp_all add: paged_def)
    then obtain k u g where "k < n" "pages A ?pool k (rx_mem r1) = Some u" "page_request A ?pool u = Some (0, rx_mem r2)"
      "pool_inv u ?pool g" "chunk_refused A (live u) (g_size g) (ngx_pagesize u) (ngx_pagesize u)"
      by (auto simp: exhausted_def)
    then have "exhausted A ?pool (m + n) (rx_mem r) (rx_mem r2)" unfolding exhausted_def using j(1) add [of k]
      by (intro exI [of _ "j + k"] conjI exI [of _ u] exI [of _ g]) simp_all
    then show ?thesis using False p2 by (simp add: paged_def)
  qed
qed

lemma paged_mono: "paged A m ok r r' \<Longrightarrow> m \<le> n \<Longrightarrow> paged A n ok r r'"
  unfolding paged_def exhausted_def by (metis le_trans less_le_trans)

lemma paged_cong: "rx_mem r2 = rx_mem r1 \<Longrightarrow> rt_pool (rx_tree r2) = rt_pool (rx_tree r1) \<Longrightarrow> paged A n ok r r1 \<Longrightarrow> paged A n ok r r2"
  by (simp add: paged_def)

section \<open>Cells\<close>

abbreviation cell :: "ptr \<Rightarrow> region" where
  "cell p \<equiv> (p, sizeof_radix_node)"

definition cells_ok :: "ptr set \<Rightarrow> region set \<Rightarrow> region \<Rightarrow> bool" where
  "cells_ok U R rest \<longleftrightarrow> 0 \<notin> U \<and> (\<forall>p\<in>U. \<exists>q\<in>R. inside (cell p) q) \<and> (\<forall>p\<in>U. \<forall>q\<in>U. p \<noteq> q \<longrightarrow> disjoint (cell p) (cell q)) \<and>
     (sizeof_radix_node \<le> snd rest \<longrightarrow> fst rest \<noteq> 0 \<and> snd rest < 2 ^ 64 \<and> (\<exists>q\<in>R. inside rest q) \<and> (\<forall>p\<in>U. disjoint (cell p) rest))"

definition arena :: "allocator \<Rightarrow> radix \<Rightarrow> ptr set \<Rightarrow> bool" where
  "arena A r U \<longleftrightarrow> allocator_ok A \<and> sizeof_radix_node \<le> ngx_pagesize (rx_mem r) \<and> ngx_pagesize (rx_mem r) < 2 ^ 64 \<and>
     (\<exists>g fs. pool_inv (rx_mem r) (rt_pool (rx_tree r)) g \<and>
       path (\<lambda>p. map_option rx_right (rx_nodes r p)) (rt_free (rx_tree r)) fs \<and> U \<inter> set fs = {} \<and>
       cells_ok (U \<union> set fs) (set (g_regions g)) (rt_start (rx_tree r), rt_size (rx_tree r)))"

lemma arenaI:
  assumes "allocator_ok A" "sizeof_radix_node \<le> ngx_pagesize (rx_mem r)" "ngx_pagesize (rx_mem r) < 2 ^ 64"
    "pool_inv (rx_mem r) (rt_pool (rx_tree r)) g" "path (\<lambda>p. map_option rx_right (rx_nodes r p)) (rt_free (rx_tree r)) fs"
    "U \<inter> set fs = {}" "cells_ok (U \<union> set fs) (set (g_regions g)) (rt_start (rx_tree r), rt_size (rx_tree r))"
  shows "arena A r U"
  unfolding arena_def using assms by blast

lemma cells_mono: "cells_ok U R rest \<Longrightarrow> R \<subseteq> R' \<Longrightarrow> cells_ok U R' rest"
  unfolding cells_ok_def by blast

lemma cells_page:
  assumes "cells_ok U R rest" and "\<forall>q\<in>R. disjoint (p, n) q" and "p \<noteq> 0" "n < 2 ^ 64" "R \<subseteq> R'" "(p, n) \<in> R'"
  shows "cells_ok U R' (p, n)"
proof -
  have "disjoint (cell c) (p, n)" if "c \<in> U" for c
    using that assms(1,2) inside_disjoint [OF _ _ inside_refl] disjoint_sym unfolding cells_ok_def by metis
  moreover have "\<exists>q\<in>R'. inside (p, n) q" using assms(6) inside_refl by blast
  ultimately show ?thesis using assms unfolding cells_ok_def fst_conv snd_conv by blast
qed

lemma cells_carve:
  assumes "cells_ok U R (p, n)" and "sizeof_radix_node \<le> n"
  shows "p \<noteq> 0 \<and> p \<notin> U \<and> cells_ok (insert p U) R (p + sizeof_radix_node, n - sizeof_radix_node)"
proof -
  have "\<forall>c\<in>U. disjoint (cell c) (p, n)" "p \<noteq> 0" "n < 2 ^ 64" and q: "\<exists>q\<in>R. inside (p, n) q"
    using assms unfolding cells_ok_def by auto
  moreover from this have "p \<notin> U" using assms(2) by (fastforce simp: disjoint_def)
  moreover from q have "\<exists>q\<in>R. inside (cell p) q" "\<exists>q\<in>R. inside (p + sizeof_radix_node, n - sizeof_radix_node) q"
    using assms(2) by (auto simp: inside_def intro!: bexI)
  ultimately show ?thesis using assms unfolding cells_ok_def by (auto simp: disjoint_def)
qed

lemma arena_alloc:
  assumes a: "arena A r U"
  obtains (fail) r' where "ngx_radix_alloc A r = Some (0, r')" and "arena A r' U" and "rx_nodes r' = rx_nodes r"
      and "rt_root (rx_tree r') = rt_root (rx_tree r)" and "paged A 1 False r r'"
  | (ok) p r' where "ngx_radix_alloc A r = Some (p, r')" and "p \<noteq> 0" and "p \<notin> U" and "arena A r' (insert p U)"
      and "rx_nodes r' = rx_nodes r" and "rt_root (rx_tree r') = rt_root (rx_tree r)" and "paged A 1 True r r'"
proof -
  let ?t = "rx_tree r"
  obtain g fs where g: "pool_inv (rx_mem r) (rt_pool ?t) g" and path: "path (\<lambda>p. map_option rx_right (rx_nodes r p)) (rt_free ?t) fs"
    and d: "U \<inter> set fs = {}" and c: "cells_ok (U \<union> set fs) (set (g_regions g)) (rt_start ?t, rt_size ?t)"
    and A: "allocator_ok A" and pg: "sizeof_radix_node \<le> ngx_pagesize (rx_mem r)" "ngx_pagesize (rx_mem r) < 2 ^ 64"
    using a unfolding arena_def by blast
  show thesis
  proof (cases "rt_free ?t = 0")
    case False
    then obtain q fs' n where q: "fs = rt_free ?t # fs'" "rx_nodes r (rt_free ?t) = Some n"
      "path (\<lambda>p. map_option rx_right (rx_nodes r p)) (rx_right n) fs'" using path by (auto simp: path_nonzero)
    let ?r = "r\<lparr>rx_tree := ?t\<lparr>rt_free := rx_right n\<rparr>\<rparr>"
    have "insert (rt_free ?t) U \<inter> set fs' = {}" "insert (rt_free ?t) U \<union> set fs' = U \<union> set fs"
      using d q(1) path_distinct [OF path] by auto
    then have "arena A ?r (insert (rt_free ?t) U)" using A pg g q(3) c by (intro arenaI [of _ _ g fs']) simp_all
    then show thesis using that(2) [of "rt_free ?t" ?r] False q d by (simp add: ngx_radix_alloc_def Let_def paged_same)
  next
    case free: True
    then have fs: "fs = []" using path by simp
    show thesis
    proof (cases "rt_size ?t < sizeof_radix_node")
      case False
      let ?r = "r\<lparr>rx_tree := ?t\<lparr>rt_start := rt_start ?t + 32, rt_size := rt_size ?t - 32\<rparr>\<rparr>"
      have "rt_size ?t < 2 ^ 64" using c False unfolding cells_ok_def by simp
      then have "ngx_radix_alloc A r = Some (rt_start ?t, ?r)"
        using free False size_t_of_diff [of 32 "rt_size ?t"] by (simp add: ngx_radix_alloc_def Let_def)
      moreover note cells_carve [OF c] False
      ultimately show thesis using that(2) [of "rt_start ?t" ?r] fs A pg g free by (auto simp: arena_def paged_same)
    next
      case True
      let ?n = "ngx_pagesize (rx_mem r)"
      have "0 < ?n" using pg(1) by simp
      from ngx_pmemalign_meets [OF A g this, of ?n] show thesis
      proof (elim disjE exE conjE)
        fix t assume t: "ngx_pmemalign A (rx_mem r) (rt_pool ?t) ?n ?n = Some (0, t)" "pool_inv t (rt_pool ?t) g"
        assume no: "chunk_refused A (live (rx_mem r)) (g_size g) ?n ?n"
        let ?r = "r\<lparr>rx_mem := t, rx_tree := ?t\<lparr>rt_start := 0\<rparr>\<rparr>"
        have "exhausted A (rt_pool ?t) 1 (rx_mem r) t" unfolding exhausted_def using t(1) no g by (intro exI [of _ 0]) auto
        then have pd: "paged A 1 False r ?r" by (simp add: paged_def)
        have "cells_ok (U \<union> set fs) (set (g_regions g)) (0, rt_size ?t)" using c True unfolding cells_ok_def by auto
        then have "arena A ?r U" using A pg t(2) fs free pmemalign_pagesize [OF t(1)] by (auto simp: arena_def)
        then show thesis using that(1) [of ?r] t(1) True free pd by (simp add: ngx_radix_alloc_def Let_def)
      next
        fix p t g' assume t: "ngx_pmemalign A (rx_mem r) (rt_pool ?t) ?n ?n = Some (p, t)" "p \<noteq> 0"
          "handed (rx_mem r) (rt_pool ?t) g (p, ?n) t g'"
        have ps: "ngx_pagesize t = ?n" by (rule pmemalign_pagesize [OF t(1)])
        let ?r = "r\<lparr>rx_mem := t, rx_tree := ?t\<lparr>rt_start := p + 32, rt_size := ?n - 32\<rparr>\<rparr>"
        have "cells_ok U (set (g_regions g')) (p, ?n)"
          by (rule cells_page [OF c [unfolded fs, simplified]]) (use t pg in \<open>auto simp: handed_def\<close>)
        note carve = cells_carve [OF this pg(1)]
        have "ngx_radix_alloc A r = Some (p, ?r)"
          using free True t(1,2) ps pg size_t_of_diff [of 32 ?n] by (simp add: ngx_radix_alloc_def Let_def)
        moreover have "paged A 1 True r ?r" using t(1,2) by (auto simp: paged_def intro!: exI [of _ 1])
        ultimately show thesis using that(2) [of p ?r] carve fs A pg t(3) ps free by (auto simp: arena_def handed_def)
      qed
    qed
  qed
qed

lemma arena_put: "arena A r U \<Longrightarrow> p \<in> U \<Longrightarrow> arena A (put_node p n r) U"
proof -
  assume a: "arena A r U" "p \<in> U"
  have "path (\<lambda>q. map_option rx_right (((rx_nodes r)(p \<mapsto> n)) q)) x fs = path (\<lambda>q. map_option rx_right (rx_nodes r q)) x fs"
    if "U \<inter> set fs = {}" for x fs by (rule path_cong) (use that a(2) in auto)
  then show ?thesis using a(1) unfolding arena_def by auto
qed

lemma arena_free:
  assumes a: "arena A r U" and p: "p \<in> U" and n: "rx_nodes r p = Some n"
  shows "arena A ((put_node p (n\<lparr>rx_right := rt_free (rx_tree r)\<rparr>) r)\<lparr>rx_tree := (rx_tree r)\<lparr>rt_free := p\<rparr>\<rparr>) (U - {p})"
proof -
  obtain g fs where g: "pool_inv (rx_mem r) (rt_pool (rx_tree r)) g" and path: "path (\<lambda>p. map_option rx_right (rx_nodes r p)) (rt_free (rx_tree r)) fs"
    and d: "U \<inter> set fs = {}" and c: "cells_ok (U \<union> set fs) (set (g_regions g)) (rt_start (rx_tree r), rt_size (rx_tree r))"
    using a unfolding arena_def by blast
  let ?h = "(rx_nodes r)(p \<mapsto> n\<lparr>rx_right := rt_free (rx_tree r)\<rparr>)"
  have "path (\<lambda>q. map_option rx_right (?h q)) (rt_free (rx_tree r)) fs = path (\<lambda>q. map_option rx_right (rx_nodes r q)) (rt_free (rx_tree r)) fs"
    by (rule path_cong) (use d p in auto)
  moreover have "p \<noteq> 0" using c p unfolding cells_ok_def by (metis UnI1)
  ultimately have "path (\<lambda>q. map_option rx_right (?h q)) p (p # fs)" using path by simp
  moreover have "(U - {p}) \<inter> set (p # fs) = {}" "(U - {p}) \<union> set (p # fs) = U \<union> set fs" using d p by auto
  ultimately show ?thesis using a g c unfolding arena_def
    by (intro conjI exI [of _ g] exI [of _ "p # fs"]) (simp_all add: arena_def)
qed

end
