(* ===== verification/Ngx_Radix_Rep.thy ===== *)
theory Ngx_Radix_Rep
  imports Ngx_Radix_Arena
begin

text \<open>
  The shape of a radix tree, as the map \<open>D\<close> from the paths of its nodes, strings of bits, to their addresses and the map \<open>V\<close> from
  paths to values. The abstract content is the finite map from prefixes to values.
\<close>

type_synonym bits = "bool list"

definition at :: "(bits \<Rightarrow> ptr option) \<Rightarrow> bits \<Rightarrow> ptr" where
  "at D bs = (case D bs of None \<Rightarrow> 0 | Some p \<Rightarrow> p)"

definition above_path :: "(bits \<Rightarrow> ptr option) \<Rightarrow> bits \<Rightarrow> ptr" where
  "above_path D bs = (if bs = [] then 0 else at D (butlast bs))"

definition path_node :: "(bits \<Rightarrow> ptr option) \<Rightarrow> (bits \<Rightarrow> u64) \<Rightarrow> bits \<Rightarrow> ngx_radix_node" where
  "path_node D V bs = \<lparr>rx_right = at D (bs @ [True]), rx_left = at D (bs @ [False]), rx_parent = above_path D bs, rx_value = V bs\<rparr>"

definition shape :: "nat \<Rightarrow> (ptr \<Rightarrow> ngx_radix_node option) \<Rightarrow> ptr \<Rightarrow> (bits \<Rightarrow> ptr option) \<Rightarrow> (bits \<Rightarrow> u64) \<Rightarrow> bool" where
  "shape L h root D V \<longleftrightarrow> D [] = Some root \<and> 0 \<notin> ran D \<and> inj_on D (dom D) \<and>
     (\<forall>bs b. D (bs @ [b]) \<noteq> None \<longrightarrow> D bs \<noteq> None) \<and> (\<forall>bs\<in>dom D. length bs \<le> L) \<and>
     (\<forall>bs p. D bs = Some p \<longrightarrow> h p = Some (path_node D V bs))"

definition content :: "(bits \<Rightarrow> ptr option) \<Rightarrow> (bits \<Rightarrow> u64) \<Rightarrow> bits \<Rightarrow> u64 option" where
  "content D V bs = (if D bs \<noteq> None \<and> V bs \<noteq> NGX_RADIX_NO_VALUE then Some (V bs) else None)"

definition radix_inv :: "allocator \<Rightarrow> nat \<Rightarrow> radix \<Rightarrow> (bits \<Rightarrow> ptr option) \<Rightarrow> (bits \<Rightarrow> u64) \<Rightarrow> bool" where
  "radix_inv A L r D V \<longleftrightarrow> shape L (rx_nodes r) (rt_root (rx_tree r)) D V \<and> arena A r (ran D)"

lemma at_Some [simp]: "D bs = Some p \<Longrightarrow> at D bs = p"
  by (simp add: at_def)

lemma at_zero: "shape L h root D V \<Longrightarrow> at D bs = 0 \<longleftrightarrow> D bs = None"
proof -
  assume "shape L h root D V"
  then have "D bs \<noteq> Some 0" by (simp add: shape_def ran_def)
  then show ?thesis by (cases "D bs") (auto simp: at_def)
qed

lemma path_node_simps [simp]: "rx_right (path_node D V bs) = at D (bs @ [True])" "rx_left (path_node D V bs) = at D (bs @ [False])"
  "rx_parent (path_node D V bs) = above_path D bs" "rx_value (path_node D V bs) = V bs" "child b (path_node D V bs) = at D (bs @ [b])"
  by (simp_all add: path_node_def child_def)

lemma shape_node: "shape L h root D V \<Longrightarrow> D bs = Some p \<Longrightarrow> h p = Some (path_node D V bs)"
  by (simp add: shape_def)

lemma shape_inj: "shape L h root D V \<Longrightarrow> D bs = Some p \<Longrightarrow> D cs = Some p \<Longrightarrow> bs = cs"
  using inj_onD [of D "dom D" bs cs] by (auto simp: shape_def)

lemma shape_parent: "shape L h root D V \<Longrightarrow> D (bs @ [b]) = Some p \<Longrightarrow> \<exists>q. D bs = Some q"
  unfolding shape_def by blast

lemma shape_prefix: "shape L h root D V \<Longrightarrow> D (bs @ cs) = Some p \<Longrightarrow> \<exists>q. D bs = Some q"
proof (induction cs arbitrary: p rule: rev_induct)
  case (snoc c cs)
  then show ?case using shape_parent [of L h root D V "bs @ cs" c p] by auto
qed simp

lemma shape_length: "shape L h root D V \<Longrightarrow> D bs = Some p \<Longrightarrow> length bs \<le> L"
  unfolding shape_def by auto

section \<open>Changes of one node\<close>

lemma shape_value:
  assumes s: "shape L h root D V" and p: "D bs = Some p" "h p = Some n"
  shows "shape L (h(p \<mapsto> n\<lparr>rx_value := v\<rparr>)) root D (V(bs := v))"
proof -
  have n: "n = path_node D V bs" using shape_node [OF s p(1)] p(2) by simp
  have "(h(p \<mapsto> n\<lparr>rx_value := v\<rparr>)) q = Some (path_node D (V(bs := v)) cs)" if "D cs = Some q" for cs q
  proof (cases "cs = bs")
    case True
    then show ?thesis using that p n by (simp add: path_node_def)
  next
    case False
    then have "q \<noteq> p" using that p(1) shape_inj [OF s] by blast
    then show ?thesis using False shape_node [OF s that] by (simp add: path_node_def)
  qed
  then show ?thesis using s unfolding shape_def by blast
qed

lemma content_value: "D bs \<noteq> None \<Longrightarrow>
    content D (V(bs := v)) = (content D V)(bs := if v = NGX_RADIX_NO_VALUE then None else Some v)"
  by (auto simp: content_def)

definition relinked :: "bool \<Rightarrow> ptr \<Rightarrow> ngx_radix_node \<Rightarrow> ngx_radix_node" where
  "relinked b p n = (if b then n\<lparr>rx_right := p\<rparr> else n\<lparr>rx_left := p\<rparr>)"

lemma relinked_node: "p = at D' (bs @ [b]) \<Longrightarrow> at D (bs @ [\<not> b]) = at D' (bs @ [\<not> b]) \<Longrightarrow> above_path D bs = above_path D' bs \<Longrightarrow>
    V bs = V' bs \<Longrightarrow> relinked b p (path_node D V bs) = path_node D' V' bs"
  by (cases b) (simp_all add: relinked_def path_node_def)

lemma shape_grow:
  assumes s: "shape L h root D V" and D: "D bs = Some p" "D (bs @ [b]) = None" and q: "q \<noteq> 0" "q \<notin> ran D" and L: "length bs < L"
  shows "shape L (h(q \<mapsto> radix_node_new p, p \<mapsto> relinked b q (path_node D V bs))) root (D(bs @ [b] \<mapsto> q)) (V(bs @ [b] := NGX_RADIX_NO_VALUE))"
    (is "shape L ?h root ?D ?V")
proof -
  have below: "D (bs @ [b] @ cs) = None" for cs using shape_prefix [OF s, of "bs @ [b]" cs] D(2) by (cases "D (bs @ [b] @ cs)") auto
  have qp: "q \<noteq> p" using q(2) D(1) by (auto simp: ran_def)
  have other: "at ?D (cs @ [c]) = at D (cs @ [c])" if "cs \<noteq> bs \<or> c \<noteq> b" for cs c using that by (auto simp: at_def)
  have up: "above_path ?D cs = above_path D cs" if "D cs \<noteq> None" for cs
  proof (cases cs rule: rev_cases)
    case (snoc ds d)
    then have "ds \<noteq> bs @ [b]" using that below [of "[d]"] by auto
    then show ?thesis by (simp add: snoc above_path_def at_def)
  qed (simp add: above_path_def)
  have "?h x = Some (path_node ?D ?V cs)" if x: "?D cs = Some x" for cs x
  proof (cases "cs = bs @ [b]")
    case True
    have "at ?D (bs @ [b, c]) = 0" for c using below [of "[c]"] by (simp add: at_def)
    then show ?thesis using True x qp D(1) by (simp add: path_node_def radix_node_new_def above_path_def at_def)
  next
    case False
    then have Dx: "D cs = Some x" using x by simp
    then have xq: "x \<noteq> q" using q(2) by (auto simp: ran_def)
    show ?thesis
    proof (cases "cs = bs")
      case True
      then have "relinked b q (path_node D V bs) = path_node ?D ?V bs"
        using other [of bs "\<not> b"] up [of bs] D(1) by (intro relinked_node) (simp_all add: at_def)
      then show ?thesis using True Dx D(1) by simp
    next
      case other': False
      then have "x \<noteq> p" using Dx D(1) shape_inj [OF s] by blast
      moreover have "path_node ?D ?V cs = path_node D V cs" using other [of cs] other' False up [of cs] Dx by (simp add: path_node_def)
      ultimately show ?thesis using shape_node [OF s Dx] xq by simp
    qed
  qed
  moreover have "inj_on ?D (dom ?D)" using s q(2) unfolding shape_def inj_on_def ran_def dom_def by auto
  moreover have "?D cs \<noteq> None" if "?D (cs @ [c]) \<noteq> None" for cs c using that s D(1) unfolding shape_def by (auto split: if_splits)
  moreover have "0 \<notin> ran ?D" using s q unfolding shape_def by (auto simp: ran_def)
  ultimately show ?thesis using s L unfolding shape_def by auto
qed

lemma content_grow: "D bs = None \<Longrightarrow> content (D(bs \<mapsto> q)) (V(bs := NGX_RADIX_NO_VALUE)) = content D V"
  by (auto simp: content_def)

lemma shape_cut:
  assumes s: "shape L h root D V" and D: "D (bs @ [b]) = Some q" "D bs = Some p" and leaf: "\<And>c. D (bs @ [b, c]) = None"
  shows "shape L (h(p \<mapsto> relinked b 0 (path_node D V bs), q \<mapsto> n)) root (D(bs @ [b] := None)) V" (is "shape L ?h root ?D V")
proof -
  have pq: "p \<noteq> q" using shape_inj [OF s D(1), of bs] D(2) by auto
  have other: "at ?D (cs @ [c]) = at D (cs @ [c])" if "cs \<noteq> bs \<or> c \<noteq> b" for cs c using that by (auto simp: at_def)
  have up: "above_path ?D cs = above_path D cs" if "D cs \<noteq> None" for cs
  proof (cases cs rule: rev_cases)
    case (snoc ds d)
    then have "ds \<noteq> bs @ [b]" using that leaf [of d] by auto
    then show ?thesis by (simp add: snoc above_path_def at_def)
  qed (simp add: above_path_def)
  have "?h x = Some (path_node ?D V cs)" if x: "?D cs = Some x" for cs x
  proof -
    have Dx: "D cs = Some x" "cs \<noteq> bs @ [b]" using x by (auto split: if_splits)
    then have xq: "x \<noteq> q" using shape_inj [OF s D(1), of cs] by auto
    show ?thesis
    proof (cases "cs = bs")
      case True
      then have "relinked b 0 (path_node D V bs) = path_node ?D V bs"
        using other [of bs "\<not> b"] up [of bs] D(2) by (intro relinked_node) (simp_all add: at_def)
      then show ?thesis using True Dx D(2) pq by simp
    next
      case False
      then have "x \<noteq> p" using Dx D(2) shape_inj [OF s] by blast
      moreover have "path_node ?D V cs = path_node D V cs" using other [of cs] False up [of cs] Dx by (simp add: path_node_def)
      ultimately show ?thesis using shape_node [OF s Dx(1)] xq by simp
    qed
  qed
  moreover have "?D cs \<noteq> None" if "?D (cs @ [c]) \<noteq> None" for cs c
    using that s leaf [of c] unfolding shape_def by (auto split: if_splits)
  moreover have "inj_on ?D (dom ?D)" using s unfolding shape_def inj_on_def dom_def by auto
  moreover have "0 \<notin> ran ?D" using s unfolding shape_def by (auto simp: ran_def split: if_splits)
  ultimately show ?thesis using s unfolding shape_def by (auto split: if_splits)
qed

lemma content_cut: "content (D(bs := None)) V = (content D V)(bs := None)"
  by (auto simp: content_def)

end
