(* ===== verification/Ngx_Radix_Loops.thy ===== *)
theory Ngx_Radix_Loops
  imports Ngx_Radix_Rep
begin

text \<open>
  The operations on a radix tree, for any way to run through the bits of a key: the loops of the functions for 32 and for 128
  bits satisfy the laws of the locales below, and what the operations do to the content of the tree follows once for both.
\<close>

section \<open>Steps\<close>

lemma inv_set_value:
  assumes "radix_inv A L r D V" and "D bs = Some p"
  shows "\<exists>r'. radix_set_value p v r = Some r' \<and> radix_inv A L r' D (V(bs := v))"
proof -
  have s: "shape L (rx_nodes r) (rt_root (rx_tree r)) D V" and a: "arena A r (ran D)" using assms(1) by (simp_all add: radix_inv_def)
  note n = shape_node [OF s assms(2)]
  have "p \<in> ran D" using assms(2) by (auto simp: ran_def)
  then show ?thesis using n shape_value [OF s assms(2) n, of v] arena_put [OF a, of p] by (simp add: radix_set_value_def radix_inv_def)
qed

lemma set_value_mem: "radix_set_value p v r = Some r' \<Longrightarrow> rx_mem r' = rx_mem r \<and> rx_tree r' = rx_tree r"
  by (auto simp: radix_set_value_def bind_eq_Some_conv)

lemma inv_grow:
  assumes inv: "radix_inv A L r D V" and D: "D bs = Some p" "D (bs @ [b]) = None" and L: "length bs < L"
  obtains (fail) r' where "ngx_radix_alloc A r = Some (0, r')" and "radix_inv A L r' D V" and "paged A 1 False r r'"
  | (ok) q r' r'' where "ngx_radix_alloc A r = Some (q, r')" and "q \<noteq> 0"
      and "radix_link p b q (put_node q (radix_node_new p) r') = Some r''"
      and "radix_inv A L r'' (D(bs @ [b] \<mapsto> q)) (V(bs @ [b] := NGX_RADIX_NO_VALUE))" and "paged A 1 True r r''"
proof -
  have s: "shape L (rx_nodes r) (rt_root (rx_tree r)) D V" and a: "arena A r (ran D)" using inv by (simp_all add: radix_inv_def)
  from a show thesis
  proof (cases rule: arena_alloc)
    case (fail r')
    then show thesis using that(1) [of r'] s by (simp add: radix_inv_def)
  next
    case (ok q r')
    have pq: "p \<noteq> q" "p \<in> ran D" using ok(3) D(1) by (auto simp: ran_def)
    let ?n = "relinked b q (path_node D V bs)"
    let ?r = "put_node p ?n (put_node q (radix_node_new p) r')"
    have "radix_link p b q (put_node q (radix_node_new p) r') = Some ?r"
      using pq shape_node [OF s D(1)] ok(5) by (simp add: radix_link_def relinked_def)
    moreover have "arena A ?r (insert q (ran D))" using ok(4) pq by (intro arena_put) simp_all
    moreover have "ran (D(bs @ [b] \<mapsto> q)) = insert q (ran D)" using D(2) by (rule ran_map_upd)
    moreover have "shape L (rx_nodes ?r) (rt_root (rx_tree ?r)) (D(bs @ [b] \<mapsto> q)) (V(bs @ [b] := NGX_RADIX_NO_VALUE))"
      using shape_grow [OF s D ok(2,3) L] ok(5,6) pq(1) by simp
    moreover have "paged A 1 True r ?r" by (rule paged_cong [OF _ _ ok(7)]) simp_all
    ultimately show thesis using that(2) [of q r' ?r] ok(1,2) by (simp add: radix_inv_def)
  qed
qed

lemma ran_cut: "(\<And>cs. D cs = Some p \<Longrightarrow> cs = bs) \<Longrightarrow> D bs = Some p \<Longrightarrow> ran (D(bs := None)) = ran D - {p}"
proof (intro set_eqI iffI)
  assume u: "\<And>cs. D cs = Some p \<Longrightarrow> cs = bs" and bs: "D bs = Some p"
  show "x \<in> ran D - {p}" if "x \<in> ran (D(bs := None))" for x
    using that u by (auto simp: ran_def split: if_splits)
  show "x \<in> ran (D(bs := None))" if x: "x \<in> ran D - {p}" for x
  proof -
    obtain a where "D a = Some x" "x \<noteq> p" using x unfolding ran_def by blast
    then have "(D(bs := None)) a = Some x" using bs by auto
    then show ?thesis by (rule ranI)
  qed
qed

lemma right_child:
  assumes s: "shape L h root D V" and p: "D (bs @ [b]) = Some p"
  shows "at D (bs @ [True]) = p \<longleftrightarrow> b"
proof (cases b)
  case False
  have "at D (bs @ [True]) \<noteq> p"
  proof
    assume "at D (bs @ [True]) = p"
    moreover have "p \<noteq> 0" using at_zero [OF s, of "bs @ [b]"] p by simp
    ultimately have "D (bs @ [True]) = Some p" by (simp add: at_def split: option.splits)
    then show False using shape_inj [OF s p] False by blast
  qed
  then show ?thesis using False by simp
qed (use p in simp)

text \<open>One round of the loop that takes leaves out.\<close>

lemma prune_step:
  assumes inv: "radix_inv A L r D V" and p: "D (bs @ [b]) = Some p" and leaf: "\<And>c. D (bs @ [b, c]) = None"
  obtains q r' where "D bs = Some q" and "radix_inv A L r' (D(bs @ [b] := None)) V"
    and "radix_prune p r = (if at (D(bs @ [b] := None)) (bs @ [True]) \<noteq> 0 \<or> at (D(bs @ [b] := None)) (bs @ [False]) \<noteq> 0 \<or>
      V bs \<noteq> NGX_RADIX_NO_VALUE \<or> above_path D bs = 0 then Some r' else radix_prune q r')"
proof -
  have s: "shape L (rx_nodes r) (rt_root (rx_tree r)) D V" and a: "arena A r (ran D)" using inv by (simp_all add: radix_inv_def)
  obtain q where q: "D bs = Some q" using shape_parent [OF s p] by blast
  note n = shape_node [OF s p] and m = shape_node [OF s q] and right = right_child [OF s p]
  have pq: "p \<noteq> q" using shape_inj [OF s p, of bs] q by auto
  have par: "above_path D (bs @ [b]) = q" using q by (simp add: above_path_def)
  let ?n = "relinked b 0 (path_node D V bs)" and ?k = "(path_node D V (bs @ [b]))\<lparr>rx_right := rt_free (rx_tree r)\<rparr>"
  let ?r1 = "put_node q ?n r" and ?D = "D(bs @ [b] := None)"
  define r' where "r' = (put_node p ?k ?r1)\<lparr>rx_tree := (rx_tree r)\<lparr>rt_free := p\<rparr>\<rparr>"
  have step: "radix_prune p r = (if rx_right ?n \<noteq> 0 \<or> rx_left ?n \<noteq> 0 then Some r'
      else if rx_value ?n \<noteq> NGX_RADIX_NO_VALUE then Some r' else if rx_parent ?n = 0 then Some r' else radix_prune q r')"
    using n m pq right by (subst radix_prune.simps) (simp add: par relinked_def Let_def r'_def)
  have "arena A ?r1 (ran D)" using a q by (intro arena_put) (auto intro: ranI)
  from arena_free [OF this, of p "path_node D V (bs @ [b])"] have "arena A r' (ran D - {p})"
    using p pq n by (simp add: ranI r'_def)
  moreover have "ran ?D = ran D - {p}" by (rule ran_cut [of D p "bs @ [b]", OF shape_inj [OF s p, symmetric] p])
  moreover have "shape L (rx_nodes r') (rt_root (rx_tree r')) ?D V" using shape_cut [OF s p q leaf] by (simp add: r'_def)
  ultimately have inv': "radix_inv A L r' ?D V" by (simp add: radix_inv_def)
  have "butlast bs \<noteq> bs @ [b]" by (cases bs rule: rev_cases) auto
  then have up: "above_path ?D bs = above_path D bs" by (simp add: at_def above_path_def)
  then have "?n = path_node ?D V bs" by (intro relinked_node) (simp_all add: at_def)
  then show thesis using up that [OF q inv'] step by simp
qed

lemma inv_prune:
  assumes "radix_inv A L r D V" and "bs \<noteq> []" and "D bs = Some p" and "\<And>c. D (bs @ [c]) = None"
  shows "\<exists>r' D'. radix_prune p r = Some r' \<and> radix_inv A L r' D' V \<and> content D' V = (content D V)(bs := None)"
  using assms
proof (induction bs arbitrary: r D p rule: rev_induct)
  case (snoc b bs)
  define D1 where "D1 = D(bs @ [b] := None)"
  have leaf: "D (bs @ [b, c]) = None" for c using snoc.prems(4) [of c] by simp
  obtain q r1 where q: "D bs = Some q" and inv: "radix_inv A L r1 D1 V"
    and step: "radix_prune p r = (if at D1 (bs @ [True]) \<noteq> 0 \<or> at D1 (bs @ [False]) \<noteq> 0 \<or>
      V bs \<noteq> NGX_RADIX_NO_VALUE \<or> above_path D bs = 0 then Some r1 else radix_prune q r1)"
    using prune_step [OF snoc.prems(1,3) leaf, folded D1_def] by blast
  have cut: "content D1 V = (content D V)(bs @ [b] := None)" unfolding D1_def by (rule content_cut)
  show ?case
  proof (cases "at D1 (bs @ [True]) \<noteq> 0 \<or> at D1 (bs @ [False]) \<noteq> 0 \<or> V bs \<noteq> NGX_RADIX_NO_VALUE \<or> above_path D bs = 0")
    case True
    then have "radix_prune p r = Some r1" using step by (simp only: if_True)
    then show ?thesis using inv cut by blast
  next
    case False
    then have v: "at D1 (bs @ [True]) = 0" "at D1 (bs @ [False]) = 0" "V bs = NGX_RADIX_NO_VALUE" "bs \<noteq> []"
      by (auto simp: above_path_def)
    have s': "shape L (rx_nodes r1) (rt_root (rx_tree r1)) D1 V" using inv by (simp add: radix_inv_def)
    have "D1 (bs @ [c]) = None" for c using v(1,2) at_zero [OF s'] by (cases c) simp_all
    moreover have "D1 bs = Some q" using q by (simp add: D1_def)
    ultimately obtain r' D' where "radix_prune q r1 = Some r'" "radix_inv A L r' D' V" "content D' V = (content D1 V)(bs := None)"
      using snoc.IH [OF inv v(4)] by blast
    moreover have "(content D1 V)(bs := None) = (content D V)(bs @ [b] := None)"
      unfolding cut using v(3) by (auto simp: content_def)
    moreover have "radix_prune p r = radix_prune q r1" using step False by (simp only: if_False)
    ultimately show ?thesis by metis
  qed
qed simp

section \<open>The walk along a key\<close>

text \<open>The insertion, as both functions compose it from their two loops.\<close>

definition insert_by :: "('c \<Rightarrow> ptr \<Rightarrow> ptr \<Rightarrow> ('c \<times> ptr \<times> ptr) option) \<Rightarrow> ('c \<Rightarrow> ptr \<Rightarrow> radix \<Rightarrow> (ptr option \<times> radix) option) \<Rightarrow>
    'c \<Rightarrow> u64 \<Rightarrow> radix \<Rightarrow> (radix_rc \<times> radix) option" where
  "insert_by walk grow c v r = do {
     (c', node, nxt) \<leftarrow> walk c (rt_root (rx_tree r)) (rt_root (rx_tree r));
     if nxt \<noteq> 0 then radix_occupy node v r
     else do {
       (res, r) \<leftarrow> grow c' node r;
       case res of
         None \<Rightarrow> Some (Rx_ERROR, r)
       | Some node \<Rightarrow> do {
           r \<leftarrow> radix_set_value node v r;
           Some (Rx_OK, r)
         }
     }
   }"

locale radix_loops =
  fixes ok :: "'c \<Rightarrow> bool" and bits :: "'c \<Rightarrow> bits"
    and walk :: "(ptr \<Rightarrow> ngx_radix_node option) \<Rightarrow> 'c \<Rightarrow> ptr \<Rightarrow> ptr \<Rightarrow> ('c \<times> ptr \<times> ptr) option"
    and grow :: "allocator \<Rightarrow> 'c \<Rightarrow> ptr \<Rightarrow> radix \<Rightarrow> (ptr option \<times> radix) option"
    and descend :: "(ptr \<Rightarrow> ngx_radix_node option) \<Rightarrow> 'c \<Rightarrow> ptr \<Rightarrow> ptr option"
    and after :: "'c \<Rightarrow> 'c"
  assumes after: "ok c \<Longrightarrow> bits c = b # bs \<Longrightarrow> ok (after c) \<and> bits (after c) = bs"
    and walk_end: "ok c \<Longrightarrow> bits c = [] \<Longrightarrow> walk h c node nxt = Some (c, node, nxt)"
    and walk_step: "ok c \<Longrightarrow> bits c = b # bs \<Longrightarrow> walk h c node nxt = do {
      n \<leftarrow> h node;
      if child b n = 0 then Some (c, node, 0) else walk h (after c) (child b n) (child b n)
    }"
    and grow_end: "ok c \<Longrightarrow> bits c = [] \<Longrightarrow> grow A c node r = Some (Some node, r)"
    and grow_step: "ok c \<Longrightarrow> bits c = b # bs \<Longrightarrow> grow A c node r = do {
      (nxt, r) \<leftarrow> ngx_radix_alloc A r;
      if nxt = 0 then Some (None, r)
      else do {
        r \<leftarrow> radix_link node b nxt (put_node nxt (radix_node_new node) r);
        grow A (after c) nxt r
      }
    }"
    and descend_null: "ok c \<Longrightarrow> descend h c 0 = Some 0"
    and descend_end: "ok c \<Longrightarrow> bits c = [] \<Longrightarrow> descend h c node = Some node"
    and descend_step: "ok c \<Longrightarrow> bits c = b # bs \<Longrightarrow> node \<noteq> 0 \<Longrightarrow> descend h c node = do {
      n \<leftarrow> h node;
      descend h (after c) (child b n)
    }"
begin

lemma walk_spec:
  assumes "ok c" and s: "shape L h root D V" and "D pre = Some node"
  shows "\<exists>c' ks node' nxt. walk h c node node = Some (c', node', nxt) \<and> ok c' \<and> bits c = ks @ bits c' \<and> D (pre @ ks) = Some node' \<and>
    (if nxt = 0 then \<exists>b bs. bits c' = b # bs \<and> D (pre @ ks @ [b]) = None else bits c' = [])"
  using assms(1,3)
proof (induction "bits c" arbitrary: c pre node)
  case Nil
  have "node \<noteq> 0" using at_zero [OF s, of pre] Nil(3) by simp
  then show ?case using walk_end [OF Nil(2)] Nil by (intro exI [of _ c] exI [of _ "[]"]) auto
next
  case (Cons b bs)
  note st = walk_step [OF Cons(3) Cons(2) [symmetric], of h node node, unfolded shape_node [OF s Cons(4)], simplified]
  show ?case
  proof (cases "D (pre @ [b])")
    case None
    show ?thesis
      by (rule exI [of _ c], rule exI [of _ "[]"], rule exI [of _ node], rule exI [of _ 0]) (use None st Cons(2) [symmetric] Cons(3,4) in \<open>auto simp: at_def\<close>)
  next
    case (Some p)
    then have "p \<noteq> 0" using at_zero [OF s, of "pre @ [b]"] by simp
    then have w: "walk h c node node = walk h (after c) p p" using st Some by simp
    from Cons(1) [of "after c" "pre @ [b]" p, unfolded append.assoc append_Cons append_Nil] after [OF Cons(3) Cons(2) [symmetric]] Some
    obtain c' ks node' nxt where "walk h (after c) p p = Some (c', node', nxt)" "ok c'" "bits (after c) = ks @ bits c'"
      "D (pre @ b # ks) = Some node'" "if nxt = 0 then \<exists>d ds. bits c' = d # ds \<and> D (pre @ b # ks @ [d]) = None else bits c' = []" by auto
    note r = this
    show ?thesis
      by (rule exI [of _ c'], rule exI [of _ "b # ks"], rule exI [of _ node'], rule exI [of _ nxt])
        (use r w Cons(2) after [OF Cons(3) Cons(2) [symmetric]] in auto)
  qed
qed

lemma grow_spec:
  assumes "ok c" and "radix_inv A L r D V" and "D pre = Some node" and "length (pre @ bits c) \<le> L"
    and "\<forall>b bs. bits c = b # bs \<longrightarrow> D (pre @ [b]) = None"
  shows "\<exists>res r' D' V'. grow A c node r = Some (res, r') \<and> radix_inv A L r' D' V' \<and> content D' V' = content D V \<and>
    (\<forall>p. res = Some p \<longrightarrow> D' (pre @ bits c) = Some p) \<and> paged A (length (bits c)) (res \<noteq> None) r r'"
  using assms
proof (induction "bits c" arbitrary: c pre node r D V)
  case Nil
  then show ?case using grow_end [OF Nil(2) Nil(1) [symmetric], of A node r] by (auto simp: paged_same)
next
  case (Cons b bs)
  note st = grow_step [OF Cons(3) Cons(2) [symmetric], of A node r] and a = after [OF Cons(3) Cons(2) [symmetric]]
  have Db: "D (pre @ [b]) = None" using Cons(2,7) by metis
  have len: "length pre < L" using Cons(2,6) by (metis add_Suc_right length_append length_Cons less_le_trans less_add_Suc1)
  show ?case
  proof (cases rule: inv_grow [OF Cons(4,5) Db len])
    case (1 r')
    have "1 \<le> length (bits c)" using Cons(2) [symmetric] by simp
    then have "paged A (length (bits c)) False r r'" by (rule paged_mono [OF 1(3)])
    then show ?thesis using st 1 by auto
  next
    case (2 q r' r'')
    let ?D = "D(pre @ [b] \<mapsto> q)" and ?V = "V(pre @ [b] := NGX_RADIX_NO_VALUE)"
    have s: "shape L (rx_nodes r) (rt_root (rx_tree r)) D V" using Cons(4) by (simp add: radix_inv_def)
    have "?D ((pre @ [b]) @ [d]) = None" for d using shape_parent [OF s, of "pre @ [b]" d] Db by (cases "D (pre @ [b, d])") auto
    moreover have "length ((pre @ [b]) @ bits (after c)) \<le> L" using Cons(2,6) a by (metis append.assoc append_Cons append_Nil)
    ultimately obtain res u D' V' where g: "grow A (after c) q r'' = Some (res, u)" "radix_inv A L u D' V'" "content D' V' = content ?D ?V"
      "\<forall>p. res = Some p \<longrightarrow> D' ((pre @ [b]) @ bits (after c)) = Some p" "paged A (length (bits (after c))) (res \<noteq> None) r'' u"
      using Cons(1) [of "after c" r'' ?D ?V "pre @ [b]" q] a 2(4) by auto
    moreover have "grow A c node r = grow A (after c) q r''" using st 2(1-3) by simp
    moreover have "(pre @ [b]) @ bits (after c) = pre @ bits c" using a Cons(2) [symmetric] by simp
    moreover have "paged A (length (bits c)) (res \<noteq> None) r u" using paged_trans [OF 2(5) g(5)] a Cons(2) [symmetric] by simp
    ultimately show ?thesis using content_grow [of D "pre @ [b]" q V, OF Db] by metis
  qed
qed

lemma insert_spec:
  assumes c: "ok c" "length (bits c) \<le> L" and inv: "radix_inv A L r D V"
  shows "\<exists>rc r' D' V'. insert_by (walk (rx_nodes r)) (grow A) c v r = Some (rc, r') \<and> radix_inv A L r' D' V' \<and> (rc = Rx_BUSY \<longleftrightarrow> content D V (bits c) \<noteq> None) \<and>
     paged A (length (bits c)) (rc \<noteq> Rx_ERROR) r r' \<and>
     content D' V' = (if rc = Rx_OK \<and> v \<noteq> NGX_RADIX_NO_VALUE then (content D V)(bits c \<mapsto> v) else content D V)"
proof -
  have s: "shape L (rx_nodes r) (rt_root (rx_tree r)) D V" using inv by (simp add: radix_inv_def)
  then have "D [] = Some (rt_root (rx_tree r))" by (simp add: shape_def)
  from walk_spec [OF c(1) s this, unfolded append_Nil] obtain c' ks node nxt where
    w: "walk (rx_nodes r) c (rt_root (rx_tree r)) (rt_root (rx_tree r)) = Some (c', node, nxt)" "ok c'" "bits c = ks @ bits c'" "D ks = Some node"
      "if nxt = 0 then \<exists>b bs. bits c' = b # bs \<and> D (ks @ [b]) = None else bits c' = []" by blast
  show ?thesis
  proof (cases "nxt = 0")
    case False
    then have D: "D (bits c) = Some node" using w by simp
    note n = shape_node [OF s D]
    obtain r' where r': "radix_set_value node v r = Some r'" "radix_inv A L r' D (V(bits c := v))" using inv_set_value [OF inv D] by blast
    show ?thesis
    proof (cases "V (bits c) = NGX_RADIX_NO_VALUE")
      case True
      then have "content D V (bits c) = None" by (simp add: content_def)
      moreover have "content D (V(bits c := v)) = (if v \<noteq> NGX_RADIX_NO_VALUE then (content D V)(bits c \<mapsto> v) else content D V)"
        using content_value [of D "bits c" V v] D calculation by auto
      ultimately show ?thesis using w(1) False n r' True
        by (intro exI [of _ Rx_OK] exI [of _ r'] exI [of _ D] exI [of _ "V(bits c := v)"]) (simp add: insert_by_def radix_occupy_def paged_same set_value_mem [OF r'(1)])
    next
      case busy: False
      then show ?thesis using w(1) False n inv D by (auto simp: insert_by_def radix_occupy_def content_def paged_same)
    qed
  next
    case True
    then obtain b bs where b: "bits c' = b # bs" "D (ks @ [b]) = None" using w(5) by auto
    have "D (ks @ b # bs) = None" using shape_prefix [OF s, of "ks @ [b]" bs] b(2) by (cases "D (ks @ b # bs)") auto
    then have none: "content D V (bits c) = None" using b(1) w(3) by (simp add: content_def)
    from grow_spec [OF w(2) inv w(4)] b w(3) c(2) obtain res r1 D' V' where g: "grow A c' node r = Some (res, r1)" "radix_inv A L r1 D' V'"
      "content D' V' = content D V" "\<forall>p. res = Some p \<longrightarrow> D' (bits c) = Some p" "paged A (length (bits c')) (res \<noteq> None) r r1" by auto
    have "length (bits c') \<le> length (bits c)" using w(3) by simp
    note pd = paged_mono [OF g(5) this]
    show ?thesis
    proof (cases res)
      case None
      then show ?thesis using w(1) True g none pd by (auto simp: insert_by_def)
    next
      case (Some p)
      then have D: "D' (bits c) = Some p" using g(4) by simp
      obtain r' where r': "radix_set_value p v r1 = Some r'" "radix_inv A L r' D' (V'(bits c := v))" using inv_set_value [OF g(2) D] by blast
      moreover have "content D' (V'(bits c := v)) = (if v \<noteq> NGX_RADIX_NO_VALUE then (content D V)(bits c \<mapsto> v) else content D V)"
        using content_value [of D' "bits c" V' v] D g(3) none by auto
      moreover have "paged A (length (bits c)) True r r'" using paged_cong [of r' r1, OF _ _ pd] set_value_mem [OF r'(1)] Some by simp
      ultimately show ?thesis using w(1) True g(1) Some none
        by (intro exI [of _ Rx_OK] exI [of _ r'] exI [of _ D'] exI [of _ "V'(bits c := v)"]) (simp add: insert_by_def)
    qed
  qed
qed

lemma descend_spec:
  assumes "ok c" and s: "shape L h root D V"
  shows "descend h c (at D pre) = Some (at D (pre @ bits c))"
  using assms(1)
proof (induction "bits c" arbitrary: c pre)
  case Nil
  then show ?case using descend_end by simp
next
  case (Cons b bs)
  note a = after [OF Cons(3) Cons(2) [symmetric]]
  show ?case
  proof (cases "D pre")
    case None
    moreover have "D (pre @ bits c) = None" using shape_prefix [OF s, of pre "bits c"] None by (cases "D (pre @ bits c)") auto
    ultimately show ?thesis using descend_null [OF Cons(3)] by (simp add: at_def)
  next
    case (Some p)
    then have "p \<noteq> 0" using at_zero [OF s, of pre] by simp
    then have "descend h c (at D pre) = descend h (after c) (at D (pre @ [b]))"
      using descend_step [OF Cons(3) Cons(2) [symmetric], of p h] Some shape_node [OF s Some] by simp
    then show ?thesis using Cons(1) [of "after c" "pre @ [b]"] a Cons(2) [symmetric] by simp
  qed
qed

lemma delete_spec:
  assumes c: "ok c" and inv: "radix_inv A L r D V" and root: "bits c \<noteq> [] \<or> (\<exists>bs. bs \<noteq> [] \<and> content D V bs \<noteq> None)"
  shows "\<exists>rc r' D' V'. (do {
       node \<leftarrow> descend (rx_nodes r) c (rt_root (rx_tree r));
       radix_delete_node node r
     }) = Some (rc, r') \<and> radix_inv A L r' D' V' \<and> content D' V' = (content D V)(bits c := None) \<and>
     (rc = Rx_OK \<or> rc = Rx_ERROR \<and> content D V (bits c) = None)"
proof -
  have s: "shape L (rx_nodes r) (rt_root (rx_tree r)) D V" using inv by (simp add: radix_inv_def)
  then have "at D [] = rt_root (rx_tree r)" by (simp add: shape_def)
  then have d: "descend (rx_nodes r) c (rt_root (rx_tree r)) = Some (at D (bits c))" using descend_spec [OF c s, of "[]"] by simp
  show ?thesis
  proof (cases "D (bits c)")
    case None
    then have "content D V (bits c) = None" by (simp add: content_def)
    then show ?thesis using d None inv by (auto simp: at_def radix_delete_node_def fun_upd_idem)
  next
    case (Some p)
    then have p: "p \<noteq> 0" using at_zero [OF s, of "bits c"] by simp
    note n = shape_node [OF s Some]
    show ?thesis
    proof (cases "at D (bits c @ [True]) \<noteq> 0 \<or> at D (bits c @ [False]) \<noteq> 0")
      case inner: True
      obtain r' where r': "radix_set_value p NGX_RADIX_NO_VALUE r = Some r'" "radix_inv A L r' D (V(bits c := NGX_RADIX_NO_VALUE))"
        using inv_set_value [OF inv Some] by blast
      show ?thesis
      proof (cases "V (bits c) = NGX_RADIX_NO_VALUE")
        case True
        then have "content D V (bits c) = None" by (simp add: content_def)
        then show ?thesis using d Some p n inner True inv by (auto simp: radix_delete_node_def fun_upd_idem)
      next
        case False
        then show ?thesis using d Some p n inner r' content_value [of D "bits c" V NGX_RADIX_NO_VALUE] by (auto simp: radix_delete_node_def)
      qed
    next
      case leaf: False
      then have l: "D (bits c @ [b]) = None" for b using at_zero [OF s] by (cases b) auto
      have "bits c \<noteq> []"
      proof
        assume e: "bits c = []"
        then obtain b bs where "content D V (b # bs) \<noteq> None" using root by (metis list.exhaust)
        then obtain q where "D ([b] @ bs) = Some q" by (auto simp: content_def split: if_splits)
        then show False using shape_prefix [OF s, of "[b]" bs q] l [of b] e by auto
      qed
      from inv_prune [OF inv this Some l] obtain r' D' where "radix_prune p r = Some r'" "radix_inv A L r' D' V"
        "content D' V = (content D V)(bits c := None)" by blast
      then show ?thesis using d Some p n leaf
        by (intro exI [of _ Rx_OK] exI [of _ r'] exI [of _ D'] exI [of _ V]) (simp add: radix_delete_node_def)
    qed
  qed
qed

end

section \<open>The search\<close>

text \<open>The value of the longest prefix of a key that has one.\<close>

definition longest_match :: "(bits \<Rightarrow> u64 option) \<Rightarrow> bits \<Rightarrow> u64 \<Rightarrow> bool" where
  "longest_match M bs v \<longleftrightarrow>
     (\<exists>n\<le>length bs. M (take n bs) = Some v \<and> (\<forall>k\<le>length bs. n < k \<longrightarrow> M (take k bs) = None)) \<or>
     v = NGX_RADIX_NO_VALUE \<and> (\<forall>k\<le>length bs. M (take k bs) = None)"

fun best :: "(bits \<Rightarrow> u64 option) \<Rightarrow> bits \<Rightarrow> bits \<Rightarrow> u64 \<Rightarrow> u64" where
  "best M pre [] v = (case M pre of None \<Rightarrow> v | Some w \<Rightarrow> w)"
| "best M pre (b # bs) v = best M (pre @ [b]) bs (case M pre of None \<Rightarrow> v | Some w \<Rightarrow> w)"

lemma best_none: "(\<And>ks. M (pre @ ks) = None) \<Longrightarrow> best M pre bs v = v"
proof (induction bs arbitrary: pre v)
  case Nil
  then show ?case using Nil [of "[]"] by simp
next
  case (Cons b bs)
  have "M ((pre @ [b]) @ ks) = None" for ks using Cons.prems [of "b # ks"] by simp
  from Cons.IH [OF this] show ?case using Cons.prems [of "[]"] by simp
qed

lemma best_snoc: "best M pre (bs @ [b]) v = (case M (pre @ bs @ [b]) of None \<Rightarrow> best M pre bs v | Some w \<Rightarrow> w)"
  by (induction bs arbitrary: pre v) (simp_all cong: option.case_cong)

lemma best_longest: "longest_match M bs (best M [] bs NGX_RADIX_NO_VALUE)"
proof (induction bs rule: rev_induct)
  case Nil
  then show ?case by (auto simp: longest_match_def split: option.splits)
next
  case (snoc b bs)
  have k: "M (take k (bs @ [b])) = (if k \<le> length bs then M (take k bs) else M (bs @ [b]))" if "k \<le> length (bs @ [b])" for k
    using that by (auto simp: le_Suc_eq)
  show ?case
  proof (cases "M (bs @ [b])")
    case None
    then show ?thesis using snoc k unfolding longest_match_def best_snoc by (force simp: le_Suc_eq)
  next
    case (Some w)
    then show ?thesis unfolding longest_match_def best_snoc by (intro disjI1 exI [of _ "length (bs @ [b])"]) simp
  qed
qed

locale radix_search =
  fixes ok :: "'c \<Rightarrow> bool" and bits :: "'c \<Rightarrow> bits"
    and look :: "(ptr \<Rightarrow> ngx_radix_node option) \<Rightarrow> 'c \<Rightarrow> ptr \<Rightarrow> u64 \<Rightarrow> u64 option"
    and after :: "'c \<Rightarrow> 'c" and turn :: "'c \<Rightarrow> bool"
  assumes after: "ok c \<Longrightarrow> bits c = b # bs \<Longrightarrow> ok (after c) \<and> bits (after c) = bs \<and> turn c = b"
    and look_null: "look h c 0 v = Some v"
    and look_step: "ok c \<Longrightarrow> node \<noteq> 0 \<Longrightarrow> look h c node v = do {
      n \<leftarrow> h node;
      look h (after c) (child (turn c) n) (if rx_value n \<noteq> NGX_RADIX_NO_VALUE then rx_value n else v)
    }"
begin

lemma look_spec:
  assumes "ok c" and s: "shape L h root D V" and "D pre = Some node" and "length pre + length (bits c) = L"
  shows "look h c node v = Some (best (content D V) pre (bits c) v)"
  using assms(1,3,4)
proof (induction "bits c" arbitrary: c pre node v)
  case Nil
  have "D (pre @ [turn c]) = None" using shape_length [OF s, of "pre @ [turn c]"] Nil by (cases "D (pre @ [turn c])") auto
  moreover have "node \<noteq> 0" using at_zero [OF s, of pre] Nil by simp
  ultimately show ?case using look_step [OF Nil(2), of node h v] shape_node [OF s Nil(3)] Nil look_null
    by (simp add: at_def content_def)
next
  case (Cons b bs)
  note a = after [OF Cons(3) Cons(2) [symmetric]]
  have "node \<noteq> 0" using at_zero [OF s, of pre] Cons by simp
  then have st: "look h c node v = look h (after c) (at D (pre @ [b])) (case content D V pre of None \<Rightarrow> v | Some w \<Rightarrow> w)"
    using look_step [OF Cons(3), of node h v] shape_node [OF s Cons(4)] a Cons(4) by (simp add: content_def)
  show ?case
  proof (cases "D (pre @ [b])")
    case None
    have "content D V ((pre @ [b]) @ ks) = None" for ks
      using shape_prefix [OF s, of "pre @ [b]" ks] None by (cases "D ((pre @ [b]) @ ks)") (auto simp: content_def)
    then have "best (content D V) pre (bits c) v = (case content D V pre of None \<Rightarrow> v | Some w \<Rightarrow> w)"
      unfolding Cons(2) [symmetric] best.simps by (rule best_none)
    then show ?thesis using st None look_null by (simp add: at_def)
  next
    case (Some p)
    then show ?thesis using st Cons(1) [of "after c" "pre @ [b]" p] a Cons(2) [symmetric] Cons(5) by simp
  qed
qed

lemma find_spec:
  assumes "ok c" and "radix_inv A L r D V" and "length (bits c) = L"
  shows "\<exists>v. look (rx_nodes r) c (rt_root (rx_tree r)) NGX_RADIX_NO_VALUE = Some v \<and> longest_match (content D V) (bits c) v"
proof -
  have s: "shape L (rx_nodes r) (rt_root (rx_tree r)) D V" using assms(2) by (simp add: radix_inv_def)
  then have "D [] = Some (rt_root (rx_tree r))" by (simp add: shape_def)
  from look_spec [OF assms(1) s this] show ?thesis using assms(3) best_longest by simp
qed

end

end
