(* ===== verification/Ngx_Radix_Keys.thy ===== *)
theory Ngx_Radix_Keys
  imports Ngx_Radix_Loops
begin

text \<open>
  The loops of the functions for 32 and for 128 bits satisfy the laws of \<^verbatim>\<open>radix_loops\<close> and \<^verbatim>\<open>radix_search\<close>.
\<close>

section \<open>32 bits\<close>

type_synonym cursor32 = "u32 \<times> u32 \<times> u32"

lemma shift_less: "w \<noteq> 0 \<Longrightarrow> unat (drop_bit 1 w) < unat w" for w :: "'a::len word"
proof -
  assume "w \<noteq> 0"
  then have "0 < unat w" by (simp add: unat_gt_0)
  then show ?thesis by (subst unat_drop_bit_eq) (simp add: drop_bit_eq_div)
qed

function bits32 :: "cursor32 \<Rightarrow> bits" where
  "bits32 (key, mk, bt) = (if bt AND mk = 0 then [] else (key AND bt \<noteq> 0) # bits32 (key, mk, drop_bit 1 bt))"
  by pat_completeness auto
termination
  by (relation "measure (\<lambda>(key, mk, bt). unat bt)") (auto simp del: One_nat_def intro!: shift_less)

declare bits32.simps [simp del]

fun after32 :: "cursor32 \<Rightarrow> cursor32" where
  "after32 (key, mk, bt) = (key, mk, drop_bit 1 bt)"

fun walk32 :: "(ptr \<Rightarrow> ngx_radix_node option) \<Rightarrow> cursor32 \<Rightarrow> ptr \<Rightarrow> ptr \<Rightarrow> (cursor32 \<times> ptr \<times> ptr) option" where
  "walk32 h (key, mk, bt) node nxt = map_option (\<lambda>(bt, node, nxt). ((key, mk, bt), node, nxt)) (radix32_walk h key mk bt node nxt)"

fun grow32 :: "allocator \<Rightarrow> cursor32 \<Rightarrow> ptr \<Rightarrow> radix \<Rightarrow> (ptr option \<times> radix) option" where
  "grow32 A (key, mk, bt) node r = radix32_grow A key mk bt node r"

fun descend32 :: "(ptr \<Rightarrow> ngx_radix_node option) \<Rightarrow> cursor32 \<Rightarrow> ptr \<Rightarrow> ptr option" where
  "descend32 h (key, mk, bt) node = radix32_descend h key mk bt node"

lemma bits32_cases:
  "bits32 (key, mk, bt) = [] \<longleftrightarrow> bt AND mk = 0"
  "bits32 (key, mk, bt) = b # bs \<longleftrightarrow> bt AND mk \<noteq> 0 \<and> b = (key AND bt \<noteq> 0) \<and> bits32 (key, mk, drop_bit 1 bt) = bs"
  by (auto simp: bits32.simps [of key mk bt])

lemma grow32_eta: "grow32 A (key, mk, bt) node = radix32_grow A key mk bt node"
  by (rule ext) simp

interpretation r32: radix_loops "\<lambda>_. True" bits32 walk32 grow32 descend32 after32
proof (unfold_locales, goal_cases)
  case (1 c b bs)
  then show ?case by (cases c) (simp add: bits32_cases)
next
  case (2 c h node nxt)
  then show ?case by (cases c) (simp add: bits32_cases radix32_walk.simps)
next
  case (3 c b bs h node nxt)
  then show ?case by (cases c; cases "h node") (auto simp: bits32_cases radix32_walk.simps [of h _ _ _ node] Let_def)
next
  case (4 c A node r)
  then show ?case by (cases c) (simp add: bits32_cases radix32_grow.simps)
next
  case (5 c b bs A node r)
  then show ?case
  proof (cases c)
    case (fields key mk bt)
    then have m: "bt AND mk \<noteq> 0" and b: "b = (key AND bt \<noteq> 0)" using 5 by (simp_all add: bits32_cases)
    show ?thesis unfolding fields after32.simps grow32_eta b radix32_grow.simps [of A key mk bt] if_P [OF m] ..
  qed
next
  case (6 c h)
  then show ?case by (cases c) (simp add: radix32_descend.simps)
next
  case (7 c h node)
  then show ?case by (cases c) (simp add: bits32_cases radix32_descend.simps)
next
  case (8 c b bs node h)
  then show ?case by (cases c) (auto simp: bits32_cases radix32_descend.simps [of h _ _ _ node])
qed

fun look32 :: "(ptr \<Rightarrow> ngx_radix_node option) \<Rightarrow> u32 \<times> u32 \<Rightarrow> ptr \<Rightarrow> u64 \<Rightarrow> u64 option" where
  "look32 h (key, bt) node v = radix32_look h key bt node v"

interpretation s32: radix_search "\<lambda>_. True" "\<lambda>(key, bt). bits32 (key, - 1, bt)" look32
    "\<lambda>(key, bt). (key, drop_bit 1 bt)" "\<lambda>(key, bt). key AND bt \<noteq> 0"
proof (unfold_locales, goal_cases)
  case (1 c b bs)
  then show ?case by (cases c) (simp add: bits32_cases)
next
  case (2 h c v)
  then show ?case by (cases c) (simp add: radix32_look.simps)
next
  case (3 c node h v)
  then show ?case by (cases c) (simp add: radix32_look.simps [of h _ _ node] Let_def)
qed

section \<open>128 bits\<close>

type_synonym cursor128 = "u8 list \<times> u8 list \<times> nat \<times> u8"

function bits128 :: "cursor128 \<Rightarrow> bits" where
  "bits128 (key, mk, i, bt) = (if 16 \<le> i \<or> bt AND mk ! i = 0 then []
     else (key ! i AND bt \<noteq> 0) # bits128 (key, mk, radix128_next i bt))"
  by pat_completeness auto
termination
proof (relation "measures [\<lambda>(key, mk, i, bt). 16 - i, \<lambda>(key, mk, i, bt). unat bt]", simp, goal_cases)
  case (1 key mk i bt)
  then have "bt \<noteq> 0" by auto
  then have "unat (drop_bit 1 bt) < unat bt" by (rule shift_less)
  then show ?case using 1 by (auto simp: radix128_next_def Let_def)
qed

declare bits128.simps [simp del]

fun ok128 :: "cursor128 \<Rightarrow> bool" where
  "ok128 (key, mk, i, bt) \<longleftrightarrow> length key = 16 \<and> length mk = 16 \<and> i \<le> 16"

fun after128 :: "cursor128 \<Rightarrow> cursor128" where
  "after128 (key, mk, i, bt) = (key, mk, radix128_next i bt)"

fun walk128 :: "(ptr \<Rightarrow> ngx_radix_node option) \<Rightarrow> cursor128 \<Rightarrow> ptr \<Rightarrow> ptr \<Rightarrow> (cursor128 \<times> ptr \<times> ptr) option" where
  "walk128 h (key, mk, i, bt) node nxt =
     (if i = 16 then Some ((key, mk, i, bt), node, nxt)
      else map_option (\<lambda>(i, bt, node, nxt). ((key, mk, i, bt), node, nxt)) (radix128_walk h key mk i bt node nxt))"

fun grow128 :: "allocator \<Rightarrow> cursor128 \<Rightarrow> ptr \<Rightarrow> radix \<Rightarrow> (ptr option \<times> radix) option" where
  "grow128 A (key, mk, i, bt) node r = (if i = 16 then Some (Some node, r) else radix128_grow A key mk i bt node r)"

fun descend128 :: "(ptr \<Rightarrow> ngx_radix_node option) \<Rightarrow> cursor128 \<Rightarrow> ptr \<Rightarrow> ptr option" where
  "descend128 h (key, mk, i, bt) node = (if i = 16 then Some node else radix128_descend h key mk i bt node)"

lemma bits128_cases:
  "bits128 (key, mk, i, bt) = [] \<longleftrightarrow> 16 \<le> i \<or> bt AND mk ! i = 0"
  "bits128 (key, mk, i, bt) = b # bs \<longleftrightarrow> i < 16 \<and> bt AND mk ! i \<noteq> 0 \<and> b = (key ! i AND bt \<noteq> 0) \<and> bits128 (key, mk, radix128_next i bt) = bs"
  by (auto simp: bits128.simps [of key mk i bt])

lemma bits128_end [simp]: "bits128 (key, mk, 16, bt) = []"
  by (simp add: bits128_cases)

lemma grow128_eta: "grow128 A (key, mk, i, bt) node = (\<lambda>r. if i = 16 then Some (Some node, r) else radix128_grow A key mk i bt node r)"
  by (rule ext) simp

lemma next128_le: "i < 16 \<Longrightarrow> fst (radix128_next i bt) \<le> 16"
  by (auto simp: radix128_next_def Let_def)

interpretation r128: radix_loops ok128 bits128 walk128 grow128 descend128 after128
proof (unfold_locales, goal_cases)
  case (1 c b bs)
  then show ?case
  proof (cases c)
    case (fields key mk i bt)
    then show ?thesis using 1 next128_le [of i bt] by (cases "radix128_next i bt") (simp add: bits128_cases)
  qed
next
  case (2 c h node nxt)
  then show ?case by (cases c) (auto simp: bits128_cases radix128_walk.simps byte_def)
next
  case (3 c b bs h node nxt)
  then show ?case
  proof (cases c)
    case (fields key mk i bt)
    then show ?thesis using 3
      by (cases "radix128_next i bt"; cases "h node") (auto simp: bits128_cases radix128_walk.simps [of h _ _ _ _ node] byte_def Let_def)
  qed
next
  case (4 c A node r)
  then show ?case by (cases c) (auto simp: bits128_cases radix128_grow.simps byte_def)
next
  case (5 c b bs A node r)
  then show ?case
  proof (cases c)
    case (fields key mk i bt)
    then have m: "bt AND mk ! i \<noteq> 0" and b: "b = (key ! i AND bt \<noteq> 0)" and i: "byte mk i = Some (mk ! i)" "byte key i = Some (key ! i)" "i \<noteq> 16"
      using 5 by (simp_all add: bits128_cases byte_def)
    obtain j bu where n: "radix128_next i bt = (j, bu)" by fastforce
    show ?thesis unfolding fields after128.simps n grow128_eta b radix128_grow.simps [of A key mk i bt] i(1,2) bind.bind_lunit if_P [OF m]
        if_not_P [OF i(3)] Let_def prod.case ..
  qed
next
  case (6 c h)
  then show ?case by (cases c) (auto simp: radix128_descend.simps)
next
  case (7 c h node)
  then show ?case by (cases c) (auto simp: bits128_cases radix128_descend.simps byte_def)
next
  case (8 c b bs node h)
  then show ?case
  proof (cases c)
    case (fields key mk i bt)
    then show ?thesis using 8
      by (cases "radix128_next i bt") (simp add: bits128_cases radix128_descend.simps [of h _ _ _ _ node] byte_def Let_def)
  qed
qed

text \<open>The search reads one byte behind a key of which all 128 bits are in the tree.\<close>

fun bits_from :: "u8 list \<times> nat \<times> u8 \<Rightarrow> bits" where
  "bits_from (key, i, bt) = bits128 (key, replicate 16 (- 1), i, bt)"

fun look_after :: "u8 list \<times> nat \<times> u8 \<Rightarrow> u8 list \<times> nat \<times> u8" where
  "look_after (key, i, bt) = (key, if drop_bit 1 bt = 0 then (i + 1, 0x80) else (i, drop_bit 1 bt))"

fun look128 :: "(ptr \<Rightarrow> ngx_radix_node option) \<Rightarrow> u8 list \<times> nat \<times> u8 \<Rightarrow> ptr \<Rightarrow> u64 \<Rightarrow> u64 option" where
  "look128 h (key, i, bt) node v = radix128_look h key i bt node v"

fun look_ok :: "u8 list \<times> nat \<times> u8 \<Rightarrow> bool" where
  "look_ok (key, i, bt) \<longleftrightarrow> 16 < length key \<and> i \<le> 16 \<and> bt \<noteq> 0"

interpretation s128: radix_search look_ok bits_from look128 look_after "\<lambda>(key, i, bt). key ! i AND bt \<noteq> 0"
proof (unfold_locales, goal_cases)
  case (1 c b bs)
  then show ?case
  proof (cases c)
    case (fields key i bt)
    then show ?thesis using 1 by (auto simp: bits128_cases radix128_next_def Let_def)
  qed
next
  case (2 h c v)
  then show ?case by (cases c) (simp add: radix128_look.simps)
next
  case (3 c node h v)
  then show ?case by (cases c) (simp add: radix128_look.simps [of h _ _ _ node] byte_def Let_def)
qed

end
