(* ===== verification/Ngx_Radix_Props.thy ===== *)
theory Ngx_Radix_Props
  imports Ngx_Radix_Keys Ngx_Pool
begin

text \<open>
  The radix tree refines a finite map from prefixes of addresses to values, for 32 and for 128 bits; the search returns the value
  of the longest prefix.
\<close>

section \<open>Prefixes\<close>

definition word_bits :: "'a::len word \<Rightarrow> bits" where
  "word_bits w = map (bit w) (rev [0..<LENGTH('a)])"

text \<open>The bits of a key under the leading ones of a mask.\<close>

definition net :: "bits \<Rightarrow> bits \<Rightarrow> bits" where
  "net key mk = map fst (takeWhile snd (zip key mk))"

definition addr_bits :: "u8 list \<Rightarrow> bits" where
  "addr_bits key = concat (map word_bits (take 16 key))"

lemma net_Cons [simp]: "net (k # ks) (m # ms) = (if m then k # net ks ms else [])"
  by (simp add: net_def)

lemma net_Nil [simp]: "net [] ms = []"
  by (simp add: net_def)

lemma net_ones: "length ks \<le> n \<Longrightarrow> net ks (replicate n True) = ks"
proof (induction ks arbitrary: n)
  case (Cons k ks)
  then show ?case by (cases n) simp_all
qed simp

lemma net_length: "length (net ks ms) \<le> length ks"
  by (induction ks ms rule: list_induct2') (simp_all add: net_def)

lemma shift_exp: "Suc n < LENGTH('a) \<Longrightarrow> drop_bit 1 (2 ^ Suc n :: 'a::len word) = 2 ^ n"
  by (rule bit_eqI) (auto simp: bit_simps simp del: power_Suc)

lemma shift_one: "drop_bit 1 (1 :: 'a::len word) = 0"
  by (rule bit_eqI) (simp add: bit_simps)

lemma and_exp: "2 ^ n AND w = 0 \<longleftrightarrow> \<not> bit w n" "w AND 2 ^ n = 0 \<longleftrightarrow> \<not> bit w n" for w :: "'a::len word"
  by (simp_all add: and_exp_eq_0_iff_not_bit and.commute [of "2 ^ n"])

lemma bits32_exp: "n < 32 \<Longrightarrow> bits32 (key, mk, 2 ^ n) = net (map (bit key) (rev [0..<Suc n])) (map (bit mk) (rev [0..<Suc n]))"
proof (induction n)
  case 0
  have "bits32 (key, mk, 0) = []" by (simp add: bits32_cases)
  then show ?case using and_exp(1) [of 0 mk] and_exp(2) [of key 0] by (simp add: bits32.simps [of key mk 1] shift_one del: One_nat_def)
next
  case (Suc n)
  then show ?case
    using and_exp(1) [of "Suc n" mk] and_exp(2) [of key "Suc n"] shift_exp [where 'a = 32, of n]
    by (simp add: bits32.simps [of key mk "2 ^ Suc n"] del: power_Suc One_nat_def)
qed

lemma bits32_net: "bits32 (key, mk, 0x80000000) = net (word_bits key) (word_bits mk)"
  using bits32_exp [of 31 key mk] by (simp add: word_bits_def)

lemma word_bits_length [simp]: "length (word_bits (w :: 'a::len word)) = LENGTH('a)"
  by (simp add: word_bits_def)

lemma word_bits_ones: "word_bits (- 1 :: 'a::len word) = replicate LENGTH('a) True"
  unfolding word_bits_def by (rule nth_equalityI) (auto simp: rev_nth)

lemma replicate_concat: "concat (replicate n (replicate k x)) = replicate (n * k) x"
  by (induction n) (simp_all add: replicate_add)

lemma next128_exp:
  assumes "n < 8" and "i < 16"
  shows "radix128_next i (2 ^ n) = (if n = 0 then (if i = 15 then (16, 0) else (i + 1, 2 ^ 7)) else (i, 2 ^ (n - 1)))"
proof (cases n)
  case 0
  then show ?thesis by (simp add: radix128_next_def Let_def shift_one del: One_nat_def)
next
  case (Suc m)
  have "(2 :: u8) ^ m \<noteq> 0" using assms(1) Suc by (simp add: exp_eq_0_imp_not_bit)
  then show ?thesis using Suc shift_exp [where 'a = 8, of m] assms(1) by (simp add: radix128_next_def Let_def del: power_Suc One_nat_def)
qed

text \<open>The bits from position \<open>n\<close> of byte \<open>i\<close> on.\<close>

definition rest_bits :: "u8 list \<Rightarrow> nat \<Rightarrow> nat \<Rightarrow> bits" where
  "rest_bits s i n = map (bit (s ! i)) (rev [0..<Suc n]) @ concat (map word_bits (drop (Suc i) (take 16 s)))"

lemma rest_step: "rest_bits s i (Suc n) = bit (s ! i) (Suc n) # rest_bits s i n"
  by (simp add: rest_bits_def)

lemma rest_byte: "Suc i < 16 \<Longrightarrow> 16 \<le> length s \<Longrightarrow> rest_bits s i 0 = bit (s ! i) 0 # rest_bits s (Suc i) 7"
proof -
  assume "Suc i < 16" "16 \<le> length s"
  then have "drop (Suc i) (take 16 s) = s ! Suc i # drop (Suc (Suc i)) (take 16 s)" by (subst Cons_nth_drop_Suc [symmetric]) simp_all
  then show ?thesis by (simp add: rest_bits_def word_bits_def)
qed

lemma rest_last: "length s = 16 \<or> 16 \<le> length s \<Longrightarrow> rest_bits s 15 0 = [bit (s ! 15) 0]"
  by (auto simp: rest_bits_def)

lemma bits128_exp:
  assumes "16 \<le> length key" "16 \<le> length mk"
  shows "m = 8 * (15 - i) + n \<Longrightarrow> i < 16 \<Longrightarrow> n < 8 \<Longrightarrow> bits128 (key, mk, i, 2 ^ n) = net (rest_bits key i n) (rest_bits mk i n)"
proof (induction m arbitrary: i n)
  case 0
  then have "i = 15" "n = 0" by auto
  then show ?case using next128_exp [of 0 15] and_exp(1) [of 0 "mk ! 15"] and_exp(2) [of "key ! 15" 0] assms
    by (simp add: bits128.simps [of key mk 15] rest_last)
next
  case (Suc m)
  note nx = next128_exp [OF Suc.prems(3,2)] and ae = and_exp(1) [of n "mk ! i"] and_exp(2) [of "key ! i" n]
  show ?case
  proof (cases n)
    case 0
    then have i: "i < 15" "m = 8 * (15 - (i + 1)) + 7" using Suc.prems by auto
    then show ?thesis using 0 nx ae Suc.IH [of "i + 1" 7] rest_byte [of i key] rest_byte [of i mk] assms
      by (simp add: bits128.simps [of key mk i])
  next
    case (Suc k)
    then show ?thesis using nx ae Suc.IH [of i k] Suc.prems by (simp add: bits128.simps [of key mk i "2 ^ Suc k"] rest_step del: power_Suc)
  qed
qed

lemma rest_all: "16 \<le> length s \<Longrightarrow> rest_bits s 0 7 = addr_bits s"
  by (cases s) (simp_all add: rest_bits_def addr_bits_def word_bits_def)

lemma bits128_net: "16 \<le> length key \<Longrightarrow> 16 \<le> length mk \<Longrightarrow> bits128 (key, mk, 0, 0x80) = net (addr_bits key) (addr_bits mk)"
  using bits128_exp [of key mk 127 0 7] by (simp add: rest_all)

lemma addr_bits_length: "16 \<le> length key \<Longrightarrow> length (addr_bits key) = 128"
  by (simp add: addr_bits_def length_concat comp_def sum_list_triv)

lemma addr_bits_ones: "addr_bits (replicate 16 (- 1)) = replicate 128 True"
  by (simp add: addr_bits_def word_bits_ones map_replicate replicate_concat)

section \<open>The refinement\<close>

text \<open>\<open>r\<close> holds the map \<open>M\<close> from prefixes of at most \<open>L\<close> bits to values.\<close>

definition radix_ok :: "allocator \<Rightarrow> nat \<Rightarrow> radix \<Rightarrow> (bits \<Rightarrow> u64 option) \<Rightarrow> bool" where
  "radix_ok A L r M \<longleftrightarrow> (\<exists>D V. radix_inv A L r D V \<and> M = content D V)"

definition refines_insert :: "allocator \<Rightarrow> nat \<Rightarrow> radix \<Rightarrow> (bits \<Rightarrow> u64 option) \<Rightarrow> bits \<Rightarrow> u64 \<Rightarrow> (radix_rc \<times> radix) option \<Rightarrow> bool" where
  "refines_insert A L r M bs v res \<longleftrightarrow> (\<exists>rc r'. res = Some (rc, r') \<and>
     radix_ok A L r' (if rc = Rx_OK \<and> v \<noteq> NGX_RADIX_NO_VALUE then M(bs \<mapsto> v) else M) \<and>
     (rc = Rx_BUSY \<longleftrightarrow> M bs \<noteq> None) \<and> paged A (length bs) (rc \<noteq> Rx_ERROR) r r')"

definition refines_delete :: "allocator \<Rightarrow> nat \<Rightarrow> (bits \<Rightarrow> u64 option) \<Rightarrow> bits \<Rightarrow> (radix_rc \<times> radix) option \<Rightarrow> bool" where
  "refines_delete A L M bs res \<longleftrightarrow> (\<exists>rc r'. res = Some (rc, r') \<and> radix_ok A L r' (M(bs := None)) \<and>
     (rc = Rx_OK \<or> rc = Rx_ERROR \<and> M bs = None))"

lemma insert32_by: "ngx_radix32tree_insert A key mk v r = insert_by (walk32 (rx_nodes r)) (grow32 A) (key, mk, 0x80000000) v r"
  by (cases "radix32_walk (rx_nodes r) key mk 0x80000000 (rt_root (rx_tree r)) (rt_root (rx_tree r))")
    (auto simp: ngx_radix32tree_insert_def insert_by_def)

lemma insert128_by:
  assumes inv: "radix_inv A L r D V" and len: "length key = 16" "length mk = 16"
  shows "ngx_radix128tree_insert A key mk v r = insert_by (walk128 (rx_nodes r)) (grow128 A) (key, mk, 0, 0x80) v r"
proof -
  have s: "shape L (rx_nodes r) (rt_root (rx_tree r)) D V" and root: "D [] = Some (rt_root (rx_tree r))"
    using inv by (simp_all add: radix_inv_def shape_def)
  obtain c' ks node nxt where w: "walk128 (rx_nodes r) (key, mk, 0, 0x80) (rt_root (rx_tree r)) (rt_root (rx_tree r)) = Some (c', node, nxt)"
    "if nxt = 0 then \<exists>b bs. bits128 c' = b # bs \<and> D ([] @ ks @ [b]) = None else bits128 c' = []"
    using r128.walk_spec [OF _ s root, of "(key, mk, 0, 0x80)"] len by auto
  then obtain i bt where c: "c' = (key, mk, i, bt)"
    "radix128_walk (rx_nodes r) key mk 0 0x80 (rt_root (rx_tree r)) (rt_root (rx_tree r)) = Some (i, bt, node, nxt)" by auto
  have "nxt = 0 \<longrightarrow> i < 16" using w(2) c(1) by (auto simp: bits128_cases)
  then show ?thesis using w(1) c by (auto simp: ngx_radix128tree_insert_def insert_by_def)
qed

lemma refines_insertI:
  assumes "\<exists>rc r' D' V'. res = Some (rc, r') \<and> radix_inv A L r' D' V' \<and> (rc = Rx_BUSY \<longleftrightarrow> content D V bs \<noteq> None) \<and> paged A (length bs) (rc \<noteq> Rx_ERROR) r r' \<and>
    content D' V' = (if rc = Rx_OK \<and> v \<noteq> NGX_RADIX_NO_VALUE then (content D V)(bs \<mapsto> v) else content D V)"
  shows "refines_insert A L r (content D V) bs v res"
proof -
  obtain rc r' D' V' where r: "res = Some (rc, r')" "radix_inv A L r' D' V'" "rc = Rx_BUSY \<longleftrightarrow> content D V bs \<noteq> None" "paged A (length bs) (rc \<noteq> Rx_ERROR) r r'"
    "content D' V' = (if rc = Rx_OK \<and> v \<noteq> NGX_RADIX_NO_VALUE then (content D V)(bs \<mapsto> v) else content D V)" using assms by blast
  then have "radix_ok A L r' (if rc = Rx_OK \<and> v \<noteq> NGX_RADIX_NO_VALUE then (content D V)(bs \<mapsto> v) else content D V)"
    unfolding radix_ok_def by metis
  then show ?thesis unfolding refines_insert_def using r by blast
qed

lemma refines_deleteI:
  assumes "\<exists>rc r' D' V'. res = Some (rc, r') \<and> radix_inv A L r' D' V' \<and> content D' V' = (content D V)(bs := None) \<and>
    (rc = Rx_OK \<or> rc = Rx_ERROR \<and> content D V bs = None)"
  shows "refines_delete A L (content D V) bs res"
  using assms unfolding refines_delete_def radix_ok_def by metis

lemma insert_ok:
  assumes "radix_ok A L r M"
  shows "32 \<le> L \<Longrightarrow> refines_insert A L r M (net (word_bits key) (word_bits mk)) v (ngx_radix32tree_insert A key mk v r)"
    and "128 \<le> L \<Longrightarrow> length a = 16 \<Longrightarrow> length m = 16 \<Longrightarrow>
      refines_insert A L r M (net (addr_bits a) (addr_bits m)) v (ngx_radix128tree_insert A a m v r)"
proof -
  obtain D V where inv: "radix_inv A L r D V" and M: "M = content D V" using assms by (auto simp: radix_ok_def)
  show "refines_insert A L r M (net (word_bits key) (word_bits mk)) v (ngx_radix32tree_insert A key mk v r)" if "32 \<le> L"
    unfolding M insert32_by bits32_net [symmetric]
    by (rule refines_insertI, rule r32.insert_spec [OF TrueI _ inv])
      (use net_length [of "word_bits key" "word_bits mk"] that in \<open>simp add: bits32_net\<close>)
  show "refines_insert A L r M (net (addr_bits a) (addr_bits m)) v (ngx_radix128tree_insert A a m v r)"
    if l: "128 \<le> L" "length a = 16" "length m = 16"
  proof -
    have b: "bits128 (a, m, 0, 0x80) = net (addr_bits a) (addr_bits m)" using bits128_net [of a m] l by simp
    show ?thesis unfolding M insert128_by [OF inv l(2,3)] b [symmetric]
      by (rule refines_insertI, rule r128.insert_spec [OF _ _ inv])
        (use net_length [of "addr_bits a" "addr_bits m"] addr_bits_length [of a] l b in simp_all)
  qed
qed

lemma delete_ok:
  assumes "radix_ok A L r M"
  shows "net (word_bits key) (word_bits mk) \<noteq> [] \<or> (\<exists>bs. bs \<noteq> [] \<and> M bs \<noteq> None) \<Longrightarrow>
      refines_delete A L M (net (word_bits key) (word_bits mk)) (ngx_radix32tree_delete key mk r)"
    and "length a = 16 \<Longrightarrow> length m = 16 \<Longrightarrow> net (addr_bits a) (addr_bits m) \<noteq> [] \<or> (\<exists>bs. bs \<noteq> [] \<and> M bs \<noteq> None) \<Longrightarrow>
      refines_delete A L M (net (addr_bits a) (addr_bits m)) (ngx_radix128tree_delete a m r)"
proof -
  obtain D V where inv: "radix_inv A L r D V" and M: "M = content D V" using assms by (auto simp: radix_ok_def)
  show "refines_delete A L M (net (word_bits key) (word_bits mk)) (ngx_radix32tree_delete key mk r)"
    if "net (word_bits key) (word_bits mk) \<noteq> [] \<or> (\<exists>bs. bs \<noteq> [] \<and> M bs \<noteq> None)"
    using r32.delete_spec [OF TrueI inv, of "(key, mk, 0x80000000)"] that
    unfolding ngx_radix32tree_delete_def descend32.simps M bits32_net by (intro refines_deleteI) blast
  show "refines_delete A L M (net (addr_bits a) (addr_bits m)) (ngx_radix128tree_delete a m r)"
    if l: "length a = 16" "length m = 16" and "net (addr_bits a) (addr_bits m) \<noteq> [] \<or> (\<exists>bs. bs \<noteq> [] \<and> M bs \<noteq> None)"
  proof -
    have b: "bits128 (a, m, 0, 0x80) = net (addr_bits a) (addr_bits m)" using bits128_net [of a m] l by simp
    have "ok128 (a, m, 0, 0x80)" using l by simp
    from r128.delete_spec [OF this inv] that(3) show ?thesis
      unfolding ngx_radix128tree_delete_def M b by (intro refines_deleteI) simp
  qed
qed

lemma find_ok:
  shows "radix_ok A 32 r M \<Longrightarrow> \<exists>v. ngx_radix32tree_find key r = Some v \<and> longest_match M (word_bits key) v"
    and "radix_ok A 128 r M \<Longrightarrow> 16 < length a \<Longrightarrow> \<exists>v. ngx_radix128tree_find a r = Some v \<and> longest_match M (addr_bits a) v"
proof -
  have b32: "bits32 (key, - 1, 0x80000000) = word_bits key" by (simp add: bits32_net word_bits_ones net_ones)
  show "\<exists>v. ngx_radix32tree_find key r = Some v \<and> longest_match M (word_bits key) v" if "radix_ok A 32 r M"
    using s32.find_spec [OF TrueI, of A 32 r _ _ "(key, 0x80000000)"] that b32 by (auto simp: radix_ok_def ngx_radix32tree_find_def)
  have b128: "bits_from (a, 0, 0x80) = addr_bits a" if "16 < length a"
    using that by (simp add: bits128_net addr_bits_ones net_ones addr_bits_length)
  show "\<exists>v. ngx_radix128tree_find a r = Some v \<and> longest_match M (addr_bits a) v" if "radix_ok A 128 r M" "16 < length a"
    using s128.find_spec [of "(a, 0, 0x80)" A 128 r] that b128 addr_bits_length [of a] by (auto simp: radix_ok_def ngx_radix128tree_find_def)
qed

section \<open>Creation\<close>

lemma insert_nothing:
  assumes "radix_ok A L r Map.empty" and "32 \<le> L"
  obtains rc r' where "ngx_radix32tree_insert A key mk NGX_RADIX_NO_VALUE r = Some (rc, r')" and "radix_ok A L r' Map.empty"
    and "paged A 32 (rc = Rx_OK) r r'"
proof -
  from insert_ok(1) [OF assms, of key mk NGX_RADIX_NO_VALUE] obtain rc r' where
    i: "ngx_radix32tree_insert A key mk NGX_RADIX_NO_VALUE r = Some (rc, r')" "radix_ok A L r' Map.empty" "rc \<noteq> Rx_BUSY"
      "paged A (length (net (word_bits key) (word_bits mk))) (rc \<noteq> Rx_ERROR) r r'"
    by (auto simp: refines_insert_def)
  have "length (net (word_bits key) (word_bits mk)) \<le> 32" using net_length [of "word_bits key" "word_bits mk"] by simp
  moreover have "(rc \<noteq> Rx_ERROR) = (rc = Rx_OK)" using i(3) by (cases rc) simp_all
  ultimately show thesis using that [of rc r'] i(1,2) paged_mono [OF i(4)] by simp
qed

lemma unat_exp: "m < 32 \<Longrightarrow> unat (2 ^ m :: u32) = 2 ^ m"
proof -
  assume m: "m < 32"
  have "(2 :: nat) ^ m < 2 ^ 32" using m by (intro power_strict_increasing) simp_all
  then have "unat (of_nat (2 ^ m) :: u32) = 2 ^ m" by (simp only: unat_of_nat take_bit_nat_eq_self) (simp add: take_bit_nat_eq_self)
  then show ?thesis by simp
qed

lemma dvd_step: "(d :: nat) dvd a \<Longrightarrow> d dvd b \<Longrightarrow> a < b \<Longrightarrow> a + d \<le> b"
proof (elim dvdE)
  fix i j assume "a < b" "a = d * i" "b = d * j"
  then have "d * Suc i \<le> d * j" by (intro mult_le_mono2) (simp add: Suc_le_eq)
  then show "a + d \<le> b" using \<open>a = d * i\<close> \<open>b = d * j\<close> by simp
qed

lemma u32_less: "unat (w :: u32) < 2 ^ 32"
proof -
  have "unat w < 2 ^ LENGTH(32)" by (rule unsigned_less)
  then show ?thesis by simp
qed

lemma prealloc_zero: "ngx_radix32tree_insert A 0 mk NGX_RADIX_NO_VALUE r = Some (rc, r') \<Longrightarrow>
    radix_prealloc_keys A 0 mk 0 r = Some (rc = Rx_OK, r')"
  by (subst radix_prealloc_keys.simps) simp

lemma prealloc_keys_ok:
  assumes "radix_ok A L r Map.empty" and "32 \<le> L" and "m < 32" and "2 ^ m dvd unat key"
  shows "\<exists>ok r'. radix_prealloc_keys A (2 ^ m) mk key r = Some (ok, r') \<and> radix_ok A L r' Map.empty \<and>
    paged A (32 * (2 ^ 32 - unat key)) ok r r'"
  using assms(1,4)
proof (induction "2 ^ 32 - unat key" arbitrary: key r rule: less_induct)
  case less
  obtain rc r1 where i: "ngx_radix32tree_insert A key mk NGX_RADIX_NO_VALUE r = Some (rc, r1)" "radix_ok A L r1 Map.empty" "paged A 32 (rc = Rx_OK) r r1"
    using insert_nothing [OF less(2) assms(2)] by blast
  have left: "1 \<le> 2 ^ 32 - unat key" using u32_less [of key] by simp
  note st = radix_prealloc_keys.simps [of A "2 ^ m" mk key r, unfolded i(1), simplified]
  show ?case
  proof (cases "rc = Rx_OK \<and> key + 2 ^ m \<noteq> 0")
    case False
    then show ?thesis using st i paged_mono [OF i(3), of "32 * (2 ^ 32 - unat key)"] left by auto
  next
    case True
    have sum: "unat (key + 2 ^ m) = unat key + 2 ^ m"
    proof -
      have "(2 :: nat) ^ m dvd 2 ^ 32" using assms(3) by (intro le_imp_power_dvd) simp
      then have "unat key + 2 ^ m \<le> 2 ^ 32" using less(3) u32_less [of key] by (intro dvd_step) simp_all
      moreover have "unat key + 2 ^ m \<noteq> 2 ^ 32"
      proof
        assume e: "unat key + 2 ^ m = 2 ^ 32"
        have "unat (key + 2 ^ m) = 0" unfolding unat_word_ariths unat_exp [OF assms(3)] e by simp
        then show False using True by (simp add: unat_eq_0)
      qed
      ultimately show ?thesis unfolding unat_word_ariths unat_exp [OF assms(3)] by simp
    qed
    have "2 ^ 32 - unat (key + 2 ^ m) < 2 ^ 32 - unat key" unfolding sum using u32_less [of "key + 2 ^ m"] sum
      by (intro diff_less_mono2) simp_all
    moreover have "2 ^ m dvd unat (key + 2 ^ m)" using less(3) sum by simp
    ultimately obtain ok r2 where "radix_prealloc_keys A (2 ^ m) mk (key + 2 ^ m) r1 = Some (ok, r2)" "radix_ok A L r2 Map.empty"
      "paged A (32 * (2 ^ 32 - unat (key + 2 ^ m))) ok r1 r2" using less(1) [OF _ i(2)] by blast
    moreover have "paged A 32 True r r1" using i(3) True by simp
    moreover have "32 + 32 * (2 ^ 32 - unat (key + 2 ^ m)) \<le> 32 * (2 ^ 32 - unat key)"
      using \<open>2 ^ 32 - unat (key + 2 ^ m) < 2 ^ 32 - unat key\<close> by linarith
    ultimately show ?thesis using st True paged_mono [OF paged_trans] by auto
  qed
qed

lemma prealloc_ok:
  assumes "radix_ok A L r Map.empty" and "32 \<le> L" and "inc = 0 \<or> (\<exists>m<32. inc = 2 ^ m)"
  shows "\<exists>ok r'. radix_prealloc A (int n) mk inc r = Some (ok, r') \<and> radix_ok A L r' Map.empty \<and> paged A (n * 2 ^ 37) ok r r'"
  using assms(1,3)
proof (induction n arbitrary: mk inc r)
  case 0
  then show ?case by (intro exI [of _ True] exI [of _ r]) (simp add: radix_prealloc.simps paged_same)
next
  case (Suc n)
  let ?mk = "drop_bit 1 mk OR 0x80000000"
  have "\<exists>ok r'. radix_prealloc_keys A inc ?mk 0 r = Some (ok, r') \<and> radix_ok A L r' Map.empty \<and> paged A (2 ^ 37) ok r r'"
  proof (cases "inc = 0")
    case True
    obtain rc r1 where "ngx_radix32tree_insert A 0 ?mk NGX_RADIX_NO_VALUE r = Some (rc, r1)" "radix_ok A L r1 Map.empty" "paged A 32 (rc = Rx_OK) r r1"
      using insert_nothing [OF Suc.prems(1) assms(2)] by blast
    then show ?thesis unfolding True using prealloc_zero paged_mono [of A 32 _ r r1 "2 ^ 37"] by fastforce
  next
    case False
    then show ?thesis using Suc.prems(2) prealloc_keys_ok [OF Suc.prems(1) assms(2), of _ 0] by auto
  qed
  then obtain ok r1 where k: "radix_prealloc_keys A inc ?mk 0 r = Some (ok, r1)" "radix_ok A L r1 Map.empty" "paged A (2 ^ 37) ok r r1" by blast
  have "drop_bit 1 inc = 0 \<or> (\<exists>m<32. drop_bit 1 inc = 2 ^ m)"
  proof (cases "inc = 0")
    case False
    then obtain m where m: "m < 32" "inc = 2 ^ m" using Suc.prems(2) by blast
    show ?thesis
    proof (cases m)
      case 0
      then show ?thesis using m(2) shift_one [where 'a = 32] by simp
    next
      case (Suc j)
      then have "drop_bit 1 inc = 2 ^ j" using m shift_exp [where 'a = 32, of j] by simp
      then show ?thesis using m(1) Suc by (intro disjI2 exI [of _ j]) simp
    qed
  qed simp
  from Suc.IH [OF k(2) this, of ?mk] obtain ok' r2 where n: "radix_prealloc A (int n) ?mk (drop_bit 1 inc) r1 = Some (ok', r2)"
    "radix_ok A L r2 Map.empty" "paged A (n * 2 ^ 37) ok' r1 r2" by blast
  show ?case
  proof (cases ok)
    case True
    then have "paged A (Suc n * 2 ^ 37) ok' r r2" using paged_trans [OF _ n(3), of "2 ^ 37" r] k(3) by simp
    then show ?thesis using True k(1) n(1,2) by (subst radix_prealloc.simps) (simp add: Let_def)
  next
    case False
    then show ?thesis using k paged_mono [OF k(3), of "Suc n * 2 ^ 37"] by (subst radix_prealloc.simps) (auto simp: Let_def)
  qed
qed

lemma root_ok:
  assumes "arena A r {root}" and "root \<noteq> 0"
  shows "radix_ok A L (put_node root (radix_node_new 0) (r\<lparr>rx_tree := (rx_tree r)\<lparr>rt_root := root\<rparr>\<rparr>)) Map.empty" (is "radix_ok A L ?r _")
proof -
  let ?D = "[[] \<mapsto> root] :: bits \<Rightarrow> ptr option" and ?V = "\<lambda>_ :: bits. NGX_RADIX_NO_VALUE"
  have "arena A (r\<lparr>rx_tree := (rx_tree r)\<lparr>rt_root := root\<rparr>\<rparr>) {root}" using assms(1) by (simp add: arena_def)
  then have "arena A ?r {root}" by (intro arena_put) simp_all
  moreover have "shape L (rx_nodes ?r) (rt_root (rx_tree ?r)) ?D ?V"
    using assms(2) by (auto simp: shape_def inj_on_def path_node_def radix_node_new_def at_def above_path_def split: if_splits)
  moreover have "content ?D ?V = Map.empty" by (auto simp: content_def)
  ultimately show ?thesis unfolding radix_ok_def radix_inv_def by (intro exI [of _ ?D] exI [of _ ?V]) simp
qed

text \<open>
  What makes the creation with \<open>n\<close> levels fail: the request for the tree structure is refused, or one of the requests for pages
  behind it. Each level has at most \<open>2 ^ 32\<close> keys of at most 32 bits.
\<close>

definition create_refused :: "allocator \<Rightarrow> mem \<Rightarrow> ptr \<Rightarrow> ghost \<Rightarrow> nat \<Rightarrow> mem \<Rightarrow> bool" where
  "create_refused A s pool g n t \<longleftrightarrow> request_refused A s pool g sizeof_radix_tree \<or>
     (\<exists>p u. ngx_palloc A s pool sizeof_radix_tree = Some (p, u) \<and> p \<noteq> 0 \<and> exhausted A pool (1 + n * 2 ^ 37) u t)"

lemma create_ok:
  assumes "allocator_ok A" and "pool_inv s pool g" and "32 \<le> ngx_pagesize s" and "ngx_pagesize s < 2 ^ 64" and "- 1 \<le> preallocate" and "32 \<le> L"
  shows "\<exists>res t. ngx_radix_tree_create A pool preallocate s = Some (res, t) \<and>
    (case res of None \<Rightarrow> create_refused A s pool g (nat (radix_levels (ngx_pagesize s) preallocate)) t
     | Some r \<Rightarrow> rx_mem r = t \<and> radix_ok A L r Map.empty)"
proof -
  from ngx_palloc_meets [OF assms(1,2), of sizeof_radix_tree] consider
    (null) t where "ngx_palloc A s pool sizeof_radix_tree = Some (0, t)" "request_refused A s pool g sizeof_radix_tree"
    | (ok) p t g' where "ngx_palloc A s pool sizeof_radix_tree = Some (p, t)" "p \<noteq> 0" "pool_inv t pool g'"
    unfolding alloc_spec_def handed_def by blast
  then show ?thesis
  proof cases
    case null
    then show ?thesis by (simp add: ngx_radix_tree_create_def create_refused_def)
  next
    case (ok p t g')
    let ?r = "\<lparr>rx_mem = t, rx_nodes = Map.empty, rx_tree = \<lparr>rt_root = 0, rt_pool = pool, rt_free = 0, rt_start = 0, rt_size = 0\<rparr>\<rparr>"
    let ?k = "radix_levels (ngx_pagesize s) preallocate"
    have ps: "ngx_pagesize t = ngx_pagesize s" by (rule palloc_pagesize [OF ok(1)])
    have refused: "create_refused A s pool g (nat ?k) (rx_mem r1)" if "paged A (1 + nat ?k * 2 ^ 37) False ?r r1" for r1
      using that ok(1,2) by (auto simp: create_refused_def paged_def)
    have "arena A ?r {}" using assms ok(3) ps by (intro arenaI [of _ _ g' "[]"]) (simp_all add: cells_ok_def)
    then show ?thesis
    proof (cases rule: arena_alloc)
      case (fail r')
      then show ?thesis using ok(1,2) refused [OF paged_mono [OF fail(5)]] by (simp add: ngx_radix_tree_create_def)
    next
      case root: (ok root r')
      let ?r1 = "put_node root (radix_node_new 0) (r'\<lparr>rx_tree := (rx_tree r')\<lparr>rt_root := root\<rparr>\<rparr>)"
      have ps': "ngx_pagesize (rx_mem r') = ngx_pagesize s" using root(7) ps pages_pagesize [of A pool _ t "rx_mem r'"] by (auto simp: paged_def)
      have "0 \<le> ?k" using assms(5) by (simp add: radix_levels_def)
      then have k: "?k = int (nat ?k)" by (rule nat_0_le [symmetric])
      have "radix_ok A L ?r1 Map.empty" using root by (intro root_ok) simp_all
      moreover have "(0x80000000 :: u32) = 0 \<or> (\<exists>m<32. (0x80000000 :: u32) = 2 ^ m)" by (intro disjI2 exI [of _ 31]) simp
      ultimately obtain b r2 where r2: "radix_prealloc A ?k 0 0x80000000 ?r1 = Some (b, r2)" "radix_ok A L r2 Map.empty"
        "paged A (nat ?k * 2 ^ 37) b ?r1 r2"
        using prealloc_ok [of A L ?r1 "0x80000000" "nat ?k" 0, folded k] assms(6) by blast
      have "paged A 1 True ?r ?r1" by (rule paged_cong [OF _ _ root(7)]) simp_all
      from paged_trans [OF this r2(3)] show ?thesis using ok(1,2) root(1,2) r2(1,2) ps' refused [of r2]
        by (cases b) (simp_all add: ngx_radix_tree_create_def Let_def)
    qed
  qed
qed

section \<open>A concrete tree\<close>

definition demo_radix :: "radix option" where
  "demo_radix = Option.bind (ngx_radix_tree_create above 16 0 demo_pool) fst"

lemma demo_radix_value: "demo_radix \<noteq> None"
  by (simp add: demo_radix_def ngx_radix_tree_create_def demo_pool_def ngx_create_pool_def ngx_memalign_def c_memalign_def above_def top_of_def
      mem_init_def Let_def ngx_palloc_def size_t_of_def NGX_MAX_ALLOC_FROM_POOL_def ngx_palloc_small_def palloc_small_loop.simps
      ngx_align_ptr_pow2 [of 3, simplified] ngx_radix_alloc_def ngx_pmemalign_def palloc_large_link_def radix_prealloc.simps radix_levels_def)

lemma demo_pagesize: "ngx_pagesize demo_pool = 4096"
  by (simp add: demo_pool_def ngx_create_pool_def ngx_memalign_def c_memalign_def above_def top_of_def mem_init_def Let_def)

lemma demo_radix_ok: "32 \<le> L \<Longrightarrow> \<exists>r. demo_radix = Some r \<and> radix_ok above L r Map.empty"
proof -
  assume L: "32 \<le> L"
  obtain res t where r: "ngx_radix_tree_create above 16 0 demo_pool = Some (res, t)"
    "case res of None \<Rightarrow> create_refused above demo_pool 16 (g_new 1024 16) (nat (radix_levels (ngx_pagesize demo_pool) 0)) t
     | Some r \<Rightarrow> rx_mem r = t \<and> radix_ok above L r Map.empty"
    using create_ok [OF above_ok demo_inv _ _ _ L, of 0] demo_pagesize by auto
  moreover have "res \<noteq> None" using demo_radix_value r(1) by (simp add: demo_radix_def)
  ultimately show ?thesis by (auto simp: demo_radix_def)
qed

section \<open>Properties\<close>

text \<open>
  (C14) \<^verbatim>\<open>ngx_radix_tree_create\<close> on a well-formed pool ends and returns an empty tree, whatever number of levels it preallocates, and
  \<^verbatim>\<open>NULL\<close> only when the C library refuses the request for the tree structure, or one of the requests for pages that follow it, in the
  state in which it is made; the memory returned is the one that this last request leaves.
\<close>

theorem radix_tree_create_empty:
  assumes "allocator_ok A" and "pool_inv s pool g" and "32 \<le> ngx_pagesize s" and "ngx_pagesize s < 2 ^ 64" and "- 1 \<le> preallocate" and "32 \<le> L"
  shows "\<exists>res t. ngx_radix_tree_create A pool preallocate s = Some (res, t) \<and>
    (case res of None \<Rightarrow> create_refused A s pool g (nat (radix_levels (ngx_pagesize s) preallocate)) t
     | Some r \<Rightarrow> rx_mem r = t \<and> radix_ok A L r Map.empty)"
  by (rule create_ok [OF assms])

theorem radix_tree_create_empty_witness:
  "\<exists>res t. ngx_radix_tree_create above 16 (- 1) demo_pool = Some (res, t) \<and>
    (case res of None \<Rightarrow> create_refused above demo_pool 16 (g_new 1024 16) (nat (radix_levels (ngx_pagesize demo_pool) (- 1))) t
     | Some r \<Rightarrow> rx_mem r = t \<and> radix_ok above 32 r Map.empty)"
  by (rule radix_tree_create_empty [OF above_ok demo_inv]) (simp_all add: demo_pagesize)

text \<open>
  (C12) The radix tree for 32-bit keys implements a map from prefixes to values: inserting adds the value for the bits of the key under
  the leading ones of the mask, or reports that the prefix has a value already, and fails only when the C library refuses a page
  that the pool asks for after fewer pages than the prefix has bits, in the state reached then;
  deleting removes that prefix; finding returns the value of the longest prefix of the key. No operation faults, except the deletion
  of the empty prefix from a tree without any other.
\<close>

theorem radix32_refines_map:
  assumes "radix_ok A 32 r M" and "p = net (word_bits key) (word_bits mk)"
  shows "refines_insert A 32 r M p v (ngx_radix32tree_insert A key mk v r) \<and>
    (p \<noteq> [] \<or> (\<exists>q. q \<noteq> [] \<and> M q \<noteq> None) \<longrightarrow> refines_delete A 32 M p (ngx_radix32tree_delete key mk r)) \<and>
    (\<exists>w. ngx_radix32tree_find key r = Some w \<and> longest_match M (word_bits key) w)"
  using insert_ok(1) [OF assms(1)] delete_ok(1) [OF assms(1)] find_ok(1) [OF assms(1)] assms(2) by blast

theorem radix32_refines_map_witness:
  "\<exists>r. demo_radix = Some r \<and>
     refines_insert above 32 r Map.empty (net (word_bits (0x0A000000 :: u32)) (word_bits (0xFF000000 :: u32))) 7 (ngx_radix32tree_insert above 0x0A000000 0xFF000000 7 r) \<and>
     (\<exists>w. ngx_radix32tree_find 0x0A000000 r = Some w \<and> longest_match Map.empty (word_bits (0x0A000000 :: u32)) w)"
proof -
  obtain r where r: "demo_radix = Some r" "radix_ok above 32 r Map.empty" using demo_radix_ok [of 32] by auto
  note t = radix32_refines_map [OF r(2) refl, of "0x0A000000" "0xFF000000" 7]
  show ?thesis by (rule exI [of _ r], intro conjI, rule r(1), rule conjunct1 [OF t], rule conjunct2 [OF conjunct2 [OF t]])
qed

text \<open>
  (C13) The radix tree for keys of 16 bytes implements the same map; its search needs one readable byte behind the key.
\<close>

theorem radix128_refines_map:
  assumes "radix_ok A 128 r M" and "length key = 16" "length mk = 16" and "p = net (addr_bits key) (addr_bits mk)"
  shows "refines_insert A 128 r M p v (ngx_radix128tree_insert A key mk v r) \<and>
    (p \<noteq> [] \<or> (\<exists>q. q \<noteq> [] \<and> M q \<noteq> None) \<longrightarrow> refines_delete A 128 M p (ngx_radix128tree_delete key mk r)) \<and>
    (\<exists>w. ngx_radix128tree_find (key @ [b]) r = Some w \<and> longest_match M (addr_bits key) w)"
proof -
  have "addr_bits (key @ [b]) = addr_bits key" using assms(2) by (simp add: addr_bits_def)
  then show ?thesis using insert_ok(2) [OF assms(1) _ assms(2,3)] delete_ok(2) [OF assms(1-3)] find_ok(2) [OF assms(1), of "key @ [b]"] assms(2,4) by simp
qed

theorem radix128_refines_map_witness:
  "\<exists>r. demo_radix = Some r \<and>
     refines_insert above 128 r Map.empty (net (addr_bits (replicate 16 1)) (addr_bits (replicate 16 (- 1)))) 7
       (ngx_radix128tree_insert above (replicate 16 1) (replicate 16 (- 1)) 7 r) \<and>
     (\<exists>w. ngx_radix128tree_find (replicate 16 1 @ [0]) r = Some w \<and> longest_match Map.empty (addr_bits (replicate 16 1)) w)"
proof -
  obtain r where r: "demo_radix = Some r" "radix_ok above 128 r Map.empty" using demo_radix_ok [of 128] by auto
  show ?thesis using r(1) radix128_refines_map [OF r(2) _ _ refl, of "replicate 16 1" "replicate 16 (- 1)" 7 0] by auto
qed

section \<open>Two faults\<close>

text \<open>The deletion of the empty prefix from the empty tree follows the parent pointer of the root.\<close>

lemma radix_delete_root_fault: "demo_radix \<noteq> None \<and> Option.bind demo_radix (ngx_radix32tree_delete 0 0) = None"
  by (simp add: demo_radix_def ngx_radix_tree_create_def demo_pool_def ngx_create_pool_def ngx_memalign_def c_memalign_def above_def top_of_def
      mem_init_def Let_def ngx_palloc_def size_t_of_def NGX_MAX_ALLOC_FROM_POOL_def ngx_palloc_small_def palloc_small_loop.simps
      ngx_align_ptr_pow2 [of 3, simplified] ngx_radix_alloc_def ngx_pmemalign_def palloc_large_link_def radix_prealloc.simps radix_levels_def
      ngx_radix32tree_delete_def radix32_descend.simps radix_delete_node_def radix_node_new_def radix_prune.simps)

text \<open>The search for a key of 16 bytes that is itself in the tree reads the byte behind it.\<close>

lemma look128_overread:
  assumes s: "shape L h root D V" and len: "length key = 16"
  shows "bits_from (key, i, bt) = bs \<Longrightarrow> i \<le> 16 \<Longrightarrow> bt \<noteq> 0 \<Longrightarrow> D (pre @ bs) \<noteq> None \<Longrightarrow> radix128_look h key i bt (at D pre) v = None"
proof (induction bs arbitrary: i bt pre v)
  case Nil
  then obtain p where p: "D pre = Some p" by auto
  have "i = 16"
  proof (rule ccontr)
    assume "i \<noteq> 16"
    then show False using Nil(1-3) by (simp add: bits128_cases)
  qed
  moreover have "p \<noteq> 0" using at_zero [OF s, of pre] p by simp
  ultimately show ?case using p shape_node [OF s p] len by (simp add: radix128_look.simps byte_def)
next
  case (Cons b bs)
  obtain p where p: "D pre = Some p" using shape_prefix [OF s, of pre "b # bs"] Cons.prems(4) by auto
  have c: "i < 16" "b = (key ! i AND bt \<noteq> 0)" "bits128 (key, replicate 16 (- 1), radix128_next i bt) = bs"
    using Cons.prems(1) by (simp_all add: bits128_cases)
  obtain j bu where n: "j = (if drop_bit 1 bt = 0 then i + 1 else i)" "bu = (if drop_bit 1 bt = 0 then 0x80 else drop_bit 1 bt)" by simp
  have "bits_from (key, j, bu) = bs" using c(1,3) n by (auto simp: radix128_next_def Let_def simp del: One_nat_def split: if_splits)
  then have "radix128_look h key j bu (at D (pre @ [b])) w = None" for w
    using Cons.IH [of j bu "pre @ [b]" w] c(1) n Cons.prems(3,4) by (auto split: if_splits)
  moreover have "p \<noteq> 0" using at_zero [OF s, of pre] p by simp
  ultimately show ?case using p shape_node [OF s p] len c(1,2) n
    by (subst radix128_look.simps) (cases "drop_bit 1 bt = 0", simp_all add: byte_def Let_def del: One_nat_def)
qed

lemma radix128_find_overread:
  assumes "radix_ok A 128 r M" and "length key = 16" and "M (addr_bits key) = Some v"
  shows "ngx_radix128tree_find key r = None"
proof -
  obtain D V where inv: "radix_inv A 128 r D V" and M: "M = content D V" using assms(1) by (auto simp: radix_ok_def)
  then have s: "shape 128 (rx_nodes r) (rt_root (rx_tree r)) D V" by (simp add: radix_inv_def)
  have "bits_from (key, 0, 0x80) = addr_bits key" using assms(2) by (simp add: bits128_net addr_bits_ones net_ones addr_bits_length)
  moreover have "at D [] = rt_root (rx_tree r)" using s by (simp add: shape_def)
  ultimately show ?thesis using look128_overread [OF s assms(2), of 0 "0x80" "addr_bits key" "[]" NGX_RADIX_NO_VALUE] assms(3)
    by (auto simp: ngx_radix128tree_find_def M content_def split: if_splits)
qed

end
