(* ===== verification/Spec2Isabelle.thy ===== *)
theory Spec2Isabelle
  imports Ngx_Pool Ngx_Queue_Props Ngx_Event_Posted Ngx_Crc32 Ngx_Md5 Ngx_Sha1
    Ngx_Http_Request_Line_Props Ngx_Http_Header_Line_Props Ngx_Http_Chunked Ngx_Http_Status_Line
    Ngx_Http_Complex_Uri_Props Ngx_Http_Args_Props Ngx_Sprintf Ngx_Parse Ngx_Base64 Ngx_Utf8
    Ngx_Event_Timer Ngx_Parse_Time_Props Ngx_Radix_Props
begin

text \<open>
  \<^bold>\<open>Verification of the nginx 1.12.2 core: memory pools, containers, events, HTTP parsers, strings, digests, dates.\<close>

  The program is the nginx source tree under
  \<^verbatim>\<open>src/cleanup_destructor/nginx-1.12.2/src\<close> (file names below are relative
  to it). The build that is modelled is 64-bit little-endian Unix without
  \<^verbatim>\<open>NGX_DEBUG\<close>: \<^verbatim>\<open>size_t\<close>, \<^verbatim>\<open>ngx_uint_t\<close>, \<^verbatim>\<open>off_t\<close> and pointers are 64 bits wide.

  \<^bold>\<open>How the parts interact.\<close> A request is read into a buffer that was allocated
  from the pool of its connection. The parsers of \<^verbatim>\<open>http/ngx_http_parse.c\<close> run over
  that buffer, one call per read event, and leave their state in the request
  record; what they record are positions in the buffer. The strings found there
  are converted, compared, escaped and printed by \<^verbatim>\<open>core/ngx_string.c\<close>, and the
  sizes and times of the configuration are read by \<^verbatim>\<open>core/ngx_parse.c\<close> on top of
  the number parsers of \<^verbatim>\<open>core/ngx_string.c\<close>. Between reads, the events of a connection
  wait in the queue of posted events or in the red-black tree of timers, both made of links
  inside the event structures. When a connection ends, its pool is destroyed, which runs the
  cleanup handlers and frees every allocation.

  \<^bold>\<open>Memory pool\<close> (\<^verbatim>\<open>os/unix/ngx_alloc.c\<close>, \<^verbatim>\<open>core/ngx_palloc.c\<close>, \<^verbatim>\<open>core/ngx_palloc.h\<close>).
  \<^item> \<^verbatim>\<open>Ngx_Alloc\<close>: the heap as a record of the live chunks and the bytes;
    \<^verbatim>\<open>malloc\<close>, \<^verbatim>\<open>posix_memalign\<close> are an argument of the model, with their
    documented behaviour (NULL, or a fresh aligned chunk) as the named hypothesis.
  \<^item> \<^verbatim>\<open>Ngx_Palloc\<close>: the structs \<^verbatim>\<open>ngx_pool_s\<close>, \<^verbatim>\<open>ngx_pool_large_s\<close>,
    \<^verbatim>\<open>ngx_pool_cleanup_s\<close> as records in a store indexed by address, the pointer
    fields being 64-bit words, and one definition per function of the file.
    The loops that follow pointers are \<^verbatim>\<open>partial_function (option)\<close>: a list
    with a cycle does not return and has the value \<^verbatim>\<open>None\<close>. A load or a
    store outside the live memory is the error value.
  \<^item> \<^verbatim>\<open>Ngx_Palloc_Inv\<close>, \<^verbatim>\<open>_Large\<close>, \<^verbatim>\<open>_Ops\<close>, \<^verbatim>\<open>_Free\<close>, \<^verbatim>\<open>_Cleanup\<close>: the
    well-formedness invariant of a pool and that every operation returns,
    does not fault and keeps it.
  \<^item> \<^verbatim>\<open>Ngx_Pool\<close>: the properties. Allocations are aligned, inside live memory
    and disjoint from each other in every interleaving of requests, and \<^verbatim>\<open>NULL\<close> is returned only
    when the C library refuses, in the state of the call, the very chunk that the call asks for
    (\<open>request_refused\<close>, \<open>chunk_refused\<close>, \<open>cleanup_refused\<close>); no sequence of operations faults, for
    pool sizes that are multiples of 8 and at least \<^verbatim>\<open>NGX_MIN_POOL_SIZE\<close> and with \<^verbatim>\<open>ngx_reset_pool\<close>
    called only while no cleanup is registered; a reset rewinds every block; destroying a
    pool runs the handlers last-in first-out and frees every chunk exactly once.
    The locale \<open>region_allocator\<close> carries the sequences of requests.

  \<^bold>\<open>Queue and posted events\<close> (\<^verbatim>\<open>core/ngx_queue.h\<close>, \<^verbatim>\<open>core/ngx_queue.c\<close>, \<^verbatim>\<open>event/ngx_event_posted.h\<close>,
  \<^verbatim>\<open>event/ngx_event_posted.c\<close>).
  \<^item> \<^verbatim>\<open>Ngx_Queue\<close>: the links in a store indexed by address and one definition per macro, the
    assignments in the order of the source; an access to an address without a link is the
    fault \<^verbatim>\<open>None\<close>. \<^verbatim>\<open>Ngx_Queue_Props\<close>: every macro implements an operation on the list of the
    elements, \<^verbatim>\<open>ngx_queue_sort\<close> ends and is the stable sort.
  \<^item> \<^verbatim>\<open>Ngx_Event_Posted\<close>: posting, deleting and processing events. The handlers are a
    parameter; the loop ends with an empty queue when they post finitely many events. They may
    delete pending events, as \<^verbatim>\<open>ngx_close_connection\<close> does, and use the other queues.

  \<^bold>\<open>Red-black tree and timers\<close> (\<^verbatim>\<open>core/ngx_rbtree.h\<close>, \<^verbatim>\<open>core/ngx_rbtree.c\<close>, \<^verbatim>\<open>event/ngx_event_timer.h\<close>,
  \<^verbatim>\<open>event/ngx_event_timer.c\<close>).
  \<^item> \<^verbatim>\<open>Ngx_Rbtree\<close>: nodes in a store indexed by address, the sentinel among them, and every function
    of the file assignment by assignment; the loops are \<^verbatim>\<open>partial_function (option)\<close>, a round of
    a rebalancing loop is a definition of its own.
  \<^item> \<^verbatim>\<open>Ngx_Rbtree_Rep\<close>: the tree that a heap represents, seen from a node inside it (subtree and
    path to the root); rotation and painting. \<^verbatim>\<open>Ngx_Rbtree_Mirror\<close>: the code for the right side is
    the code for the left side in the mirrored heap. \<^verbatim>\<open>Ngx_Rbtree_Insert\<close>, \<^verbatim>\<open>Ngx_Rbtree_Delete\<close>: the
    rebalancing loops end and restore the invariant. \<^verbatim>\<open>Ngx_Rbtree_Search\<close>: the place of a new
    node, with a locale \<^verbatim>\<open>key_order\<close> for the comparison of keys that both insertion
    functions interpret, the one for timers across the wrap-around of the clock.
    \<^verbatim>\<open>Ngx_Rbtree_Unlink\<close>, \<^verbatim>\<open>Ngx_Rbtree_Remove\<close>: taking a node out.
  \<^item> \<^verbatim>\<open>Ngx_Rbtree_Props\<close>: any valid sequence of insertions and deletions runs to its end and leaves
    the sorted list that the same operations give, in a tree of logarithmic height.
  \<^item> \<^verbatim>\<open>Ngx_Event_Timer\<close>: the timers as a list of events in the order of their deadlines; expiry
    delivers exactly the due timers in order, and ends when the handlers set finitely many
    timers that are already due.

  \<^bold>\<open>Radix tree\<close> (\<^verbatim>\<open>core/ngx_radix_tree.c\<close>, \<^verbatim>\<open>core/ngx_radix_tree.h\<close>), over the memory pool.
  \<^item> \<^verbatim>\<open>Ngx_Radix_Tree\<close>: nodes in a store indexed by address, in pages that \<^verbatim>\<open>ngx_pmemalign\<close> of the pool model provides;
    the functions for 32 and for 128 bits, each with its own loops.
  \<^item> \<^verbatim>\<open>Ngx_Radix_Arena\<close>: cells in use, freed cells and the rest of a page never overlap and lie in regions of the pool.
    \<^verbatim>\<open>Ngx_Radix_Rep\<close>: the tree as a map from paths to addresses, and what a change of one node does to it.
  \<^item> \<^verbatim>\<open>Ngx_Radix_Loops\<close>: the locales \<^verbatim>\<open>radix_loops\<close> and \<^verbatim>\<open>radix_search\<close> for a walk along the bits of a key;
    \<^verbatim>\<open>Ngx_Radix_Keys\<close> interprets them on the loops of both widths. \<^verbatim>\<open>Ngx_Radix_Props\<close>: the tree is a map from prefixes
    to values with search by the longest prefix, and creation yields the empty map. Insertion and creation fail
    only after a request for a page, or for the structure of the tree, that the C library refuses in the state in
    which it is made (\<open>page_request\<close>, \<open>paged\<close>, \<open>create_refused\<close>).

  \<^bold>\<open>HTTP parsers\<close> (\<^verbatim>\<open>http/ngx_http_parse.c\<close>, \<^verbatim>\<open>http/ngx_http_request.h\<close>,
  \<^verbatim>\<open>http/ngx_http.h\<close>, \<^verbatim>\<open>core/ngx_hash.h\<close>).
  \<^item> \<^verbatim>\<open>Byte_Parser\<close>: the locale \<^verbatim>\<open>byte_parser\<close> for the shape all the resumable
    parsers share: a state, a step on one byte, and a verdict. The loop over the
    buffer is proved once to be independent of how the input is cut into pieces.
    Request line, header line, chunked body and status line interpret it.
  \<^item> \<^verbatim>\<open>Ngx_Http_Request\<close>: the request record and the result codes. A pointer
    into the buffer is a natural number, the offset from its start. The bytes
    are a list; \<^verbatim>\<open>byte_at\<close> past its end is the terminating zero byte where the
    code relies on one.
  \<^item> \<^verbatim>\<open>Ngx_Http_Request_Line\<close>, \<^verbatim>\<open>Ngx_Http_Header_Line\<close>, \<^verbatim>\<open>Ngx_Http_Chunked\<close>,
    \<^verbatim>\<open>Ngx_Http_Status_Line\<close>: one definition per state of the \<^verbatim>\<open>switch\<close>, which
    the step dispatches to; every step consumes a byte, so the loops are
    structural recursions and need no fuel. The properties (in the same theory
    or in \<^verbatim>\<open>_Props\<close>): independence of the fragmentation, order and bounds of the
    recorded positions, no overflow of the sizes, printed lines read back.
  \<^item> \<^verbatim>\<open>Ngx_Http_Complex_Uri\<close>: \<^verbatim>\<open>ngx_http_parse_uri\<close> and
    \<^verbatim>\<open>ngx_http_parse_complex_uri\<close>, whose state re-reads a byte after a quoted
    character; the properties say that no dot segment followed by another segment
    survives, that the output fits the buffer, and that a URI classified as simple
    is its own normal form.
  \<^item> \<^verbatim>\<open>Ngx_Http_Args\<close>: \<^verbatim>\<open>ngx_http_parse_unsafe_uri\<close>, the header-parameter
    searches, \<^verbatim>\<open>ngx_http_arg\<close> and \<^verbatim>\<open>ngx_http_split_args\<close>.

  \<^bold>\<open>Strings and numbers\<close> (\<^verbatim>\<open>core/ngx_string.c\<close>, \<^verbatim>\<open>core/ngx_string.h\<close>,
  \<^verbatim>\<open>core/ngx_parse.c\<close>). An \<^verbatim>\<open>ngx_str_t\<close> is a list of bytes.
  \<^item> \<^verbatim>\<open>Ngx_String\<close>: copying, comparing, searching and sorting.
  \<^item> \<^verbatim>\<open>Ngx_Number\<close>: \<^verbatim>\<open>ngx_atoi\<close> and its relatives with the 64-bit cut-off
    arithmetic, and \<^verbatim>\<open>ngx_sprintf_num\<close>; \<^verbatim>\<open>Ngx_Sprintf\<close>: \<^verbatim>\<open>ngx_vslprintf\<close> over a
    list of argument values. A floating-point argument is the rational number it
    denotes.
  \<^item> \<^verbatim>\<open>Ngx_Base64\<close> (a locale for an alphabet and its decoding table, interpreted
    on both of the file's alphabets), \<^verbatim>\<open>Ngx_Escape\<close> and \<^verbatim>\<open>Ngx_Utf8\<close>.
  \<^item> \<^verbatim>\<open>Ngx_Parse\<close>: sizes, offsets and time intervals.

  \<^bold>\<open>Checksums and digests\<close> (\<^verbatim>\<open>core/ngx_crc32.c\<close>, \<^verbatim>\<open>core/ngx_crc32.h\<close>, \<^verbatim>\<open>core/ngx_crc.h\<close>, \<^verbatim>\<open>core/ngx_md5.c\<close>,
  \<^verbatim>\<open>core/ngx_sha1.c\<close>).
  \<^item> \<^verbatim>\<open>Ngx_Crc32\<close>: both tables and loops, against the definition bit by bit.
  \<^item> \<^verbatim>\<open>Block_Digest\<close>: the locale \<^verbatim>\<open>block_digest\<close> for the buffering and padding that both digests
    share; \<^verbatim>\<open>Ngx_Md5\<close> and \<^verbatim>\<open>Ngx_Sha1\<close> interpret it, with every buffer access checked, and are
    proved equal to the algorithms of RFC 1321 and FIPS 180. Those are written with arithmetic on
    octets (\<open>octets_le\<close>, \<open>octets_be\<close>, \<open>word_le\<close>, \<open>word_be\<close>) and share no helper with the code.

  \<^bold>\<open>Calendar and dates\<close> (\<^verbatim>\<open>core/ngx_times.c\<close>, \<^verbatim>\<open>core/ngx_parse_time.c\<close>).
  \<^item> \<^verbatim>\<open>Ngx_Times\<close>: \<^verbatim>\<open>ngx_gmtime\<close> with its formulas on 64-bit words, and the printers of dates. The reference is the
    Gregorian calendar counted year by year and month by month; \<^verbatim>\<open>ngx_gmtime\<close> agrees with it up to \<open>2 ^ 54\<close> seconds, a
    bound under which no product of the formulas wraps and the year fits an \<^verbatim>\<open>int\<close>.
  \<^item> \<^verbatim>\<open>Ngx_Parse_Time\<close>: \<^verbatim>\<open>ngx_parse_http_time\<close>; a read outside the text is the fault \<^verbatim>\<open>None\<close>, and there is none.
    \<^verbatim>\<open>Ngx_Parse_Time_Props\<close>: the value of each of the three formats for days from 1 and years from 1970, the dates among
    these that are errors, and the round trip with the printers (cookie dates from 2038 on are refused).

  The properties of strings are equivalences with the mathematical functions (a number is
  returned exactly when it exists and fits), round trips, exact sizes of the
  buffers that the counting modes announce, and bounds of every write.

  \<^bold>\<open>Not modelled.\<close> The event loop beyond posted events and timers, sockets, files, processes, TLS and shared-memory
  locking act through the kernel or through libraries. Request processing, upstreams,
  modules, mail, stream and the configuration reader are drivers over these. Arrays, lists,
  hash tables and the slab allocator of \<^verbatim>\<open>core\<close> are not modelled.
  Of \<^verbatim>\<open>ngx_string.c\<close>, \<^verbatim>\<open>ngx_pstrdup\<close> and the string red-black tree are left
  out. Of \<^verbatim>\<open>ngx_times.c\<close>, the cached clock, which
  \<^verbatim>\<open>gettimeofday\<close> feeds and signal handlers read. Addresses of stack variables, the log and \<^verbatim>\<open>ngx_errno\<close> have no
  counterpart in the model.
\<close>

end
